(* ===== verification/Ridstore_Prelude.thy ===== *)
theory Ridstore_Prelude
  imports "HOL-Library.Word"
begin

text \<open>
  Shared vocabulary of the development: the fixed-width integers of the Go sources, the error
  values of the packages, the result type with its bind, byte slices, the little-endian
  encodings of \<^verbatim>\<open>encoding/binary\<close> and the CRC-32C checksum of \<^verbatim>\<open>hash/crc32\<close>.

  Conventions. A Go \<^verbatim>\<open>uint64\<close>, \<^verbatim>\<open>uint32\<close>, \<^verbatim>\<open>uint16\<close> or \<^verbatim>\<open>uint8\<close> is a word of that width, so that
  \<open>+\<close>, \<open>-\<close> and \<open>*\<close> wrap as they do in Go. The length of a slice is a Go \<^verbatim>\<open>int\<close>, which is
  non-negative and below \<open>2 ^ 63\<close>: it is a natural number here, and the conversion
  \<^verbatim>\<open>uint64(len(x))\<close>, which is exact, is the identity. Functions whose \<^verbatim>\<open>uint64\<close> parameter is such a
  length take a natural number and keep the overflow checks of the source.
\<close>

unbundle bit_operations_syntax

section \<open>Integers\<close>

type_synonym u8 = "8 word"
type_synonym u16 = "16 word"
type_synonym u32 = "32 word"
type_synonym u64 = "64 word"
type_synonym bytes = "u8 list"

abbreviation MaxUint32 :: nat where "MaxUint32 \<equiv> 4294967295"
abbreviation MaxUint64 :: nat where "MaxUint64 \<equiv> 18446744073709551615"

abbreviation max_u64 :: u64 where "max_u64 \<equiv> 18446744073709551615"

named_theorems word_nat_simps \<open>transfer of word operations to the natural numbers\<close>
named_theorems codec_simps \<open>slices, fields and lengths of encoded records\<close>

lemma unat_u32_bound: "unat (w :: u32) \<le> MaxUint32"
  using unsigned_less [where ?'a = nat, of w] by simp

lemma unat_u64_bound: "unat (w :: u64) \<le> MaxUint64"
  using unsigned_less [where ?'a = nat, of w] by simp

lemma u64_eq_max_iff: "(w :: u64) = max_u64 \<longleftrightarrow> unat w = MaxUint64"
  by (simp add: word_unat_eq_iff)

lemma u64_max_le [simp]: "(w :: u64) \<le> max_u64"
  by (simp add: word_le_nat_alt unat_u64_bound)

lemma unat_add_no_wrap [word_nat_simps]:
  "unat (x :: u64) + unat y \<le> MaxUint64 \<Longrightarrow> unat (x + y) = unat x + unat y"
  by (simp add: unat_word_ariths)

lemma u64_add_checked_iff: "(x :: u64) \<le> max_u64 - y \<longleftrightarrow> unat x + unat y \<le> MaxUint64"
proof -
  have "unat (max_u64 - y) = MaxUint64 - unat y"
    using unat_sub [of y max_u64] by simp
  then show ?thesis
    using unat_u64_bound [of y] by (auto simp: word_le_nat_alt)
qed

lemma unat_sub_u64 [word_nat_simps]: "(y :: u64) \<le> x \<Longrightarrow> unat (x - y) = unat x - unat y"
  by (simp add: unat_sub)

lemma unat_succ_u64 [word_nat_simps]: "(x :: u64) \<noteq> max_u64 \<Longrightarrow> unat (x + 1) = Suc (unat x)"
  using unat_u64_bound [of x] unat_add_no_wrap [of x 1] by (simp add: u64_eq_max_iff)

lemma u64_succ_gt: "(x :: u64) \<noteq> max_u64 \<Longrightarrow> x < x + 1"
  by (simp add: word_less_nat_alt unat_succ_u64)

section \<open>Errors and results\<close>

text \<open>
  The sentinel errors of the packages (\<^verbatim>\<open>internal/base/errors.go\<close> and the \<^verbatim>\<open>errors.go\<close> of each
  package). \<^verbatim>\<open>fmt.Errorf("...: %w", e)\<close> is \<open>e\<close>: the message is dropped and the wrapped sentinel
  kept. \<^verbatim>\<open>errors.Join\<close> is \<open>Join\<close>. \<open>ErrContext\<close> is a cancelled or expired context and \<open>ErrIO\<close> an error
  returned by the operating system.
\<close>

datatype mapstore_error =
  MS_Invalid | MS_Corrupt | MS_Unsupported | MS_Full | MS_Closed | MS_Poisoned | MS_RecoveryRequired

datatype storecatalog_error = SC_Invalid | SC_Corrupt | SC_Unsupported | SC_Conflict | SC_RecoveryRequired

datatype radix_error = RX_Invalid | RX_Corrupt

datatype state_error = ST_Invalid | ST_Corrupt | ST_Active

datatype err =
    base_ErrInvalidID | base_ErrNotFound | base_ErrInvalidConfig | base_ErrClosed
  | base_ErrReadOnly | base_ErrBatchClosed | base_ErrBatchFailed | base_ErrBatchTooLarge
  | base_ErrValueTooLarge | base_ErrConflict | base_ErrIDExhausted | base_ErrAddressExhausted
  | base_ErrGenerationExhausted | base_ErrCommitUnknown | base_ErrStatusCapacity
  | base_ErrCorrupt | base_ErrInvalidAddress | base_ErrConfigMismatch | base_ErrStatusExpired
  | base_ErrUnsupported | base_ErrInsufficientSpace | base_ErrOverflow | base_ErrInvalidToken
  | model_ErrInvalidMapAddr
  | recordlog_ErrClosed | recordlog_ErrPoisoned | recordlog_ErrInvalidConfig
  | recordlog_ErrPayloadTooBig | recordlog_ErrInvalidVAddr | recordlog_ErrInvalidLogPos
  | recordlog_ErrSegmentMissing | recordlog_ErrSegmentRetiring | recordlog_ErrReadersActive
  | recordlog_ErrCorrupt | recordlog_ErrUnsupported | recordlog_ErrRecoveryRequired
  | recordcodec_ErrInvalid | recordcodec_ErrTooLarge | recordcodec_ErrCorrupt
  | recordcodec_ErrUnsupported
  | mapping_ErrInvalid | mapping_ErrCorrupt | mapping_ErrBudget | mapping_ErrStalePlan
  | E_mapstore mapstore_error | E_storecatalog storecatalog_error | E_radix radix_error
  | E_maintstate state_error | E_mapgcstate state_error | E_compactionstate state_error
  | ErrContext | ErrIO
  | Join err err

text \<open>\<^verbatim>\<open>errors.Is\<close> on the errors above.\<close>

fun errors_Is :: "err \<Rightarrow> err \<Rightarrow> bool" where
  "errors_Is (Join a b) e \<longleftrightarrow> errors_Is a e \<or> errors_Is b e \<or> Join a b = e"
| "errors_Is a e \<longleftrightarrow> a = e"

type_synonym 'a res = "err + 'a"

definition res_bind :: "'a res \<Rightarrow> ('a \<Rightarrow> 'b res) \<Rightarrow> 'b res" where
  "res_bind m f = (case m of Inl e \<Rightarrow> Inl e | Inr x \<Rightarrow> f x)"

lemma res_bind_simps [simp]:
  "res_bind (Inl e) f = Inl e"
  "res_bind (Inr x) f = f x"
  by (simp_all add: res_bind_def)

lemma res_bind_eq_Inr [simp]:
  "res_bind m f = Inr y \<longleftrightarrow> (\<exists>x. m = Inr x \<and> f x = Inr y)"
  by (simp add: res_bind_def split: sum.splits)

lemma res_bind_cong [fundef_cong]:
  "m = m' \<Longrightarrow> (\<And>x. m' = Inr x \<Longrightarrow> f x = f' x) \<Longrightarrow> res_bind m f = res_bind m' f'"
  by (cases m') auto

text \<open>A loop over a slice that stops at the first error.\<close>

fun res_fold :: "('s \<Rightarrow> 'x \<Rightarrow> 's res) \<Rightarrow> 's \<Rightarrow> 'x list \<Rightarrow> 's res" where
  "res_fold f s [] = Inr s"
| "res_fold f s (x # xs) = res_bind (f s x) (\<lambda>s'. res_fold f s' xs)"

lemma res_fold_append:
  "res_fold f s (xs @ ys) = res_bind (res_fold f s xs) (\<lambda>s'. res_fold f s' ys)"
  by (induction xs arbitrary: s) (auto simp: res_bind_def split: sum.splits)

section \<open>Slices\<close>

definition subslice :: "nat \<Rightarrow> nat \<Rightarrow> 'a list \<Rightarrow> 'a list" where
  \<comment> \<open>Go's \<^verbatim>\<open>xs[a:b]\<close> for bounds the caller has checked\<close>
  "subslice a b xs = take (b - a) (drop a xs)"

lemma length_subslice [codec_simps]: "b \<le> length xs \<Longrightarrow> length (subslice a b xs) = b - a"
  by (simp add: subslice_def)

lemma subslice_append_left [codec_simps]: "b \<le> length xs \<Longrightarrow> subslice a b (xs @ ys) = subslice a b xs"
  by (simp add: subslice_def)

lemma subslice_append_right [codec_simps]:
  "length xs \<le> a \<Longrightarrow> subslice a b (xs @ ys) = subslice (a - length xs) (b - length xs) ys"
  by (cases "length xs \<le> b") (simp_all add: subslice_def)

lemma subslice_append_over [codec_simps]:
  "length xs \<le> b \<Longrightarrow> subslice 0 b (xs @ ys) = xs @ subslice 0 (b - length xs) ys"
  by (simp add: subslice_def)

lemma subslice_Cons:
  "0 < a \<Longrightarrow> subslice a b (x # xs) = subslice (a - 1) (b - 1) xs"
  "0 < b \<Longrightarrow> subslice 0 b (x # xs) = x # subslice 0 (b - 1) xs"
  by (cases a; simp add: subslice_def) (cases b; simp add: subslice_def)

lemma subslice_all [codec_simps]: "length xs = b \<Longrightarrow> subslice 0 b xs = xs"
  by (simp add: subslice_def)

lemma subslice_empty [codec_simps]: "subslice a a xs = []"
  by (simp add: subslice_def)

lemma subslice_join: "a \<le> b \<Longrightarrow> b \<le> c \<Longrightarrow> subslice a b xs @ subslice b c xs = subslice a c xs"
proof -
  assume "a \<le> b" "b \<le> c"
  then have "drop b xs = drop (b - a) (drop a xs)" and "c - a = (b - a) + (c - b)"
    by (simp_all add: add.commute)
  then show ?thesis by (simp add: subslice_def take_add)
qed

lemma subslice_singleton: "a < length xs \<Longrightarrow> subslice a (Suc a) xs = [xs ! a]"
  by (simp add: subslice_def take_Suc_conv_app_nth hd_drop_conv_nth take_Suc)

lemma nth_subslice: "i < b - a \<Longrightarrow> b \<le> length xs \<Longrightarrow> subslice a b xs ! i = xs ! (a + i)"
  by (simp add: subslice_def)

lemma take_eq_subslice: "take n xs = subslice 0 n xs"
  by (simp add: subslice_def)

lemma drop_eq_subslice: "drop n xs = subslice n (length xs) xs"
  by (simp add: subslice_def)

lemma subslice_subslice:
  "a + d \<le> b \<Longrightarrow> subslice c d (subslice a b xs) = subslice (a + c) (a + d) xs"
  by (simp add: subslice_def drop_take min_def add.commute)

definition all_zero :: "bytes \<Rightarrow> bool" where
  "all_zero bs = list_all (\<lambda>b. b = 0) bs"

lemma all_zero_iff: "all_zero bs \<longleftrightarrow> bs = replicate (length bs) 0"
  by (induction bs) (auto simp: all_zero_def)

lemma all_zero_subslice:
  "all_zero (subslice a b bs) \<Longrightarrow> b \<le> length bs \<Longrightarrow> replicate (b - a) 0 = subslice a b bs"
  by (metis all_zero_iff length_subslice)

lemma all_zero_replicate [simp]: "all_zero (replicate n 0)"
  by (simp add: all_zero_iff)

lemma all_zero_Nil [simp]: "all_zero []"
  by (simp add: all_zero_def)

section \<open>Little-endian integers\<close>

definition le_bytes :: "nat \<Rightarrow> 'a::len word \<Rightarrow> bytes" where
  "le_bytes n w = map (\<lambda>i. ucast (drop_bit (8 * i) w)) [0..<n]"

primrec le_word :: "bytes \<Rightarrow> 'a::len word" where
  "le_word [] = 0"
| "le_word (b # bs) = ucast b OR push_bit 8 (le_word bs)"

lemma length_le_bytes [simp]: "length (le_bytes n w) = n"
  by (simp add: le_bytes_def)

lemma bit_le_word:
  "bit (le_word bs :: 'a::len word) i \<longleftrightarrow>
     i < LENGTH('a) \<and> i div 8 < length bs \<and> bit (bs ! (i div 8)) (i mod 8)"
proof (induction bs arbitrary: i)
  case Nil
  then show ?case by simp
next
  case (Cons b bs)
  show ?case
  proof (cases "i < 8")
    case True
    then show ?thesis
      by (auto simp: bit_or_iff bit_unsigned_iff bit_push_bit_iff)
  next
    case False
    then obtain k where i: "i = k + 8"
      using le_Suc_ex [of 8 i] by (auto simp: add.commute)
    have "(k + 8) div 8 = Suc (k div 8)"
      by (simp add: div_add_self2)
    moreover have "\<not> bit b i"
      using False by (auto dest: bit_imp_le_length)
    ultimately show ?thesis
      using i by (auto simp: bit_or_iff bit_unsigned_iff bit_push_bit_iff Cons.IH)
  qed
qed

lemma le_word_le_bytes: "LENGTH('a) = 8 * n \<Longrightarrow> le_word (le_bytes n w) = (w :: 'a::len word)"
proof (rule bit_word_eqI)
  fix i assume n: "LENGTH('a) = 8 * n" and i: "i < LENGTH('a)"
  then have "i div 8 < n" by linarith
  then show "bit (le_word (le_bytes n w) :: 'a word) i = bit w i"
    using i by (simp add: bit_le_word le_bytes_def bit_unsigned_iff bit_drop_bit_eq)
qed

lemma le_bytes_le_word:
  "length bs = n \<Longrightarrow> 8 * n \<le> LENGTH('a) \<Longrightarrow> le_bytes n (le_word bs :: 'a::len word) = bs"
proof (rule nth_equalityI)
  fix i assume "length bs = n" "8 * n \<le> LENGTH('a)" "i < length (le_bytes n (le_word bs :: 'a word))"
  then have i: "i < n" by simp
  show "le_bytes n (le_word bs :: 'a word) ! i = bs ! i"
  proof (rule bit_word_eqI)
    fix j assume j: "j < LENGTH(8)"
    then have "(8 * i + j) div 8 = i" and "(8 * i + j) mod 8 = j" and "8 * i + j < 8 * n"
      using i by auto
    then show "bit (le_bytes n (le_word bs :: 'a word) ! i) j = bit (bs ! i) j"
      using i j \<open>length bs = n\<close> \<open>8 * n \<le> LENGTH('a)\<close>
      by (simp add: le_bytes_def bit_unsigned_iff bit_drop_bit_eq bit_le_word)
  qed
qed simp

text \<open>\<^verbatim>\<open>binary.LittleEndian.PutUint16/32/64\<close> and \<^verbatim>\<open>Uint16/32/64\<close>.\<close>

definition le16 :: "u16 \<Rightarrow> bytes" where "le16 w = le_bytes 2 w"
definition le32 :: "u32 \<Rightarrow> bytes" where "le32 w = le_bytes 4 w"
definition le64 :: "u64 \<Rightarrow> bytes" where "le64 w = le_bytes 8 w"
definition get16 :: "bytes \<Rightarrow> u16" where "get16 bs = le_word bs"
definition get32 :: "bytes \<Rightarrow> u32" where "get32 bs = le_word bs"
definition get64 :: "bytes \<Rightarrow> u64" where "get64 bs = le_word bs"

lemma length_le [simp]: "length (le16 a) = 2" "length (le32 b) = 4" "length (le64 c) = 8"
  by (simp_all add: le16_def le32_def le64_def)

lemma get_le [simp]: "get16 (le16 a) = a" "get32 (le32 b) = b" "get64 (le64 c) = c"
  by (simp_all add: le16_def le32_def le64_def get16_def get32_def get64_def le_word_le_bytes)

lemma le_get:
  "length bs = 2 \<Longrightarrow> le16 (get16 bs) = bs"
  "length bs = 4 \<Longrightarrow> le32 (get32 bs) = bs"
  "length bs = 8 \<Longrightarrow> le64 (get64 bs) = bs"
  by (simp_all add: le16_def le32_def le64_def get16_def get32_def get64_def le_bytes_le_word)

lemma get_eq_iff:
  "length bs = 2 \<Longrightarrow> get16 bs = a \<longleftrightarrow> bs = le16 a"
  "length bs = 4 \<Longrightarrow> get32 bs = b \<longleftrightarrow> bs = le32 b"
  "length bs = 8 \<Longrightarrow> get64 bs = c \<longleftrightarrow> bs = le64 c"
  by (auto simp: le_get)

lemma get_eqD:
  "get16 bs = a \<Longrightarrow> length bs = 2 \<Longrightarrow> le16 a = bs"
  "get32 bs = b \<Longrightarrow> length bs = 4 \<Longrightarrow> le32 b = bs"
  "get64 bs = c \<Longrightarrow> length bs = 8 \<Longrightarrow> le64 c = bs"
  by (auto simp: le_get)

lemma replicate_zero_le: "replicate 2 0 = le16 0" "replicate 4 0 = le32 0" "replicate 8 0 = le64 0"
  by (simp_all add: le16_def le32_def le64_def le_bytes_def map_replicate_const)

section \<open>CRC-32C\<close>

text \<open>
  \<^verbatim>\<open>crc32.Checksum(data, crc32.MakeTable(crc32.Castagnoli))\<close>: the reflected polynomial
  \<open>0x82f63b78\<close>, initial value and final complement all ones, one table step per byte.
\<close>

definition crc_bit :: "u32 \<Rightarrow> u32" where
  "crc_bit c = (if bit c 0 then drop_bit 1 c XOR 0x82f63b78 else drop_bit 1 c)"

definition crc_entry :: "u8 \<Rightarrow> u32" where
  "crc_entry b = (crc_bit ^^ 8) (ucast b)"

definition crc_byte :: "u32 \<Rightarrow> u8 \<Rightarrow> u32" where
  "crc_byte c b = crc_entry (ucast c XOR b) XOR drop_bit 8 c"

definition crc32c :: "bytes \<Rightarrow> u32" where
  "crc32c bs = NOT (foldl crc_byte (NOT 0) bs)"

end
