(* ===== verification/Addresses.thy ===== *)
theory Addresses
  imports Ridstore_Prelude
begin

text \<open>
  Physical addresses: \<^verbatim>\<open>internal/recordlog/types.go\<close> (virtual addresses with their size tag, record
  references, log positions, append results) and \<^verbatim>\<open>internal/model/mapaddr.go\<close> (addresses of mapping
  nodes). A virtual address packs the segment, the aligned byte offset and a three-bit size class
  into one 64-bit word; the lemmas show that packing and unpacking are inverse, that validity is
  exactly what the constructors produce, and that the numeric order of addresses is log order.
\<close>

section \<open>Constants\<close>

abbreviation SegmentHeaderSize :: u32 where "SegmentHeaderSize \<equiv> 64"
abbreviation RecordHeaderSize :: u32 where "RecordHeaderSize \<equiv> 32"
abbreviation SegmentFooterSize :: u32 where "SegmentFooterSize \<equiv> 64"
abbreviation RecordAlignment :: u32 where "RecordAlignment \<equiv> 8"
abbreviation reservedSizeTag :: u32 where "reservedSizeTag \<equiv> 7"
abbreviation vaddrSizeMask :: u32 where "vaddrSizeMask \<equiv> 7"

type_synonym SegmentID = u32
type_synonym VAddr = u64
type_synonym MapAddr = u64
type_synonym record_id = u64
type_synonym BatchID = u64
type_synonym CommitSeq = u64

definition CompactionSegmentBase :: SegmentID where
  "CompactionSegmentBase = push_bit 31 1"

definition IsCompactionSegment :: "SegmentID \<Rightarrow> bool" where
  "IsCompactionSegment seg \<longleftrightarrow> seg \<ge> CompactionSegmentBase"

section \<open>Virtual addresses\<close>

function sizeTag_loop :: "u32 \<Rightarrow> u32 \<Rightarrow> u32 \<Rightarrow> u32 res" where
  "sizeTag_loop physicalSize tag upper =
     (if tag < reservedSizeTag
      then if physicalSize \<le> upper \<or> tag = reservedSizeTag - 1 then Inr tag
           else sizeTag_loop physicalSize (tag + 1) (push_bit 1 upper)
      else Inl recordlog_ErrInvalidVAddr)"
  by pat_completeness auto
termination
proof (relation "measure (\<lambda>(_, tag, _). 7 - unat tag)")
  fix physicalSize tag upper :: u32
  assume "tag < reservedSizeTag"
  then have "unat tag < 7" by (simp add: word_less_nat_alt)
  moreover from this have "unat (tag + 1) = unat tag + 1"
    by (simp add: unat_word_ariths)
  ultimately show "((physicalSize, tag + 1, push_bit 1 upper), (physicalSize, tag, upper))
      \<in> measure (\<lambda>(_, tag, _). 7 - unat tag)"
    by simp
qed simp

declare sizeTag_loop.simps [simp del]

definition sizeTag :: "u32 \<Rightarrow> u32 res" where
  "sizeTag physicalSize =
     (if physicalSize < RecordHeaderSize \<or> physicalSize AND (RecordAlignment - 1) \<noteq> 0
      then Inl recordlog_ErrInvalidVAddr
      else sizeTag_loop physicalSize 0 64)"

definition NewVAddr :: "SegmentID \<Rightarrow> u32 \<Rightarrow> u32 \<Rightarrow> VAddr res" where
  "NewVAddr segmentID offset physicalSize =
     (case sizeTag physicalSize of
        Inl _ \<Rightarrow> Inl recordlog_ErrInvalidVAddr
      | Inr tag \<Rightarrow>
          if segmentID = 0 \<or> offset < SegmentHeaderSize \<or> offset AND vaddrSizeMask \<noteq> 0
          then Inl recordlog_ErrInvalidVAddr
          else Inr (push_bit 32 (ucast segmentID) OR ucast offset OR ucast tag))"

definition VAddr_SegmentID :: "VAddr \<Rightarrow> SegmentID" where
  "VAddr_SegmentID v = ucast (drop_bit 32 v)"

definition VAddr_Offset :: "VAddr \<Rightarrow> u32" where
  "VAddr_Offset v = ucast v AND NOT vaddrSizeMask"

definition VAddr_SizeTag :: "VAddr \<Rightarrow> u8" where
  "VAddr_SizeTag v = ucast ((ucast v :: u32) AND vaddrSizeMask)"

definition VAddr_Valid :: "VAddr \<Rightarrow> bool" where
  "VAddr_Valid v \<longleftrightarrow>
     VAddr_SegmentID v \<noteq> 0 \<and> VAddr_Offset v \<ge> SegmentHeaderSize \<and>
     (ucast (VAddr_SizeTag v) :: u32) \<noteq> reservedSizeTag"

definition ParseVAddr :: "u64 \<Rightarrow> VAddr res" where
  "ParseVAddr raw = (if VAddr_Valid raw then Inr raw else Inl recordlog_ErrInvalidVAddr)"

definition VAddr_ReadHint :: "VAddr \<Rightarrow> u32 res" where
  "VAddr_ReadHint v =
     (if \<not> VAddr_Valid v then Inl recordlog_ErrInvalidVAddr
      else Inr (push_bit (unat (VAddr_SizeTag v)) 64))"

definition VAddr_MatchesPhysicalSize :: "VAddr \<Rightarrow> u32 \<Rightarrow> bool" where
  "VAddr_MatchesPhysicalSize v physicalSize =
     (case sizeTag physicalSize of Inl _ \<Rightarrow> False | Inr tag \<Rightarrow> ucast tag = VAddr_SizeTag v)"

section \<open>Log positions\<close>

record LogPos =
  LogPos_SegmentID :: SegmentID
  LogPos_Offset :: u32

definition NewLogPos :: "SegmentID \<Rightarrow> u32 \<Rightarrow> LogPos res" where
  "NewLogPos segmentID offset =
     (if segmentID = 0 \<or> offset < SegmentHeaderSize \<or> offset AND (RecordAlignment - 1) \<noteq> 0
      then Inl recordlog_ErrInvalidLogPos
      else Inr \<lparr>LogPos_SegmentID = segmentID, LogPos_Offset = offset\<rparr>)"

definition ParseLogPos :: "u64 \<Rightarrow> LogPos res" where
  "ParseLogPos raw = NewLogPos (ucast (drop_bit 32 raw)) (ucast raw)"

definition LogPos_Valid :: "LogPos \<Rightarrow> bool" where
  "LogPos_Valid p = (case NewLogPos (LogPos_SegmentID p) (LogPos_Offset p) of Inl _ \<Rightarrow> False | Inr _ \<Rightarrow> True)"

definition LogPos_Uint64 :: "LogPos \<Rightarrow> u64" where
  "LogPos_Uint64 p = push_bit 32 (ucast (LogPos_SegmentID p)) OR ucast (LogPos_Offset p)"

definition LogPos_Compare :: "LogPos \<Rightarrow> LogPos \<Rightarrow> int" where
  "LogPos_Compare p other =
     (if LogPos_SegmentID p < LogPos_SegmentID other \<or>
         LogPos_SegmentID p = LogPos_SegmentID other \<and> LogPos_Offset p < LogPos_Offset other then - 1
      else if p = other then 0 else 1)"

definition VAddr_End :: "VAddr \<Rightarrow> u32 \<Rightarrow> LogPos res" where
  "VAddr_End v physicalSize =
     (if \<not> VAddr_Valid v \<or> \<not> VAddr_MatchesPhysicalSize v physicalSize \<or>
         physicalSize > 4294967295 - VAddr_Offset v
      then Inl recordlog_ErrInvalidVAddr
      else NewLogPos (VAddr_SegmentID v) (VAddr_Offset v + physicalSize))"

section \<open>Record references and append results\<close>

record RecordRef =
  Ref_Addr :: VAddr
  Ref_PhysicalSize :: u32

definition RecordRef_Valid :: "RecordRef \<Rightarrow> bool" where
  "RecordRef_Valid r \<longleftrightarrow>
     VAddr_Valid (Ref_Addr r) \<and> Ref_PhysicalSize r \<ge> RecordHeaderSize \<and>
     Ref_PhysicalSize r AND (RecordAlignment - 1) = 0 \<and>
     VAddr_MatchesPhysicalSize (Ref_Addr r) (Ref_PhysicalSize r)"

definition zero_ref :: RecordRef where
  "zero_ref = \<lparr>Ref_Addr = 0, Ref_PhysicalSize = 0\<rparr>"

definition RecordRef_IsZero :: "RecordRef \<Rightarrow> bool" where
  "RecordRef_IsZero r \<longleftrightarrow> r = zero_ref"

definition NewRecordRef :: "VAddr \<Rightarrow> u32 \<Rightarrow> RecordRef res" where
  "NewRecordRef addr physicalSize =
     (let ref = \<lparr>Ref_Addr = addr, Ref_PhysicalSize = physicalSize\<rparr>
      in if \<not> RecordRef_Valid ref then Inl recordlog_ErrInvalidVAddr else Inr ref)"

record AppendResult =
  AR_Addr :: VAddr
  AR_End :: LogPos

definition AppendResult_PhysicalSize :: "AppendResult \<Rightarrow> u32 res" where
  "AppendResult_PhysicalSize r =
     (if \<not> VAddr_Valid (AR_Addr r) \<or> \<not> LogPos_Valid (AR_End r) \<or>
         VAddr_SegmentID (AR_Addr r) \<noteq> LogPos_SegmentID (AR_End r) \<or>
         LogPos_Offset (AR_End r) < VAddr_Offset (AR_Addr r)
      then Inl recordlog_ErrInvalidVAddr
      else let size = LogPos_Offset (AR_End r) - VAddr_Offset (AR_Addr r)
           in if \<not> VAddr_MatchesPhysicalSize (AR_Addr r) size then Inl recordlog_ErrInvalidVAddr
              else Inr size)"

definition AppendResult_Ref :: "AppendResult \<Rightarrow> RecordRef res" where
  "AppendResult_Ref r = res_bind (AppendResult_PhysicalSize r) (\<lambda>size. NewRecordRef (AR_Addr r) size)"

definition NewAppendResult :: "VAddr \<Rightarrow> u32 \<Rightarrow> AppendResult res" where
  "NewAppendResult addr physicalSize =
     res_bind (VAddr_End addr physicalSize) (\<lambda>end. Inr \<lparr>AR_Addr = addr, AR_End = end\<rparr>)"

section \<open>Addresses of mapping nodes\<close>

definition MapAddr_SegmentID :: "MapAddr \<Rightarrow> u32" where
  "MapAddr_SegmentID a = ucast (drop_bit 32 a)"

definition MapAddr_Offset :: "MapAddr \<Rightarrow> u32" where
  "MapAddr_Offset a = ucast a"

definition MapAddr_Valid :: "MapAddr \<Rightarrow> bool" where
  "MapAddr_Valid a \<longleftrightarrow>
     MapAddr_SegmentID a \<noteq> 0 \<and> MapAddr_Offset a \<ge> 64 \<and> MapAddr_Offset a AND 7 = 0"

definition NewMapAddr :: "u32 \<Rightarrow> u32 \<Rightarrow> MapAddr res" where
  "NewMapAddr segmentID offset =
     (if segmentID = 0 \<or> offset < 64 \<or> offset AND 7 \<noteq> 0 then Inl model_ErrInvalidMapAddr
      else Inr (push_bit 32 (ucast segmentID) OR ucast offset))"

definition ParseMapAddr :: "u64 \<Rightarrow> MapAddr res" where
  "ParseMapAddr raw = (if \<not> MapAddr_Valid raw then Inl model_ErrInvalidMapAddr else Inr raw)"

section \<open>Alignment and size classes\<close>

lemma and_7_eq: "(x :: u32) AND 7 = take_bit 3 x"
  by (simp add: take_bit_eq_mask mask_eq_exp_minus_1)

lemma unat_and_7: "unat ((x :: u32) AND 7) = unat x mod 8"
  by (simp only: and_7_eq unsigned_take_bit_eq) (simp add: take_bit_eq_mod)

lemma aligned_iff: "(x :: u32) AND 7 = 0 \<longleftrightarrow> 8 dvd unat x"
  by (simp add: dvd_eq_mod_eq_0 word_unat_eq_iff unat_and_7)

lemma aligned_bits: "(x :: u32) AND 7 = 0 \<Longrightarrow> bit x n \<Longrightarrow> 3 \<le> n"
  by (metis and_7_eq bit_take_bit_iff bit_0_eq bot_apply bot_bool_def not_le)

lemma small_bits: "(x :: u32) < 8 \<Longrightarrow> bit x n \<Longrightarrow> n < 3"
proof -
  assume "x < 8" "bit x n"
  then have "unat (x AND 7) = unat x"
    by (simp add: word_less_nat_alt unat_and_7)
  with \<open>bit x n\<close> show ?thesis
    by (metis and_7_eq bit_take_bit_iff word_unat_eq_iff)
qed

lemma sizeTag_loop_eq:
  "sizeTag_loop s 0 64 =
     Inr (if s \<le> 64 then 0 else if s \<le> 128 then 1 else if s \<le> 256 then 2 else if s \<le> 512 then 3
          else if s \<le> 1024 then 4 else if s \<le> 2048 then 5 else 6)"
  by (simp add: sizeTag_loop.simps)

lemma sizeTag_eq:
  "sizeTag s =
     (if s < 32 \<or> s AND 7 \<noteq> 0 then Inl recordlog_ErrInvalidVAddr
      else Inr (if s \<le> 64 then 0 else if s \<le> 128 then 1 else if s \<le> 256 then 2
                else if s \<le> 512 then 3 else if s \<le> 1024 then 4 else if s \<le> 2048 then 5 else 6))"
  by (simp add: sizeTag_def sizeTag_loop_eq)

section \<open>Packing and unpacking\<close>

definition pack :: "SegmentID \<Rightarrow> u32 \<Rightarrow> u32 \<Rightarrow> VAddr" where
  \<comment> \<open>the word \<^verbatim>\<open>NewVAddr\<close> assembles\<close>
  "pack seg off tag = push_bit 32 (ucast seg) OR ucast off OR ucast tag"

lemma bit_u32_less: "bit (x :: u32) n \<Longrightarrow> n < 32"
  by (auto dest: bit_imp_le_length)

lemma bit_7: "bit (7 :: int) n \<longleftrightarrow> n < 3"
  using bit_mask_iff [of 3 n, where ?'a = int] by (auto simp: mask_eq_exp_minus_1)

lemma bit_not_7: "bit (- 8 :: int) n \<longleftrightarrow> 3 \<le> n"
  using bit_not_iff [of "7 :: int" n] by (auto simp: bit_7)

lemma bit_pack:
  "bit (pack seg off tag) n \<longleftrightarrow> 32 \<le> n \<and> bit seg (n - 32) \<or> bit off n \<or> bit tag n"
  using bit_u32_less [of off n] bit_u32_less [of tag n] bit_u32_less [of seg "n - 32"]
  by (auto simp: pack_def bit_or_iff bit_push_bit_iff bit_unsigned_iff)

lemma VAddr_SegmentID_pack [simp]: "VAddr_SegmentID (pack seg off tag) = seg"
  by (rule bit_word_eqI)
     (auto simp: VAddr_SegmentID_def bit_unsigned_iff bit_drop_bit_eq bit_pack dest: bit_u32_less)

lemma VAddr_Offset_pack [simp]:
  assumes "off AND 7 = 0" "tag < 8"
  shows "VAddr_Offset (pack seg off tag) = off"
  by (rule bit_word_eqI)
     (use assms in \<open>auto simp: VAddr_Offset_def bit_and_iff bit_not_7 bit_unsigned_iff bit_pack
        dest: small_bits aligned_bits\<close>)

lemma VAddr_SizeTag_pack [simp]:
  assumes "off AND 7 = 0" "tag < 8"
  shows "VAddr_SizeTag (pack seg off tag) = ucast tag"
  by (rule bit_word_eqI)
     (use assms in \<open>auto simp: VAddr_SizeTag_def bit_and_iff bit_7 bit_unsigned_iff bit_pack
        dest: small_bits aligned_bits\<close>)

lemma VAddr_Offset_aligned: "VAddr_Offset v AND 7 = 0"
  by (rule bit_word_eqI) (auto simp: VAddr_Offset_def bit_and_iff bit_7 bit_not_7)

lemma unat_VAddr_SizeTag: "unat (VAddr_SizeTag v) = unat (ucast v :: u32) mod 8"
proof -
  have "unat (VAddr_SizeTag v) = take_bit 8 (unat ((ucast v :: u32) AND 7))"
    by (simp only: VAddr_SizeTag_def unsigned_ucast_eq) simp
  then show ?thesis
    by (simp add: unat_and_7 take_bit_eq_mod)
qed

lemma VAddr_SizeTag_less: "(ucast (VAddr_SizeTag v) :: u32) < 8"
  by (simp add: word_less_nat_alt unsigned_ucast_eq unat_VAddr_SizeTag take_bit_eq_mod)

lemma pack_unpack: "pack (VAddr_SegmentID v) (VAddr_Offset v) (ucast (VAddr_SizeTag v)) = v"
proof (rule bit_word_eqI)
  fix n assume n: "n < LENGTH(64)"
  consider "n < 3" | "3 \<le> n" "n < 32" | "32 \<le> n" by linarith
  then show "bit (pack (VAddr_SegmentID v) (VAddr_Offset v) (ucast (VAddr_SizeTag v))) n = bit v n"
    using n by cases
      (auto simp: bit_pack VAddr_SegmentID_def VAddr_Offset_def VAddr_SizeTag_def bit_7 bit_not_7
        bit_and_iff bit_unsigned_iff bit_drop_bit_eq)
qed

lemma unat_pack:
  assumes "off AND 7 = 0" "tag < 8"
  shows "unat (pack seg off tag) = unat seg * 4294967296 + unat off + unat tag"
proof -
  have t: "unat tag < 8" and o: "8 dvd unat off"
    using assms by (simp_all add: word_less_nat_alt aligned_iff)
  have "unat off + unat tag < 4294967296"
    using t o unat_u32_bound [of off] by presburger
  moreover have "unat seg \<le> MaxUint32" by (rule unat_u32_bound)
  moreover have "pack seg off tag = push_bit 32 (ucast seg) + ucast off + ucast tag"
  proof -
    have "(ucast off :: u64) OR ucast tag = ucast off + ucast tag"
      by (rule disjunctive_add [symmetric])
         (use assms in \<open>auto simp: bit_unsigned_iff dest!: small_bits aligned_bits\<close>)
    moreover have "push_bit 32 (ucast seg) OR (ucast off OR ucast tag :: u64)
        = push_bit 32 (ucast seg) + (ucast off OR ucast tag)"
      by (rule disjunctive_add [symmetric])
         (auto simp: bit_unsigned_iff bit_push_bit_iff bit_or_iff dest: bit_u32_less)
    ultimately show ?thesis by (simp add: pack_def or.assoc add.assoc)
  qed
  ultimately show ?thesis
    by (simp add: unat_word_ariths push_bit_eq_mult unsigned_ucast_eq take_bit_eq_mod)
qed

section \<open>Laws of addresses\<close>

lemma sizeTag_Inr:
  "sizeTag s = Inr tag \<Longrightarrow> tag < 7 \<and> 32 \<le> s \<and> s AND 7 = 0"
  by (auto simp: sizeTag_eq split: if_splits)

lemma ucast_tag_eq_iff:
  "(s :: u32) < 8 \<Longrightarrow> t < 8 \<Longrightarrow> (ucast s :: u8) = ucast t \<longleftrightarrow> s = t"
  by (auto simp: word_unat_eq_iff unsigned_ucast_eq word_less_nat_alt take_bit_eq_mod)

lemma unat_ucast: "unat (ucast (w :: 'a::len word) :: 'b::len word) = unat w mod 2 ^ LENGTH('b)"
  by (simp add: unsigned_ucast_eq take_bit_eq_mod)

lemma ucast_ucast_tag: "(t :: u32) < 8 \<Longrightarrow> ucast (ucast t :: u8) = t"
  by (simp only: word_unat_eq_iff unat_ucast) (simp add: word_less_nat_alt)

lemma NewVAddr_eq_Inr:
  "NewVAddr seg off sz = Inr v \<longleftrightarrow>
     seg \<noteq> 0 \<and> 64 \<le> off \<and> off AND 7 = 0 \<and> (\<exists>tag. sizeTag sz = Inr tag \<and> v = pack seg off tag)"
  by (auto simp: NewVAddr_def pack_def not_less split: sum.splits)

lemma NewVAddr_fields:
  assumes "NewVAddr seg off sz = Inr v"
  shows "VAddr_SegmentID v = seg" "VAddr_Offset v = off" "VAddr_MatchesPhysicalSize v sz"
    "VAddr_Valid v"
proof -
  from assms obtain tag where *: "seg \<noteq> 0" "64 \<le> off" "off AND 7 = 0" "sizeTag sz = Inr tag"
      "v = pack seg off tag" by (auto simp: NewVAddr_eq_Inr)
  from *(4) have t: "tag < 7" by (simp add: sizeTag_Inr)
  then have t8: "tag < 8" by (auto simp: word_less_nat_alt)
  show "VAddr_SegmentID v = seg" "VAddr_Offset v = off" using * t8 by simp_all
  show "VAddr_MatchesPhysicalSize v sz" using * t8 by (simp add: VAddr_MatchesPhysicalSize_def)
  show "VAddr_Valid v" using * t t8 by (auto simp: VAddr_Valid_def ucast_ucast_tag)
qed

text \<open>
  C11: packing a segment, an aligned offset and a physical sz and reading the fields back is the
  identity, the result is valid, and every valid address with a matching sz arises in this way.
\<close>

theorem NewVAddr_roundtrip:
  "NewVAddr seg off sz = Inr v \<longleftrightarrow>
     VAddr_SegmentID v = seg \<and> VAddr_Offset v = off \<and> VAddr_Valid v \<and>
     VAddr_MatchesPhysicalSize v sz"
proof
  assume "NewVAddr seg off sz = Inr v"
  then show "VAddr_SegmentID v = seg \<and> VAddr_Offset v = off \<and> VAddr_Valid v \<and>
     VAddr_MatchesPhysicalSize v sz" by (simp add: NewVAddr_fields)
next
  assume *: "VAddr_SegmentID v = seg \<and> VAddr_Offset v = off \<and> VAddr_Valid v \<and>
     VAddr_MatchesPhysicalSize v sz"
  then obtain tag where t: "sizeTag sz = Inr tag" "ucast tag = VAddr_SizeTag v"
    by (auto simp: VAddr_MatchesPhysicalSize_def split: sum.splits)
  from t(1) have t8: "tag < 8" using sizeTag_Inr [of sz tag] by (auto simp: word_less_nat_alt)
  have "ucast (VAddr_SizeTag v) = tag" using t(2) t8 by (metis ucast_ucast_tag)
  then have "v = pack seg off tag" using pack_unpack [of v] * by metis
  moreover have "off AND 7 = 0" using * VAddr_Offset_aligned [of v] by simp
  ultimately show "NewVAddr seg off sz = Inr v"
    using * t(1) by (auto simp: NewVAddr_eq_Inr VAddr_Valid_def)
qed

lemma unat_VAddr:
  "unat v = unat (VAddr_SegmentID v) * 4294967296 + unat (VAddr_Offset v) + unat (VAddr_SizeTag v)"
proof -
  have "unat (ucast (VAddr_SizeTag v) :: u32) = unat (VAddr_SizeTag v)"
    by (simp add: unat_ucast unat_VAddr_SizeTag)
  then show ?thesis
    using unat_pack [OF VAddr_Offset_aligned [of v] VAddr_SizeTag_less [of v], of "VAddr_SegmentID v"]
    by (simp add: pack_unpack)
qed

lemma VAddr_offset_gap:
  "VAddr_Offset v < VAddr_Offset w \<Longrightarrow> unat (VAddr_Offset v) + 8 \<le> unat (VAddr_Offset w)"
proof -
  assume "VAddr_Offset v < VAddr_Offset w"
  moreover have "8 dvd unat (VAddr_Offset v)" "8 dvd unat (VAddr_Offset w)"
    by (simp_all flip: aligned_iff add: VAddr_Offset_aligned)
  ultimately show ?thesis
    unfolding word_less_nat_alt by presburger
qed

text \<open>
  The numeric order of virtual addresses, by which a scan sorts the pending records, is the
  order of their positions in the log: first the segment, then the offset in it, whatever the size
  tags are.
\<close>

theorem VAddr_less_iff:
  assumes "(VAddr_SegmentID v, VAddr_Offset v) \<noteq> (VAddr_SegmentID w, VAddr_Offset w)"
  shows "v < w \<longleftrightarrow>
    VAddr_SegmentID v < VAddr_SegmentID w \<or>
    VAddr_SegmentID v = VAddr_SegmentID w \<and> VAddr_Offset v < VAddr_Offset w"
proof -
  have b: "unat (VAddr_SizeTag x) < 8" for x
    by (simp add: unat_VAddr_SizeTag)
  have o: "unat (VAddr_Offset x) + unat (VAddr_SizeTag x) < 4294967296" for x
    using unat_u32_bound [of "VAddr_Offset x"] b [of x] VAddr_Offset_aligned [of x]
    unfolding aligned_iff by presburger
  consider "VAddr_SegmentID v < VAddr_SegmentID w" | "VAddr_SegmentID w < VAddr_SegmentID v"
    | "VAddr_SegmentID v = VAddr_SegmentID w" "VAddr_Offset v < VAddr_Offset w"
    | "VAddr_SegmentID v = VAddr_SegmentID w" "VAddr_Offset w < VAddr_Offset v"
    using assms by fastforce
  then show ?thesis
  proof cases
    case 1
    then show ?thesis
      using o [of v] by (simp add: word_less_nat_alt unat_VAddr [of v] unat_VAddr [of w])
  next
    case 2
    then show ?thesis
      using o [of w] by (auto simp: word_less_nat_alt unat_VAddr [of v] unat_VAddr [of w])
  next
    case 3
    then show ?thesis
      using VAddr_offset_gap [of v w] b [of v]
      by (simp add: word_less_nat_alt unat_VAddr [of v] unat_VAddr [of w])
  next
    case 4
    then show ?thesis
      using VAddr_offset_gap [of w v] b [of w]
      by (simp add: word_less_nat_alt unat_VAddr [of v] unat_VAddr [of w])
  qed
qed

lemma NewAppendResult_Inr:
  assumes "NewAppendResult v sz = Inr r"
  shows "AR_Addr r = v" "LogPos_SegmentID (AR_End r) = VAddr_SegmentID v"
    "unat (LogPos_Offset (AR_End r)) = unat (VAddr_Offset v) + unat sz"
    "VAddr_Valid v" "VAddr_MatchesPhysicalSize v sz" "LogPos_Valid (AR_End r)"
proof -
  from assms have c: "VAddr_Valid v" "VAddr_MatchesPhysicalSize v sz" "sz \<le> 4294967295 - VAddr_Offset v"
    and n: "NewLogPos (VAddr_SegmentID v) (VAddr_Offset v + sz) = Inr (AR_End r)"
    and a: "AR_Addr r = v"
    by (auto simp: NewAppendResult_def VAddr_End_def not_less split: if_splits)
  have "unat (4294967295 - VAddr_Offset v) = MaxUint32 - unat (VAddr_Offset v)"
    using unat_sub [of "VAddr_Offset v" "4294967295"] by (simp add: word_le_nat_alt unat_u32_bound)
  with c(3) have "unat sz \<le> MaxUint32 - unat (VAddr_Offset v)"
    by (simp add: word_le_nat_alt)
  with unat_u32_bound [of "VAddr_Offset v"] have "unat (VAddr_Offset v + sz) = unat (VAddr_Offset v) + unat sz"
    by (simp add: unat_word_ariths)
  moreover from n have e: "AR_End r = \<lparr>LogPos_SegmentID = VAddr_SegmentID v, LogPos_Offset = VAddr_Offset v + sz\<rparr>"
    by (auto simp: NewLogPos_def split: if_splits)
  moreover from n have "LogPos_Valid (AR_End r)"
    by (simp add: LogPos_Valid_def e)
  ultimately show "AR_Addr r = v" "LogPos_SegmentID (AR_End r) = VAddr_SegmentID v"
    "unat (LogPos_Offset (AR_End r)) = unat (VAddr_Offset v) + unat sz"
    "VAddr_Valid v" "VAddr_MatchesPhysicalSize v sz" "LogPos_Valid (AR_End r)"
    using a c by simp_all
qed

text \<open>
  The append result made for an address and a physical size gives the size back, and its
  reference is the valid reference of that address and size.
\<close>

theorem NewAppendResult_roundtrip:
  assumes "NewAppendResult v sz = Inr r"
  shows "AppendResult_PhysicalSize r = Inr sz \<and>
    AppendResult_Ref r = Inr \<lparr>Ref_Addr = v, Ref_PhysicalSize = sz\<rparr>"
proof -
  note * = NewAppendResult_Inr [OF assms]
  have "LogPos_Offset (AR_End r) - VAddr_Offset v = sz"
    using *(3) by (simp add: word_unat_eq_iff unat_sub word_le_nat_alt)
  moreover have "\<not> LogPos_Offset (AR_End r) < VAddr_Offset v"
    using *(3) by (simp add: word_less_nat_alt)
  ultimately have s: "AppendResult_PhysicalSize r = Inr sz"
    using * by (simp add: AppendResult_PhysicalSize_def Let_def)
  have "\<exists>tag. sizeTag sz = Inr tag"
    using *(5) by (auto simp: VAddr_MatchesPhysicalSize_def split: sum.splits)
  then have "32 \<le> sz" "sz AND 7 = 0" by (auto dest: sizeTag_Inr)
  then show ?thesis
    using s * by (simp add: AppendResult_Ref_def NewRecordRef_def RecordRef_Valid_def)
qed

end
