(* ===== verification/Record_Format.thy ===== *)
theory Record_Format
  imports Addresses
begin

text \<open>
  The physical format of the record log, \<^verbatim>\<open>internal/recordlog/format.go\<close>: segment headers, record
  envelopes and segment footers with their CRC-32C checksums. An encoder writes its fields at the
  offsets of the source; the model is the concatenation of the fields in offset order, with the
  bytes the encoder leaves untouched written as zeros. The lemmas show that each decoder is the
  exact inverse of its encoder: what is encoded is read back, and a byte string that is accepted
  is the encoding of what was read, so that no two byte strings decode to the same value.
\<close>

section \<open>Formats\<close>

abbreviation FormatVersion :: u16 where "FormatVersion \<equiv> 2"

definition segmentHeaderMagic :: bytes where
  "segmentHeaderMagic = [0x52, 0x49, 0x44, 0x41, 0x50, 0x56, 0x32, 0x48]"  \<comment> \<open>RIDAPV2H\<close>

definition recordMagic :: bytes where
  "recordMagic = [0x52, 0x32, 0x52, 0x43]"  \<comment> \<open>R2RC\<close>

definition segmentFooterMagic :: bytes where
  "segmentFooterMagic = [0x52, 0x49, 0x44, 0x41, 0x50, 0x56, 0x32, 0x46]"  \<comment> \<open>RIDAPV2F\<close>

lemma length_magic [simp]:
  "length segmentHeaderMagic = 8" "length recordMagic = 4" "length segmentFooterMagic = 8"
  by (simp_all add: segmentHeaderMagic_def recordMagic_def segmentFooterMagic_def)

text \<open>
  A \<^verbatim>\<open>LogID\<close> is a Go array of 16 bytes: the 128-bit word whose little-endian bytes are the array.
\<close>

type_synonym LogID = "128 word"

definition LogID_bytes :: "LogID \<Rightarrow> bytes" where
  "LogID_bytes i = le_bytes 16 i"

definition LogID_of :: "bytes \<Rightarrow> LogID" where
  "LogID_of bs = le_word bs"

lemma LogID_bytes_simps [simp]: "length (LogID_bytes i) = 16" "LogID_of (LogID_bytes i) = i"
  by (simp_all add: LogID_bytes_def LogID_of_def le_word_le_bytes)

lemma LogID_bytes_of: "length bs = 16 \<Longrightarrow> LogID_bytes (LogID_of bs) = bs"
  by (simp add: LogID_bytes_def LogID_of_def le_bytes_le_word)

record SegmentHeader =
  SH_LogID :: LogID
  SH_SegmentID :: SegmentID
  SH_PreviousSegment :: SegmentID
  SH_SegmentSize :: u32

record RecordHeader =
  RH_PhysicalSize :: u32
  RH_PayloadSize :: u32
  RH_Addr :: VAddr
  RH_PayloadCRC :: u32

record SegmentFooter =
  SF_SegmentID :: SegmentID
  SF_DataEnd :: u32
  SF_FirstAddr :: VAddr
  SF_LastAddr :: VAddr
  SF_RecordCount :: u64

definition PhysicalRecordSize :: "nat \<Rightarrow> u32 res" where
  "PhysicalRecordSize payloadSize =
     (if payloadSize > MaxUint32 \<or> payloadSize > MaxUint64 - 32 then Inl recordlog_ErrPayloadTooBig
      else let total = (32 + payloadSize + 7) div 8 * 8
           in if total > MaxUint32 then Inl recordlog_ErrPayloadTooBig
              else Inr (word_of_nat total))"

definition segment_shape_ok :: "SegmentHeader \<Rightarrow> bool" where
  \<comment> \<open>the configuration check shared by \<^verbatim>\<open>EncodeSegmentHeader\<close> and \<^verbatim>\<open>DecodeSegmentHeader\<close>\<close>
  "segment_shape_ok h \<longleftrightarrow>
     \<not> (SH_LogID h = 0 \<or> SH_SegmentID h = 0 \<or>
        SH_SegmentSize h \<le> SegmentHeaderSize + RecordHeaderSize + SegmentFooterSize \<or>
        SH_SegmentSize h AND (RecordAlignment - 1) \<noteq> 0)"

definition EncodeSegmentHeader :: "SegmentHeader \<Rightarrow> bytes res" where
  "EncodeSegmentHeader h =
     (if \<not> segment_shape_ok h then Inl recordlog_ErrInvalidConfig
      else let dst = segmentHeaderMagic @ le16 FormatVersion @ le16 64 @ le32 (SH_SegmentID h) @
                     le32 (SH_SegmentSize h) @ le32 (SH_PreviousSegment h) @ LogID_bytes (SH_LogID h) @
                     le32 SegmentHeaderSize @ replicate 16 0
           in Inr (dst @ le32 (crc32c dst)))"

definition DecodeSegmentHeader :: "bytes \<Rightarrow> SegmentHeader res" where
  "DecodeSegmentHeader src =
     (if length src \<noteq> 64 \<or> subslice 0 8 src \<noteq> segmentHeaderMagic then Inl recordlog_ErrCorrupt
      else if get16 (subslice 8 10 src) \<noteq> FormatVersion then Inl recordlog_ErrUnsupported
      else if get16 (subslice 10 12 src) \<noteq> 64 \<or>
              get32 (subslice 60 64 src) \<noteq> crc32c (subslice 0 60 src) then Inl recordlog_ErrCorrupt
      else let h = \<lparr>SH_LogID = LogID_of (subslice 24 40 src),
                    SH_SegmentID = get32 (subslice 12 16 src),
                    SH_PreviousSegment = get32 (subslice 20 24 src),
                    SH_SegmentSize = get32 (subslice 16 20 src)\<rparr>
           in if \<not> segment_shape_ok h \<or> get32 (subslice 40 44 src) \<noteq> SegmentHeaderSize \<or>
                 \<not> all_zero (subslice 44 60 src) then Inl recordlog_ErrCorrupt
              else Inr h)"

definition EncodeRecordTo :: "nat \<Rightarrow> VAddr \<Rightarrow> bytes \<Rightarrow> bytes res" where
  \<comment> \<open>the first argument is the length of the destination buffer, the result its new contents\<close>
  "EncodeRecordTo dst_len addr payload =
     res_bind (PhysicalRecordSize (length payload)) (\<lambda>total.
       if dst_len \<noteq> unat total then Inl recordlog_ErrInvalidConfig
       else if \<not> VAddr_Valid addr \<or> \<not> VAddr_MatchesPhysicalSize addr total
       then Inl recordlog_ErrInvalidVAddr
       else let head = recordMagic @ le16 FormatVersion @ le16 32 @ le32 total @
                       le32 (word_of_nat (length payload)) @ le64 addr @ le32 (crc32c payload)
            in Inr (head @ le32 (crc32c head) @ payload @ replicate (dst_len - 32 - length payload) 0))"

definition EncodeRecord :: "VAddr \<Rightarrow> bytes \<Rightarrow> bytes res" where
  "EncodeRecord addr payload =
     res_bind (PhysicalRecordSize (length payload)) (\<lambda>total. EncodeRecordTo (unat total) addr payload)"

definition DecodeRecordHeader :: "bytes \<Rightarrow> RecordHeader res" where
  "DecodeRecordHeader src =
     (if length src \<noteq> 32 \<or> subslice 0 4 src \<noteq> recordMagic then Inl recordlog_ErrCorrupt
      else if get16 (subslice 4 6 src) \<noteq> FormatVersion then Inl recordlog_ErrUnsupported
      else if get16 (subslice 6 8 src) \<noteq> 32 \<or>
              get32 (subslice 28 32 src) \<noteq> crc32c (subslice 0 28 src) then Inl recordlog_ErrCorrupt
      else let h = \<lparr>RH_PhysicalSize = get32 (subslice 8 12 src),
                    RH_PayloadSize = get32 (subslice 12 16 src),
                    RH_Addr = get64 (subslice 16 24 src),
                    RH_PayloadCRC = get32 (subslice 24 28 src)\<rparr>
           in case PhysicalRecordSize (unat (RH_PayloadSize h)) of
                Inl _ \<Rightarrow> Inl recordlog_ErrCorrupt
              | Inr want \<Rightarrow>
                  if RH_PhysicalSize h \<noteq> want \<or> \<not> VAddr_Valid (RH_Addr h) \<or>
                     \<not> VAddr_MatchesPhysicalSize (RH_Addr h) (RH_PhysicalSize h)
                  then Inl recordlog_ErrCorrupt else Inr h)"

definition DecodeRecord :: "bytes \<Rightarrow> (RecordHeader \<times> bytes) res" where
  "DecodeRecord src =
     (if length src < 32 then Inl recordlog_ErrCorrupt
      else res_bind (DecodeRecordHeader (subslice 0 32 src)) (\<lambda>h.
        if length src \<noteq> unat (RH_PhysicalSize h) \<or>
           RH_PayloadSize h > RH_PhysicalSize h - RecordHeaderSize then Inl recordlog_ErrCorrupt
        else let payloadEnd = unat (RecordHeaderSize + RH_PayloadSize h);
                 payload = subslice 32 payloadEnd src
             in if crc32c payload \<noteq> RH_PayloadCRC h \<or> \<not> all_zero (drop payloadEnd src)
                then Inl recordlog_ErrCorrupt
                else Inr (h, payload)))"

definition validateSegmentFooter :: "SegmentFooter \<Rightarrow> err option" where
  "validateSegmentFooter f =
     (if SF_SegmentID f = 0 \<or> SF_DataEnd f < SegmentHeaderSize \<or>
         SF_DataEnd f AND (RecordAlignment - 1) \<noteq> 0 then Some recordlog_ErrInvalidConfig
      else if SF_RecordCount f = 0 then
        if SF_FirstAddr f \<noteq> 0 \<or> SF_LastAddr f \<noteq> 0 \<or> SF_DataEnd f \<noteq> SegmentHeaderSize
        then Some recordlog_ErrInvalidConfig else None
      else if \<not> VAddr_Valid (SF_FirstAddr f) \<or> \<not> VAddr_Valid (SF_LastAddr f) \<or>
              VAddr_SegmentID (SF_FirstAddr f) \<noteq> SF_SegmentID f \<or>
              VAddr_SegmentID (SF_LastAddr f) \<noteq> SF_SegmentID f \<or>
              SF_FirstAddr f > SF_LastAddr f \<or> VAddr_Offset (SF_LastAddr f) \<ge> SF_DataEnd f
      then Some recordlog_ErrInvalidConfig
      else None)"

definition EncodeSegmentFooter :: "SegmentFooter \<Rightarrow> bytes res" where
  "EncodeSegmentFooter f =
     (case validateSegmentFooter f of
        Some e \<Rightarrow> Inl e
      | None \<Rightarrow>
          let dst = segmentFooterMagic @ le16 FormatVersion @ le16 64 @ le32 (SF_SegmentID f) @
                    le32 (SF_DataEnd f) @ replicate 4 0 @ le64 (SF_FirstAddr f) @
                    le64 (SF_LastAddr f) @ le64 (SF_RecordCount f) @ replicate 12 0
          in Inr (dst @ le32 (crc32c dst)))"

definition DecodeSegmentFooter :: "bytes \<Rightarrow> SegmentFooter res" where
  "DecodeSegmentFooter src =
     (if length src \<noteq> 64 \<or> subslice 0 8 src \<noteq> segmentFooterMagic then Inl recordlog_ErrCorrupt
      else if get16 (subslice 8 10 src) \<noteq> FormatVersion then Inl recordlog_ErrUnsupported
      else if get16 (subslice 10 12 src) \<noteq> 64 \<or>
              get32 (subslice 60 64 src) \<noteq> crc32c (subslice 0 60 src) \<or>
              \<not> all_zero (subslice 20 24 src) \<or> \<not> all_zero (subslice 48 60 src)
      then Inl recordlog_ErrCorrupt
      else let f = \<lparr>SF_SegmentID = get32 (subslice 12 16 src),
                    SF_DataEnd = get32 (subslice 16 20 src),
                    SF_FirstAddr = get64 (subslice 24 32 src),
                    SF_LastAddr = get64 (subslice 32 40 src),
                    SF_RecordCount = get64 (subslice 40 48 src)\<rparr>
           in case validateSegmentFooter f of
                Some _ \<Rightarrow> Inl recordlog_ErrCorrupt
              | None \<Rightarrow> Inr f)"

section \<open>Sizes\<close>

lemma PhysicalRecordSize_Inr:
  assumes "PhysicalRecordSize n = Inr tot"
  shows "unat tot = (n + 39) div 8 * 8" "n + 32 \<le> unat tot" "unat tot < n + 40"
    "tot AND 7 = 0" "32 \<le> tot"
proof -
  from assms have t: "tot = word_of_nat ((n + 39) div 8 * 8)" and b: "(n + 39) div 8 * 8 \<le> MaxUint32"
    by (auto simp: PhysicalRecordSize_def Let_def add.commute split: if_splits)
  show u: "unat tot = (n + 39) div 8 * 8"
    unfolding t using b by (subst unat_of_nat) simp
  then show "n + 32 \<le> unat tot" "unat tot < n + 40" by linarith+
  then show "32 \<le> tot" by (simp add: word_le_nat_alt)
  show "tot AND 7 = 0" by (simp add: aligned_iff u)
qed

lemma PhysicalRecordSize_total: "n \<le> 4294967256 \<Longrightarrow> \<exists>tot. PhysicalRecordSize n = Inr tot"
  by (auto simp: PhysicalRecordSize_def Let_def)

section \<open>Round trips\<close>

lemma DecodeSegmentHeader_Encode:
  "EncodeSegmentHeader h = Inr bs \<Longrightarrow> DecodeSegmentHeader bs = Inr h"
  by (cases h)
     (auto simp: EncodeSegmentHeader_def DecodeSegmentHeader_def Let_def codec_simps split: if_splits)

lemma EncodeSegmentHeader_Decode:
  assumes "DecodeSegmentHeader bs = Inr h"
  shows "EncodeSegmentHeader h = Inr bs"
proof -
  have len: "length bs = 64"
    and f: "segmentHeaderMagic = subslice 0 8 bs" "get16 (subslice 8 10 bs) = 2"
      "get16 (subslice 10 12 bs) = 64" "get32 (subslice 60 64 bs) = crc32c (subslice 0 60 bs)"
      "get32 (subslice 40 44 bs) = 64" "all_zero (subslice 44 60 bs)" "segment_shape_ok h"
    and h: "h = \<lparr>SH_LogID = LogID_of (subslice 24 40 bs), SH_SegmentID = get32 (subslice 12 16 bs),
      SH_PreviousSegment = get32 (subslice 20 24 bs), SH_SegmentSize = get32 (subslice 16 20 bs)\<rparr>"
    using assms by (auto simp: DecodeSegmentHeader_def Let_def split: if_splits)
  have "segmentHeaderMagic @ le16 2 @ le16 64 @ le32 (SH_SegmentID h) @ le32 (SH_SegmentSize h) @
      le32 (SH_PreviousSegment h) @ LogID_bytes (SH_LogID h) @ le32 64 @ replicate 16 0 = subslice 0 60 bs"
    unfolding f(1) using len get_eqD(1) [OF f(2)] get_eqD(1) [OF f(3)] get_eqD(2) [OF f(5)] all_zero_subslice [OF f(6)]
    by (simp add: h codec_simps le_get LogID_bytes_of subslice_join)
  moreover have "subslice 0 60 bs @ le32 (crc32c (subslice 0 60 bs)) = bs"
    using len get_eqD(2) [OF f(4)] by (simp add: codec_simps subslice_join)
  ultimately show ?thesis
    using f(7) by (simp add: EncodeSegmentHeader_def Let_def)
qed

lemma DecodeSegmentFooter_Encode:
  "EncodeSegmentFooter f = Inr bs \<Longrightarrow> DecodeSegmentFooter bs = Inr f"
  by (cases f)
     (auto simp: EncodeSegmentFooter_def DecodeSegmentFooter_def Let_def codec_simps
       split: if_splits option.splits)

lemma EncodeSegmentFooter_Decode:
  assumes "DecodeSegmentFooter bs = Inr f"
  shows "EncodeSegmentFooter f = Inr bs"
proof -
  have len: "length bs = 64"
    and c: "segmentFooterMagic = subslice 0 8 bs" "get16 (subslice 8 10 bs) = 2"
      "get16 (subslice 10 12 bs) = 64" "get32 (subslice 60 64 bs) = crc32c (subslice 0 60 bs)"
      "all_zero (subslice 20 24 bs)" "all_zero (subslice 48 60 bs)" "validateSegmentFooter f = None"
    and f: "f = \<lparr>SF_SegmentID = get32 (subslice 12 16 bs), SF_DataEnd = get32 (subslice 16 20 bs),
      SF_FirstAddr = get64 (subslice 24 32 bs), SF_LastAddr = get64 (subslice 32 40 bs),
      SF_RecordCount = get64 (subslice 40 48 bs)\<rparr>"
    using assms by (auto simp: DecodeSegmentFooter_def Let_def split: if_splits option.splits)
  have "segmentFooterMagic @ le16 2 @ le16 64 @ le32 (SF_SegmentID f) @ le32 (SF_DataEnd f) @
      replicate 4 0 @ le64 (SF_FirstAddr f) @ le64 (SF_LastAddr f) @ le64 (SF_RecordCount f) @
      replicate 12 0 = subslice 0 60 bs"
    unfolding c(1) using len get_eqD(1) [OF c(2)] get_eqD(1) [OF c(3)] all_zero_subslice [OF c(5)]
      all_zero_subslice [OF c(6)]
    by (simp add: f codec_simps le_get subslice_join)
  moreover have "subslice 0 60 bs @ le32 (crc32c (subslice 0 60 bs)) = bs"
    using len get_eqD(2) [OF c(4)] by (simp add: codec_simps subslice_join)
  ultimately show ?thesis
    using c(7) by (simp add: EncodeSegmentFooter_def Let_def)
qed

lemma DecodeRecordHeader_Encode:
  assumes "EncodeRecord addr payload = Inr bs" "PhysicalRecordSize (length payload) = Inr tot"
  shows "DecodeRecordHeader (subslice 0 32 bs) =
    Inr \<lparr>RH_PhysicalSize = tot, RH_PayloadSize = word_of_nat (length payload), RH_Addr = addr,
         RH_PayloadCRC = crc32c payload\<rparr>"
    "length bs = unat tot"
    "subslice 32 (32 + length payload) bs = payload" "all_zero (drop (32 + length payload) bs)"
proof -
  note sz = PhysicalRecordSize_Inr [OF assms(2)]
  have "length payload \<le> MaxUint32"
    using assms(2) by (simp add: PhysicalRecordSize_def split: if_splits)
  then have n: "unat (word_of_nat (length payload) :: u32) = length payload"
    by (simp add: unat_of_nat)
  define head where "head = recordMagic @ le16 2 @ le16 32 @ le32 tot @
    le32 (word_of_nat (length payload)) @ le64 addr @ le32 (crc32c payload)"
  have bs: "bs = (head @ le32 (crc32c head)) @ payload @ replicate (unat tot - 32 - length payload) 0"
    and v: "VAddr_Valid addr" "VAddr_MatchesPhysicalSize addr tot"
    using assms by (auto simp: EncodeRecord_def EncodeRecordTo_def Let_def head_def split: if_splits)
  have h: "length head = 28" by (simp add: head_def)
  have "DecodeRecordHeader (head @ le32 (crc32c head)) =
    Inr \<lparr>RH_PhysicalSize = tot, RH_PayloadSize = word_of_nat (length payload), RH_Addr = addr,
         RH_PayloadCRC = crc32c payload\<rparr>"
    using assms(2) v n by (simp add: DecodeRecordHeader_def h codec_simps) (simp add: head_def codec_simps)
  moreover have "subslice 0 32 bs = head @ le32 (crc32c head)"
    unfolding bs using h by (subst subslice_append_left) (simp_all add: subslice_all)
  ultimately show "DecodeRecordHeader (subslice 0 32 bs) =
    Inr \<lparr>RH_PhysicalSize = tot, RH_PayloadSize = word_of_nat (length payload), RH_Addr = addr,
         RH_PayloadCRC = crc32c payload\<rparr>"
    by simp
  show "length bs = unat tot"
    "subslice 32 (32 + length payload) bs = payload" "all_zero (drop (32 + length payload) bs)"
    using h sz(2) by (simp_all add: bs codec_simps)
qed

lemma DecodeRecord_Encode:
  assumes "EncodeRecord addr payload = Inr bs" "PhysicalRecordSize (length payload) = Inr tot"
  shows "DecodeRecord bs =
    Inr (\<lparr>RH_PhysicalSize = tot, RH_PayloadSize = word_of_nat (length payload), RH_Addr = addr,
          RH_PayloadCRC = crc32c payload\<rparr>, payload)"
proof -
  note sz = PhysicalRecordSize_Inr [OF assms(2)] and rt = DecodeRecordHeader_Encode [OF assms]
  have "length payload + 32 \<le> MaxUint32"
    using sz(2) unat_u32_bound [of tot] by linarith
  then have n: "unat (word_of_nat (length payload) :: u32) = length payload"
    and n32: "unat (32 + word_of_nat (length payload) :: u32) = 32 + length payload"
    by (simp_all add: unat_of_nat unat_word_ariths)
  have "\<not> tot - 32 < word_of_nat (length payload)"
    using sz n by (simp add: word_less_nat_alt unat_sub)
  then show ?thesis
    using rt sz by (simp add: DecodeRecord_def n32)
qed

lemma EncodeRecord_Decode:
  assumes "DecodeRecord bs = Inr (h, payload)"
  shows "EncodeRecord (RH_Addr h) payload = Inr bs"
    "PhysicalRecordSize (length payload) = Inr (RH_PhysicalSize h)"
    "unat (RH_PayloadSize h) = length payload" "length bs = unat (RH_PhysicalSize h)"
    "RH_PayloadCRC h = crc32c payload"
proof -
  define pe where "pe = unat (RecordHeaderSize + RH_PayloadSize h)"
  have dh: "DecodeRecordHeader (subslice 0 32 bs) = Inr h" and len: "length bs = unat (RH_PhysicalSize h)"
    and le: "RH_PayloadSize h \<le> RH_PhysicalSize h - 32" and p: "payload = subslice 32 pe bs"
    and crc: "crc32c payload = RH_PayloadCRC h" and z: "all_zero (drop pe bs)" and l32: "32 \<le> length bs"
    using assms by (auto simp: DecodeRecord_def Let_def pe_def split: if_splits)
  have c: "recordMagic = subslice 0 4 bs" "get16 (subslice 4 6 bs) = 2" "get16 (subslice 6 8 bs) = 32"
      "get32 (subslice 28 32 bs) = crc32c (subslice 0 28 bs)"
      "PhysicalRecordSize (unat (RH_PayloadSize h)) = Inr (RH_PhysicalSize h)"
      "VAddr_Valid (RH_Addr h)" "VAddr_MatchesPhysicalSize (RH_Addr h) (RH_PhysicalSize h)"
    and h: "h = \<lparr>RH_PhysicalSize = get32 (subslice 8 12 bs), RH_PayloadSize = get32 (subslice 12 16 bs),
      RH_Addr = get64 (subslice 16 24 bs), RH_PayloadCRC = get32 (subslice 24 28 bs)\<rparr>"
    using dh l32
    by (auto simp: DecodeRecordHeader_def Let_def codec_simps subslice_subslice split: if_splits sum.splits)
  note sz = PhysicalRecordSize_Inr [OF c(5)]
  have pe: "pe = 32 + unat (RH_PayloadSize h)"
    using sz(2) unat_u32_bound [of "RH_PhysicalSize h"] by (simp add: pe_def unat_word_ariths)
  then have lp: "length payload = unat (RH_PayloadSize h)" and pe_le: "pe \<le> length bs"
    using p len sz(2) by (simp_all add: length_subslice)
  show "unat (RH_PayloadSize h) = length payload" "length bs = unat (RH_PhysicalSize h)"
    "RH_PayloadCRC h = crc32c payload" "PhysicalRecordSize (length payload) = Inr (RH_PhysicalSize h)"
    using lp len crc c(5) by simp_all
  have "recordMagic @ le16 2 @ le16 32 @ le32 (RH_PhysicalSize h) @
      le32 (word_of_nat (length payload)) @ le64 (RH_Addr h) @ le32 (crc32c payload) = subslice 0 28 bs"
    unfolding c(1) lp crc using l32 get_eqD(1) [OF c(2)] get_eqD(1) [OF c(3)]
    by (simp add: h codec_simps le_get subslice_join)
  moreover have "subslice 0 28 bs @ le32 (crc32c (subslice 0 28 bs)) @ payload @
      replicate (length bs - 32 - length payload) 0 = bs"
  proof -
    have "replicate (length bs - pe) 0 = subslice pe (length bs) bs"
      using z by (simp add: drop_eq_subslice all_zero_subslice)
    then show ?thesis
      using l32 get_eqD(2) [OF c(4)] pe_le lp pe
      by (simp add: p codec_simps subslice_join)
  qed
  ultimately show "EncodeRecord (RH_Addr h) payload = Inr bs"
    using c(5-7) lp len by (simp add: EncodeRecord_def EncodeRecordTo_def Let_def)
qed

lemma EncodeRecord_Inr_iff:
  "(\<exists>bs. EncodeRecord addr payload = Inr bs) \<longleftrightarrow>
   (\<exists>tot. PhysicalRecordSize (length payload) = Inr tot \<and> VAddr_Valid addr \<and>
     VAddr_MatchesPhysicalSize addr tot)"
  by (auto simp: EncodeRecord_def EncodeRecordTo_def Let_def split: if_splits)

section \<open>The codecs are exact\<close>

text \<open>
  C3: a frame decodes to a header and a payload if and only if it is the one image that
  \<^verbatim>\<open>EncodeRecord\<close> writes for that address and payload. Both sizes, both checksums and the zero
  padding are determined by the payload, so no two byte strings decode to the same record.
\<close>

theorem DecodeRecord_exact:
  "DecodeRecord bs = Inr (h, payload) \<longleftrightarrow>
     EncodeRecord (RH_Addr h) payload = Inr bs \<and>
     PhysicalRecordSize (length payload) = Inr (RH_PhysicalSize h) \<and>
     unat (RH_PayloadSize h) = length payload \<and> RH_PayloadCRC h = crc32c payload"
proof
  assume "DecodeRecord bs = Inr (h, payload)"
  from EncodeRecord_Decode [OF this]
  show "EncodeRecord (RH_Addr h) payload = Inr bs \<and>
     PhysicalRecordSize (length payload) = Inr (RH_PhysicalSize h) \<and>
     unat (RH_PayloadSize h) = length payload \<and> RH_PayloadCRC h = crc32c payload"
    by simp
next
  assume a: "EncodeRecord (RH_Addr h) payload = Inr bs \<and>
     PhysicalRecordSize (length payload) = Inr (RH_PhysicalSize h) \<and>
     unat (RH_PayloadSize h) = length payload \<and> RH_PayloadCRC h = crc32c payload"
  then have "word_of_nat (length payload) = RH_PayloadSize h"
    by (auto dest: sym)
  then show "DecodeRecord bs = Inr (h, payload)"
    using a DecodeRecord_Encode [of "RH_Addr h" payload bs "RH_PhysicalSize h"] by simp
qed

text \<open>
  C10: the segment header and the segment footer codecs are exact inverses of each other: a
  64-byte block decodes to a value exactly when encoding that value gives the block.
\<close>

theorem segment_frames_exact:
  "(DecodeSegmentHeader bs = Inr h \<longleftrightarrow> EncodeSegmentHeader h = Inr bs) \<and>
   (DecodeSegmentFooter bs = Inr f \<longleftrightarrow> EncodeSegmentFooter f = Inr bs)"
  using DecodeSegmentHeader_Encode EncodeSegmentHeader_Decode DecodeSegmentFooter_Encode
    EncodeSegmentFooter_Decode by blast

end
