(* ===== verification/Record_Codec.thy ===== *)
theory Record_Codec
  imports Record_Format
begin

text \<open>
  The protocol records stored as payloads of the record log (\<^verbatim>\<open>internal/recordcodec\<close>): the put
  record, the commit group with its descriptors and mutations, the abort record, the two
  reservation records and the checkpoint marker. Every encoder is the concatenation of the fields
  in offset order; every decoder reads the fields at the offsets of the source. The lemmas show
  that each decoder accepts exactly the images its encoder writes.
\<close>

section \<open>Record types\<close>

abbreviation recordcodec_FormatVersion :: u16 where "recordcodec_FormatVersion \<equiv> 3"
abbreviation CommonHeaderSize :: u32 where "CommonHeaderSize \<equiv> 16"
abbreviation PutHeaderSize :: u32 where "PutHeaderSize \<equiv> 32"
abbreviation CommitGroupHeadSize :: u32 where "CommitGroupHeadSize \<equiv> 32"
abbreviation DescriptorHeadSize :: u32 where "DescriptorHeadSize \<equiv> 40"
abbreviation MutationSize :: u32 where "MutationSize \<equiv> 32"
abbreviation FixedRecordSize :: u32 where "FixedRecordSize \<equiv> 32"

text \<open>\<^verbatim>\<open>RecordType\<close>, \<^verbatim>\<open>DescriptorKind\<close> and \<^verbatim>\<open>Operation\<close> are open \<^verbatim>\<open>uint8\<close> types: any byte can be decoded.\<close>

type_synonym RecordType = u8
type_synonym DescriptorKind = u8
type_synonym Operation = u8

abbreviation RecordTypePut :: RecordType where "RecordTypePut \<equiv> 1"
abbreviation RecordTypeCommitGroup :: RecordType where "RecordTypeCommitGroup \<equiv> 2"
abbreviation RecordTypeAbort :: RecordType where "RecordTypeAbort \<equiv> 3"
abbreviation RecordTypeIDReserve :: RecordType where "RecordTypeIDReserve \<equiv> 4"
abbreviation RecordTypeBatchIDReserve :: RecordType where "RecordTypeBatchIDReserve \<equiv> 5"
abbreviation RecordTypeCheckpoint :: RecordType where "RecordTypeCheckpoint \<equiv> 6"
abbreviation DescriptorUserCommit :: DescriptorKind where "DescriptorUserCommit \<equiv> 1"
abbreviation DescriptorRelocation :: DescriptorKind where "DescriptorRelocation \<equiv> 2"
abbreviation OperationPut :: Operation where "OperationPut \<equiv> 1"
abbreviation OperationDelete :: Operation where "OperationDelete \<equiv> 2"
abbreviation OperationRelocate :: Operation where "OperationRelocate \<equiv> 3"

record PutRecord =
  P_OriginBatchID :: BatchID
  P_RecordID :: record_id
  P_Value :: bytes

record PutMetadata =
  PM_OriginBatchID :: BatchID
  PM_RecordID :: record_id
  PM_ValueBytes :: u64

record Mutation =
  M_RecordID :: record_id
  M_NewAddr :: VAddr
  M_ExpectedOldAddr :: VAddr
  M_Operation :: Operation
  M_PhysicalSize :: u32

record Descriptor =
  D_Kind :: DescriptorKind
  D_BatchID :: BatchID
  D_CommitSeq :: CommitSeq
  D_LogicalPayloadBytes :: u64
  D_Mutations :: "Mutation list"

record CommitGroup =
  G_Descriptors :: "Descriptor list"

record AbortRecord =
  AB_BatchID :: BatchID
  AB_Reason :: u32

record ReserveRecord =
  RR_HighExclusive :: u64

record CheckpointMarker =
  CM_CoveredCommitSeq :: CommitSeq

record header =
  HD_Type :: RecordType
  HD_HeaderSize :: u16
  HD_TotalSize :: u32

definition protocolMagic :: bytes where
  "protocolMagic = [0x52, 0x53, 0x50, 0x32]"  \<comment> \<open>RSP2\<close>

lemma length_protocolMagic [simp]: "length protocolMagic = 4"
  by (simp add: protocolMagic_def)

section \<open>Sizes\<close>

definition checkedSize :: "nat \<Rightarrow> nat \<Rightarrow> u32 res" where
  "checkedSize a b =
     (if a > MaxUint32 \<or> b > MaxUint32 - a then Inl recordcodec_ErrTooLarge
      else Inr (word_of_nat (a + b)))"

definition checkedMul :: "nat \<Rightarrow> nat \<Rightarrow> nat option" where
  "checkedMul a b = (if a \<noteq> 0 \<and> b > MaxUint64 div a then None else Some (a * b))"

definition PutPayloadSize :: "nat \<Rightarrow> u32 res" where
  "PutPayloadSize valueBytes = checkedSize 32 valueBytes"

definition DescriptorSize :: "nat \<Rightarrow> u32 res" where
  "DescriptorSize mutationCount =
     (case checkedMul mutationCount 32 of
        None \<Rightarrow> Inl recordcodec_ErrTooLarge
      | Some mutations \<Rightarrow> checkedSize 40 mutations)"

definition CommitGroupPayloadSize :: "Descriptor list \<Rightarrow> u32 res" where
  "CommitGroupPayloadSize ds =
     (if ds = [] \<or> length ds > MaxUint32 then Inl recordcodec_ErrInvalid
      else res_bind
        (res_fold (\<lambda>tot d.
           case DescriptorSize (length (D_Mutations d)) of
             Inl _ \<Rightarrow> Inl recordcodec_ErrTooLarge
           | Inr sz \<Rightarrow> if tot > MaxUint32 - unat sz then Inl recordcodec_ErrTooLarge
                       else Inr (tot + unat sz)) 32 ds)
        (\<lambda>tot. Inr (word_of_nat tot)))"

section \<open>The common header\<close>

definition encodeHeader :: "nat \<Rightarrow> RecordType \<Rightarrow> u32 \<Rightarrow> bytes" where
  \<comment> \<open>the first 16 bytes of a destination of the given length\<close>
  "encodeHeader dst_len typ headerSize =
     protocolMagic @ le16 recordcodec_FormatVersion @ [typ, 0] @ le16 (ucast headerSize) @
     replicate 2 0 @ le32 (word_of_nat dst_len)"

definition decodeHeader :: "bytes \<Rightarrow> RecordType \<Rightarrow> u32 \<Rightarrow> header res" where
  "decodeHeader src typ headerSize =
     (if length src < 16 \<or> length src > MaxUint32 \<or> subslice 0 4 src \<noteq> protocolMagic
      then Inl recordcodec_ErrCorrupt
      else if get16 (subslice 4 6 src) \<noteq> recordcodec_FormatVersion then Inl recordcodec_ErrUnsupported
      else let h = \<lparr>HD_Type = src ! 6, HD_HeaderSize = get16 (subslice 8 10 src),
                    HD_TotalSize = get32 (subslice 12 16 src)\<rparr>
           in if HD_Type h \<noteq> typ \<or> src ! 7 \<noteq> 0 \<or> HD_HeaderSize h \<noteq> ucast headerSize \<or>
                 get16 (subslice 10 12 src) \<noteq> 0 \<or> HD_TotalSize h \<noteq> word_of_nat (length src) \<or>
                 length src < unat headerSize
              then Inl recordcodec_ErrCorrupt else Inr h)"

definition TypeOf :: "bytes \<Rightarrow> RecordType res" where
  "TypeOf src =
     (if length src < 16 then Inl recordcodec_ErrCorrupt
      else let typ = src ! 6 in
        if typ = RecordTypePut then res_bind (decodeHeader src typ PutHeaderSize) (\<lambda>_. Inr typ)
        else if typ = RecordTypeCommitGroup
        then res_bind (decodeHeader src typ CommitGroupHeadSize) (\<lambda>_. Inr typ)
        else if typ = RecordTypeAbort \<or> typ = RecordTypeIDReserve \<or> typ = RecordTypeBatchIDReserve \<or>
                typ = RecordTypeCheckpoint
        then res_bind (decodeHeader src typ FixedRecordSize) (\<lambda>_. Inr typ)
        else Inl recordcodec_ErrCorrupt)"

section \<open>Put records\<close>

definition EncodePut :: "PutRecord \<Rightarrow> u64 \<Rightarrow> bytes res" where
  "EncodePut r maxValueSize =
     (if P_OriginBatchID r = 0 \<or> P_RecordID r = 0 \<or> length (P_Value r) > unat maxValueSize
      then Inl recordcodec_ErrInvalid
      else res_bind (PutPayloadSize (length (P_Value r))) (\<lambda>total.
        Inr (encodeHeader (unat total) RecordTypePut PutHeaderSize @ le64 (P_OriginBatchID r) @
             le64 (P_RecordID r) @ P_Value r)))"

definition DecodePut :: "bytes \<Rightarrow> u64 \<Rightarrow> PutRecord res" where
  "DecodePut src maxValueSize =
     res_bind (decodeHeader src RecordTypePut PutHeaderSize) (\<lambda>_.
       let r = \<lparr>P_OriginBatchID = get64 (subslice 16 24 src), P_RecordID = get64 (subslice 24 32 src),
                P_Value = drop 32 src\<rparr>
       in if P_OriginBatchID r = 0 \<or> P_RecordID r = 0 \<or> length (P_Value r) > unat maxValueSize
          then Inl recordcodec_ErrCorrupt else Inr r)"

definition DecodePutMetadata :: "bytes \<Rightarrow> u32 \<Rightarrow> u64 \<Rightarrow> PutMetadata res" where
  "DecodePutMetadata src payloadSize maxValueSize =
     (if length src \<noteq> 32 \<or> payloadSize < PutHeaderSize \<or> subslice 0 4 src \<noteq> protocolMagic
      then Inl recordcodec_ErrCorrupt
      else if get16 (subslice 4 6 src) \<noteq> recordcodec_FormatVersion then Inl recordcodec_ErrUnsupported
      else if src ! 6 \<noteq> RecordTypePut \<or> src ! 7 \<noteq> 0 \<or> get16 (subslice 8 10 src) \<noteq> 32 \<or>
              get16 (subslice 10 12 src) \<noteq> 0 \<or> get32 (subslice 12 16 src) \<noteq> payloadSize
      then Inl recordcodec_ErrCorrupt
      else let r = \<lparr>PM_OriginBatchID = get64 (subslice 16 24 src),
                    PM_RecordID = get64 (subslice 24 32 src),
                    PM_ValueBytes = ucast (payloadSize - PutHeaderSize)\<rparr>
           in if PM_OriginBatchID r = 0 \<or> PM_RecordID r = 0 \<or> PM_ValueBytes r > maxValueSize
              then Inl recordcodec_ErrCorrupt else Inr r)"

section \<open>Commit groups\<close>

definition mutation_ref :: "Mutation \<Rightarrow> RecordRef" where
  \<comment> \<open>\<^verbatim>\<open>recordlog.RecordRef{Addr: mutation.NewAddr, PhysicalSize: mutation.PhysicalSize}\<close>\<close>
  "mutation_ref m = \<lparr>Ref_Addr = M_NewAddr m, Ref_PhysicalSize = M_PhysicalSize m\<rparr>"

definition mutation_ok :: "DescriptorKind \<Rightarrow> Mutation \<Rightarrow> bool" where
  \<comment> \<open>the switch on the descriptor kind inside \<^verbatim>\<open>validateDescriptors\<close>\<close>
  "mutation_ok kind m \<longleftrightarrow>
     (if kind = DescriptorUserCommit then
        if M_Operation m = OperationPut then RecordRef_Valid (mutation_ref m) \<and> M_ExpectedOldAddr m = 0
        else if M_Operation m = OperationDelete
        then M_NewAddr m = 0 \<and> M_ExpectedOldAddr m = 0 \<and> M_PhysicalSize m = 0
        else False
      else if kind = DescriptorRelocation then
        M_Operation m = OperationRelocate \<and> RecordRef_Valid (mutation_ref m) \<and>
        VAddr_Valid (M_ExpectedOldAddr m) \<and> M_NewAddr m \<noteq> M_ExpectedOldAddr m
      else False)"

fun validateMutations :: "DescriptorKind \<Rightarrow> nat \<Rightarrow> record_id \<Rightarrow> Mutation list \<Rightarrow> bool" where
  "validateMutations kind index previousID [] \<longleftrightarrow> True"
| "validateMutations kind index previousID (m # ms) \<longleftrightarrow>
     \<not> (M_RecordID m = 0 \<or> index \<noteq> 0 \<and> M_RecordID m \<le> previousID) \<and> mutation_ok kind m \<and>
     validateMutations kind (Suc index) (M_RecordID m) ms"

fun validateDescriptors_loop :: "nat \<Rightarrow> CommitSeq \<Rightarrow> BatchID set \<Rightarrow> Descriptor list \<Rightarrow> bool" where
  "validateDescriptors_loop i previousSeq batchIDs [] \<longleftrightarrow> True"
| "validateDescriptors_loop i previousSeq batchIDs (d # ds) \<longleftrightarrow>
     \<not> (D_BatchID d = 0 \<or> D_CommitSeq d = 0 \<or>
        i \<noteq> 0 \<and> (previousSeq = max_u64 \<or> D_CommitSeq d \<noteq> previousSeq + 1)) \<and>
     D_BatchID d \<notin> batchIDs \<and>
     \<not> (D_Kind d = DescriptorRelocation \<and> D_Mutations d = []) \<and>
     validateMutations (D_Kind d) 0 0 (D_Mutations d) \<and>
     validateDescriptors_loop (Suc i) (D_CommitSeq d) (insert (D_BatchID d) batchIDs) ds"

definition validateDescriptors :: "Descriptor list \<Rightarrow> err option" where
  "validateDescriptors ds =
     (if ds = [] \<or> \<not> validateDescriptors_loop 0 0 {} ds then Some recordcodec_ErrInvalid else None)"

definition encodeMutation :: "Mutation \<Rightarrow> bytes" where
  "encodeMutation m =
     le64 (M_RecordID m) @ le64 (M_NewAddr m) @ le64 (M_ExpectedOldAddr m) @ [M_Operation m] @
     le32 (M_PhysicalSize m) @ replicate 3 0"

definition encodeDescriptor :: "Descriptor \<Rightarrow> bytes" where
  "encodeDescriptor d =
     [D_Kind d, 0] @ le16 40 @ le32 (word_of_nat (length (D_Mutations d))) @ le64 (D_BatchID d) @
     le64 (D_CommitSeq d) @ le64 (D_LogicalPayloadBytes d) @
     le32 (case DescriptorSize (length (D_Mutations d)) of Inr sz \<Rightarrow> sz | Inl _ \<Rightarrow> 0) @
     replicate 4 0 @ concat (map encodeMutation (D_Mutations d))"

definition total_mutations :: "Descriptor list \<Rightarrow> nat" where
  "total_mutations ds = sum_list (map (\<lambda>d. length (D_Mutations d)) ds)"

definition EncodeCommitGroup :: "CommitGroup \<Rightarrow> u64 \<Rightarrow> bytes res" where
  "EncodeCommitGroup g maxPayloadSize =
     res_bind (CommitGroupPayloadSize (G_Descriptors g)) (\<lambda>total.
       if unat total > unat maxPayloadSize then Inl recordcodec_ErrTooLarge
       else case validateDescriptors (G_Descriptors g) of
         Some e \<Rightarrow> Inl e
       | None \<Rightarrow>
           let totalMutations = total_mutations (G_Descriptors g) in
           if totalMutations > MaxUint32 then Inl recordcodec_ErrTooLarge
           else Inr (encodeHeader (unat total) RecordTypeCommitGroup CommitGroupHeadSize @
                     le32 (word_of_nat (length (G_Descriptors g))) @
                     le32 (word_of_nat totalMutations) @
                     le64 (D_CommitSeq (hd (G_Descriptors g))) @
                     concat (map encodeDescriptor (G_Descriptors g))))"

definition decodeMutation :: "bytes \<Rightarrow> Mutation res" where
  "decodeMutation entry =
     (if \<not> all_zero (subslice 29 32 entry) then Inl recordcodec_ErrCorrupt
      else Inr \<lparr>M_RecordID = get64 (subslice 0 8 entry), M_NewAddr = get64 (subslice 8 16 entry),
                M_ExpectedOldAddr = get64 (subslice 16 24 entry), M_Operation = entry ! 24,
                M_PhysicalSize = get32 (subslice 25 29 entry)\<rparr>)"

fun decodeMutations :: "bytes \<Rightarrow> nat \<Rightarrow> nat \<Rightarrow> Mutation list res" where
  "decodeMutations src entryOffset 0 = Inr []"
| "decodeMutations src entryOffset (Suc n) =
     res_bind (decodeMutation (subslice entryOffset (entryOffset + 32) src)) (\<lambda>m.
     res_bind (decodeMutations src (entryOffset + 32) n) (\<lambda>ms. Inr (m # ms)))"

definition decodeDescriptor :: "bytes \<Rightarrow> u64 \<Rightarrow> nat \<Rightarrow> nat \<Rightarrow> (Descriptor \<times> nat) res" where
  \<comment> \<open>one turn of the loop of \<^verbatim>\<open>DecodeCommitGroup\<close>: the descriptor at \<open>offset\<close> and its size\<close>
  "decodeDescriptor src maxMutations offset totalMutations =
     (if offset > length src \<or> length src - offset < 40 then Inl recordcodec_ErrCorrupt
      else let hb = subslice offset (offset + 40) src in
        if hb ! 1 \<noteq> 0 \<or> get16 (subslice 2 4 hb) \<noteq> 40 \<or> get32 (subslice 36 40 hb) \<noteq> 0
        then Inl recordcodec_ErrCorrupt
        else let mutationCount = unat (get32 (subslice 4 8 hb));
                 descriptorSize = unat (get32 (subslice 32 36 hb)) in
          case DescriptorSize mutationCount of
            Inl _ \<Rightarrow> Inl recordcodec_ErrCorrupt
          | Inr wantSize \<Rightarrow>
              if descriptorSize \<noteq> unat wantSize \<or> descriptorSize > length src - offset \<or>
                 mutationCount > unat maxMutations - totalMutations
              then Inl recordcodec_ErrCorrupt
              else res_bind (decodeMutations src (offset + 40) mutationCount) (\<lambda>ms.
                Inr (\<lparr>D_Kind = hb ! 0, D_BatchID = get64 (subslice 8 16 hb),
                      D_CommitSeq = get64 (subslice 16 24 hb),
                      D_LogicalPayloadBytes = get64 (subslice 24 32 hb), D_Mutations = ms\<rparr>,
                     descriptorSize)))"

fun decodeDescriptors :: "bytes \<Rightarrow> u64 \<Rightarrow> nat \<Rightarrow> nat \<Rightarrow> nat \<Rightarrow> (Descriptor list \<times> nat \<times> nat) res" where
  "decodeDescriptors src maxMutations 0 offset totalMutations = Inr ([], offset, totalMutations)"
| "decodeDescriptors src maxMutations (Suc n) offset totalMutations =
     res_bind (decodeDescriptor src maxMutations offset totalMutations) (\<lambda>(d, descriptorSize).
     res_bind (decodeDescriptors src maxMutations n (offset + descriptorSize)
                 (totalMutations + length (D_Mutations d)))
       (\<lambda>(ds, off', tot'). Inr (d # ds, off', tot')))"

definition DecodeCommitGroup :: "bytes \<Rightarrow> u64 \<Rightarrow> u64 \<Rightarrow> u64 \<Rightarrow> CommitGroup res" where
  "DecodeCommitGroup src maxPayloadSize maxDescriptors maxMutations =
     (if length src > unat maxPayloadSize then Inl recordcodec_ErrTooLarge
      else res_bind (decodeHeader src RecordTypeCommitGroup CommitGroupHeadSize) (\<lambda>_.
        let count = unat (get32 (subslice 16 20 src));
            wantMutations = unat (get32 (subslice 20 24 src));
            firstSeq = get64 (subslice 24 32 src);
            maxByInput = (length src - 32) div 40
        in if count = 0 \<or> count > unat maxDescriptors \<or> count > maxByInput \<or>
              wantMutations > unat maxMutations \<or> firstSeq = 0 then Inl recordcodec_ErrCorrupt
           else res_bind (decodeDescriptors src maxMutations count 32 0) (\<lambda>(ds, offset, totalMutations).
             if offset \<noteq> length src \<or> totalMutations \<noteq> wantMutations then Inl recordcodec_ErrCorrupt
             else if validateDescriptors ds \<noteq> None then Inl recordcodec_ErrCorrupt
             else if D_CommitSeq (hd ds) \<noteq> firstSeq then Inl recordcodec_ErrCorrupt
             else Inr \<lparr>G_Descriptors = ds\<rparr>)))"

section \<open>Fixed records\<close>

definition EncodeAbort :: "AbortRecord \<Rightarrow> bytes res" where
  "EncodeAbort r =
     (if AB_BatchID r = 0 then Inl recordcodec_ErrInvalid
      else Inr (encodeHeader 32 RecordTypeAbort FixedRecordSize @ le64 (AB_BatchID r) @
                le32 (AB_Reason r) @ replicate 4 0))"

definition DecodeAbort :: "bytes \<Rightarrow> AbortRecord res" where
  "DecodeAbort src =
     res_bind (decodeHeader src RecordTypeAbort FixedRecordSize) (\<lambda>_.
       let r = \<lparr>AB_BatchID = get64 (subslice 16 24 src), AB_Reason = get32 (subslice 24 28 src)\<rparr>
       in if AB_BatchID r = 0 \<or> \<not> all_zero (subslice 28 32 src) then Inl recordcodec_ErrCorrupt
          else Inr r)"

definition EncodeReserve :: "RecordType \<Rightarrow> ReserveRecord \<Rightarrow> bytes res" where
  "EncodeReserve typ r =
     (if typ \<noteq> RecordTypeIDReserve \<and> typ \<noteq> RecordTypeBatchIDReserve \<or> RR_HighExclusive r = 0
      then Inl recordcodec_ErrInvalid
      else Inr (encodeHeader 32 typ FixedRecordSize @ le64 (RR_HighExclusive r) @ replicate 8 0))"

definition DecodeReserve :: "bytes \<Rightarrow> RecordType \<Rightarrow> ReserveRecord res" where
  "DecodeReserve src typ =
     (if typ \<noteq> RecordTypeIDReserve \<and> typ \<noteq> RecordTypeBatchIDReserve then Inl recordcodec_ErrInvalid
      else res_bind (decodeHeader src typ FixedRecordSize) (\<lambda>_.
        let r = \<lparr>RR_HighExclusive = get64 (subslice 16 24 src)\<rparr>
        in if RR_HighExclusive r = 0 \<or> \<not> all_zero (subslice 24 32 src)
           then Inl recordcodec_ErrCorrupt else Inr r))"

definition EncodeCheckpoint :: "CheckpointMarker \<Rightarrow> bytes" where
  "EncodeCheckpoint r =
     encodeHeader 32 RecordTypeCheckpoint FixedRecordSize @ le64 (CM_CoveredCommitSeq r) @ replicate 8 0"

definition DecodeCheckpoint :: "bytes \<Rightarrow> CheckpointMarker res" where
  "DecodeCheckpoint src =
     res_bind (decodeHeader src RecordTypeCheckpoint FixedRecordSize) (\<lambda>_.
       if \<not> all_zero (subslice 24 32 src) then Inl recordcodec_ErrCorrupt
       else Inr \<lparr>CM_CoveredCommitSeq = get64 (subslice 16 24 src)\<rparr>)"

section \<open>Lemmas on the header and the fixed records\<close>

lemma length_encodeHeader [simp]: "length (encodeHeader n typ hs) = 16"
  by (simp add: encodeHeader_def)

lemma decodeHeader_encode:
  assumes "n = 16 + length body" "n \<le> MaxUint32" "unat hs \<le> n"
  shows "decodeHeader (encodeHeader n typ hs @ body) typ hs =
    Inr \<lparr>HD_Type = typ, HD_HeaderSize = ucast hs, HD_TotalSize = word_of_nat n\<rparr>"
proof -
  have nth: "(encodeHeader n typ hs @ body) ! 6 = typ" "(encodeHeader n typ hs @ body) ! 7 = 0"
    by (simp_all add: encodeHeader_def nth_append)
  have f: "subslice 0 4 (encodeHeader n typ hs @ body) = protocolMagic"
    "subslice 4 6 (encodeHeader n typ hs @ body) = le16 3"
    "subslice 8 10 (encodeHeader n typ hs @ body) = le16 (ucast hs)"
    "subslice 10 12 (encodeHeader n typ hs @ body) = le16 0"
    "subslice 12 16 (encodeHeader n typ hs @ body) = le32 (word_of_nat n)"
    by (simp_all add: encodeHeader_def codec_simps subslice_Cons replicate_zero_le)
  have l: "length (encodeHeader n typ hs @ body) = n"
    using assms(1) by simp
  show ?thesis
    using assms(1) assms(2,3) unfolding decodeHeader_def Let_def nth f l by auto
qed

lemma decodeHeader_Inr:
  assumes "decodeHeader src typ hs = Inr h"
  shows "encodeHeader (length src) typ hs = subslice 0 16 src" "16 \<le> length src"
    "length src \<le> MaxUint32" "unat hs \<le> length src"
proof -
  have len: "16 \<le> length src"
    and c: "protocolMagic = subslice 0 4 src" "get16 (subslice 4 6 src) = 3" "src ! 6 = typ" "src ! 7 = 0"
      "get16 (subslice 8 10 src) = ucast hs" "get16 (subslice 10 12 src) = 0"
      "get32 (subslice 12 16 src) = word_of_nat (length src)"
    using assms by (auto simp: decodeHeader_def Let_def split: if_splits)
  have s6: "[typ, 0] = subslice 6 8 src"
    using len c(3,4) subslice_join [of 6 7 8 src] subslice_singleton [of 6 src]
      subslice_singleton [of 7 src] by simp
  show "encodeHeader (length src) typ hs = subslice 0 16 src"
    unfolding encodeHeader_def c(1) s6
    using len get_eqD(1) [OF c(2)] get_eqD(1) [OF c(5)] get_eqD(1) [OF c(6)] get_eqD(2) [OF c(7)]
    by (simp add: codec_simps replicate_zero_le subslice_join)
qed (use assms in \<open>auto simp: decodeHeader_def Let_def split: if_splits\<close>)

lemma fixed_body:
  assumes "length src = 32" "decodeHeader src typ 32 = Inr h"
  shows "encodeHeader 32 typ 32 @ subslice 16 24 src @ subslice 24 32 src = src"
  using decodeHeader_Inr(1) [OF assms(2)] assms(1) by (simp add: subslice_join codec_simps)

lemma Abort_codec: "DecodeAbort src = Inr r \<and> length src = 32 \<longleftrightarrow> EncodeAbort r = Inr src"
proof
  assume a: "DecodeAbort src = Inr r \<and> length src = 32"
  then obtain h where h: "decodeHeader src RecordTypeAbort 32 = Inr h"
    and z: "all_zero (subslice 28 32 src)" and n: "get64 (subslice 16 24 src) \<noteq> 0"
    and r: "r = \<lparr>AB_BatchID = get64 (subslice 16 24 src), AB_Reason = get32 (subslice 24 28 src)\<rparr>"
    by (auto simp: DecodeAbort_def Let_def split: if_splits)
  show "EncodeAbort r = Inr src"
    using fixed_body [OF _ h] a all_zero_subslice [OF z] n
    by (simp add: EncodeAbort_def r codec_simps le_get subslice_join)
qed (cases r, auto simp: EncodeAbort_def DecodeAbort_def decodeHeader_encode codec_simps split: if_splits)

lemma Reserve_codec:
  "DecodeReserve src typ = Inr r \<and> length src = 32 \<longleftrightarrow> EncodeReserve typ r = Inr src"
proof
  assume a: "DecodeReserve src typ = Inr r \<and> length src = 32"
  then obtain h where h: "decodeHeader src typ 32 = Inr h"
    and z: "all_zero (subslice 24 32 src)" and n: "get64 (subslice 16 24 src) \<noteq> 0"
    and r: "r = \<lparr>RR_HighExclusive = get64 (subslice 16 24 src)\<rparr>"
    and t: "typ = RecordTypeIDReserve \<or> typ = RecordTypeBatchIDReserve"
    by (auto simp: DecodeReserve_def Let_def split: if_splits)
  show "EncodeReserve typ r = Inr src"
    using fixed_body [OF _ h] a all_zero_subslice [OF z] n t
    by (auto simp: EncodeReserve_def r codec_simps le_get subslice_join)
qed (cases r, auto simp: EncodeReserve_def DecodeReserve_def decodeHeader_encode codec_simps split: if_splits)

lemma Checkpoint_codec:
  "DecodeCheckpoint src = Inr r \<and> length src = 32 \<longleftrightarrow> EncodeCheckpoint r = src"
proof
  assume a: "DecodeCheckpoint src = Inr r \<and> length src = 32"
  then obtain h where h: "decodeHeader src RecordTypeCheckpoint 32 = Inr h"
    and z: "all_zero (subslice 24 32 src)"
    and r: "r = \<lparr>CM_CoveredCommitSeq = get64 (subslice 16 24 src)\<rparr>"
    by (auto simp: DecodeCheckpoint_def Let_def split: if_splits)
  show "EncodeCheckpoint r = src"
    using fixed_body [OF _ h] a all_zero_subslice [OF z]
    by (simp add: EncodeCheckpoint_def r codec_simps le_get subslice_join)
qed (cases r, auto simp: EncodeCheckpoint_def DecodeCheckpoint_def decodeHeader_encode codec_simps)

section \<open>Put records are exact\<close>

lemma checkedSize_Inr: "checkedSize a b = Inr w \<longleftrightarrow> a + b \<le> MaxUint32 \<and> w = word_of_nat (a + b)"
  by (auto simp: checkedSize_def)

lemma unat_word_u32: "n \<le> MaxUint32 \<Longrightarrow> unat (word_of_nat n :: u32) = n"
  by (simp add: unat_of_nat)

lemma Put_codec: "DecodePut src maxv = Inr r \<longleftrightarrow> EncodePut r maxv = Inr src"
proof
  assume "DecodePut src maxv = Inr r"
  then obtain h where h: "decodeHeader src RecordTypePut 32 = Inr h"
    and n: "get64 (subslice 16 24 src) \<noteq> 0" "get64 (subslice 24 32 src) \<noteq> 0"
      "length src - 32 \<le> unat maxv"
    and r: "r = \<lparr>P_OriginBatchID = get64 (subslice 16 24 src), P_RecordID = get64 (subslice 24 32 src),
      P_Value = drop 32 src\<rparr>"
    by (auto simp: DecodePut_def Let_def split: if_splits)
  note hd = decodeHeader_Inr [OF h]
  have "unat (word_of_nat (length src) :: u32) = length src"
    using hd(3) by (rule unat_word_u32)
  moreover have "encodeHeader (length src) RecordTypePut 32 @ subslice 16 24 src @ subslice 24 32 src @
      drop 32 src = src"
    using hd by (simp add: drop_eq_subslice subslice_join codec_simps)
  moreover have "32 + (length src - 32) = length src"
    using hd by simp
  ultimately show "EncodePut r maxv = Inr src"
    using hd n
    by (simp add: EncodePut_def r PutPayloadSize_def checkedSize_Inr le_get codec_simps)
next
  assume "EncodePut r maxv = Inr src"
  then have n: "P_OriginBatchID r \<noteq> 0" "P_RecordID r \<noteq> 0" "length (P_Value r) \<le> unat maxv"
    and b: "32 + length (P_Value r) \<le> MaxUint32"
    and s: "src = encodeHeader (unat (word_of_nat (32 + length (P_Value r)) :: u32)) RecordTypePut 32 @
      le64 (P_OriginBatchID r) @ le64 (P_RecordID r) @ P_Value r"
    by (auto simp: EncodePut_def PutPayloadSize_def checkedSize_Inr split: if_splits)
  show "DecodePut src maxv = Inr r"
    unfolding s unat_word_u32 [OF b] using n b
    by (cases r) (simp add: DecodePut_def decodeHeader_encode codec_simps)
qed

lemma PutMetadata_eq:
  assumes "32 \<le> length src" "length src \<le> MaxUint32"
  shows "DecodePutMetadata (subslice 0 32 src) (word_of_nat (length src)) maxv =
    res_bind (DecodePut src maxv) (\<lambda>r. Inr \<lparr>PM_OriginBatchID = P_OriginBatchID r,
      PM_RecordID = P_RecordID r, PM_ValueBytes = word_of_nat (length (P_Value r))\<rparr>)"
proof -
  define n :: u32 where "n = word_of_nat (length src)"
  have n: "unat n = length src"
    using assms(2) by (simp add: n_def unat_word_u32)
  then have n32: "\<not> n < 32"
    using assms by (simp add: word_less_nat_alt)
  have "unat (n - 32) = length src - 32"
    using n n32 by (simp add: unat_sub word_le_nat_alt word_less_nat_alt)
  then have v: "ucast (n - 32) = (word_of_nat (length src - 32) :: u64)"
    by (metis of_nat_unat)
  have "length src - 32 \<le> MaxUint64" using assms by simp
  then have b: "maxv < word_of_nat (length src - 32) \<longleftrightarrow> unat maxv < length src - 32"
    by (simp add: word_less_nat_alt unat_of_nat)
  have s: "subslice 0 32 src ! 6 = src ! 6" "subslice 0 32 src ! 7 = src ! 7"
    using assms by (simp_all add: nth_subslice)
  show ?thesis
    using assms n32
    unfolding DecodePutMetadata_def DecodePut_def decodeHeader_def n_def [symmetric] v b s
    by (simp add: codec_simps subslice_subslice Let_def v b del: of_nat_diff)
qed

section \<open>Validation of descriptors\<close>

definition mutations_ok :: "DescriptorKind \<Rightarrow> Mutation list \<Rightarrow> bool" where
  "mutations_ok kind ms \<longleftrightarrow>
     list_all (mutation_ok kind) ms \<and> 0 \<notin> set (map M_RecordID ms) \<and>
     sorted_wrt (<) (map M_RecordID ms)"

definition descriptor_ok :: "Descriptor \<Rightarrow> bool" where
  "descriptor_ok d \<longleftrightarrow>
     D_BatchID d \<noteq> 0 \<and> D_CommitSeq d \<noteq> 0 \<and>
     (D_Kind d = DescriptorRelocation \<longrightarrow> D_Mutations d \<noteq> []) \<and>
     mutations_ok (D_Kind d) (D_Mutations d)"

fun consecutive :: "CommitSeq list \<Rightarrow> bool" where
  "consecutive (a # b # qs) \<longleftrightarrow> unat b = Suc (unat a) \<and> consecutive (b # qs)"
| "consecutive qs \<longleftrightarrow> True"

lemma validateMutations_iff:
  "validateMutations kind i prev ms \<longleftrightarrow>
     list_all (mutation_ok kind) ms \<and> 0 \<notin> set (map M_RecordID ms) \<and>
     sorted_wrt (<) (map M_RecordID ms) \<and> (i \<noteq> 0 \<longrightarrow> (\<forall>m \<in> set ms. prev < M_RecordID m))"
  by (induction kind i prev ms rule: validateMutations.induct)
     (auto simp: not_le intro: order.strict_trans)

lemma succ_u64_iff: "(b :: u64) = a + 1 \<and> a \<noteq> max_u64 \<longleftrightarrow> unat b = Suc (unat a)"
  by (metis Suc_n_not_le_n not_less_eq_eq unat_succ_u64 unat_u64_bound u64_eq_max_iff word_unat_eq_iff)

lemma validateDescriptors_loop_iff:
  "validateDescriptors_loop i prev ids ds \<longleftrightarrow>
     list_all descriptor_ok ds \<and> distinct (map D_BatchID ds) \<and> ids \<inter> D_BatchID ` set ds = {} \<and>
     (if i \<noteq> 0 then consecutive (prev # map D_CommitSeq ds) else consecutive (map D_CommitSeq ds))"
proof (induction i prev ids ds rule: validateDescriptors_loop.induct)
  case (2 i prev ids d ds)
  have d: "descriptor_ok d \<longleftrightarrow> D_BatchID d \<noteq> 0 \<and> D_CommitSeq d \<noteq> 0 \<and>
      \<not> (D_Kind d = DescriptorRelocation \<and> D_Mutations d = []) \<and>
      validateMutations (D_Kind d) 0 0 (D_Mutations d)"
    by (simp add: descriptor_ok_def mutations_ok_def validateMutations_iff)
  have q: "\<not> (prev = max_u64 \<or> D_CommitSeq d \<noteq> prev + 1) \<longleftrightarrow> unat (D_CommitSeq d) = Suc (unat prev)"
    using succ_u64_iff [of "D_CommitSeq d" prev] by blast
  show ?case
    using q by (simp add: 2 d) blast
qed simp

lemma validateDescriptors_None:
  "validateDescriptors ds = None \<longleftrightarrow>
     ds \<noteq> [] \<and> list_all descriptor_ok ds \<and> distinct (map D_BatchID ds) \<and>
     consecutive (map D_CommitSeq ds)"
  by (auto simp: validateDescriptors_def validateDescriptors_loop_iff)

lemma descriptor_ok_kind:
  "descriptor_ok d \<Longrightarrow> D_Mutations d \<noteq> [] \<Longrightarrow> D_Kind d = DescriptorUserCommit \<or> D_Kind d = DescriptorRelocation"
  by (cases "D_Mutations d") (auto simp: descriptor_ok_def mutations_ok_def mutation_ok_def split: if_splits)

section \<open>Commit groups are exact\<close>

lemma length_encodeMutation [simp]: "length (encodeMutation m) = 32"
  by (simp add: encodeMutation_def)

lemma length_concat_encodeMutation [simp]: "length (concat (map encodeMutation ms)) = 32 * length ms"
  by (induction ms) simp_all

lemma decodeMutation_encode [simp]: "decodeMutation (encodeMutation m) = Inr m"
  by (cases m)
     (simp add: decodeMutation_def encodeMutation_def codec_simps subslice_Cons nth_append)

lemma decodeMutation_Inr:
  assumes "decodeMutation entry = Inr m" "length entry = 32"
  shows "encodeMutation m = entry"
proof -
  have z: "all_zero (subslice 29 32 entry)"
    and m: "m = \<lparr>M_RecordID = get64 (subslice 0 8 entry), M_NewAddr = get64 (subslice 8 16 entry),
      M_ExpectedOldAddr = get64 (subslice 16 24 entry), M_Operation = entry ! 24,
      M_PhysicalSize = get32 (subslice 25 29 entry)\<rparr>"
    using assms(1) by (auto simp: decodeMutation_def split: if_splits)
  have "[entry ! 24] = subslice 24 25 entry"
    using assms(2) subslice_singleton [of 24 entry] by simp
  then have "encodeMutation m = subslice 0 8 entry @ subslice 8 16 entry @ subslice 16 24 entry @
      subslice 24 25 entry @ subslice 25 29 entry @ subslice 29 32 entry"
    using assms(2) all_zero_subslice [OF z]
    unfolding encodeMutation_def m by (simp add: le_get codec_simps del: append_Cons append_Nil)
  then show ?thesis
    using assms(2) by (simp add: subslice_join codec_simps)
qed

lemma decodeMutations_encode:
  "decodeMutations (pre @ concat (map encodeMutation ms) @ suf) (length pre) (length ms) = Inr ms"
proof (induction ms arbitrary: pre)
  case (Cons m ms)
  have "subslice (length pre) (length pre + 32) (pre @ concat (map encodeMutation (m # ms)) @ suf) =
      encodeMutation m"
    by (simp add: codec_simps)
  moreover have "decodeMutations (pre @ concat (map encodeMutation (m # ms)) @ suf) (length pre + 32)
      (length ms) = Inr ms"
    using Cons.IH [of "pre @ encodeMutation m"] by simp
  ultimately show ?case
    by (simp del: list.map concat.simps)
qed simp

lemma decodeMutations_Inr:
  "decodeMutations src off n = Inr ms \<Longrightarrow> off + 32 * n \<le> length src \<Longrightarrow>
    length ms = n \<and> concat (map encodeMutation ms) = subslice off (off + 32 * n) src"
proof (induction n arbitrary: off ms)
  case (Suc n)
  obtain m ms' where m: "decodeMutation (subslice off (off + 32) src) = Inr m"
    and ms': "decodeMutations src (off + 32) n = Inr ms'" and ms: "ms = m # ms'"
    using Suc.prems(1) by auto
  have "encodeMutation m = subslice off (off + 32) src"
    using decodeMutation_Inr [OF m] Suc.prems(2) by (simp add: length_subslice)
  then show ?case
    using Suc.IH [OF ms'] Suc.prems(2) by (simp add: ms subslice_join add.assoc)
qed (simp add: subslice_empty)

lemma DescriptorSize_Inr:
  "DescriptorSize n = Inr w \<longleftrightarrow> 40 + 32 * n \<le> MaxUint32 \<and> w = word_of_nat (40 + 32 * n)"
proof (cases "n \<noteq> 0 \<and> 32 > MaxUint64 div n")
  case True
  then have "MaxUint64 < 32 * n"
    using div_less_iff_less_mult [of n MaxUint64 32] by (simp add: mult.commute)
  then show ?thesis
    using True by (simp add: DescriptorSize_def checkedMul_def)
next
  case False
  then have "checkedMul n 32 = Some (n * 32)"
    by (simp only: checkedMul_def if_False)
  then show ?thesis
    by (simp add: DescriptorSize_def checkedSize_Inr mult.commute)
qed

abbreviation descriptor_bytes :: "Descriptor \<Rightarrow> nat" where
  "descriptor_bytes d \<equiv> 40 + 32 * length (D_Mutations d)"

lemma length_encodeDescriptor [simp]: "length (encodeDescriptor d) = descriptor_bytes d"
  by (simp add: encodeDescriptor_def)

lemma decodeDescriptor_encode:
  assumes "descriptor_bytes d \<le> MaxUint32" "length (D_Mutations d) \<le> unat maxm - tot"
  shows "decodeDescriptor (pre @ encodeDescriptor d @ suf) maxm (length pre) tot =
    Inr (d, descriptor_bytes d)"
proof -
  define hb where "hb = [D_Kind d, 0] @ le16 40 @ le32 (word_of_nat (length (D_Mutations d))) @
    le64 (D_BatchID d) @ le64 (D_CommitSeq d) @ le64 (D_LogicalPayloadBytes d) @
    le32 (word_of_nat (descriptor_bytes d)) @ replicate 4 0"
  define src where "src = pre @ encodeDescriptor d @ suf"
  note sz = DescriptorSize_Inr [THEN iffD2, OF conjI, OF assms(1) refl]
  have e: "encodeDescriptor d = hb @ concat (map encodeMutation (D_Mutations d))"
    unfolding encodeDescriptor_def hb_def sz by simp
  have lh: "length hb = 40" by (simp add: hb_def)
  have h: "subslice (length pre) (length pre + 40) src = hb"
    unfolding src_def e using lh by (simp add: codec_simps)
  have f: "hb ! 0 = D_Kind d" "hb ! 1 = 0" "subslice 2 4 hb = le16 40"
    "subslice 4 8 hb = le32 (word_of_nat (length (D_Mutations d)))" "subslice 8 16 hb = le64 (D_BatchID d)"
    "subslice 16 24 hb = le64 (D_CommitSeq d)" "subslice 24 32 hb = le64 (D_LogicalPayloadBytes d)"
    "subslice 32 36 hb = le32 (word_of_nat (descriptor_bytes d))" "subslice 36 40 hb = le32 0"
    by (simp_all add: hb_def codec_simps subslice_Cons replicate_zero_le)
  have ms: "decodeMutations src (length pre + 40) (length (D_Mutations d)) = Inr (D_Mutations d)"
    using decodeMutations_encode [of "pre @ hb" "D_Mutations d" suf] lh by (simp add: src_def e)
  have ls: "length src = length pre + (descriptor_bytes d + length suf)"
    by (simp add: src_def)
  have n: "unat (word_of_nat (length (D_Mutations d)) :: u32) = length (D_Mutations d)"
    using assms(1) by (simp add: unat_word_u32)
  show ?thesis
    using assms(2)
    unfolding src_def [symmetric] decodeDescriptor_def h f Let_def get_le n sz ls
      unat_word_u32 [OF assms(1)] sum.case ms res_bind_simps
    by simp
qed

lemma decodeDescriptor_Inr:
  assumes "decodeDescriptor src maxm off tot = Inr (d, sz)"
  shows "sz = descriptor_bytes d" "descriptor_bytes d \<le> MaxUint32" "off + sz \<le> length src"
    "length (D_Mutations d) \<le> unat maxm - tot" "encodeDescriptor d = subslice off (off + sz) src"
proof -
  define hb where "hb = subslice off (off + 40) src"
  define n where "n = unat (get32 (subslice 4 8 hb))"
  have off: "off + 40 \<le> length src" and c: "hb ! 1 = 0" "get16 (subslice 2 4 hb) = 40"
      "get32 (subslice 36 40 hb) = 0" "DescriptorSize n = Inr (get32 (subslice 32 36 hb))"
    and sz: "sz = unat (get32 (subslice 32 36 hb))" and le: "sz \<le> length src - off"
    and nm: "n \<le> unat maxm - tot" and ms: "decodeMutations src (off + 40) n = Inr (D_Mutations d)"
    and d: "d = \<lparr>D_Kind = hb ! 0, D_BatchID = get64 (subslice 8 16 hb),
      D_CommitSeq = get64 (subslice 16 24 hb), D_LogicalPayloadBytes = get64 (subslice 24 32 hb),
      D_Mutations = D_Mutations d\<rparr>"
    using assms
    by (auto simp: decodeDescriptor_def Let_def hb_def [symmetric] n_def dest: word_unat_eq_iff [THEN iffD2]
      split: if_splits sum.splits)
  have lh: "length hb = 40" using off by (simp add: hb_def length_subslice)
  have n: "40 + 32 * n \<le> MaxUint32" and w: "get32 (subslice 32 36 hb) = word_of_nat (40 + 32 * n)"
    using c(4) by (simp_all add: DescriptorSize_Inr)
  have szn: "sz = 40 + 32 * n"
    unfolding sz w using n by (rule unat_word_u32)
  have m: "length (D_Mutations d) = n"
    "concat (map encodeMutation (D_Mutations d)) = subslice (off + 40) (off + sz) src"
    using decodeMutations_Inr [OF ms] le off szn by (simp_all add: add.assoc)
  show "sz = descriptor_bytes d" "descriptor_bytes d \<le> MaxUint32" "off + sz \<le> length src"
    "length (D_Mutations d) \<le> unat maxm - tot"
    using szn m n nm le off by simp_all
  have k: "[hb ! 0, 0] = subslice 0 2 hb"
    using c(1) lh subslice_join [of 0 1 2 hb] subslice_singleton [of 0 hb] subslice_singleton [of 1 hb]
    by (simp add: numeral_2_eq_2)
  have "DescriptorSize (length (D_Mutations d)) = Inr (get32 (subslice 32 36 hb))"
    using c(4) m(1) by simp
  then have "encodeDescriptor d = [hb ! 0, 0] @ le16 40 @ le32 (get32 (subslice 4 8 hb)) @
      le64 (get64 (subslice 8 16 hb)) @ le64 (get64 (subslice 16 24 hb)) @ le64 (get64 (subslice 24 32 hb)) @
      le32 (get32 (subslice 32 36 hb)) @ replicate 4 0 @ subslice (off + 40) (off + sz) src"
    unfolding encodeDescriptor_def m by (subst (1 2 3 4) d) (simp add: n_def)
  also have "\<dots> = subslice 0 40 hb @ subslice (off + 40) (off + sz) src"
    unfolding k replicate_zero_le using lh get_eqD(1) [OF c(2)] get_eqD(2) [OF c(3)]
    by (simp add: le_get codec_simps subslice_join flip: append_assoc)
  also have "\<dots> = subslice off (off + sz) src"
    using lh szn by (simp add: subslice_all hb_def subslice_join)
  finally show "encodeDescriptor d = subslice off (off + sz) src" .
qed

abbreviation descriptors_bytes :: "Descriptor list \<Rightarrow> nat" where
  "descriptors_bytes ds \<equiv> sum_list (map descriptor_bytes ds)"

lemma length_concat_encodeDescriptor [simp]:
  "length (concat (map encodeDescriptor ds)) = descriptors_bytes ds"
  by (induction ds) simp_all

lemma total_mutations_simps [simp]:
  "total_mutations [] = 0" "total_mutations (d # ds) = length (D_Mutations d) + total_mutations ds"
  by (simp_all add: total_mutations_def)

lemma descriptors_bytes_eq: "descriptors_bytes ds = 40 * length ds + 32 * total_mutations ds"
  by (induction ds) simp_all

lemma decodeDescriptors_encode:
  "descriptors_bytes ds \<le> MaxUint32 \<Longrightarrow> tot + total_mutations ds \<le> unat maxm \<Longrightarrow>
    decodeDescriptors (pre @ concat (map encodeDescriptor ds) @ suf) maxm (length ds) (length pre) tot =
    Inr (ds, length pre + descriptors_bytes ds, tot + total_mutations ds)"
proof (induction ds arbitrary: pre tot)
  case (Cons d ds)
  have "decodeDescriptor (pre @ encodeDescriptor d @ concat (map encodeDescriptor ds) @ suf) maxm
      (length pre) tot = Inr (d, descriptor_bytes d)"
    using Cons.prems by (intro decodeDescriptor_encode) simp_all
  moreover have "decodeDescriptors (pre @ encodeDescriptor d @ concat (map encodeDescriptor ds) @ suf) maxm
      (length ds) (length pre + descriptor_bytes d) (tot + length (D_Mutations d)) =
    Inr (ds, length pre + descriptor_bytes d + descriptors_bytes ds,
      tot + length (D_Mutations d) + total_mutations ds)"
    using Cons.IH [of "tot + length (D_Mutations d)" "pre @ encodeDescriptor d"] Cons.prems by simp
  ultimately show ?case
    by simp
qed simp

lemma decodeDescriptors_Inr:
  "decodeDescriptors src maxm n off tot = Inr (ds, off', tot') \<Longrightarrow> off \<le> length src \<Longrightarrow> tot \<le> unat maxm \<Longrightarrow>
    length ds = n \<and> off' = off + descriptors_bytes ds \<and> tot' = tot + total_mutations ds \<and>
    off' \<le> length src \<and> tot' \<le> unat maxm \<and> concat (map encodeDescriptor ds) = subslice off off' src"
proof (induction n arbitrary: off tot ds)
  case (Suc n)
  obtain d sz ds' where d: "decodeDescriptor src maxm off tot = Inr (d, sz)"
    and r: "decodeDescriptors src maxm n (off + sz) (tot + length (D_Mutations d)) = Inr (ds', off', tot')"
    and ds: "ds = d # ds'"
    using Suc.prems(1) by (auto split: prod.splits)
  note D = decodeDescriptor_Inr [OF d]
  have "tot + length (D_Mutations d) \<le> unat maxm"
    using D(4) Suc.prems(3) by linarith
  then show ?case
    using Suc.IH [OF r D(3)] D by (auto simp: ds subslice_join)
qed (simp add: subslice_empty)

lemma CommitGroupPayloadSize_fold:
  "res_fold (\<lambda>tot d. case DescriptorSize (length (D_Mutations d)) of
       Inl _ \<Rightarrow> Inl recordcodec_ErrTooLarge
     | Inr sz \<Rightarrow> if tot > MaxUint32 - unat sz then Inl recordcodec_ErrTooLarge
                 else Inr (tot + unat sz)) tot ds = Inr r \<longleftrightarrow>
   (ds = [] \<or> tot + descriptors_bytes ds \<le> MaxUint32) \<and> r = tot + descriptors_bytes ds"
proof (induction ds arbitrary: tot)
  case (Cons d ds)
  show ?case
  proof (cases "descriptor_bytes d \<le> MaxUint32")
    case True
    then have "DescriptorSize (length (D_Mutations d)) = Inr (word_of_nat (descriptor_bytes d))"
      by (simp add: DescriptorSize_Inr)
    then show ?thesis
      using True unat_word_u32 [OF True] by (auto simp: Cons.IH simp del: of_nat_add of_nat_mult)
  next
    case False
    then obtain e where "DescriptorSize (length (D_Mutations d)) = Inl e"
      using DescriptorSize_Inr [of "length (D_Mutations d)"]
      by (cases "DescriptorSize (length (D_Mutations d))") auto
    then show ?thesis using False by simp
  qed
qed auto

lemma CommitGroupPayloadSize_Inr:
  "CommitGroupPayloadSize ds = Inr w \<longleftrightarrow>
     ds \<noteq> [] \<and> 32 + descriptors_bytes ds \<le> MaxUint32 \<and> w = word_of_nat (32 + descriptors_bytes ds)"
  by (auto simp: CommitGroupPayloadSize_def CommitGroupPayloadSize_fold descriptors_bytes_eq)

lemma EncodeCommitGroup_Inr:
  "EncodeCommitGroup g maxp = Inr src \<longleftrightarrow>
     validateDescriptors (G_Descriptors g) = None \<and>
     32 + descriptors_bytes (G_Descriptors g) \<le> min MaxUint32 (unat maxp) \<and>
     src = encodeHeader (32 + descriptors_bytes (G_Descriptors g)) RecordTypeCommitGroup 32 @
       le32 (word_of_nat (length (G_Descriptors g))) @
       le32 (word_of_nat (total_mutations (G_Descriptors g))) @
       le64 (D_CommitSeq (hd (G_Descriptors g))) @ concat (map encodeDescriptor (G_Descriptors g))"
proof (cases "G_Descriptors g \<noteq> [] \<and> 32 + descriptors_bytes (G_Descriptors g) \<le> MaxUint32")
  case True
  then have "CommitGroupPayloadSize (G_Descriptors g) =
      Inr (word_of_nat (32 + descriptors_bytes (G_Descriptors g)))"
    by (simp add: CommitGroupPayloadSize_Inr)
  moreover have "total_mutations (G_Descriptors g) \<le> MaxUint32"
    using True by (simp add: descriptors_bytes_eq)
  ultimately show ?thesis
    using True unat_word_u32 [of "32 + descriptors_bytes (G_Descriptors g)"]
    by (auto simp: EncodeCommitGroup_def Let_def simp del: of_nat_add split: option.splits if_splits)
next
  case False
  then have "\<nexists>w. CommitGroupPayloadSize (G_Descriptors g) = Inr w"
    by (auto simp: CommitGroupPayloadSize_Inr)
  then show ?thesis
    using False by (auto simp: EncodeCommitGroup_def validateDescriptors_None)
qed

lemma DecodeCommitGroup_encode:
  assumes "EncodeCommitGroup g maxp = Inr src" "length (G_Descriptors g) \<le> unat maxd"
    "total_mutations (G_Descriptors g) \<le> unat maxm"
  shows "DecodeCommitGroup src maxp maxd maxm = Inr g"
proof -
  define ds where "ds = G_Descriptors g"
  define n where "n = 32 + descriptors_bytes ds"
  have v: "validateDescriptors ds = None" and n: "n \<le> MaxUint32" "n \<le> unat maxp"
    and src: "src = encodeHeader n RecordTypeCommitGroup 32 @ le32 (word_of_nat (length ds)) @
      le32 (word_of_nat (total_mutations ds)) @ le64 (D_CommitSeq (hd ds)) @ concat (map encodeDescriptor ds)"
    using assms(1) by (simp_all add: EncodeCommitGroup_Inr ds_def n_def)
  have g: "g = \<lparr>G_Descriptors = ds\<rparr>" by (simp add: ds_def)
  have ok: "ds \<noteq> []" "D_CommitSeq (hd ds) \<noteq> 0"
    using v by (cases ds, auto simp: validateDescriptors_None descriptor_ok_def)+
  have l: "length src = n" by (simp add: src n_def)
  have h: "decodeHeader src RecordTypeCommitGroup 32 =
      Inr \<lparr>HD_Type = RecordTypeCommitGroup, HD_HeaderSize = 32, HD_TotalSize = word_of_nat n\<rparr>"
    unfolding src using n by (subst decodeHeader_encode) (simp_all add: n_def)
  have b: "length ds \<le> MaxUint32" "total_mutations ds \<le> MaxUint32" "length ds \<le> (n - 32) div 40"
    using n(1) by (simp_all add: n_def descriptors_bytes_eq less_eq_div_iff_mult_less_eq)
  have f: "subslice 16 20 src = le32 (word_of_nat (length ds))"
    "subslice 20 24 src = le32 (word_of_nat (total_mutations ds))"
    "subslice 24 32 src = le64 (D_CommitSeq (hd ds))"
    by (simp_all add: src codec_simps)
  have d: "decodeDescriptors src maxm (length ds) 32 0 = Inr (ds, n, total_mutations ds)"
    using decodeDescriptors_encode [of ds 0 maxm "encodeHeader n RecordTypeCommitGroup 32 @
      le32 (word_of_nat (length ds)) @ le32 (word_of_nat (total_mutations ds)) @
      le64 (D_CommitSeq (hd ds))" "[]"] n assms(3)
    by (simp add: src n_def ds_def)
  show ?thesis
    using assms(2,3) b n ok v
    unfolding DecodeCommitGroup_def l h f Let_def get_le res_bind_simps unat_word_u32 [OF b(1)]
      unat_word_u32 [OF b(2)] d g
    by (simp add: ds_def)
qed

lemma DecodeCommitGroup_Inr:
  assumes "DecodeCommitGroup src maxp maxd maxm = Inr g"
  shows "EncodeCommitGroup g maxp = Inr src" "length (G_Descriptors g) \<le> unat maxd"
    "total_mutations (G_Descriptors g) \<le> unat maxm"
proof -
  define ds where "ds = G_Descriptors g"
  obtain h where l: "length src \<le> unat maxp" and h: "decodeHeader src RecordTypeCommitGroup 32 = Inr h"
    using assms by (auto simp: DecodeCommitGroup_def split: if_splits)
  obtain off tot where d: "decodeDescriptors src maxm (unat (get32 (subslice 16 20 src))) 32 0 = Inr (ds, off, tot)"
    and c: "unat (get32 (subslice 16 20 src)) \<le> unat maxd" "off = length src"
      "tot = unat (get32 (subslice 20 24 src))" "validateDescriptors ds = None"
      "D_CommitSeq (hd ds) = get64 (subslice 24 32 src)"
    using assms by (auto simp: DecodeCommitGroup_def Let_def ds_def split: if_splits prod.splits)
  note H = decodeHeader_Inr [OF h]
  have D: "length ds = unat (get32 (subslice 16 20 src))" "length src = 32 + descriptors_bytes ds"
      "tot = total_mutations ds" "tot \<le> unat maxm"
      "concat (map encodeDescriptor ds) = subslice 32 (length src) src"
    using decodeDescriptors_Inr [OF d] H(4) c(2) by auto
  show "length (G_Descriptors g) \<le> unat maxd" "total_mutations (G_Descriptors g) \<le> unat maxm"
    using D c(1) by (simp_all add: ds_def)
  have e: "encodeHeader (32 + descriptors_bytes ds) RecordTypeCommitGroup 32 = subslice 0 16 src"
      "le32 (word_of_nat (length ds)) = subslice 16 20 src"
      "le32 (word_of_nat (total_mutations ds)) = subslice 20 24 src"
      "le64 (D_CommitSeq (hd ds)) = subslice 24 32 src"
    using H D(1-3) c(3,5) by (simp_all add: le_get codec_simps flip: D(3))
  have "encodeHeader (32 + descriptors_bytes ds) RecordTypeCommitGroup 32 @
       le32 (word_of_nat (length ds)) @ le32 (word_of_nat (total_mutations ds)) @
       le64 (D_CommitSeq (hd ds)) @ concat (map encodeDescriptor ds) = src"
    unfolding e D(5) using H(4) by (simp add: subslice_join subslice_all)
  then show "EncodeCommitGroup g maxp = Inr src"
    using c(4) l H(3) D(2) by (simp add: EncodeCommitGroup_Inr ds_def)
qed

section \<open>What the decoders accept beyond the encoders\<close>

text \<open>
  \<^verbatim>\<open>decodeHeader\<close> compares the length of a record with its header size by \<open>\<ge>\<close> only. The three
  fixed-size decoders never look past byte 32, so a longer record whose total size is consistent
  is decoded and its trailing bytes are ignored.
\<close>

lemma fixed_records_trailing_bytes:
  assumes "32 + length tail \<le> MaxUint32" "b \<noteq> 0"
  shows "DecodeAbort (encodeHeader (32 + length tail) RecordTypeAbort 32 @ le64 b @ le32 w @
      replicate 4 0 @ tail) = Inr \<lparr>AB_BatchID = b, AB_Reason = w\<rparr>"
    and "DecodeReserve (encodeHeader (32 + length tail) RecordTypeIDReserve 32 @ le64 b @
      replicate 8 0 @ tail) RecordTypeIDReserve = Inr \<lparr>RR_HighExclusive = b\<rparr>"
    and "DecodeCheckpoint (encodeHeader (32 + length tail) RecordTypeCheckpoint 32 @ le64 b @
      replicate 8 0 @ tail) = Inr \<lparr>CM_CoveredCommitSeq = b\<rparr>"
  using assms
  by (simp_all add: DecodeAbort_def DecodeReserve_def DecodeCheckpoint_def decodeHeader_encode codec_simps)

text \<open>
  The switch that rejects an unknown descriptor kind is inside the loop over the mutations: a
  descriptor without mutations passes with any kind but \<^verbatim>\<open>DescriptorRelocation\<close>.
\<close>

lemma validateDescriptors_unknown_kind:
  "kind \<noteq> DescriptorRelocation \<Longrightarrow> b \<noteq> 0 \<Longrightarrow> q \<noteq> 0 \<Longrightarrow>
    validateDescriptors [\<lparr>D_Kind = kind, D_BatchID = b, D_CommitSeq = q, D_LogicalPayloadBytes = n,
      D_Mutations = []\<rparr>] = None"
  by (simp add: validateDescriptors_def)

section \<open>The protocol codecs are exact\<close>

text \<open>
  C2: a byte string decodes as a commit group if and only if it is the image that
  \<^verbatim>\<open>EncodeCommitGroup\<close> writes for that group under the same payload limit and the group is within
  the limits on descriptors and mutations. Offsets, counts, sizes and reserved bytes are all
  determined by the group.
\<close>

theorem DecodeCommitGroup_exact:
  "DecodeCommitGroup src maxPayloadSize maxDescriptors maxMutations = Inr g \<longleftrightarrow>
     EncodeCommitGroup g maxPayloadSize = Inr src \<and>
     length (G_Descriptors g) \<le> unat maxDescriptors \<and>
     total_mutations (G_Descriptors g) \<le> unat maxMutations"
  using DecodeCommitGroup_encode DecodeCommitGroup_Inr by blast



text \<open>
  C9: \<^verbatim>\<open>DecodePutMetadata\<close>, which sees only the 32 header bytes and the payload size of the
  envelope, returns on every input what \<^verbatim>\<open>DecodePut\<close> returns on the whole payload, errors included.
\<close>

theorem DecodePutMetadata_agrees:
  assumes "32 \<le> length src" "length src \<le> MaxUint32"
  shows "DecodePutMetadata (subslice 0 32 src) (word_of_nat (length src)) maxValueSize =
    res_bind (DecodePut src maxValueSize) (\<lambda>r. Inr \<lparr>PM_OriginBatchID = P_OriginBatchID r,
      PM_RecordID = P_RecordID r, PM_ValueBytes = word_of_nat (length (P_Value r))\<rparr>)"
  using assms by (rule PutMetadata_eq)

definition put_example :: bytes where
  "put_example = encodeHeader 34 RecordTypePut 32 @ le64 7 @ le64 9 @ [1, 2]"

theorem DecodePutMetadata_agrees_witness:
  "length put_example = 34 \<and>
   DecodePutMetadata (subslice 0 32 put_example) 34 100 =
     Inr \<lparr>PM_OriginBatchID = 7, PM_RecordID = 9, PM_ValueBytes = 2\<rparr>"
proof -
  have "EncodePut \<lparr>P_OriginBatchID = 7, P_RecordID = 9, P_Value = [1, 2]\<rparr> 100 = Inr put_example"
    by (simp add: EncodePut_def PutPayloadSize_def checkedSize_def put_example_def)
  then have "DecodePut put_example 100 = Inr \<lparr>P_OriginBatchID = 7, P_RecordID = 9, P_Value = [1, 2]\<rparr>"
    by (simp add: Put_codec)
  moreover have l: "length put_example = 34" by (simp add: put_example_def)
  ultimately show ?thesis
    using DecodePutMetadata_agrees [of put_example 100] by simp
qed

end
