(* ===== verification/Segment_File.thy ===== *)
theory Segment_File
  imports Record_Codec
begin

text \<open>
  One segment of the record log (\<^verbatim>\<open>internal/recordlog/segment.go\<close> and \<^verbatim>\<open>fileio.go\<close>): creation,
  append, sync, seal, the recovery scan of an active segment and the reads.

  A file is its contents together with the length of the prefix known to be on stable storage.
  A system call can fail: \<open>E_hook\<close> is the fault hook of the source, consulted before each call,
  and \<open>E_os\<close> is the outcome of the call that follows the fault point (for a write, the number of
  bytes that reached the file before the error). The mutexes of a segment make each operation one
  step, so the re-checks the source makes after re-acquiring a lock always see the values read
  before. Reads return the bytes of the file; a read past its end is the error \<open>ErrIO\<close>.
\<close>

section \<open>Files\<close>

datatype segmentFaultPoint =
    faultBeforeHeaderWrite | faultBeforeHeaderSync | faultBeforeCreateRename
  | faultBeforeCreateDirSync | faultBeforeAppendWrite | faultBeforeDataSync
  | faultBeforeTailTruncate | faultBeforeTailSync
  | faultBeforeJournalWrite | faultBeforeJournalSync | faultBeforeJournalRename
  | faultBeforeJournalDirSync | faultBeforeFooterWrite | faultBeforeFooterSync
  | faultBeforeSealRename | faultBeforeSealDirSync | faultBeforeJournalRemove
  | faultBeforeCleanupDirSync | faultBeforeRetireRename | faultBeforeRecordsDirSync
  | faultBeforeTrashDirSync | faultBeforeTrashRemove | faultBeforeTrashFinalSync
  | faultBeforeTrashRootSync

record env =
  E_hook :: "segmentFaultPoint \<Rightarrow> err option"
  E_os :: "segmentFaultPoint \<Rightarrow> (nat \<times> err) option"

record fileHandle =
  F_data :: bytes
  F_synced :: nat

definition hitSegmentFault :: "env \<Rightarrow> segmentFaultPoint \<Rightarrow> err option" where
  "hitSegmentFault env point = E_hook env point"

definition write_at :: "nat \<Rightarrow> bytes \<Rightarrow> bytes \<Rightarrow> bytes" where
  \<comment> \<open>\<^verbatim>\<open>WriteAt\<close>: a gap before the offset is filled with zero bytes\<close>
  "write_at off bs data = take off data @ replicate (off - length data) 0 @ bs @ drop (off + length bs) data"

definition writeFullAt :: "env \<Rightarrow> segmentFaultPoint \<Rightarrow> fileHandle \<Rightarrow> bytes \<Rightarrow> nat \<Rightarrow> nat \<times> err option \<times> fileHandle" where
  "writeFullAt env point f value off =
     (let (n, e) = (case E_os env point of None \<Rightarrow> (length value, None)
                    | Some (k, e) \<Rightarrow> (min k (length value), Some e))
      in (n, e, f\<lparr>F_data := write_at off (take n value) (F_data f), F_synced := min (F_synced f) off\<rparr>))"

definition file_Sync :: "env \<Rightarrow> segmentFaultPoint \<Rightarrow> fileHandle \<Rightarrow> err option \<times> fileHandle" where
  "file_Sync env point f =
     (case E_os env point of None \<Rightarrow> (None, f\<lparr>F_synced := length (F_data f)\<rparr>)
      | Some (_, e) \<Rightarrow> (Some e, f))"

definition file_Truncate :: "env \<Rightarrow> segmentFaultPoint \<Rightarrow> fileHandle \<Rightarrow> nat \<Rightarrow> err option \<times> fileHandle" where
  "file_Truncate env point f n =
     (case E_os env point of
        None \<Rightarrow> (None, f\<lparr>F_data := take n (F_data f), F_synced := min (F_synced f) n\<rparr>)
      | Some (_, e) \<Rightarrow> (Some e, f))"

definition os_call :: "env \<Rightarrow> segmentFaultPoint \<Rightarrow> err option" where
  \<comment> \<open>a call without an effect on the modelled state: \<^verbatim>\<open>rename\<close>, \<^verbatim>\<open>syncDir\<close>\<close>
  "os_call env point = map_option snd (E_os env point)"

definition readFullAt :: "bytes \<Rightarrow> nat \<Rightarrow> nat \<Rightarrow> bytes res" where
  \<comment> \<open>\<open>n\<close> bytes at offset \<open>off\<close>\<close>
  "readFullAt data n off = (if off + n \<le> length data then Inr (subslice off (off + n) data) else Inl ErrIO)"

section \<open>Segments\<close>

record SegmentSummary =
  SS_SegmentID :: SegmentID
  SS_ValidEnd :: u32
  SS_RecordCount :: u64
  SS_FirstAddr :: VAddr
  SS_LastAddr :: VAddr

definition summary_footer :: "SegmentSummary \<Rightarrow> SegmentFooter" where
  "summary_footer s = \<lparr>SF_SegmentID = SS_SegmentID s, SF_DataEnd = SS_ValidEnd s,
     SF_FirstAddr = SS_FirstAddr s, SF_LastAddr = SS_LastAddr s, SF_RecordCount = SS_RecordCount s\<rparr>"

definition SegmentSummary_validate :: "SegmentSummary \<Rightarrow> u32 \<Rightarrow> err option" where
  "SegmentSummary_validate s segmentSize =
     (if segmentSize \<le> SegmentFooterSize \<or> validateSegmentFooter (summary_footer s) \<noteq> None \<or>
         SS_ValidEnd s > segmentSize - SegmentFooterSize
      then Some recordlog_ErrInvalidConfig else None)"

record recordExtent =
  RE_Result :: AppendResult
  RE_Size :: u32

record activeSegment =
  AS_open :: bool  \<comment> \<open>the file handle is not nil\<close>
  AS_file :: fileHandle
  AS_header :: SegmentHeader
  AS_end :: u32
  AS_first :: VAddr
  AS_last :: VAddr
  AS_records :: u64
  AS_sealed :: bool
  AS_transferred :: bool

record sealedSegment =
  SG_open :: bool
  SG_file :: fileHandle
  SG_header :: SegmentHeader
  SG_summary :: SegmentSummary

definition summaryLocked :: "activeSegment \<Rightarrow> SegmentSummary" where
  "summaryLocked s = \<lparr>SS_SegmentID = SH_SegmentID (AS_header s), SS_ValidEnd = AS_end s,
     SS_RecordCount = AS_records s, SS_FirstAddr = AS_first s, SS_LastAddr = AS_last s\<rparr>"

definition remainingLocked :: "activeSegment \<Rightarrow> u32" where
  "remainingLocked s =
     (let limit = SH_SegmentSize (AS_header s) - SegmentFooterSize
      in if AS_end s \<ge> limit then 0 else limit - AS_end s)"

definition createActiveSegment :: "env \<Rightarrow> SegmentHeader \<Rightarrow> activeSegment res" where
  "createActiveSegment env header =
     res_bind (EncodeSegmentHeader header) (\<lambda>encoded.
       case hitSegmentFault env faultBeforeHeaderWrite of Some e \<Rightarrow> Inl e | None \<Rightarrow>
       let (_, we, f) = writeFullAt env faultBeforeHeaderWrite \<lparr>F_data = [], F_synced = 0\<rparr> encoded 0 in
       case we of Some e \<Rightarrow> Inl e | None \<Rightarrow>
       case hitSegmentFault env faultBeforeHeaderSync of Some e \<Rightarrow> Inl e | None \<Rightarrow>
       let (se, f') = file_Sync env faultBeforeHeaderSync f in
       case se of Some e \<Rightarrow> Inl e | None \<Rightarrow>
       case hitSegmentFault env faultBeforeCreateRename of Some e \<Rightarrow> Inl e | None \<Rightarrow>
       case os_call env faultBeforeCreateRename of Some e \<Rightarrow> Inl e | None \<Rightarrow>
       case hitSegmentFault env faultBeforeCreateDirSync of Some e \<Rightarrow> Inl e | None \<Rightarrow>
       case os_call env faultBeforeCreateDirSync of Some e \<Rightarrow> Inl e | None \<Rightarrow>
       Inr \<lparr>AS_open = True, AS_file = f', AS_header = header, AS_end = SegmentHeaderSize,
            AS_first = 0, AS_last = 0, AS_records = 0, AS_sealed = False, AS_transferred = False\<rparr>)"

section \<open>The recovery scan of an active segment\<close>

type_synonym 's visitor = "'s \<Rightarrow> AppendResult \<Rightarrow> bytes \<Rightarrow> 's res"

definition visit_record :: "'s visitor option \<Rightarrow> 's \<Rightarrow> RecordHeader \<Rightarrow> bytes \<Rightarrow> 's res" where
  "visit_record visit st h payload =
     (case visit of None \<Rightarrow> Inr st
      | Some v \<Rightarrow> res_bind (NewAppendResult (RH_Addr h) (RH_PhysicalSize h)) (\<lambda>r. v st r payload))"

definition summary_add :: "SegmentSummary \<Rightarrow> RecordHeader \<Rightarrow> SegmentSummary" where
  "summary_add r h = r\<lparr>SS_FirstAddr := (if SS_RecordCount r = 0 then RH_Addr h else SS_FirstAddr r),
     SS_LastAddr := RH_Addr h, SS_RecordCount := SS_RecordCount r + 1,
     SS_ValidEnd := SS_ValidEnd r + RH_PhysicalSize h\<rparr>"

lemma DecodeRecordHeader_size: "DecodeRecordHeader bs = Inr h \<Longrightarrow> 32 \<le> RH_PhysicalSize h"
  by (auto simp: DecodeRecordHeader_def Let_def dest: PhysicalRecordSize_Inr(5)
      split: if_splits sum.splits)

lemma u32_advance:
  "(x :: u32) < y \<Longrightarrow> s \<le> y - x \<Longrightarrow> 0 < s \<Longrightarrow> unat (x + s) = unat x + unat s \<and> unat (x + s) \<le> unat y"
proof -
  assume a: "x < y" "s \<le> y - x" "0 < s"
  then have "unat x + unat s \<le> unat y"
    using unat_sub [of x y] by (simp add: word_le_nat_alt word_less_nat_alt)
  moreover from this have "unat (x + s) = unat x + unat s"
    using unat_u32_bound [of y] by (simp add: unat_word_ariths)
  ultimately show ?thesis by simp
qed

function scanActive_loop ::
  "bytes \<Rightarrow> SegmentHeader \<Rightarrow> 's visitor option \<Rightarrow> SegmentSummary \<Rightarrow> 's \<Rightarrow> (SegmentSummary \<times> bool \<times> 's) res"
where
  "scanActive_loop data expected visit result st =
     (let fileEnd = word_of_nat (length data);
          contentLimit = SH_SegmentSize expected - SegmentFooterSize;
          at = SS_ValidEnd result
      in if \<not> at < fileEnd then Inr (result, False, st)
         else let remaining = fileEnd - at in
           if remaining \<le> SegmentFooterSize \<and> remaining \<ge> 8 \<and>
              readFullAt data 8 (unat at) = Inr segmentFooterMagic then Inr (result, True, st)
           else if remaining < RecordHeaderSize then Inr (result, True, st)
           else res_bind (readFullAt data 32 (unat at)) (\<lambda>headerBytes.
             res_bind (DecodeRecordHeader headerBytes) (\<lambda>h.
               if at > contentLimit \<or> VAddr_SegmentID (RH_Addr h) \<noteq> SH_SegmentID expected \<or>
                  VAddr_Offset (RH_Addr h) \<noteq> at \<or> RH_PhysicalSize h > contentLimit - at
               then Inl recordlog_ErrCorrupt
               else if remaining < RH_PhysicalSize h then Inr (result, True, st)
               else res_bind (readFullAt data (unat (RH_PhysicalSize h)) (unat at)) (\<lambda>rec.
                 res_bind (DecodeRecord rec) (\<lambda>(decoded, payload).
                   if decoded \<noteq> h then Inl recordlog_ErrCorrupt
                   else res_bind (visit_record visit st h payload) (\<lambda>st'.
                     scanActive_loop data expected visit (summary_add result h) st'))))))"
  by pat_completeness auto
termination
proof (relation "measure (\<lambda>(data, _, _, result, _). unat (word_of_nat (length data) :: u32) - unat (SS_ValidEnd result))",
    goal_cases)
  case (2 data expected visit result st fileEnd contentLimit at remaining headerBytes h rec z decoded payload st')
  then have "32 \<le> RH_PhysicalSize h"
    using DecodeRecordHeader_size by blast
  moreover from this have "0 < RH_PhysicalSize h"
    by (simp add: word_le_nat_alt word_less_nat_alt)
  ultimately show ?case
    using 2 u32_advance [of at fileEnd "RH_PhysicalSize h"]
    by (auto simp: summary_add_def word_less_nat_alt word_le_nat_alt)
qed simp

declare scanActive_loop.simps [simp del]

definition scanActiveSegmentWithVisitor ::
  "bytes \<Rightarrow> SegmentHeader \<Rightarrow> 's visitor option \<Rightarrow> 's \<Rightarrow> (SegmentSummary \<times> bool \<times> 's) res"
where
  "scanActiveSegmentWithVisitor data expected visit st =
     (if length data < 64 \<or> length data > unat (SH_SegmentSize expected) then Inl recordlog_ErrCorrupt
      else res_bind (readFullAt data 64 0) (\<lambda>headerBytes.
        res_bind (DecodeSegmentHeader headerBytes) (\<lambda>header.
          if header \<noteq> expected then Inl recordlog_ErrCorrupt
          else scanActive_loop data expected visit
                 \<lparr>SS_SegmentID = SH_SegmentID expected, SS_ValidEnd = SegmentHeaderSize,
                  SS_RecordCount = 0, SS_FirstAddr = 0, SS_LastAddr = 0\<rparr> st)))"

definition scanActiveSegment :: "bytes \<Rightarrow> SegmentHeader \<Rightarrow> (SegmentSummary \<times> bool) res" where
  "scanActiveSegment data expected =
     res_bind (scanActiveSegmentWithVisitor data expected None ()) (\<lambda>(result, repaired, _).
       Inr (result, repaired))"

definition openActiveSegment :: "env \<Rightarrow> fileHandle \<Rightarrow> SegmentHeader \<Rightarrow> (activeSegment \<times> bool) res" where
  "openActiveSegment env f expected =
     res_bind (scanActiveSegment (F_data f) expected) (\<lambda>(metadata, repaired).
     res_bind
       (if \<not> repaired then Inr f
        else case hitSegmentFault env faultBeforeTailTruncate of Some e \<Rightarrow> Inl e | None \<Rightarrow>
          let (te, f1) = file_Truncate env faultBeforeTailTruncate f (unat (SS_ValidEnd metadata)) in
          case te of Some e \<Rightarrow> Inl e | None \<Rightarrow>
          case hitSegmentFault env faultBeforeTailSync of Some e \<Rightarrow> Inl e | None \<Rightarrow>
          let (se, f2) = file_Sync env faultBeforeTailSync f1 in
          case se of Some e \<Rightarrow> Inl e | None \<Rightarrow> Inr f2)
       (\<lambda>f'. Inr (\<lparr>AS_open = True, AS_file = f', AS_header = expected, AS_end = SS_ValidEnd metadata,
                  AS_first = SS_FirstAddr metadata, AS_last = SS_LastAddr metadata,
                  AS_records = SS_RecordCount metadata, AS_sealed = False, AS_transferred = False\<rparr>,
                 repaired)))"

section \<open>Append, sync and seal\<close>

fun append_plan :: "activeSegment \<Rightarrow> u32 \<Rightarrow> recordExtent list \<Rightarrow> u32 res" where
  "append_plan s tot [] = Inr tot"
| "append_plan s tot (r # rs) =
     (if tot > remainingLocked s \<or> RE_Size r = 0 \<or> RE_Size r > remainingLocked s - tot
      then Inl recordlog_ErrCorrupt
      else let offset = AS_end s + tot; end_off = offset + RE_Size r; seg = SH_SegmentID (AS_header s) in
        if VAddr_SegmentID (AR_Addr (RE_Result r)) \<noteq> seg \<or>
           VAddr_Offset (AR_Addr (RE_Result r)) \<noteq> offset \<or>
           AR_End (RE_Result r) \<noteq> \<lparr>LogPos_SegmentID = seg, LogPos_Offset = end_off\<rparr>
        then Inl recordlog_ErrCorrupt
        else append_plan s (tot + RE_Size r) rs)"

definition note_record :: "activeSegment \<Rightarrow> recordExtent \<Rightarrow> activeSegment" where
  "note_record s r = s\<lparr>AS_first := (if AS_records s = 0 then AR_Addr (RE_Result r) else AS_first s),
     AS_last := AR_Addr (RE_Result r), AS_records := AS_records s + 1\<rparr>"

definition appendEncoded ::
  "env \<Rightarrow> activeSegment \<Rightarrow> bytes \<Rightarrow> recordExtent list \<Rightarrow> nat \<times> err option \<times> activeSegment"
where
  "appendEncoded env s encoded records =
     (if \<not> AS_open s \<or> AS_sealed s then (0, Some recordlog_ErrClosed, s)
      else if records = [] \<or> encoded = [] then
        if records = [] \<and> encoded = [] then (0, None, s) else (0, Some recordlog_ErrInvalidConfig, s)
      else case append_plan s 0 records of
        Inl e \<Rightarrow> (0, Some e, s)
      | Inr tot \<Rightarrow>
          if word_of_nat (length encoded) \<noteq> tot then (0, Some recordlog_ErrCorrupt, s)
          else case hitSegmentFault env faultBeforeAppendWrite of
            Some e \<Rightarrow> (0, Some e, s)
          | None \<Rightarrow>
              let (written, we, f) = writeFullAt env faultBeforeAppendWrite (AS_file s) encoded (unat (AS_end s));
                  s1 = s\<lparr>AS_file := f\<rparr>
              in case we of
                   Some e \<Rightarrow> (written, Some e, s1)
                 | None \<Rightarrow> (written, None, (foldl note_record s1 records)\<lparr>AS_end := AS_end s + tot\<rparr>))"

definition active_sync :: "env \<Rightarrow> activeSegment \<Rightarrow> err option \<times> activeSegment" where
  "active_sync env s =
     (if \<not> AS_open s \<or> AS_sealed s then (Some recordlog_ErrClosed, s)
      else case hitSegmentFault env faultBeforeDataSync of
        Some e \<Rightarrow> (Some e, s)
      | None \<Rightarrow> let (e, f) = file_Sync env faultBeforeDataSync (AS_file s) in (e, s\<lparr>AS_file := f\<rparr>))"

definition prepareSeal :: "env \<Rightarrow> activeSegment \<Rightarrow> SegmentSummary res \<times> activeSegment" where
  "prepareSeal env s =
     (if \<not> AS_open s \<or> AS_sealed s then (Inl recordlog_ErrClosed, s)
      else let summary = summaryLocked s in
        case EncodeSegmentFooter (summary_footer summary) of Inl e \<Rightarrow> (Inl e, s)
        | Inr footer \<Rightarrow>
          case hitSegmentFault env faultBeforeFooterWrite of Some e \<Rightarrow> (Inl e, s)
          | None \<Rightarrow>
            let (_, we, f) = writeFullAt env faultBeforeFooterWrite (AS_file s) footer (unat (SS_ValidEnd summary));
                s1 = s\<lparr>AS_file := f\<rparr> in
            case we of Some e \<Rightarrow> (Inl e, s1)
            | None \<Rightarrow>
              case hitSegmentFault env faultBeforeFooterSync of Some e \<Rightarrow> (Inl e, s1)
              | None \<Rightarrow>
                let (se, f') = file_Sync env faultBeforeFooterSync f; s2 = s\<lparr>AS_file := f'\<rparr> in
                case se of Some e \<Rightarrow> (Inl e, s2) | None \<Rightarrow> (Inr summary, s2))"

definition publishPreparedSeal ::
  "env \<Rightarrow> activeSegment \<Rightarrow> SegmentSummary \<Rightarrow> (sealedSegment \<times> SegmentSummary) res \<times> activeSegment"
where
  "publishPreparedSeal env s expected =
     (if \<not> AS_open s \<or> AS_sealed s \<or> summaryLocked s \<noteq> expected then (Inl recordlog_ErrClosed, s)
      else case hitSegmentFault env faultBeforeSealRename of Some e \<Rightarrow> (Inl e, s) | None \<Rightarrow>
        case os_call env faultBeforeSealRename of Some e \<Rightarrow> (Inl e, s) | None \<Rightarrow>
        case hitSegmentFault env faultBeforeSealDirSync of Some e \<Rightarrow> (Inl e, s) | None \<Rightarrow>
        case os_call env faultBeforeSealDirSync of Some e \<Rightarrow> (Inl e, s) | None \<Rightarrow>
        (Inr (\<lparr>SG_open = True, SG_file = AS_file s, SG_header = AS_header s, SG_summary = expected\<rparr>, expected),
         s\<lparr>AS_sealed := True\<rparr>))"

definition active_seal :: "env \<Rightarrow> activeSegment \<Rightarrow> (sealedSegment \<times> SegmentSummary) res \<times> activeSegment" where
  "active_seal env s =
     (case prepareSeal env s of
        (Inl e, s1) \<Rightarrow> (Inl e, s1)
      | (Inr summary, s1) \<Rightarrow> publishPreparedSeal env s1 summary)"

definition transferSealedOwnership :: "activeSegment \<Rightarrow> sealedSegment \<Rightarrow> activeSegment res" where
  "transferSealedOwnership s sealed =
     (if \<not> AS_sealed s \<or> AS_transferred s \<or> \<not> AS_open s \<or> SG_file sealed \<noteq> AS_file s
      then Inl recordlog_ErrInvalidConfig else Inr (s\<lparr>AS_transferred := True\<rparr>))"

definition active_close :: "activeSegment \<Rightarrow> activeSegment" where
  "active_close s =
     (if \<not> AS_open s \<or> AS_sealed s \<and> AS_transferred s then s else s\<lparr>AS_open := False\<rparr>)"

section \<open>Sealed segments and reads\<close>

definition openSealedSegment :: "fileHandle \<Rightarrow> SegmentHeader \<Rightarrow> SegmentSummary \<Rightarrow> sealedSegment res" where
  "openSealedSegment f expected summary =
     (if SS_SegmentID summary \<noteq> SH_SegmentID expected \<or>
         SegmentSummary_validate summary (SH_SegmentSize expected) \<noteq> None
      then Inl recordlog_ErrInvalidConfig
      else if length (F_data f) \<noteq> unat (SS_ValidEnd summary + SegmentFooterSize) then Inl recordlog_ErrCorrupt
      else res_bind (readFullAt (F_data f) 64 0) (\<lambda>headerBytes.
        res_bind (DecodeSegmentHeader headerBytes) (\<lambda>header.
        if header \<noteq> expected then Inl recordlog_ErrCorrupt
        else res_bind (readFullAt (F_data f) 64 (unat (SS_ValidEnd summary))) (\<lambda>footerBytes.
          res_bind (DecodeSegmentFooter footerBytes) (\<lambda>footer.
          if footer \<noteq> summary_footer summary then Inl recordlog_ErrCorrupt
          else Inr \<lparr>SG_open = True, SG_file = f, SG_header = header, SG_summary = summary\<rparr>)))))"

definition readRecordAt :: "bytes \<Rightarrow> SegmentSummary \<Rightarrow> VAddr \<Rightarrow> bytes res" where
  "readRecordAt data summary addr =
     (if \<not> VAddr_Valid addr \<or> VAddr_SegmentID addr \<noteq> SS_SegmentID summary \<or>
         VAddr_Offset addr < SegmentHeaderSize \<or> VAddr_Offset addr \<ge> SS_ValidEnd summary
      then Inl recordlog_ErrInvalidVAddr
      else res_bind (VAddr_ReadHint addr) (\<lambda>hint.
        let available = SS_ValidEnd summary - VAddr_Offset addr;
            firstSize = (if hint > available then available else hint)
        in if firstSize < RecordHeaderSize then Inl recordlog_ErrCorrupt
           else res_bind (readFullAt data (unat firstSize) (unat (VAddr_Offset addr))) (\<lambda>first.
             res_bind (DecodeRecordHeader (take 32 first)) (\<lambda>h.
             if RH_Addr h \<noteq> addr \<or> RH_PhysicalSize h > available then Inl recordlog_ErrCorrupt
             else res_bind
               (if unat (RH_PhysicalSize h) < length first then Inr (take (unat (RH_PhysicalSize h)) first)
                else if unat (RH_PhysicalSize h) > length first
                then res_bind (readFullAt data (unat (RH_PhysicalSize h) - length first)
                                (unat (VAddr_Offset addr) + length first)) (\<lambda>rest. Inr (first @ rest))
                else Inr first)
               (\<lambda>encoded. res_bind (DecodeRecord encoded) (\<lambda>(_, payload). Inr payload))))))"

function scanRange_loop ::
  "bytes \<Rightarrow> SegmentSummary \<Rightarrow> 's visitor \<Rightarrow> u32 \<Rightarrow> 's \<Rightarrow> 's res"
where
  "scanRange_loop data summary visit offset st =
     (if \<not> offset < SS_ValidEnd summary then Inr st
      else res_bind (readFullAt data 32 (unat offset)) (\<lambda>headerBytes.
        res_bind (DecodeRecordHeader headerBytes) (\<lambda>h.
        if VAddr_SegmentID (RH_Addr h) \<noteq> SS_SegmentID summary \<or> VAddr_Offset (RH_Addr h) \<noteq> offset \<or>
           RH_PhysicalSize h > SS_ValidEnd summary - offset
        then Inl recordlog_ErrCorrupt
        else res_bind (readFullAt data (unat (RH_PhysicalSize h)) (unat offset)) (\<lambda>encoded.
          res_bind (DecodeRecord encoded) (\<lambda>(decoded, payload).
          if decoded \<noteq> h then Inl recordlog_ErrCorrupt
          else res_bind (NewAppendResult (RH_Addr h) (RH_PhysicalSize h)) (\<lambda>result.
            res_bind (visit st result payload) (\<lambda>st'.
              scanRange_loop data summary visit (offset + RH_PhysicalSize h) st')))))))"
  by pat_completeness auto
termination
proof (relation "measure (\<lambda>(_, summary, _, offset, _). unat (SS_ValidEnd summary) - unat offset)", goal_cases)
  case (2 data summary visit offset st headerBytes h encoded z decoded payload result st')
  then have "32 \<le> RH_PhysicalSize h"
    using DecodeRecordHeader_size by blast
  moreover from this have "0 < RH_PhysicalSize h"
    by (simp add: word_le_nat_alt word_less_nat_alt)
  ultimately show ?case
    using 2 u32_advance [of offset "SS_ValidEnd summary" "RH_PhysicalSize h"]
    by (auto simp: word_less_nat_alt word_le_nat_alt)
qed simp

declare scanRange_loop.simps [simp del]

definition scanRecordRange ::
  "bytes \<Rightarrow> SegmentSummary \<Rightarrow> u32 \<Rightarrow> 's visitor option \<Rightarrow> 's \<Rightarrow> 's res"
where
  "scanRecordRange data summary from visit st =
     (case visit of None \<Rightarrow> Inl recordlog_ErrInvalidConfig
      | Some v \<Rightarrow>
          if from < SegmentHeaderSize \<or> from > SS_ValidEnd summary \<or> from AND (RecordAlignment - 1) \<noteq> 0
          then Inl recordlog_ErrInvalidConfig
          else scanRange_loop data summary v from st)"

definition active_read :: "activeSegment \<Rightarrow> VAddr \<Rightarrow> bytes res" where
  "active_read s addr =
     (if \<not> AS_open s then Inl recordlog_ErrClosed
      else readRecordAt (F_data (AS_file s)) (summaryLocked s) addr)"

definition active_scanTo :: "activeSegment \<Rightarrow> u32 \<Rightarrow> u32 \<Rightarrow> 's visitor option \<Rightarrow> 's \<Rightarrow> 's res" where
  "active_scanTo s from limit visit st =
     (if \<not> AS_open s then Inl recordlog_ErrClosed
      else if limit > SS_ValidEnd (summaryLocked s) then Inl recordlog_ErrInvalidLogPos
      else scanRecordRange (F_data (AS_file s)) ((summaryLocked s)\<lparr>SS_ValidEnd := limit\<rparr>) from visit st)"

definition sealed_read :: "sealedSegment \<Rightarrow> VAddr \<Rightarrow> bytes res" where
  "sealed_read s addr =
     (if \<not> SG_open s then Inl recordlog_ErrClosed
      else readRecordAt (F_data (SG_file s)) (SG_summary s) addr)"

definition sealed_scan :: "sealedSegment \<Rightarrow> u32 \<Rightarrow> 's visitor option \<Rightarrow> 's \<Rightarrow> 's res" where
  "sealed_scan s from visit st =
     (if \<not> SG_open s then Inl recordlog_ErrClosed
      else scanRecordRange (F_data (SG_file s)) (SG_summary s) from visit st)"

end
