(* ===== verification/Segment_Recovery.thy ===== *)
theory Segment_Recovery
  imports Segment_File
begin

text \<open>
  Correctness of the segment file. A well-formed segment is a header followed by frames laid out
  without gaps (\<open>placed\<close>). The lemmas show that the recovery scan returns exactly the complete
  frames of a segment with a torn tail, that it accepts nothing else, that an append extends the
  layout by the new frames and that reads and range scans return what was appended.
\<close>

section \<open>Layout of records in a segment\<close>

type_synonym log_record = "VAddr \<times> bytes"

definition frame :: "log_record \<Rightarrow> bytes" where
  "frame r = (case EncodeRecord (fst r) (snd r) of Inl _ \<Rightarrow> [] | Inr e \<Rightarrow> e)"

definition frames :: "log_record list \<Rightarrow> bytes" where
  "frames rs = concat (map frame rs)"

fun placed :: "SegmentID \<Rightarrow> nat \<Rightarrow> log_record list \<Rightarrow> bool" where
  "placed seg off [] \<longleftrightarrow> True"
| "placed seg off (r # rs) \<longleftrightarrow>
     VAddr_SegmentID (fst r) = seg \<and> unat (VAddr_Offset (fst r)) = off \<and>
     EncodeRecord (fst r) (snd r) = Inr (frame r) \<and> placed seg (off + length (frame r)) rs"

definition rec_header :: "log_record \<Rightarrow> RecordHeader" where
  "rec_header r = \<lparr>RH_PhysicalSize = word_of_nat (length (frame r)),
     RH_PayloadSize = word_of_nat (length (snd r)), RH_Addr = fst r, RH_PayloadCRC = crc32c (snd r)\<rparr>"

definition rec_result :: "log_record \<Rightarrow> AppendResult" where
  "rec_result r = \<lparr>AR_Addr = fst r, AR_End = \<lparr>LogPos_SegmentID = VAddr_SegmentID (fst r),
     LogPos_Offset = VAddr_Offset (fst r) + word_of_nat (length (frame r))\<rparr>\<rparr>"

definition summary_of :: "SegmentID \<Rightarrow> log_record list \<Rightarrow> SegmentSummary" where
  "summary_of seg rs = \<lparr>SS_SegmentID = seg, SS_ValidEnd = word_of_nat (64 + length (frames rs)),
     SS_RecordCount = word_of_nat (length rs), SS_FirstAddr = (if rs = [] then 0 else fst (hd rs)),
     SS_LastAddr = (if rs = [] then 0 else fst (last rs))\<rparr>"

lemma frames_simps [simp]:
  "frames [] = []" "frames (r # rs) = frame r @ frames rs" "frames (rs @ rs') = frames rs @ frames rs'"
  by (simp_all add: frames_def)

lemma placed_append [simp]:
  "placed seg off (rs @ rs') \<longleftrightarrow> placed seg off rs \<and> placed seg (off + length (frames rs)) rs'"
  by (induction rs arbitrary: off) (auto simp: add.assoc)

lemma frame_facts:
  assumes "EncodeRecord (fst r) (snd r) = Inr (frame r)"
  shows "32 \<le> length (frame r)" "length (frame r) \<le> MaxUint32"
    "unat (RH_PhysicalSize (rec_header r)) = length (frame r)"
    "DecodeRecordHeader (take 32 (frame r)) = Inr (rec_header r)"
    "DecodeRecord (frame r) = Inr (rec_header r, snd r)"
    "VAddr_Valid (fst r)" "VAddr_MatchesPhysicalSize (fst r) (RH_PhysicalSize (rec_header r))"
    "length (frame r) mod 8 = 0"
proof -
  from assms obtain tot where tot: "PhysicalRecordSize (length (snd r)) = Inr tot"
    and v: "VAddr_Valid (fst r)" "VAddr_MatchesPhysicalSize (fst r) tot"
    using EncodeRecord_Inr_iff [of "fst r" "snd r"] by auto
  note E = DecodeRecordHeader_Encode [OF assms tot] and P = PhysicalRecordSize_Inr [OF tot]
  show "32 \<le> length (frame r)" "length (frame r) \<le> MaxUint32"
    using E(2) P unat_u32_bound [of tot] by simp_all
  have t: "word_of_nat (length (frame r)) = tot"
    using E(2) by simp
  show "unat (RH_PhysicalSize (rec_header r)) = length (frame r)"
    "DecodeRecordHeader (take 32 (frame r)) = Inr (rec_header r)"
    "DecodeRecord (frame r) = Inr (rec_header r, snd r)"
    "VAddr_Valid (fst r)" "VAddr_MatchesPhysicalSize (fst r) (RH_PhysicalSize (rec_header r))"
    using E DecodeRecord_Encode [OF assms tot] v
    by (simp_all add: rec_header_def t take_eq_subslice)
  show "length (frame r) mod 8 = 0"
    using E(2) P(1) by simp
qed

lemma length_frames_ge: "placed seg off rs \<Longrightarrow> 32 * length rs \<le> length (frames rs)"
proof (induction rs arbitrary: off)
  case (Cons r rs)
  then show ?case
    using frame_facts(1) [of r] Cons.IH [of "off + length (frame r)"] by simp
qed simp

lemma frame_magic: "EncodeRecord a p = Inr e \<Longrightarrow> take 4 e = recordMagic"
  by (auto simp: EncodeRecord_def EncodeRecordTo_def Let_def split: if_splits)

lemma recordMagic_neq: "take 4 segmentFooterMagic \<noteq> recordMagic"
  by (simp add: segmentFooterMagic_def recordMagic_def)

lemma summary_of_ValidEnd:
  "64 + length (frames rs) \<le> MaxUint32 \<Longrightarrow> unat (SS_ValidEnd (summary_of seg rs)) = 64 + length (frames rs)"
  by (simp only: summary_of_def SegmentSummary.simps) (rule unat_word_u32, simp)

lemma summary_add_of:
  assumes "length rs < MaxUint64" "EncodeRecord (fst r) (snd r) = Inr (frame r)"
  shows "summary_add (summary_of seg rs) (rec_header r) = summary_of seg (rs @ [r])"
proof -
  have "(word_of_nat (length rs) :: u64) = 0 \<longleftrightarrow> rs = []"
    using assms(1) by (simp add: word_unat_eq_iff unat_of_nat)
  then show ?thesis
    by (auto simp: summary_add_def summary_of_def rec_header_def add.commute hd_append)
qed

section \<open>One turn of the scans\<close>

lemma readFullAt_mid:
  "length pre = off \<Longrightarrow> n \<le> length mid \<Longrightarrow> readFullAt (pre @ mid @ post) n off = Inr (take n mid)"
  by (simp add: readFullAt_def codec_simps take_eq_subslice)

lemma NewAppendResult_rec:
  assumes "EncodeRecord (fst r) (snd r) = Inr (frame r)"
    "unat (VAddr_Offset (fst r)) + length (frame r) \<le> MaxUint32"
  shows "NewAppendResult (fst r) (RH_PhysicalSize (rec_header r)) = Inr (rec_result r)"
proof -
  note F = frame_facts [OF assms(1)]
  let ?o = "VAddr_Offset (fst r)" and ?s = "RH_PhysicalSize (rec_header r)"
  have u: "unat (?o + ?s) = unat ?o + length (frame r)"
    using assms(2) F(3) by (simp add: unat_word_ariths)
  have "\<not> ?s > 4294967295 - ?o"
    using assms(2) F(3) unat_sub [of ?o 4294967295] unat_u32_bound [of ?o]
    by (simp add: word_less_nat_alt word_le_nat_alt)
  moreover have "64 \<le> ?o" "VAddr_SegmentID (fst r) \<noteq> 0"
    using F(6) by (auto simp: VAddr_Valid_def)
  moreover have "\<not> ?o + ?s < 64"
    using \<open>64 \<le> ?o\<close> u by (simp add: word_less_nat_alt word_le_nat_alt)
  moreover have "(?o + ?s) AND 7 = 0"
    using VAddr_Offset_aligned [of "fst r"] F(8) u by (simp add: aligned_iff dvd_eq_mod_eq_0 mod_add_eq [symmetric])
  ultimately show ?thesis
    using F(6,7) by (simp add: NewAppendResult_def VAddr_End_def NewLogPos_def rec_result_def rec_header_def)
qed

lemma scanActive_step:
  assumes enc: "EncodeRecord (fst r) (snd r) = Inr (frame r)"
    and at: "unat (SS_ValidEnd result) = length pre" "VAddr_SegmentID (fst r) = SH_SegmentID expected"
      "unat (VAddr_Offset (fst r)) = length pre"
    and limit: "length pre + length (frame r) \<le> unat (SH_SegmentSize expected - 64)"
    and len: "length (pre @ frame r @ post) \<le> MaxUint32"
  shows "scanActive_loop (pre @ frame r @ post) expected visit result st =
    res_bind (visit_record visit st (rec_header r) (snd r)) (\<lambda>st'.
      scanActive_loop (pre @ frame r @ post) expected visit (summary_add result (rec_header r)) st')"
proof -
  let ?data = "pre @ frame r @ post" and ?at = "SS_ValidEnd result"
  define fe :: u32 where "fe = word_of_nat (length ?data)"
  note F = frame_facts [OF enc]
  have fe: "unat fe = length pre + length (frame r) + length post"
    unfolding fe_def using len by (subst unat_word_u32) simp_all
  have lt: "?at < fe"
    unfolding word_less_nat_alt using fe at(1) F(1) by linarith
  have rem: "unat (fe - ?at) = length (frame r) + length post"
    using lt fe at by (simp add: unat_sub word_less_nat_alt word_le_nat_alt)
  have nf: "readFullAt ?data 8 (unat ?at) \<noteq> Inr segmentFooterMagic"
    using readFullAt_mid [of pre "unat ?at" 8 "frame r" post] at F(1) frame_magic [OF enc] recordMagic_neq
    by (auto simp: min_def dest: arg_cong [where f = "take 4"])
  have r32: "readFullAt ?data 32 (unat ?at) = Inr (take 32 (frame r))"
    using readFullAt_mid at F(1) by simp
  have ra: "readFullAt ?data (unat (RH_PhysicalSize (rec_header r))) (unat ?at) = Inr (frame r)"
    using readFullAt_mid [of pre "unat ?at" "length (frame r)" "frame r" post] at F(3) by simp
  have g: "\<not> fe - ?at < 32" "\<not> fe - ?at < RH_PhysicalSize (rec_header r)"
      "\<not> ?at > SH_SegmentSize expected - 64"
      "\<not> RH_PhysicalSize (rec_header r) > SH_SegmentSize expected - 64 - ?at"
    using rem F(1,3) at limit by (auto simp: word_less_nat_alt word_le_nat_alt unat_sub)
  have a: "VAddr_SegmentID (RH_Addr (rec_header r)) = SH_SegmentID expected"
      "VAddr_Offset (RH_Addr (rec_header r)) = ?at"
    using at by (simp_all add: rec_header_def word_unat_eq_iff)
  show ?thesis
    unfolding scanActive_loop.simps [of ?data expected visit result st] Let_def fe_def [symmetric]
    using lt nf g a by (simp add: r32 ra F(4,5))
qed

lemma scanRange_step:
  assumes enc: "EncodeRecord (fst r) (snd r) = Inr (frame r)"
    and at: "unat offset = length pre" "VAddr_SegmentID (fst r) = SS_SegmentID summary"
      "unat (VAddr_Offset (fst r)) = length pre"
    and limit: "length pre + length (frame r) \<le> unat (SS_ValidEnd summary)"
  shows "scanRange_loop (pre @ frame r @ post) summary visit offset st =
    res_bind (visit st (rec_result r) (snd r)) (\<lambda>st'.
      scanRange_loop (pre @ frame r @ post) summary visit (offset + RH_PhysicalSize (rec_header r)) st')"
proof -
  let ?data = "pre @ frame r @ post"
  note F = frame_facts [OF enc]
  have lt: "offset < SS_ValidEnd summary"
    unfolding word_less_nat_alt using limit at(1) F(1) by linarith
  have r32: "readFullAt ?data 32 (unat offset) = Inr (take 32 (frame r))"
    using readFullAt_mid at F(1) by simp
  have ra: "readFullAt ?data (unat (RH_PhysicalSize (rec_header r))) (unat offset) = Inr (frame r)"
    using readFullAt_mid [of pre "unat offset" "length (frame r)" "frame r" post] at F(3) by simp
  have g: "\<not> RH_PhysicalSize (rec_header r) > SS_ValidEnd summary - offset"
    using F(3) at limit lt by (auto simp: word_less_nat_alt word_le_nat_alt unat_sub)
  have a: "VAddr_SegmentID (RH_Addr (rec_header r)) = SS_SegmentID summary"
      "VAddr_Offset (RH_Addr (rec_header r)) = offset"
    using at by (simp_all add: rec_header_def word_unat_eq_iff)
  have n: "NewAppendResult (RH_Addr (rec_header r)) (RH_PhysicalSize (rec_header r)) = Inr (rec_result r)"
    using NewAppendResult_rec [OF enc] at limit unat_u32_bound [of "SS_ValidEnd summary"]
    by (simp add: rec_header_def)
  show ?thesis
    unfolding scanRange_loop.simps [of ?data summary visit offset st]
    using lt g a n by (simp add: r32 ra F(4,5))
qed

section \<open>Scanning a laid-out segment\<close>

definition visits :: "'s visitor option \<Rightarrow> 's \<Rightarrow> log_record list \<Rightarrow> 's res" where
  "visits visit st rs =
     (case visit of None \<Rightarrow> Inr st
      | Some v \<Rightarrow> res_fold (\<lambda>st r. v st (rec_result r) (snd r)) st rs)"

definition seg_limit :: "SegmentHeader \<Rightarrow> nat" where
  "seg_limit h = unat (SH_SegmentSize h - SegmentFooterSize)"

lemma visits_Nil [simp]: "visits visit st [] = Inr st"
  by (simp add: visits_def split: option.splits)

lemma scanActive_frames:
  assumes "length hdr = 64" "placed (SH_SegmentID expected) 64 (done @ rs)"
    "64 + length (frames (done @ rs)) \<le> seg_limit expected"
    "length (hdr @ frames (done @ rs) @ tail) \<le> MaxUint32"
  shows "scanActive_loop (hdr @ frames (done @ rs) @ tail) expected visit
      (summary_of (SH_SegmentID expected) done) st =
    res_bind (visits visit st rs) (\<lambda>st'.
      scanActive_loop (hdr @ frames (done @ rs) @ tail) expected visit
        (summary_of (SH_SegmentID expected) (done @ rs)) st')"
  using assms
proof (induction rs arbitrary: "done" st)
  case (Cons r rs)
  let ?seg = "SH_SegmentID expected" and ?data = "hdr @ frames (done @ r # rs) @ tail"
  have enc: "EncodeRecord (fst r) (snd r) = Inr (frame r)" and seg: "VAddr_SegmentID (fst r) = ?seg"
    and off: "unat (VAddr_Offset (fst r)) = 64 + length (frames done)"
    using Cons.prems by simp_all
  have "length done < MaxUint64"
    using length_frames_ge [of ?seg 64 "done"] Cons.prems by simp
  note add = summary_add_of [OF this enc]
  have ve: "unat (SS_ValidEnd (summary_of ?seg done)) = length (hdr @ frames done)"
    using Cons.prems by (subst summary_of_ValidEnd) simp_all
  have step: "scanActive_loop ?data expected visit (summary_of ?seg done) st =
    res_bind (visit_record visit st (rec_header r) (snd r)) (\<lambda>st'.
      scanActive_loop ?data expected visit (summary_of ?seg (done @ [r])) st')" for st
    using scanActive_step [OF enc ve seg, of "frames rs @ tail"] off Cons.prems add
    by (simp add: seg_limit_def)
  have v: "visit_record visit st (rec_header r) (snd r) =
      (case visit of None \<Rightarrow> Inr st | Some v \<Rightarrow> v st (rec_result r) (snd r))"
  proof -
    have "NewAppendResult (RH_Addr (rec_header r)) (RH_PhysicalSize (rec_header r)) = Inr (rec_result r)"
      using NewAppendResult_rec [OF enc] off Cons.prems by (simp add: rec_header_def)
    then show ?thesis
      by (simp add: visit_record_def split: option.splits)
  qed
  have IH: "scanActive_loop ?data expected visit (summary_of ?seg (done @ [r])) st' =
    res_bind (visits visit st' rs) (\<lambda>st''.
      scanActive_loop ?data expected visit (summary_of ?seg (done @ r # rs)) st'')" for st'
    using Cons.IH [of "done @ [r]" st'] Cons.prems by simp
  show ?case
    unfolding step v IH by (cases visit) (simp_all add: visits_def res_bind_def split: sum.splits)
qed simp

definition torn_tail :: "SegmentHeader \<Rightarrow> nat \<Rightarrow> bytes \<Rightarrow> bool" where
  \<comment> \<open>what an interrupted write can leave behind the complete frames: nothing, a proper prefix of
    the next frame, or a prefix of a footer\<close>
  "torn_tail expected off tail \<longleftrightarrow>
     tail = [] \<or>
     (\<exists>r k. placed (SH_SegmentID expected) off [r] \<and> off + length (frame r) \<le> seg_limit expected \<and>
        k < length (frame r) \<and> tail = take k (frame r)) \<or>
     (\<exists>f e k. EncodeSegmentFooter f = Inr e \<and> tail = take k e)"

lemma length_EncodeSegmentFooter: "EncodeSegmentFooter f = Inr e \<Longrightarrow> length e = 64 \<and> take 8 e = segmentFooterMagic"
  by (auto simp: EncodeSegmentFooter_def Let_def split: if_splits option.splits)

lemma scanActive_tail:
  assumes len: "length (pre @ tail) \<le> MaxUint32" and at: "unat (SS_ValidEnd result) = length pre"
    and torn: "torn_tail expected (length pre) tail"
  shows "scanActive_loop (pre @ tail) expected visit result st = Inr (result, tail \<noteq> [], st)"
proof -
  let ?data = "pre @ tail" and ?at = "SS_ValidEnd result"
  define fe :: u32 where "fe = word_of_nat (length ?data)"
  have fe: "unat fe = length pre + length tail"
    unfolding fe_def using len by (subst unat_word_u32) simp_all
  have lt: "?at < fe \<longleftrightarrow> tail \<noteq> []"
    using fe at by (simp add: word_less_nat_alt)
  have rem: "unat (fe - ?at) = length tail" if "tail \<noteq> []"
    using that lt fe at by (simp add: unat_sub word_less_nat_alt word_le_nat_alt)
  note unf = scanActive_loop.simps [of ?data expected visit result st] Let_def fe_def [symmetric]
  consider "tail = []" | (rec) r k where "tail \<noteq> []" "placed (SH_SegmentID expected) (length pre) [r]"
      "length pre + length (frame r) \<le> seg_limit expected" "k < length (frame r)" "tail = take k (frame r)"
    | (footer) f e k where "tail \<noteq> []" "EncodeSegmentFooter f = Inr e" "tail = take k e"
    using torn unfolding torn_tail_def by blast
  then show ?thesis
  proof cases
    case 1
    then show ?thesis unfolding unf using lt by simp
  next
    case rec
    have enc: "EncodeRecord (fst r) (snd r) = Inr (frame r)"
      using rec(2) by simp
    note F = frame_facts [OF enc]
    show ?thesis
    proof (cases "length tail < 32")
      case True
      then have "fe - ?at < 32"
        using rem [OF rec(1)] by (simp add: word_less_nat_alt)
      then show ?thesis
        unfolding unf using lt rec(1) by simp
    next
      case False
      then have k: "32 \<le> k" "length tail = k" using rec(4,5) by auto
      have r32: "readFullAt ?data 32 (unat ?at) = Inr (take 32 (frame r))"
        using readFullAt_mid [of pre "unat ?at" 32 tail "[]"] at k rec(5) by (simp add: min_def)
      have a: "VAddr_SegmentID (RH_Addr (rec_header r)) = SH_SegmentID expected"
          "VAddr_Offset (RH_Addr (rec_header r)) = ?at"
        using at rec(2) by (simp_all add: rec_header_def word_unat_eq_iff)
      have g: "\<not> fe - ?at < 32" "fe - ?at < RH_PhysicalSize (rec_header r)"
          "\<not> ?at > SH_SegmentSize expected - 64"
          "\<not> RH_PhysicalSize (rec_header r) > SH_SegmentSize expected - 64 - ?at"
        using rem [OF rec(1)] F(1,3) at rec(3,4) k
        by (auto simp: word_less_nat_alt word_le_nat_alt unat_sub seg_limit_def)
      then show ?thesis
        unfolding unf using lt rec(1) g a by (simp add: r32 F(4))
    qed
  next
    case footer
    note E = length_EncodeSegmentFooter [OF footer(2)]
    show ?thesis
    proof (cases "length tail < 8")
      case True
      then have "fe - ?at < 32"
        using rem [OF footer(1)] by (simp add: word_less_nat_alt)
      then show ?thesis
        unfolding unf using lt footer(1) by simp
    next
      case False
      then have "take 8 tail = segmentFooterMagic"
        using footer(3) E by (auto simp: min_def)
      then have "readFullAt ?data 8 (unat ?at) = Inr segmentFooterMagic"
        using readFullAt_mid [of pre "unat ?at" 8 tail "[]"] at False by simp
      moreover have "fe - ?at \<le> 64" "8 \<le> fe - ?at"
        using rem [OF footer(1)] False footer(3) E by (auto simp: word_le_nat_alt)
      ultimately show ?thesis
        unfolding unf using lt footer(1) by simp
    qed
  qed
qed

lemma EncodeSegmentHeader_facts:
  assumes "EncodeSegmentHeader h = Inr hdr"
  shows "length hdr = 64" "seg_limit h + 64 = unat (SH_SegmentSize h)" "SH_SegmentID h \<noteq> 0"
    "DecodeSegmentHeader hdr = Inr h"
proof -
  show "length hdr = 64" "DecodeSegmentHeader hdr = Inr h"
    using assms DecodeSegmentHeader_Encode [OF assms]
    by (auto simp: EncodeSegmentHeader_def Let_def split: if_splits)
  have "160 < SH_SegmentSize h" and i: "SH_SegmentID h \<noteq> 0"
    using assms by (auto simp: EncodeSegmentHeader_def segment_shape_ok_def not_le split: if_splits)
  then show "seg_limit h + 64 = unat (SH_SegmentSize h)"
    by (simp add: seg_limit_def unat_sub word_less_nat_alt word_le_nat_alt)
  show "SH_SegmentID h \<noteq> 0" by (rule i)
qed

lemma scanActiveSegment_recovers:
  assumes "EncodeSegmentHeader expected = Inr hdr" "placed (SH_SegmentID expected) 64 rs"
    "64 + length (frames rs) \<le> seg_limit expected" "torn_tail expected (64 + length (frames rs)) tail"
    "length (hdr @ frames rs @ tail) \<le> unat (SH_SegmentSize expected)"
  shows "scanActiveSegmentWithVisitor (hdr @ frames rs @ tail) expected visit st =
    res_bind (visits visit st rs) (\<lambda>st'.
      Inr (summary_of (SH_SegmentID expected) rs, tail \<noteq> [], st'))"
proof -
  let ?data = "hdr @ frames rs @ tail" and ?seg = "SH_SegmentID expected"
  note H = EncodeSegmentHeader_facts [OF assms(1)]
  have max: "length ?data \<le> MaxUint32"
    using assms(5) unat_u32_bound [of "SH_SegmentSize expected"] by linarith
  have init: "\<lparr>SS_SegmentID = ?seg, SS_ValidEnd = 64, SS_RecordCount = 0, SS_FirstAddr = 0, SS_LastAddr = 0\<rparr> =
      summary_of ?seg []"
    by (simp add: summary_of_def)
  have hb: "readFullAt ?data 64 0 = Inr hdr"
    using H(1) by (simp add: readFullAt_def codec_simps)
  have ve: "unat (SS_ValidEnd (summary_of ?seg rs)) = length (hdr @ frames rs)"
    using max H(1) by (subst summary_of_ValidEnd) simp_all
  have fin: "scanActive_loop ?data expected visit (summary_of ?seg rs) st' =
      Inr (summary_of ?seg rs, tail \<noteq> [], st')" for st'
    using scanActive_tail [OF _ ve, of tail expected] max assms(4) H(1) by simp
  have "scanActive_loop ?data expected visit (summary_of ?seg []) st =
    res_bind (visits visit st rs) (\<lambda>st'. Inr (summary_of ?seg rs, tail \<noteq> [], st'))"
    using scanActive_frames [of hdr expected "[]" rs tail visit st] assms(2,3) max H(1) by (simp add: fin)
  then show ?thesis
    using assms(5) H by (simp add: scanActiveSegmentWithVisitor_def hb init)
qed

section \<open>The scan accepts nothing else\<close>

lemma readFullAt_Inr:
  "readFullAt (pre @ rest) n (length pre) = Inr bs \<longleftrightarrow> n \<le> length rest \<and> bs = take n rest"
  by (auto simp: readFullAt_def codec_simps take_eq_subslice)

lemma rec_header_eq:
  assumes "DecodeRecord bs = Inr (h, payload)"
  shows "frame (RH_Addr h, payload) = bs" "rec_header (RH_Addr h, payload) = h"
    "EncodeRecord (RH_Addr h) payload = Inr bs"
proof -
  note E = EncodeRecord_Decode [OF assms]
  show f: "frame (RH_Addr h, payload) = bs" and "EncodeRecord (RH_Addr h) payload = Inr bs"
    using E(1) by (simp_all add: frame_def)
  have "word_of_nat (length payload) = RH_PayloadSize h" "word_of_nat (length bs) = RH_PhysicalSize h"
    using E(3,4) by (auto dest: sym)
  then show "rec_header (RH_Addr h, payload) = h"
    using E(5) f by (simp add: rec_header_def)
qed

lemma scanActive_next:
  assumes "scanActive_loop (pre @ rest) expected visit result st = Inr (res, repaired, st')"
    and at: "unat (SS_ValidEnd result) = length pre" and len: "length (pre @ rest) \<le> MaxUint32"
    and lim: "length pre \<le> seg_limit expected"
  shows "(res = result \<and> st' = st \<and> (repaired \<longleftrightarrow> rest \<noteq> [])) \<or>
    (\<exists>r rest'. rest = frame r @ rest' \<and> placed (SH_SegmentID expected) (length pre) [r] \<and>
       length pre + length (frame r) \<le> seg_limit expected)"
proof (rule disjCI)
  let ?data = "pre @ rest" and ?at = "SS_ValidEnd result"
  define fe :: u32 where "fe = word_of_nat (length ?data)"
  assume no: "\<nexists>r rest'. rest = frame r @ rest' \<and> placed (SH_SegmentID expected) (length pre) [r] \<and>
       length pre + length (frame r) \<le> seg_limit expected"
  have fe: "unat fe = length pre + length rest"
    unfolding fe_def using len by (subst unat_word_u32) simp_all
  have lt: "?at < fe \<longleftrightarrow> rest \<noteq> []"
    using fe at by (simp add: word_less_nat_alt)
  show "res = result \<and> st' = st \<and> (repaired \<longleftrightarrow> rest \<noteq> [])"
  proof (rule ccontr)
    assume neg: "\<not> ?thesis"
    then obtain h bs payload where h: "VAddr_SegmentID (RH_Addr h) = SH_SegmentID expected"
        "VAddr_Offset (RH_Addr h) = ?at" "\<not> RH_PhysicalSize h > SH_SegmentSize expected - 64 - ?at"
      and rd: "readFullAt ?data (unat (RH_PhysicalSize h)) (unat ?at) = Inr bs"
      and d: "DecodeRecord bs = Inr (h, payload)"
      using assms(1) lt
      unfolding scanActive_loop.simps [of ?data expected visit result st] Let_def fe_def [symmetric]
      by (auto split: if_splits)
    have bs: "bs = take (unat (RH_PhysicalSize h)) rest"
      using rd by (simp add: at readFullAt_Inr)
    note R = rec_header_eq [OF d]
    have "unat (RH_PhysicalSize h) = length bs"
      using EncodeRecord_Decode(4) [OF d] by simp
    moreover have "unat (SH_SegmentSize expected - 64 - ?at) = seg_limit expected - length pre"
      using lim at by (simp add: unat_sub word_le_nat_alt seg_limit_def)
    ultimately have "length pre + length bs \<le> seg_limit expected"
      using h(3) lim by (simp add: word_less_nat_alt)
    moreover have "rest = frame (RH_Addr h, payload) @ drop (unat (RH_PhysicalSize h)) rest"
      using R(1) bs by simp
    moreover have "placed (SH_SegmentID expected) (length pre) [(RH_Addr h, payload)]"
      using h(1,2) at R by simp
    ultimately show False
      using no R(1) by metis
  qed
qed

lemma scanActive_sound:
  assumes "scanActive_loop (hdr @ frames done @ rest) expected visit (summary_of (SH_SegmentID expected) done) st =
      Inr (res, repaired, st')"
    "length hdr = 64" "placed (SH_SegmentID expected) 64 done"
    "64 + length (frames done) \<le> seg_limit expected" "length (hdr @ frames done @ rest) \<le> MaxUint32"
  shows "\<exists>rs tail. rest = frames rs @ tail \<and> placed (SH_SegmentID expected) 64 (done @ rs) \<and>
    64 + length (frames (done @ rs)) \<le> seg_limit expected \<and> (repaired \<longleftrightarrow> tail \<noteq> []) \<and>
    res = summary_of (SH_SegmentID expected) (done @ rs) \<and> visits visit st rs = Inr st'"
  using assms
proof (induction "length rest" arbitrary: rest "done" st rule: less_induct)
  case less
  let ?seg = "SH_SegmentID expected" and ?data = "hdr @ frames done @ rest"
  have ve: "unat (SS_ValidEnd (summary_of ?seg done)) = length (hdr @ frames done)"
    using less.prems by (subst summary_of_ValidEnd) simp_all
  have "(res = summary_of ?seg done \<and> st' = st \<and> (repaired \<longleftrightarrow> rest \<noteq> [])) \<or>
    (\<exists>r rest'. rest = frame r @ rest' \<and> placed ?seg (64 + length (frames done)) [r] \<and>
       64 + length (frames done) + length (frame r) \<le> seg_limit expected)"
    using scanActive_next [of "hdr @ frames done" rest expected visit "summary_of ?seg done" st] ve
      less.prems(1,2,4,5) by simp
  then consider "res = summary_of ?seg done" "st' = st" "repaired \<longleftrightarrow> rest \<noteq> []"
    | (more) r rest' where "rest = frame r @ rest'" "placed ?seg (64 + length (frames done)) [r]"
        "64 + length (frames done) + length (frame r) \<le> seg_limit expected"
    by blast
  then show ?case
  proof cases
    case 1
    then show ?thesis
      using less.prems by (intro exI [of _ "[]"] exI [of _ rest]) simp
  next
    case more
    have fr: "frame r \<noteq> []"
      using more(2) frame_facts(1) [of r] by auto
    have "scanActive_loop ?data expected visit (summary_of ?seg done) st =
      res_bind (visits visit st [r]) (\<lambda>st1.
        scanActive_loop ?data expected visit (summary_of ?seg (done @ [r])) st1)"
      using scanActive_frames [of hdr expected "done" "[r]" rest' visit st] less.prems more
      by (simp add: add.assoc)
    then obtain st1 where v1: "visits visit st [r] = Inr st1"
      and "scanActive_loop (hdr @ frames (done @ [r]) @ rest') expected visit (summary_of ?seg (done @ [r])) st1 =
        Inr (res, repaired, st')"
      using less.prems(1) more(1) by auto
    from less.hyps [OF _ this(2)] less.prems more fr
    obtain rs tail where rs: "rest' = frames rs @ tail" "placed ?seg 64 ((done @ [r]) @ rs)"
        "64 + length (frames ((done @ [r]) @ rs)) \<le> seg_limit expected" "repaired \<longleftrightarrow> tail \<noteq> []"
        "res = summary_of ?seg ((done @ [r]) @ rs)" "visits visit st1 rs = Inr st'"
      by (auto simp: add.assoc)
    have "visits visit st (r # rs) = Inr st'"
      using v1 rs(6) by (auto simp: visits_def split: option.splits)
    then show ?thesis
      using rs more(1) by (intro exI [of _ "r # rs"] exI [of _ tail]) simp
  qed
qed

lemma scanActiveSegment_Inr:
  assumes "scanActiveSegmentWithVisitor data expected visit st = Inr (summary, repaired, st')"
  shows "\<exists>hdr rs tail. EncodeSegmentHeader expected = Inr hdr \<and> data = hdr @ frames rs @ tail \<and>
    placed (SH_SegmentID expected) 64 rs \<and> 64 + length (frames rs) \<le> seg_limit expected \<and>
    (repaired \<longleftrightarrow> tail \<noteq> []) \<and> summary = summary_of (SH_SegmentID expected) rs \<and>
    visits visit st rs = Inr st'"
proof -
  have len: "64 \<le> length data" "length data \<le> unat (SH_SegmentSize expected)"
    and d: "DecodeSegmentHeader (take 64 data) = Inr expected"
    and loop: "scanActive_loop data expected visit
        \<lparr>SS_SegmentID = SH_SegmentID expected, SS_ValidEnd = 64, SS_RecordCount = 0, SS_FirstAddr = 0,
         SS_LastAddr = 0\<rparr> st = Inr (summary, repaired, st')"
    using assms by (auto simp: scanActiveSegmentWithVisitor_def readFullAt_def take_eq_subslice split: if_splits)
  have e: "EncodeSegmentHeader expected = Inr (take 64 data)"
    using EncodeSegmentHeader_Decode [OF d] .
  note H = EncodeSegmentHeader_facts [OF e]
  have "160 < SH_SegmentSize expected"
    using e by (auto simp: EncodeSegmentHeader_def segment_shape_ok_def split: if_splits)
  then have lim: "64 \<le> seg_limit expected"
    using H(2) by (simp add: word_less_nat_alt)
  have "scanActive_loop (take 64 data @ frames [] @ drop 64 data) expected visit
      (summary_of (SH_SegmentID expected) []) st = Inr (summary, repaired, st')"
    using loop by (simp add: summary_of_def)
  from scanActive_sound [OF this H(1)] lim len(2) unat_u32_bound [of "SH_SegmentSize expected"]
  obtain rs tail where d64: "drop 64 data = frames rs @ tail" and "placed (SH_SegmentID expected) 64 rs"
      "64 + length (frames rs) \<le> seg_limit expected" "repaired \<longleftrightarrow> tail \<noteq> []"
      "summary = summary_of (SH_SegmentID expected) rs" "visits visit st rs = Inr st'"
    by auto
  moreover have "data = take 64 data @ frames rs @ tail"
    unfolding d64 [symmetric] by simp
  ultimately show ?thesis
    using e by blast
qed

section \<open>Crashes\<close>

text \<open>The complete frames among the first \<open>n\<close> bytes of a data area.\<close>

fun complete :: "nat \<Rightarrow> log_record list \<Rightarrow> log_record list" where
  "complete n [] = []"
| "complete n (r # rs) = (if length (frame r) \<le> n then r # complete (n - length (frame r)) rs else [])"

lemma complete_prefix: "\<exists>k. complete n rs = take k rs"
proof (induction rs arbitrary: n)
  case (Cons r rs)
  from Cons [of "n - length (frame r)"] obtain k where "complete (n - length (frame r)) rs = take k rs" ..
  then show ?case
    by (auto intro: exI [of _ "Suc k"] exI [of _ 0])
qed simp

lemma complete_all: "length (frames rs) \<le> n \<Longrightarrow> complete n rs = rs"
  by (induction rs arbitrary: n) auto

lemma complete_append: "length (frames rs) \<le> n \<Longrightarrow> complete n (rs @ rs') = rs @ complete (n - length (frames rs)) rs'"
  by (induction rs arbitrary: n) auto

lemma take_frames_torn:
  assumes "placed (SH_SegmentID expected) off rs" "off + length (frames rs) \<le> seg_limit expected"
    "foot = [] \<or> EncodeSegmentFooter f = Inr foot"
  shows "\<exists>tail. take n (frames rs @ foot) = frames (complete n rs) @ tail \<and>
    placed (SH_SegmentID expected) off (complete n rs) \<and>
    torn_tail expected (off + length (frames (complete n rs))) tail"
  using assms
proof (induction rs arbitrary: off n)
  case Nil
  then have "torn_tail expected off (take n foot)"
    unfolding torn_tail_def by (cases "foot = []") (simp, blast)
  then show ?case by simp
next
  case (Cons r rs)
  show ?case
  proof (cases "length (frame r) \<le> n")
    case True
    from Cons.IH [of "off + length (frame r)" "n - length (frame r)"] Cons.prems
    obtain tail where "take (n - length (frame r)) (frames rs @ foot) = frames (complete (n - length (frame r)) rs) @ tail"
        "placed (SH_SegmentID expected) (off + length (frame r)) (complete (n - length (frame r)) rs)"
        "torn_tail expected (off + length (frame r) + length (frames (complete (n - length (frame r)) rs))) tail"
      by (auto simp: add.assoc)
    then show ?thesis
      using True Cons.prems by (intro exI [of _ tail]) (simp add: add.assoc)
  next
    case False
    then have "torn_tail expected off (take n (frame r))"
      using Cons.prems unfolding torn_tail_def by (intro disjI2 disjI1 exI [of _ r] exI [of _ n]) simp
    then show ?thesis
      using False by simp
  qed
qed

lemma take_segment_torn:
  assumes "EncodeSegmentHeader expected = Inr hdr" "placed (SH_SegmentID expected) 64 rs"
    "64 + length (frames rs) \<le> seg_limit expected" "foot = [] \<or> EncodeSegmentFooter f = Inr foot" "64 \<le> n"
  shows "\<exists>tail. take n (hdr @ frames rs @ foot) = hdr @ frames (complete (n - 64) rs) @ tail \<and>
    placed (SH_SegmentID expected) 64 (complete (n - 64) rs) \<and>
    torn_tail expected (64 + length (frames (complete (n - 64) rs))) tail"
proof -
  have "length hdr = 64" using EncodeSegmentHeader_facts [OF assms(1)] by simp
  then show ?thesis
    using take_frames_torn [OF assms(2,3,4), of "n - 64"] assms(5) by auto
qed

lemma length_frames_complete: "length (frames (complete n rs)) \<le> min n (length (frames rs))"
  by (induction n rs rule: complete.induct) auto

lemma scan_after_crash:
  assumes "EncodeSegmentHeader expected = Inr hdr" "placed (SH_SegmentID expected) 64 rs"
    "64 + length (frames rs) \<le> seg_limit expected" "foot = [] \<or> EncodeSegmentFooter f = Inr foot" "64 \<le> n"
  shows "\<exists>repaired. scanActiveSegmentWithVisitor (take n (hdr @ frames rs @ foot)) expected visit st =
    res_bind (visits visit st (complete (n - 64) rs)) (\<lambda>st'.
      Inr (summary_of (SH_SegmentID expected) (complete (n - 64) rs), repaired, st'))"
proof -
  obtain tail where t: "take n (hdr @ frames rs @ foot) = hdr @ frames (complete (n - 64) rs) @ tail"
      "placed (SH_SegmentID expected) 64 (complete (n - 64) rs)"
      "torn_tail expected (64 + length (frames (complete (n - 64) rs))) tail"
    using take_segment_torn [OF assms] by blast
  note H = EncodeSegmentHeader_facts [OF assms(1)]
  have "length foot \<le> 64"
    using assms(4) length_EncodeSegmentFooter by fastforce
  then have "length (take n (hdr @ frames rs @ foot)) \<le> unat (SH_SegmentSize expected)"
    using H assms(3) by simp
  moreover have "64 + length (frames (complete (n - 64) rs)) \<le> seg_limit expected"
    using length_frames_complete [of "n - 64" rs] assms(3) by simp
  ultimately show ?thesis
    unfolding t(1) using scanActiveSegment_recovers [OF assms(1) t(2) _ t(3), of visit st] by blast
qed

section \<open>Appends, reads and range scans\<close>

definition extent :: "log_record \<Rightarrow> recordExtent" where
  "extent r = \<lparr>RE_Result = rec_result r, RE_Size = word_of_nat (length (frame r))\<rparr>"

definition active_ok :: "activeSegment \<Rightarrow> log_record list \<Rightarrow> bool" where
  "active_ok s rs \<longleftrightarrow> AS_open s \<and> \<not> AS_sealed s \<and>
     (\<exists>hdr. EncodeSegmentHeader (AS_header s) = Inr hdr \<and> F_data (AS_file s) = hdr @ frames rs) \<and>
     placed (SH_SegmentID (AS_header s)) 64 rs \<and> 64 + length (frames rs) \<le> seg_limit (AS_header s) \<and>
     summaryLocked s = summary_of (SH_SegmentID (AS_header s)) rs \<and>
     F_synced (AS_file s) \<le> length (F_data (AS_file s))"

lemma seg_limit_bound: "seg_limit h \<le> MaxUint32"
  unfolding seg_limit_def by (rule unat_u32_bound)

lemma active_ok_end:
  assumes "active_ok s rs"
  shows "unat (AS_end s) = 64 + length (frames rs)"
    "unat (remainingLocked s) = seg_limit (AS_header s) - (64 + length (frames rs))"
    "AS_end s = word_of_nat (64 + length (frames rs))" "AS_records s = word_of_nat (length rs)"
    "AS_first s = (if rs = [] then 0 else fst (hd rs))" "AS_last s = (if rs = [] then 0 else fst (last rs))"
proof -
  show e: "AS_end s = word_of_nat (64 + length (frames rs))" "AS_records s = word_of_nat (length rs)"
    "AS_first s = (if rs = [] then 0 else fst (hd rs))" "AS_last s = (if rs = [] then 0 else fst (last rs))"
    using assms by (simp_all add: active_ok_def summaryLocked_def summary_of_def)
  have b: "64 + length (frames rs) \<le> MaxUint32"
    using assms seg_limit_bound [of "AS_header s"] by (simp add: active_ok_def)
  show u: "unat (AS_end s) = 64 + length (frames rs)"
    unfolding e(1) using b by (rule unat_word_u32)
  show "unat (remainingLocked s) = seg_limit (AS_header s) - (64 + length (frames rs))"
    using u assms
    by (auto simp: remainingLocked_def Let_def seg_limit_def word_le_nat_alt unat_sub active_ok_def not_le)
qed

lemma append_plan_ok:
  assumes "active_ok s rs"
  shows "placed (SH_SegmentID (AS_header s)) (64 + length (frames rs) + unat tot) new \<Longrightarrow>
    64 + length (frames rs) + unat tot + length (frames new) \<le> seg_limit (AS_header s) \<Longrightarrow>
    append_plan s tot (map extent new) = Inr (tot + word_of_nat (length (frames new)))"
proof (induction new arbitrary: tot)
  case (Cons r new)
  note E = active_ok_end [OF assms]
  have enc: "EncodeRecord (fst r) (snd r) = Inr (frame r)"
    using Cons.prems by simp
  note F = frame_facts [OF enc]
  define sz :: u32 where "sz = word_of_nat (length (frame r))"
  have sz: "unat sz = length (frame r)"
    unfolding sz_def using F(2) by (rule unat_word_u32)
  have b: "64 + length (frames rs) + unat tot + length (frame r) \<le> MaxUint32"
    using Cons.prems seg_limit_bound [of "AS_header s"] by simp
  have ut: "unat (tot + sz) = unat tot + length (frame r)" and uo: "unat (AS_end s + tot) = 64 + length (frames rs) + unat tot"
    using b sz E(1) by (simp_all add: unat_word_ariths)
  have g: "\<not> tot > remainingLocked s" "sz \<noteq> 0" "\<not> sz > remainingLocked s - tot"
    using Cons.prems E(2) sz F(1) by (auto simp: word_less_nat_alt word_le_nat_alt unat_sub word_unat_eq_iff)
  have a: "VAddr_Offset (fst r) = AS_end s + tot"
    using Cons.prems uo by (simp add: word_unat_eq_iff)
  have "append_plan s (tot + sz) (map extent new) = Inr (tot + sz + word_of_nat (length (frames new)))"
    using Cons.IH [of "tot + sz"] Cons.prems ut by (simp add: add.assoc)
  moreover have "RE_Size (extent r) = sz" "AR_Addr (RE_Result (extent r)) = fst r"
    "AR_End (RE_Result (extent r)) =
      \<lparr>LogPos_SegmentID = SH_SegmentID (AS_header s), LogPos_Offset = AS_end s + tot + sz\<rparr>"
    using a Cons.prems by (simp_all add: extent_def rec_result_def sz_def)
  ultimately show ?case
    using g a Cons.prems by (simp add: sz_def [symmetric] add.assoc)
qed simp

lemma foldl_note_record:
  assumes "AS_records s = word_of_nat (length rs)" "AS_first s = (if rs = [] then 0 else fst (hd rs))"
    "AS_last s = (if rs = [] then 0 else fst (last rs))" "length rs + length new < MaxUint64"
  shows "foldl note_record s (map extent new) =
    s\<lparr>AS_first := (if rs @ new = [] then 0 else fst (hd (rs @ new))),
      AS_last := (if rs @ new = [] then 0 else fst (last (rs @ new))),
      AS_records := word_of_nat (length (rs @ new))\<rparr>"
  using assms
proof (induction new arbitrary: s rs)
  case Nil
  then show ?case by simp
next
  case (Cons r new)
  have z: "(word_of_nat (length rs) :: u64) = 0 \<longleftrightarrow> rs = []"
    using Cons.prems(4) by (simp add: word_unat_eq_iff unat_of_nat)
  have n: "note_record s (extent r) = s\<lparr>AS_first := fst (hd (rs @ [r])), AS_last := fst r,
      AS_records := word_of_nat (length (rs @ [r]))\<rparr>"
    using Cons.prems z by (auto simp: note_record_def extent_def rec_result_def add.commute)
  show ?case
    using Cons.IH [of "note_record s (extent r)" "rs @ [r]"] Cons.prems(4) by (simp add: n)
qed

lemma appendEncoded_ok:
  assumes "active_ok s rs" "new \<noteq> []" "placed (SH_SegmentID (AS_header s)) (64 + length (frames rs)) new"
    "64 + length (frames (rs @ new)) \<le> seg_limit (AS_header s)"
    "hitSegmentFault env faultBeforeAppendWrite = None" "E_os env faultBeforeAppendWrite = None"
  shows "\<exists>s'. appendEncoded env s (frames new) (map extent new) = (length (frames new), None, s') \<and>
    active_ok s' (rs @ new) \<and> AS_header s' = AS_header s \<and>
    F_synced (AS_file s') = F_synced (AS_file s)"
proof -
  note E = active_ok_end [OF assms(1)]
  obtain hdr where hdr: "EncodeSegmentHeader (AS_header s) = Inr hdr" "F_data (AS_file s) = hdr @ frames rs"
    using assms(1) by (auto simp: active_ok_def)
  have lh: "length hdr = 64" using EncodeSegmentHeader_facts [OF hdr(1)] by simp
  have new_ne: "frames new \<noteq> []"
    using assms(2,3) frame_facts(1) [of "hd new"] by (cases new) auto
  have plan: "append_plan s 0 (map extent new) = Inr (word_of_nat (length (frames new)))"
    using append_plan_ok [OF assms(1), of 0 new] assms(3,4) by simp
  have lrs: "length rs + length new < MaxUint64"
    using length_frames_ge [of "SH_SegmentID (AS_header s)" 64 "rs @ new"] assms(1,3,4)
      seg_limit_bound [of "AS_header s"] by (simp add: active_ok_def)
  define f where "f = (AS_file s)\<lparr>F_data := hdr @ frames (rs @ new),
      F_synced := F_synced (AS_file s)\<rparr>"
  have wr: "writeFullAt env faultBeforeAppendWrite (AS_file s) (frames new) (unat (AS_end s)) =
      (length (frames new), None, f)"
    using assms(1) hdr lh by (simp add: writeFullAt_def assms(6) E(1) write_at_def f_def active_ok_def)
  define s' where "s' = (foldl note_record (s\<lparr>AS_file := f\<rparr>) (map extent new))
      \<lparr>AS_end := AS_end s + word_of_nat (length (frames new))\<rparr>"
  have s': "s' = s\<lparr>AS_file := f, AS_first := fst (hd (rs @ new)), AS_last := fst (last (rs @ new)),
      AS_records := word_of_nat (length (rs @ new)), AS_end := word_of_nat (64 + length (frames (rs @ new)))\<rparr>"
    unfolding s'_def using foldl_note_record [of "s\<lparr>AS_file := f\<rparr>" rs new] E lrs assms(2)
    by (simp add: add.assoc)
  have "appendEncoded env s (frames new) (map extent new) = (length (frames new), None, s')"
    using assms(1,2,5) new_ne plan wr by (simp add: appendEncoded_def active_ok_def s'_def)
  moreover have "active_ok s' (rs @ new)"
    using assms hdr by (simp add: s' active_ok_def f_def summaryLocked_def summary_of_def)
  ultimately show ?thesis
    by (auto simp: s' f_def)
qed

lemma appendEncoded_error:
  assumes "active_ok s rs" "appendEncoded env s encoded recs = (written, Some e, s')"
  shows "summaryLocked s' = summaryLocked s \<and> AS_header s' = AS_header s \<and>
    (\<exists>k. F_data (AS_file s') = F_data (AS_file s) @ take k encoded) \<and>
    F_synced (AS_file s') = F_synced (AS_file s)"
proof -
  have l: "length (F_data (AS_file s)) = unat (AS_end s)"
    using assms(1) active_ok_end(1) [OF assms(1)] EncodeSegmentHeader_facts(1)
    by (auto simp: active_ok_def)
  then have "F_synced (AS_file s) \<le> unat (AS_end s)"
    using assms(1) by (simp add: active_ok_def)
  moreover have "\<exists>k. [] = take k encoded" by (rule exI [of _ 0]) simp
  ultimately show ?thesis
    using assms(2) l
    by (auto simp: appendEncoded_def writeFullAt_def write_at_def summaryLocked_def Let_def
        split: if_splits sum.splits option.splits prod.splits)
qed

lemma active_sync_ok:
  assumes "active_ok s rs" "active_sync env s = (e, s')"
  shows "active_ok s' rs \<and> AS_header s' = AS_header s \<and> F_data (AS_file s') = F_data (AS_file s) \<and>
    (e = None \<longrightarrow> F_synced (AS_file s') = length (F_data (AS_file s'))) \<and>
    F_synced (AS_file s) \<le> F_synced (AS_file s')"
  using assms
  by (auto simp: active_sync_def file_Sync_def active_ok_def summaryLocked_def
      split: if_splits option.splits prod.splits)

lemma readHint_ge: "VAddr_ReadHint v = Inr hint \<Longrightarrow> 64 \<le> hint"
proof -
  assume a: "VAddr_ReadHint v = Inr hint"
  have "unat (VAddr_SizeTag v) < 8"
    by (simp add: unat_VAddr_SizeTag)
  then have "unat (VAddr_SizeTag v) \<in> {0, 1, 2, 3, 4, 5, 6, 7}" by auto
  then show ?thesis
    using a by (auto simp: VAddr_ReadHint_def split: if_splits)
qed

lemma readRecordAt_ok:
  assumes enc: "EncodeRecord (fst r) (snd r) = Inr (frame r)"
    and at: "unat (VAddr_Offset (fst r)) = length pre" "VAddr_SegmentID (fst r) = SS_SegmentID summary"
    and limit: "length pre + length (frame r) \<le> unat (SS_ValidEnd summary)"
      "unat (SS_ValidEnd summary) \<le> length (pre @ frame r @ post)"
  shows "readRecordAt (pre @ frame r @ post) summary (fst r) = Inr (snd r)"
proof -
  let ?data = "pre @ frame r @ post" and ?off = "VAddr_Offset (fst r)"
  note F = frame_facts [OF enc]
  obtain hint where hint: "VAddr_ReadHint (fst r) = Inr hint"
    using F(6) by (simp add: VAddr_ReadHint_def)
  note hint = hint readHint_ge [OF hint]
  have lt: "?off < SS_ValidEnd summary" "64 \<le> ?off"
    using F(1,6) limit at by (simp_all only: word_less_nat_alt VAddr_Valid_def)
  define av where "av = SS_ValidEnd summary - ?off"
  have av: "unat av = unat (SS_ValidEnd summary) - length pre"
    using lt at by (simp add: av_def unat_sub word_less_nat_alt word_le_nat_alt)
  define n where "n = (if hint > av then av else hint)"
  have n: "32 \<le> unat n" "unat n \<le> unat av"
    using av limit F(1) hint(2) by (auto simp: n_def word_less_nat_alt word_le_nat_alt)
  define fb where "fb = take (unat n) (frame r @ post)"
  have rd: "readFullAt ?data (unat n) (unat ?off) = Inr fb"
    using readFullAt_mid [of pre "unat ?off" "unat n" "frame r @ post" "[]"] n av limit(2) at
    by (simp add: fb_def)
  have h: "DecodeRecordHeader (take 32 fb) = Inr (rec_header r)"
    using n F(1,4) by (simp add: fb_def min_def)
  have g: "\<not> RH_PhysicalSize (rec_header r) > av" "RH_Addr (rec_header r) = fst r"
    using av F(3) limit by (auto simp: word_less_nat_alt rec_header_def)
  have len: "length fb = unat n"
    using n av limit(2) by (simp add: fb_def)
  have rest: "readFullAt ?data (length (frame r) - unat n) (unat ?off + unat n) = Inr (drop (unat n) (frame r))"
    if "unat n < length (frame r)"
  proof -
    have "readFullAt ((pre @ take (unat n) (frame r)) @ drop (unat n) (frame r) @ post)
        (length (frame r) - unat n) (unat ?off + unat n) = Inr (drop (unat n) (frame r))"
      using that at by (subst readFullAt_mid) simp_all
    then show ?thesis
      using append_take_drop_id [of "unat n" "frame r"] by (metis append_assoc)
  qed
  have enc_eq: "(if unat (RH_PhysicalSize (rec_header r)) < length fb
        then Inr (take (unat (RH_PhysicalSize (rec_header r))) fb)
        else if unat (RH_PhysicalSize (rec_header r)) > length fb
        then res_bind (readFullAt ?data (unat (RH_PhysicalSize (rec_header r)) - length fb) (unat ?off + length fb))
          (\<lambda>rest. Inr (fb @ rest))
        else Inr fb) = Inr (frame r)"
    unfolding F(3) len using rest by (simp add: fb_def min_def)
  have ng: "\<not> n < 32"
    using n by (simp add: word_less_nat_alt)
  show ?thesis
    using lt F(6) at(2) ng g
    unfolding readRecordAt_def hint(1) res_bind_simps Let_def av_def [symmetric] n_def [symmetric] rd h enc_eq
    by (simp add: F(5) leD)
qed

lemma scanRange_frames:
  assumes "placed (SS_SegmentID summary) (length pre) rs" "unat offset = length pre"
    "unat (SS_ValidEnd summary) = length pre + length (frames rs)"
  shows "scanRange_loop (pre @ frames rs @ post) summary visit offset st = visits (Some visit) st rs"
  using assms
proof (induction rs arbitrary: pre offset st)
  case Nil
  then show ?case
    by (subst scanRange_loop.simps) (simp add: word_less_nat_alt visits_def)
next
  case (Cons r rs)
  have enc: "EncodeRecord (fst r) (snd r) = Inr (frame r)"
    using Cons.prems by simp
  note F = frame_facts [OF enc]
  have step: "scanRange_loop (pre @ frame r @ frames rs @ post) summary visit offset st =
    res_bind (visit st (rec_result r) (snd r)) (\<lambda>st'.
      scanRange_loop (pre @ frame r @ frames rs @ post) summary visit
        (offset + RH_PhysicalSize (rec_header r)) st')"
    using scanRange_step [OF enc, of offset pre summary "frames rs @ post" visit st] Cons.prems by simp
  have o: "unat (offset + RH_PhysicalSize (rec_header r)) = length (pre @ frame r)"
    using Cons.prems F(3) unat_u32_bound [of "SS_ValidEnd summary"] by (simp add: unat_word_ariths)
  have IH: "scanRange_loop (pre @ frame r @ frames rs @ post) summary visit
        (offset + RH_PhysicalSize (rec_header r)) st' = visits (Some visit) st' rs" for st'
    using Cons.IH [of "pre @ frame r" "offset + RH_PhysicalSize (rec_header r)" st'] o Cons.prems
    by (simp add: add.assoc)
  show ?case
    by (simp add: step IH visits_def)
qed

lemma frames_aligned: "placed seg off rs \<Longrightarrow> length (frames rs) mod 8 = 0"
proof (induction rs arbitrary: off)
  case (Cons r rs)
  have "length (frame r) mod 8 = 0" "length (frames rs) mod 8 = 0"
    using frame_facts(8) [of r] Cons.prems Cons.IH [of "off + length (frame r)"] by simp_all
  then show ?case by (simp add: mod_add_eq [symmetric])
qed simp

lemma scanRecordRange_ok:
  assumes "placed (SS_SegmentID summary) 64 (xs @ ys)" "length hdr = 64"
    "unat (SS_ValidEnd summary) = 64 + length (frames (xs @ ys))" "unat from = 64 + length (frames xs)"
  shows "scanRecordRange (hdr @ frames (xs @ ys) @ post) summary from (Some visit) st = visits (Some visit) st ys"
proof -
  have "length (frames xs) mod 8 = 0"
    using frames_aligned assms(1) by auto
  then have "from AND 7 = 0" "\<not> from < 64" "\<not> from > SS_ValidEnd summary"
    using assms(3,4) by (simp_all add: aligned_iff dvd_eq_mod_eq_0 word_less_nat_alt mod_add_eq [symmetric])
  then show ?thesis
    using scanRange_frames [of summary "hdr @ frames xs" ys "from" post visit st] assms
    by (simp add: scanRecordRange_def)
qed

section \<open>Sealing\<close>

lemma placed_addr_less:
  assumes "placed seg off (r # rs)" "r' \<in> set rs"
  shows "fst r < fst r'"
proof -
  have "\<exists>k \<ge> off + length (frame r). VAddr_SegmentID (fst r') = seg \<and> unat (VAddr_Offset (fst r')) = k"
    if "placed seg off' zs" "r' \<in> set zs" "off + length (frame r) \<le> off'" for zs off'
    using that
  proof (induction zs arbitrary: off')
    case (Cons z zs)
    then show ?case
      by (cases "r' = z") (auto dest: Cons.IH [of "off' + length (frame z)"])
  qed simp
  from this [of "off + length (frame r)" rs] assms
  have r': "VAddr_SegmentID (fst r') = seg" "off + length (frame r) \<le> unat (VAddr_Offset (fst r'))"
    by auto
  have "32 \<le> length (frame r)"
    using assms(1) frame_facts(1) [of r] by simp
  moreover have "unat (VAddr_SizeTag (fst r)) < 8"
    by (simp add: unat_VAddr_SizeTag)
  ultimately show ?thesis
    using r' assms(1) by (simp add: word_less_nat_alt unat_VAddr [of "fst r"] unat_VAddr [of "fst r'"])
qed

lemma placed_last:
  assumes "placed seg off rs" "rs \<noteq> []"
  shows "unat (VAddr_Offset (fst (last rs))) + 32 \<le> off + length (frames rs) \<and>
    VAddr_SegmentID (fst (last rs)) = seg \<and> VAddr_Valid (fst (last rs))"
  using assms
proof (induction rs arbitrary: off)
  case (Cons r rs)
  have "EncodeRecord (fst r) (snd r) = Inr (frame r)" using Cons.prems by simp
  note F = frame_facts [OF this]
  show ?case
    using Cons.prems Cons.IH [of "off + length (frame r)"] F(1,6) by (cases "rs = []") (simp_all add: add.assoc)
qed simp

lemma summary_footer_valid:
  assumes "placed seg 64 rs" "seg \<noteq> 0" "64 + length (frames rs) \<le> MaxUint32"
  shows "validateSegmentFooter (summary_footer (summary_of seg rs)) = None"
proof (cases rs)
  case Nil
  then show ?thesis
    using assms(2) by (simp add: validateSegmentFooter_def summary_footer_def summary_of_def)
next
  case (Cons r rs')
  note V = summary_of_ValidEnd [OF assms(3), of seg]
  have "length rs \<le> MaxUint32"
    using length_frames_ge [OF assms(1)] assms(3) by simp
  then have c: "SS_RecordCount (summary_of seg rs) \<noteq> 0"
    using Cons by (auto simp: summary_of_def word_unat_eq_iff unat_of_nat unat_word_ariths simp del: of_nat_Suc)
  have fl: "\<not> fst r > fst (last rs)"
  proof (cases "rs' = []")
    case False
    then have "last rs \<in> set rs'" using Cons by simp
    then have "fst r < fst (last rs)"
      using placed_addr_less [of seg 64 r rs'] assms(1) Cons by blast
    then show ?thesis by (rule less_not_sym)
  qed (simp add: Cons)
  note L = placed_last [OF assms(1)]
  have "VAddr_Valid (fst r)" "VAddr_SegmentID (fst r) = seg"
    using frame_facts(6) [of r] assms(1) Cons by auto
  moreover have "SS_ValidEnd (summary_of seg rs) AND 7 = 0"
    using frames_aligned [OF assms(1)] V by (simp add: aligned_iff dvd_eq_mod_eq_0 mod_add_eq [symmetric])
  moreover have "\<not> SS_ValidEnd (summary_of seg rs) < 64"
      "\<not> VAddr_Offset (fst (last rs)) \<ge> SS_ValidEnd (summary_of seg rs)"
    using V L Cons by (auto simp: word_less_nat_alt word_le_nat_alt)
  moreover have "SS_FirstAddr (summary_of seg rs) = fst r" "SS_LastAddr (summary_of seg rs) = fst (last rs)"
      "SS_SegmentID (summary_of seg rs) = seg"
    using Cons by (simp_all add: summary_of_def)
  ultimately show ?thesis
    using fl L Cons c assms(2) by (auto simp: validateSegmentFooter_def summary_footer_def)
qed

definition sealed_ok :: "sealedSegment \<Rightarrow> log_record list \<Rightarrow> bool" where
  "sealed_ok sg rs \<longleftrightarrow> SG_open sg \<and>
     (\<exists>hdr foot. EncodeSegmentHeader (SG_header sg) = Inr hdr \<and>
        EncodeSegmentFooter (summary_footer (SG_summary sg)) = Inr foot \<and>
        F_data (SG_file sg) = hdr @ frames rs @ foot) \<and>
     placed (SH_SegmentID (SG_header sg)) 64 rs \<and> 64 + length (frames rs) \<le> seg_limit (SG_header sg) \<and>
     SG_summary sg = summary_of (SH_SegmentID (SG_header sg)) rs \<and>
     F_synced (SG_file sg) = length (F_data (SG_file sg))"

lemma active_ok_footer:
  assumes "active_ok s rs"
  shows "\<exists>foot. EncodeSegmentFooter (summary_footer (summaryLocked s)) = Inr foot \<and> length foot = 64"
proof -
  obtain hdr where "EncodeSegmentHeader (AS_header s) = Inr hdr"
    using assms by (auto simp: active_ok_def)
  then have "SH_SegmentID (AS_header s) \<noteq> 0" by (rule EncodeSegmentHeader_facts)
  then have "validateSegmentFooter (summary_footer (summaryLocked s)) = None"
    using assms seg_limit_bound [of "AS_header s"] summary_footer_valid by (simp add: active_ok_def)
  then show ?thesis
    by (simp add: EncodeSegmentFooter_def Let_def)
qed

lemma active_seal_ok:
  assumes "active_ok s rs" "active_seal env s = (Inr (sg, sm), s')"
  shows "sealed_ok sg rs" "SG_header sg = AS_header s" "sm = SG_summary sg" "AS_sealed s'"
proof -
  obtain hdr where hdr: "EncodeSegmentHeader (AS_header s) = Inr hdr" "F_data (AS_file s) = hdr @ frames rs"
    using assms(1) by (auto simp: active_ok_def)
  obtain foot where foot: "EncodeSegmentFooter (summary_footer (summaryLocked s)) = Inr foot"
    using active_ok_footer [OF assms(1)] by blast
  have e: "unat (AS_end s) = length (F_data (AS_file s))"
    using active_ok_end(1) [OF assms(1)] hdr EncodeSegmentHeader_facts(1) [OF hdr(1)] by simp
  have sg: "sg = \<lparr>SG_open = True,
      SG_file = (AS_file s)\<lparr>F_data := hdr @ frames rs @ foot, F_synced := length (hdr @ frames rs @ foot)\<rparr>,
      SG_header = AS_header s, SG_summary = summaryLocked s\<rparr>" and sm: "sm = summaryLocked s" and s': "AS_sealed s'"
    using assms(2) foot hdr e
    by (auto simp: active_seal_def prepareSeal_def publishPreparedSeal_def Let_def writeFullAt_def file_Sync_def
        write_at_def summaryLocked_def split: if_splits option.splits sum.splits prod.splits)
  show "sealed_ok sg rs" "SG_header sg = AS_header s" "sm = SG_summary sg" "AS_sealed s'"
    using assms(1) hdr foot sm s' by (auto simp: sealed_ok_def sg active_ok_def)
qed

lemma openSealedSegment_ok:
  assumes "sealed_ok sg rs"
  shows "openSealedSegment (SG_file sg) (SG_header sg) (SG_summary sg) = Inr sg"
proof -
  let ?h = "SG_header sg" and ?sm = "SG_summary sg"
  obtain hdr foot where hdr: "EncodeSegmentHeader ?h = Inr hdr"
    and foot: "EncodeSegmentFooter (summary_footer ?sm) = Inr foot"
    and data: "F_data (SG_file sg) = hdr @ frames rs @ foot"
    using assms by (auto simp: sealed_ok_def)
  have sm: "?sm = summary_of (SH_SegmentID ?h) rs" and lim: "64 + length (frames rs) \<le> seg_limit ?h"
    and op: "SG_open sg"
    using assms by (auto simp: sealed_ok_def)
  note H = EncodeSegmentHeader_facts [OF hdr] and D = DecodeSegmentFooter_Encode [OF foot]
  have lf: "length foot = 64" using length_EncodeSegmentFooter [OF foot] by simp
  have ve: "unat (SS_ValidEnd ?sm) = 64 + length (frames rs)"
    unfolding sm using lim seg_limit_bound [of ?h] by (intro summary_of_ValidEnd) simp
  have "unat (SS_ValidEnd ?sm + 64) = 64 + length (frames rs) + 64"
    using ve lim H(2) unat_u32_bound [of "SH_SegmentSize ?h"] by (simp add: unat_word_ariths)
  moreover have "readFullAt (F_data (SG_file sg)) 64 0 = Inr hdr"
    using H(1) by (simp add: data readFullAt_def codec_simps)
  moreover have "readFullAt (F_data (SG_file sg)) 64 (unat (SS_ValidEnd ?sm)) = Inr foot"
    using readFullAt_mid [of "hdr @ frames rs" "unat (SS_ValidEnd ?sm)" 64 foot "[]"] H(1) ve lf
    by (simp add: data)
  moreover have "SegmentSummary_validate ?sm (SH_SegmentSize ?h) = None"
  proof -
    have "validateSegmentFooter (summary_footer ?sm) = None"
      using foot by (auto simp: EncodeSegmentFooter_def split: option.splits)
    moreover have "\<not> SH_SegmentSize ?h \<le> 64" "\<not> SS_ValidEnd ?sm > SH_SegmentSize ?h - 64"
      using H(2) lim ve by (auto simp: word_le_nat_alt word_less_nat_alt seg_limit_def)
    ultimately show ?thesis by (simp add: SegmentSummary_validate_def)
  qed
  moreover have "SS_SegmentID ?sm = SH_SegmentID ?h"
    by (simp add: sm summary_of_def)
  moreover have "sg = \<lparr>SG_open = True, SG_file = SG_file sg, SG_header = ?h, SG_summary = ?sm\<rparr>"
    using op by (cases sg) simp
  ultimately show ?thesis
    using H D lf by (simp add: openSealedSegment_def data)
qed

lemma active_read_ok:
  assumes "active_ok s rs" "r \<in> set rs"
  shows "active_read s (fst r) = Inr (snd r)"
proof -
  obtain xs ys where rs: "rs = xs @ r # ys" using split_list [OF assms(2)] by blast
  obtain hdr where hdr: "EncodeSegmentHeader (AS_header s) = Inr hdr" "F_data (AS_file s) = hdr @ frames rs"
    using assms(1) by (auto simp: active_ok_def)
  note H = EncodeSegmentHeader_facts [OF hdr(1)]
  have "SS_ValidEnd (summaryLocked s) = AS_end s" "SS_SegmentID (summaryLocked s) = SH_SegmentID (AS_header s)"
    by (simp_all add: summaryLocked_def)
  then have "readRecordAt ((hdr @ frames xs) @ frame r @ frames ys) (summaryLocked s) (fst r) = Inr (snd r)"
    using assms(1) active_ok_end(1) [OF assms(1)] H(1)
    by (intro readRecordAt_ok) (simp_all add: active_ok_def rs)
  then show ?thesis
    using assms(1) hdr(2) by (simp add: active_read_def active_ok_def rs)
qed

lemma sealed_read_ok:
  assumes "sealed_ok s rs" "r \<in> set rs"
  shows "sealed_read s (fst r) = Inr (snd r)"
proof -
  obtain xs ys where rs: "rs = xs @ r # ys" using split_list [OF assms(2)] by blast
  obtain hdr foot where hdr: "EncodeSegmentHeader (SG_header s) = Inr hdr" "F_data (SG_file s) = hdr @ frames rs @ foot"
    using assms(1) by (auto simp: sealed_ok_def)
  note H = EncodeSegmentHeader_facts [OF hdr(1)]
  have sm: "SG_summary s = summary_of (SH_SegmentID (SG_header s)) rs"
    and lim: "64 + length (frames rs) \<le> seg_limit (SG_header s)"
    using assms(1) by (auto simp: sealed_ok_def)
  have "unat (SS_ValidEnd (SG_summary s)) = 64 + length (frames rs)"
    unfolding sm using lim seg_limit_bound [of "SG_header s"] by (intro summary_of_ValidEnd) simp
  then have "readRecordAt ((hdr @ frames xs) @ frame r @ frames ys @ foot) (SG_summary s) (fst r) = Inr (snd r)"
    using assms(1) H(1) by (intro readRecordAt_ok) (simp_all add: sealed_ok_def rs, simp add: summary_of_def)
  then show ?thesis
    using assms(1) hdr(2) by (simp add: sealed_read_def sealed_ok_def rs)
qed

lemma sealed_scan_ok:
  assumes "sealed_ok s (xs @ ys)" "unat from = 64 + length (frames xs)"
  shows "sealed_scan s from (Some visit) st = visits (Some visit) st ys"
proof -
  obtain hdr foot where hdr: "EncodeSegmentHeader (SG_header s) = Inr hdr"
    "F_data (SG_file s) = hdr @ frames (xs @ ys) @ foot"
    using assms(1) by (auto simp: sealed_ok_def)
  have sm: "SG_summary s = summary_of (SH_SegmentID (SG_header s)) (xs @ ys)"
    and lim: "64 + length (frames (xs @ ys)) \<le> seg_limit (SG_header s)"
    using assms(1) by (auto simp: sealed_ok_def)
  have "unat (SS_ValidEnd (SG_summary s)) = 64 + length (frames (xs @ ys))"
    unfolding sm using lim seg_limit_bound [of "SG_header s"] by (intro summary_of_ValidEnd) simp
  then show ?thesis
    using scanRecordRange_ok [of "SG_summary s" xs ys hdr "from" foot visit st] assms hdr
      EncodeSegmentHeader_facts(1) [OF hdr(1)]
    by (simp add: sealed_scan_def sealed_ok_def summary_of_def)
qed

section \<open>Properties of one segment\<close>

definition collect :: "(AppendResult \<times> bytes) list visitor" where
  "collect st r payload = Inr (st @ [(r, payload)])"

definition visited :: "log_record list \<Rightarrow> (AppendResult \<times> bytes) list" where
  "visited rs = map (\<lambda>r. (rec_result r, snd r)) rs"

lemma visits_collect: "visits (Some collect) st rs = Inr (st @ visited rs)"
proof -
  have "res_fold (\<lambda>st r. collect st (rec_result r) (snd r)) st rs = Inr (st @ visited rs)"
    by (induction rs arbitrary: st) (simp_all add: collect_def visited_def)
  then show ?thesis by (simp add: visits_def)
qed

definition example_header :: SegmentHeader where
  "example_header = \<lparr>SH_LogID = 1, SH_SegmentID = 1, SH_PreviousSegment = 0, SH_SegmentSize = 4096\<rparr>"

definition example_record :: log_record where
  "example_record = (4294967360, [7])"

definition example_hdr :: bytes where
  "example_hdr = (case EncodeSegmentHeader example_header of Inr e \<Rightarrow> e | Inl _ \<Rightarrow> [])"

lemma example_facts:
  "EncodeSegmentHeader example_header = Inr example_hdr" "seg_limit example_header = 4032"
  "placed 1 64 [example_record]" "length (frame example_record) = 40" "SH_SegmentID example_header = 1"
proof -
  show "EncodeSegmentHeader example_header = Inr example_hdr" "seg_limit example_header = 4032"
    "SH_SegmentID example_header = 1"
    by (simp_all add: example_hdr_def EncodeSegmentHeader_def segment_shape_ok_def example_header_def
        Let_def seg_limit_def)
  have v: "NewVAddr 1 64 40 = Inr (fst example_record)"
    by (simp add: NewVAddr_eq_Inr sizeTag_eq pack_def example_record_def)
  have p: "PhysicalRecordSize (length (snd example_record)) = Inr 40"
    by (simp add: PhysicalRecordSize_def example_record_def)
  note V = NewVAddr_fields [OF v]
  obtain e where e: "EncodeRecord (fst example_record) (snd example_record) = Inr e"
    using EncodeRecord_Inr_iff [of "fst example_record" "snd example_record"] p V by auto
  then have f: "frame example_record = e" by (simp add: frame_def)
  show "length (frame example_record) = 40"
    using DecodeRecordHeader_Encode(2) [OF e p] f by simp
  show "placed 1 64 [example_record]"
    using e f V by simp
qed

text \<open>
  C1: recovery after a crash. Let a segment file hold a header, the frames of the appended records
  and possibly a footer that was written but not published, and let a crash cut the file anywhere
  after its header. The recovery scan succeeds, reports to its visitor exactly the records whose
  frames are complete in the surviving prefix, in order, and returns the summary of these records:
  every record that lies within the surviving bytes is recovered, the torn rest is dropped.
\<close>

theorem scan_recovers_after_crash:
  assumes "EncodeSegmentHeader expected = Inr hdr" "placed (SH_SegmentID expected) 64 rs"
    "64 + length (frames rs) \<le> seg_limit expected" "foot = [] \<or> EncodeSegmentFooter f = Inr foot" "64 \<le> n"
  shows "(\<exists>repaired. scanActiveSegmentWithVisitor (take n (hdr @ frames rs @ foot)) expected (Some collect) [] =
      Inr (summary_of (SH_SegmentID expected) (complete (n - 64) rs), repaired, visited (complete (n - 64) rs))) \<and>
    (\<forall>xs ys. rs = xs @ ys \<and> 64 + length (frames xs) \<le> n \<longrightarrow> (\<exists>zs. complete (n - 64) rs = xs @ zs))"
  using scan_after_crash [OF assms, of "Some collect" "[]"] by (auto simp: visits_collect complete_append)

theorem scan_recovers_after_crash_witness:
  "\<exists>repaired. scanActiveSegmentWithVisitor
     (take 110 (example_hdr @ frames [example_record, (4294967400, [8])] @ [])) example_header (Some collect) [] =
     Inr (summary_of 1 [example_record], repaired, visited [example_record])"
proof -
  have v: "NewVAddr 1 104 40 = Inr 4294967400"
    by (simp add: NewVAddr_eq_Inr sizeTag_eq pack_def)
  have p: "PhysicalRecordSize (length [8 :: u8]) = Inr 40"
    by (simp add: PhysicalRecordSize_def)
  obtain e where e: "EncodeRecord 4294967400 [8] = Inr e"
    using EncodeRecord_Inr_iff [of 4294967400 "[8]"] p NewVAddr_fields [OF v] by auto
  have f: "frame (4294967400, [8]) = e" using e by (simp add: frame_def)
  have l: "length e = 40" using DecodeRecordHeader_Encode(2) [OF e p] by simp
  have pl: "placed 1 64 [example_record, (4294967400, [8])]"
    using example_facts(3,4) NewVAddr_fields [OF v] e f by simp
  have "complete 46 [example_record, (4294967400, [8])] = [example_record]"
    using l f example_facts(4) by simp
  then show ?thesis
    using scan_recovers_after_crash [of example_header example_hdr "[example_record, (4294967400, [8])]" "[]" undefined 110]
      pl example_facts f l by simp
qed

text \<open>
  C6: the scan of an active segment accepts only well-formed files. If it succeeds, the file is the
  encoded header, gap-free frames and a rest; the summary and the visited records are those of the
  frames, and the file is reported for repair exactly when the rest is not empty.
\<close>

theorem scan_accepts_only_frames:
  assumes "scanActiveSegmentWithVisitor data expected (Some collect) [] = Inr (summary, repaired, seen)"
  shows "\<exists>hdr rs tail. EncodeSegmentHeader expected = Inr hdr \<and> data = hdr @ frames rs @ tail \<and>
    placed (SH_SegmentID expected) 64 rs \<and> 64 + length (frames rs) \<le> seg_limit expected \<and>
    (repaired \<longleftrightarrow> tail \<noteq> []) \<and> summary = summary_of (SH_SegmentID expected) rs \<and> seen = visited rs"
  using scanActiveSegment_Inr [OF assms] by (simp add: visits_collect) blast

theorem scan_accepts_only_frames_witness:
  "\<exists>hdr rs tail. EncodeSegmentHeader example_header = Inr hdr \<and>
    example_hdr @ frames [example_record] = hdr @ frames rs @ tail \<and>
    placed 1 64 rs \<and> 64 + length (frames rs) \<le> 4032 \<and>
    (False \<longleftrightarrow> tail \<noteq> []) \<and> summary_of 1 [example_record] = summary_of 1 rs \<and>
    visited [example_record] = visited rs"
proof -
  have "length example_hdr = 64"
    using EncodeSegmentHeader_facts(1) [OF example_facts(1)] .
  then have "scanActiveSegmentWithVisitor (example_hdr @ frames [example_record] @ []) example_header (Some collect) [] =
      Inr (summary_of 1 [example_record], False, visited [example_record])"
    using scanActiveSegment_recovers [of example_header example_hdr "[example_record]" "[]" "Some collect" "[]"]
      example_facts by (simp add: torn_tail_def visits_collect) (simp add: example_header_def)
  from scan_accepts_only_frames [OF this] show ?thesis
    by (simp add: example_facts)
qed

text \<open>
  C4: a write of a planned batch of frames that meets no fault appends exactly these frames: the
  segment then holds the old records followed by the new ones, every record, old or new, is read
  back by its address with its payload, and nothing is declared durable by the write alone.
\<close>

theorem append_then_read:
  assumes "active_ok s rs" "new \<noteq> []" "placed (SH_SegmentID (AS_header s)) (64 + length (frames rs)) new"
    "64 + length (frames (rs @ new)) \<le> seg_limit (AS_header s)"
    "hitSegmentFault env faultBeforeAppendWrite = None" "E_os env faultBeforeAppendWrite = None"
  shows "\<exists>s'. appendEncoded env s (frames new) (map extent new) = (length (frames new), None, s') \<and>
    active_ok s' (rs @ new) \<and> F_synced (AS_file s') = F_synced (AS_file s) \<and>
    (\<forall>r \<in> set (rs @ new). active_read s' (fst r) = Inr (snd r))"
  using appendEncoded_ok [OF assms] active_read_ok by blast

definition example_segment :: activeSegment where
  "example_segment = \<lparr>AS_open = True, AS_file = \<lparr>F_data = example_hdr, F_synced = 64\<rparr>, AS_header = example_header,
     AS_end = 64, AS_first = 0, AS_last = 0, AS_records = 0, AS_sealed = False, AS_transferred = False\<rparr>"

definition no_faults :: env where
  "no_faults = \<lparr>E_hook = (\<lambda>_. None), E_os = (\<lambda>_. None)\<rparr>"

lemma example_segment_ok: "active_ok example_segment []"
  using example_facts EncodeSegmentHeader_facts(1) [OF example_facts(1)]
  by (simp add: active_ok_def example_segment_def summaryLocked_def summary_of_def)

theorem append_then_read_witness:
  "\<exists>s'. appendEncoded no_faults example_segment (frames [example_record]) [extent example_record] = (40, None, s') \<and>
    active_ok s' [example_record] \<and> F_synced (AS_file s') = 64 \<and> active_read s' 4294967360 = Inr [7]"
proof -
  have "AS_header example_segment = example_header" "F_synced (AS_file example_segment) = 64"
    by (simp_all add: example_segment_def)
  moreover have "hitSegmentFault no_faults faultBeforeAppendWrite = None" "E_os no_faults faultBeforeAppendWrite = None"
    by (simp_all add: no_faults_def hitSegmentFault_def)
  moreover have "fst example_record = 4294967360" "snd example_record = [7]"
    by (simp_all add: example_record_def)
  ultimately show ?thesis
    using append_then_read [OF example_segment_ok, of "[example_record]" no_faults] example_facts by simp
qed

text \<open>
  C5: a sealed segment keeps its records. When sealing succeeds, the sealed file is entirely on
  stable storage, it is accepted by \<^verbatim>\<open>openSealedSegment\<close> under the published summary, a scan of it
  visits exactly the records of the active segment in order and each of them is read back.
\<close>

theorem seal_keeps_records:
  assumes "active_ok s rs" "active_seal env s = (Inr (sg, summary), s')"
  shows "openSealedSegment (SG_file sg) (AS_header s) summary = Inr sg \<and>
    F_synced (SG_file sg) = length (F_data (SG_file sg)) \<and>
    sealed_scan sg SegmentHeaderSize (Some collect) [] = Inr (visited rs) \<and>
    (\<forall>r \<in> set rs. sealed_read sg (fst r) = Inr (snd r))"
proof -
  note S = active_seal_ok [OF assms]
  show ?thesis
    using openSealedSegment_ok [OF S(1)] S sealed_read_ok [OF S(1)]
      sealed_scan_ok [of sg "[]" rs 64 collect "[]"]
    by (auto simp: visits_collect sealed_ok_def)
qed

lemma no_faults_seal:
  assumes "active_ok s rs"
  shows "\<exists>sg sm s'. active_seal no_faults s = (Inr (sg, sm), s')"
proof -
  have "AS_open s" "\<not> AS_sealed s"
    using assms by (simp_all add: active_ok_def)
  moreover obtain foot where "EncodeSegmentFooter (summary_footer (summaryLocked s)) = Inr foot"
    using active_ok_footer [OF assms] by blast
  ultimately show ?thesis
    by (simp add: active_seal_def prepareSeal_def publishPreparedSeal_def no_faults_def hitSegmentFault_def
        writeFullAt_def file_Sync_def os_call_def Let_def) (simp add: summaryLocked_def)
qed

theorem seal_keeps_records_witness:
  "\<exists>sg summary s'. active_seal no_faults example_segment = (Inr (sg, summary), s') \<and>
    openSealedSegment (SG_file sg) example_header summary = Inr sg \<and>
    sealed_scan sg SegmentHeaderSize (Some collect) [] = Inr []"
proof -
  obtain sg sm s' where e: "active_seal no_faults example_segment = (Inr (sg, sm), s')"
    using no_faults_seal [OF example_segment_ok] by blast
  have "AS_header example_segment = example_header"
    by (simp add: example_segment_def)
  then show ?thesis
    using e seal_keeps_records [OF example_segment_ok e] by (auto simp: visited_def)
qed

end
