(* ===== verification/Delta_Budget.thy ===== *)
theory Delta_Budget
  imports Ridstore_Prelude
begin

text \<open>
  Admission control of the active mapping delta (\<^verbatim>\<open>internal/mapping/budget.go\<close>). A reservation is
  a pointer in the source; here it is an index into the list of reservations the budget has handed
  out, so that two holders of one pointer share its state. The value \<open>unlimitedReservation\<close> is the
  implementation used by the in-memory mapping. The lemmas show that the sum of the outstanding
  reservations is exactly the reserved amount, that the hard limit is never exceeded and that
  every reservation is settled at most once.
\<close>

abbreviation deltaEntryCharge :: u64 where "deltaEntryCharge \<equiv> 64"

record deltaReservation =
  DR_upper :: u64
  DR_consumed :: bool

record deltaBudget =
  DB_soft :: u64
  DB_hard :: u64
  DB_charged :: u64
  DB_reserved :: u64
  DB_reservations :: "deltaReservation list"

datatype DeltaReservation = unlimitedReservation | Reserved nat

definition newDeltaBudget :: "u64 \<Rightarrow> u64 \<Rightarrow> deltaBudget res" where
  "newDeltaBudget soft hard =
     (if soft = 0 \<or> hard \<le> soft \<or> hard < deltaEntryCharge then Inl mapping_ErrInvalid
      else Inr \<lparr>DB_soft = soft, DB_hard = hard, DB_charged = 0, DB_reserved = 0, DB_reservations = []\<rparr>)"

definition multiply :: "u64 \<Rightarrow> u64 \<Rightarrow> u64 \<times> bool" where
  "multiply left right =
     (if left \<noteq> 0 \<and> right > max_u64 div left then (0, True) else (left * right, False))"

definition budget_reserve :: "deltaBudget \<Rightarrow> u64 \<Rightarrow> (DeltaReservation res \<times> bool) \<times> deltaBudget" where
  \<comment> \<open>the reservation or the error, the soft-limit flag, and the new state\<close>
  "budget_reserve b entries =
     (let (bytes, overflow) = multiply entries deltaEntryCharge in
      if overflow \<or> bytes > DB_hard b then ((Inl base_ErrBatchTooLarge, False), b)
      else if DB_charged b > DB_hard b \<or> DB_reserved b > DB_hard b - DB_charged b \<or>
              bytes > DB_hard b - DB_charged b - DB_reserved b
      then ((Inl mapping_ErrBudget, True), b)
      else let b' = b\<lparr>DB_reserved := DB_reserved b + bytes,
                      DB_reservations := DB_reservations b @ [\<lparr>DR_upper = bytes, DR_consumed = False\<rparr>]\<rparr>
           in ((Inr (Reserved (length (DB_reservations b))), DB_charged b' + DB_reserved b' \<ge> DB_soft b'), b'))"

definition settle :: "deltaBudget \<Rightarrow> nat \<Rightarrow> deltaBudget" where
  "settle b i = b\<lparr>DB_reservations := (DB_reservations b)[i := (DB_reservations b ! i)\<lparr>DR_consumed := True\<rparr>]\<rparr>"

fun Release :: "deltaBudget \<Rightarrow> DeltaReservation \<Rightarrow> deltaBudget" where
  "Release b unlimitedReservation = b"
| "Release b (Reserved i) =
     (if i \<ge> length (DB_reservations b) then b  \<comment> \<open>a nil reservation\<close>
      else if DR_consumed (DB_reservations b ! i) then b
      else let upper = DR_upper (DB_reservations b ! i); b1 = settle b i
           in if upper \<le> DB_reserved b1 then b1\<lparr>DB_reserved := DB_reserved b1 - upper\<rparr> else b1)"

fun reservation_consume :: "deltaBudget \<Rightarrow> DeltaReservation \<Rightarrow> u64 \<Rightarrow> u64 res \<times> deltaBudget" where
  "reservation_consume b unlimitedReservation entries = (Inr 0, b)"
| "reservation_consume b (Reserved i) entries =
     (let (actual, overflow) = multiply entries deltaEntryCharge in
      if overflow then (Inl mapping_ErrCorrupt, b)
      else if i \<ge> length (DB_reservations b) \<or> DR_consumed (DB_reservations b ! i) \<or>
              actual > DR_upper (DB_reservations b ! i)
      then (Inl mapping_ErrCorrupt, b)
      else let upper = DR_upper (DB_reservations b ! i); b1 = settle b i
           in if upper > DB_reserved b1 \<or> DB_charged b1 > DB_hard b1 - actual then (Inl mapping_ErrCorrupt, b1)
              else (Inr actual, b1\<lparr>DB_reserved := DB_reserved b1 - upper, DB_charged := DB_charged b1 + actual\<rparr>))"

section \<open>The invariant\<close>

definition outstanding :: "deltaReservation list \<Rightarrow> nat" where
  "outstanding rs = sum_list (map (\<lambda>r. if DR_consumed r then 0 else unat (DR_upper r)) rs)"

definition budget_ok :: "deltaBudget \<Rightarrow> bool" where
  "budget_ok b \<longleftrightarrow>
     unat (DB_charged b) + unat (DB_reserved b) \<le> unat (DB_hard b) \<and>
     outstanding (DB_reservations b) = unat (DB_reserved b)"

lemma unat_multiply:
  "multiply l r = (p, False) \<Longrightarrow> unat p = unat l * unat r"
proof -
  assume a: "multiply l r = (p, False)"
  then have p: "p = l * r" and n: "l = 0 \<or> \<not> r > max_u64 div l"
    by (auto simp: multiply_def split: if_splits)
  have "unat l * unat r \<le> MaxUint64"
  proof (cases "l = 0")
    case False
    then have "unat r \<le> MaxUint64 div unat l"
      using n by (simp add: word_le_nat_alt not_less unat_div)
    then have "unat r * unat l \<le> MaxUint64 div unat l * unat l" by simp
    also have "\<dots> \<le> MaxUint64" by simp
    finally show ?thesis by (simp add: mult.commute)
  qed simp
  then show ?thesis
    by (simp add: p unat_word_ariths)
qed

lemma multiply_overflow: "snd (multiply l r) \<longleftrightarrow> unat l * unat r > MaxUint64"
proof (cases "l \<noteq> 0 \<and> r > max_u64 div l")
  case True
  then have "MaxUint64 div unat l < unat r" "0 < unat l"
    by (auto simp: word_less_nat_alt unat_div word_unat_eq_iff [of l])
  then show ?thesis
    using True div_less_iff_less_mult [of "unat l" MaxUint64 "unat r"] by (simp add: multiply_def mult.commute)
next
  case False
  then have "multiply l r = (l * r, False)" by (simp only: multiply_def if_False)
  moreover from unat_multiply [OF this] have "unat l * unat r \<le> MaxUint64"
    using unat_u64_bound [of "l * r"] by simp
  ultimately show ?thesis by simp
qed

lemma outstanding_append [simp]:
  "outstanding (rs @ [r]) = outstanding rs + (if DR_consumed r then 0 else unat (DR_upper r))"
  by (simp add: outstanding_def)

lemma outstanding_settle:
  assumes "i < length rs" "\<not> DR_consumed (rs ! i)"
  shows "outstanding (rs[i := (rs ! i)\<lparr>DR_consumed := True\<rparr>]) + unat (DR_upper (rs ! i)) = outstanding rs"
  using assms
proof (induction rs arbitrary: i)
  case (Cons r rs)
  then show ?case by (cases i) (auto simp: outstanding_def)
qed simp

lemma newDeltaBudget_ok: "newDeltaBudget soft hard = Inr b \<Longrightarrow> budget_ok b"
  by (auto simp: newDeltaBudget_def budget_ok_def outstanding_def split: if_splits)

lemma budget_reserve_ok:
  assumes "budget_ok b" "budget_reserve b entries = ((r, pressure), b')"
  shows "budget_ok b' \<and> DB_hard b' = DB_hard b \<and> DB_soft b' = DB_soft b \<and> DB_charged b' = DB_charged b"
proof -
  obtain bytes ov where m: "multiply entries deltaEntryCharge = (bytes, ov)" by fastforce
  show ?thesis
  proof (cases "b' = b")
    case False
    then have *: "\<not> bytes > DB_hard b - DB_charged b - DB_reserved b"
      and b': "b' = b\<lparr>DB_reserved := DB_reserved b + bytes,
        DB_reservations := DB_reservations b @ [\<lparr>DR_upper = bytes, DR_consumed = False\<rparr>]\<rparr>"
      using assms(2) m by (auto simp: budget_reserve_def Let_def split: if_splits)
    have c: "DB_charged b \<le> DB_hard b"
      using assms(1) by (simp add: budget_ok_def word_le_nat_alt)
    moreover have "DB_reserved b \<le> DB_hard b - DB_charged b"
      using assms(1) c by (auto simp: budget_ok_def word_le_nat_alt unat_sub)
    ultimately have "unat bytes \<le> unat (DB_hard b) - unat (DB_charged b) - unat (DB_reserved b)"
      using * by (simp add: word_less_nat_alt unat_sub)
    then have "unat (DB_charged b) + (unat (DB_reserved b) + unat bytes) \<le> unat (DB_hard b)"
      using assms(1) by (auto simp: budget_ok_def)
    moreover from this have "unat (DB_reserved b + bytes) = unat (DB_reserved b) + unat bytes"
      using unat_u64_bound [of "DB_hard b"] by (intro unat_add_no_wrap) simp
    ultimately show ?thesis
      using assms(1) by (simp add: b' budget_ok_def)
  qed (simp add: assms(1))
qed

lemma Release_ok:
  assumes "budget_ok b"
  shows "budget_ok (Release b r) \<and> DB_hard (Release b r) = DB_hard b \<and> DB_charged (Release b r) = DB_charged b"
proof (cases r)
  case (Reserved i)
  show ?thesis
  proof (cases "i < length (DB_reservations b) \<and> \<not> DR_consumed (DB_reservations b ! i)")
    case True
    then have o: "outstanding (DB_reservations (settle b i)) + unat (DR_upper (DB_reservations b ! i)) =
        unat (DB_reserved b)"
      using assms outstanding_settle by (simp add: settle_def budget_ok_def)
    then have le: "DR_upper (DB_reservations b ! i) \<le> DB_reserved b"
      by (simp add: word_le_nat_alt)
    then show ?thesis
      using True assms o Reserved by (auto simp: Let_def settle_def budget_ok_def unat_sub)
  qed (use assms Reserved in auto)
qed (use assms in simp)

lemma reservation_consume_ok:
  assumes "budget_ok b" "reservation_consume b r entries = (x, b')"
  shows "budget_ok b' \<and> DB_hard b' = DB_hard b \<and> unat (DB_charged b) \<le> unat (DB_charged b')"
proof (cases r)
  case (Reserved i)
  obtain actual ov where m: "multiply entries deltaEntryCharge = (actual, ov)" by fastforce
  show ?thesis
  proof (cases "\<not> ov \<and> i < length (DB_reservations b) \<and> \<not> DR_consumed (DB_reservations b ! i) \<and>
      \<not> actual > DR_upper (DB_reservations b ! i)")
    case True
    let ?u = "DR_upper (DB_reservations b ! i)"
    have o: "outstanding (DB_reservations (settle b i)) + unat ?u = unat (DB_reserved b)"
      using True assms(1) outstanding_settle by (simp add: settle_def budget_ok_def)
    then have le: "\<not> ?u > DB_reserved b"
      by (simp add: word_less_nat_alt)
    have a: "unat actual \<le> unat ?u"
      using True by (simp add: word_less_nat_alt)
    have sum: "unat (DB_charged b) + unat actual \<le> unat (DB_hard b)"
      using o a assms(1) by (auto simp: budget_ok_def)
    then have h: "\<not> DB_charged b > DB_hard b - actual"
      by (simp add: word_less_nat_alt word_le_nat_alt unat_sub)
    have "unat (DB_charged b + actual) = unat (DB_charged b) + unat actual"
      using sum unat_u64_bound [of "DB_hard b"] by (intro unat_add_no_wrap) simp
    moreover have "unat (DB_reserved b - ?u) = unat (DB_reserved b) - unat ?u"
      using le by (simp add: unat_sub)
    moreover have "b' = (settle b i)\<lparr>DB_reserved := DB_reserved b - ?u, DB_charged := DB_charged b + actual\<rparr>"
      using assms(2) True m le h Reserved by (simp add: Let_def settle_def)
    ultimately show ?thesis
      using o a sum assms(1) by (auto simp: budget_ok_def settle_def)
  qed (use assms Reserved m in \<open>auto simp: Let_def split: if_splits\<close>)
qed (use assms in simp)

text \<open>
  On a well-formed budget the consistency checks of \<^verbatim>\<open>consume\<close> on the budget itself never fire: a
  reservation that is still open can be consumed for any number of entries within its bound.
\<close>

lemma reservation_consume_succeeds:
  assumes "budget_ok b" "i < length (DB_reservations b)" "\<not> DR_consumed (DB_reservations b ! i)"
    "unat entries * 64 \<le> unat (DR_upper (DB_reservations b ! i))"
  shows "\<exists>b'. reservation_consume b (Reserved i) entries = (Inr (entries * 64), b') \<and>
    unat (DB_charged b') = unat (DB_charged b) + unat entries * 64 \<and> DR_consumed (DB_reservations b' ! i)"
proof -
  let ?u = "DR_upper (DB_reservations b ! i)"
  have nov: "multiply entries deltaEntryCharge = (entries * 64, False)"
    using multiply_overflow [of entries 64] assms(4) unat_u64_bound [of ?u]
    by (auto simp: multiply_def split: if_splits)
  have a: "unat (entries * 64) = unat entries * 64"
    using unat_multiply [OF nov] by simp
  have o: "outstanding (DB_reservations (settle b i)) + unat ?u = unat (DB_reserved b)"
    using assms outstanding_settle by (simp add: settle_def budget_ok_def)
  have sum: "unat (DB_charged b) + unat (entries * 64) \<le> unat (DB_hard b)"
    using o a assms by (auto simp: budget_ok_def)
  have "\<not> DB_charged b > DB_hard b - entries * 64"
    using sum by (simp add: word_less_nat_alt word_le_nat_alt unat_sub)
  moreover have "\<not> ?u > DB_reserved b" "\<not> entries * 64 > ?u"
    using o a assms(4) by (simp_all add: word_less_nat_alt)
  moreover have "unat (DB_charged b + entries * 64) = unat (DB_charged b) + unat entries * 64"
    using sum a unat_u64_bound [of "DB_hard b"] unat_add_no_wrap [of "DB_charged b" "entries * 64"] by simp
  ultimately show ?thesis
    using assms(2,3) nov by (simp add: Let_def settle_def)
qed

section \<open>Properties\<close>

datatype budget_event = EvReserve u64 | EvRelease DeltaReservation | EvConsume DeltaReservation u64

fun budget_step :: "deltaBudget \<Rightarrow> budget_event \<Rightarrow> deltaBudget" where
  "budget_step b (EvReserve n) = snd (budget_reserve b n)"
| "budget_step b (EvRelease r) = Release b r"
| "budget_step b (EvConsume r n) = snd (reservation_consume b r n)"

lemma budget_step_ok: "budget_ok b \<Longrightarrow> budget_ok (budget_step b e) \<and> DB_hard (budget_step b e) = DB_hard b"
proof (cases e)
  case (EvReserve n)
  obtain r p b' where "budget_reserve b n = ((r, p), b')" by (metis prod.exhaust)
  then show "budget_ok b \<Longrightarrow> ?thesis" using EvReserve budget_reserve_ok [of b n r p b'] by simp
next
  case (EvConsume r n)
  obtain x b' where "reservation_consume b r n = (x, b')" by fastforce
  then show "budget_ok b \<Longrightarrow> ?thesis" using EvConsume reservation_consume_ok [of b r n x b'] by simp
qed (simp add: Release_ok del: Release.simps)

lemma budget_run_ok:
  "budget_ok b \<Longrightarrow> budget_ok (foldl budget_step b es) \<and> DB_hard (foldl budget_step b es) = DB_hard b"
proof (induction es arbitrary: b)
  case (Cons e es)
  then show ?case using budget_step_ok [of b e] by simp
qed simp

text \<open>
  C16: whatever sequence of reservations, releases and consumptions is run on a new delta budget, in
  whatever order and however often each reservation is released or consumed, the charged and the
  reserved bytes together never exceed the hard limit and the reserved bytes are exactly the sum of
  the reservations not settled yet.
\<close>

theorem delta_budget_within_limit:
  assumes "newDeltaBudget soft hard = Inr b"
  shows "let b' = foldl budget_step b es in
    unat (DB_charged b') + unat (DB_reserved b') \<le> unat hard \<and>
    outstanding (DB_reservations b') = unat (DB_reserved b')"
proof -
  have "DB_hard b = hard"
    using assms by (auto simp: newDeltaBudget_def split: if_splits)
  then show ?thesis
    using budget_run_ok [OF newDeltaBudget_ok [OF assms], of es] by (auto simp: budget_ok_def Let_def)
qed

definition budget_example :: "deltaBudget" where
  "budget_example = \<lparr>DB_soft = 64, DB_hard = 200, DB_charged = 0, DB_reserved = 0, DB_reservations = []\<rparr>"

theorem delta_budget_within_limit_witness:
  "newDeltaBudget 64 200 = Inr budget_example \<and>
   DB_reserved (foldl budget_step budget_example [EvReserve 2, EvReserve 1, EvReserve 1, EvRelease (Reserved 0),
     EvRelease (Reserved 0), EvConsume (Reserved 1) 1]) = 0 \<and>
   DB_charged (foldl budget_step budget_example [EvReserve 2, EvReserve 1, EvReserve 1, EvRelease (Reserved 0),
     EvRelease (Reserved 0), EvConsume (Reserved 1) 1]) = 64 \<and>
   (let b' = foldl budget_step budget_example [EvReserve 2] in
    unat (DB_charged b') + unat (DB_reserved b') \<le> unat (200 :: u64) \<and>
    outstanding (DB_reservations b') = unat (DB_reserved b'))"
proof -
  have "newDeltaBudget 64 200 = Inr budget_example"
    by (simp add: newDeltaBudget_def budget_example_def)
  with delta_budget_within_limit [OF this, of "[EvReserve 2]"] show ?thesis
    by (simp add: budget_example_def budget_reserve_def multiply_def Let_def settle_def)
qed



end
