(* ===== verification/Log_Interface.thy ===== *)
theory Log_Interface
  imports Segment_Recovery
begin

text \<open>
  The record log as its clients see it: the \<^verbatim>\<open>Appender\<close> interfaces of \<^verbatim>\<open>idalloc\<close>, \<^verbatim>\<open>transaction\<close> and
  \<^verbatim>\<open>coordinator\<close> and the \<^verbatim>\<open>Log\<close> interface of \<^verbatim>\<open>replay\<close>. A client state of type \<open>'l\<close> has the records
  appended so far (\<open>contents\<close>, in log order), the number of them known to be on stable storage
  (\<open>durable\<close>) and a flag for a log that has failed for good (\<open>poisoned\<close>).
\<close>

type_synonym 'l append_fun = "'l \<Rightarrow> bytes \<Rightarrow> bool \<Rightarrow> AppendResult res \<times> 'l"

locale append_log =
  fixes log_append :: "'l append_fun"
    and contents :: "'l \<Rightarrow> log_record list"
    and durable :: "'l \<Rightarrow> nat"
    and poisoned :: "'l \<Rightarrow> bool"
    and log_ok :: "'l \<Rightarrow> bool"
  assumes append_ok: "log_ok l \<Longrightarrow> log_append l p sync = (x, l') \<Longrightarrow> log_ok l'"
    and durable_le: "log_ok l \<Longrightarrow> durable l \<le> length (contents l)"
    and append_durable: "log_ok l \<Longrightarrow> log_append l p sync = (x, l') \<Longrightarrow> durable l \<le> durable l'"
    and append_prefix: "log_ok l \<Longrightarrow> log_append l p sync = (x, l') \<Longrightarrow>
      \<exists>a n. durable l \<le> n \<and> contents l' = take n (contents l @ [(a, p)])"
    and append_Inr: "log_ok l \<Longrightarrow> log_append l p sync = (Inr r, l') \<Longrightarrow> \<not> poisoned l' \<Longrightarrow>
      contents l' = contents l @ [(AR_Addr r, p)]"
    and append_result: "log_ok l \<Longrightarrow> log_append l p sync = (Inr r, l') \<Longrightarrow> r = rec_result (AR_Addr r, p) \<and>
      EncodeRecord (AR_Addr r) p = Inr (frame (AR_Addr r, p))"
    and append_sync: "log_ok l \<Longrightarrow> log_append l p True = (Inr r, l') \<Longrightarrow>
      \<not> poisoned l' \<and> durable l' = length (contents l')"
    and append_Inl: "log_ok l \<Longrightarrow> log_append l p sync = (Inl e, l') \<Longrightarrow> \<not> poisoned l' \<Longrightarrow>
      contents l' = contents l"
    and append_poisoned: "log_ok l \<Longrightarrow> poisoned l \<Longrightarrow> log_append l p sync = (x, l') \<Longrightarrow>
      (\<exists>e. x = Inl e) \<and> contents l' = contents l \<and> durable l' = durable l \<and> poisoned l'"
    and addresses_sorted: "log_ok l \<Longrightarrow> sorted_wrt (<) (map fst (contents l))"
begin

lemma append_keeps_durable:
  assumes "log_ok l" "log_append l p sync = (r, l')"
  shows "take (durable l) (contents l') = take (durable l) (contents l)"
  using append_prefix [OF assms] durable_le [OF assms(1)] by (auto simp: min_def)

lemma append_sync_contents:
  assumes "log_ok l" "log_append l p True = (Inr r, l')"
  shows "contents l' = contents l @ [(AR_Addr r, p)]" "durable l' = Suc (length (contents l))"
  using append_Inr [OF assms] append_sync [OF assms] by auto

lemma append_cases:
  assumes "log_ok l" "log_append l p sync = (r, l')"
  obtains (kept) n where "durable l \<le> n" "contents l' = take n (contents l)" "contents l' = contents l \<or> poisoned l'"
  | (added) a where "contents l' = contents l @ [(a, p)]"
proof -
  obtain a n where n: "durable l \<le> n" "contents l' = take n (contents l @ [(a, p)])"
    using append_prefix [OF assms] by blast
  show thesis
  proof (cases "length (contents l) < n")
    case True
    then show thesis using n added [of a] by simp
  next
    case False
    then have c: "contents l' = take n (contents l)" using n by simp
    show thesis
    proof (cases "poisoned l'")
      case True
      then show thesis using kept n(1) c by blast
    next
      case not_poisoned: False
      show thesis
      proof (cases r)
        case (Inl e)
        then have "contents l' = contents l"
          using append_Inl [OF assms(1)] assms(2) not_poisoned by blast
        then show thesis using kept n(1) c by blast
      next
        case (Inr x)
        then have "contents l' = contents l @ [(AR_Addr x, p)]"
          using append_Inr [OF assms(1)] assms(2) not_poisoned by blast
        then show thesis by (rule added)
      qed
    qed
  qed
qed

end

end
