(* ===== verification/Id_Allocator.thy ===== *)
theory Id_Allocator
  imports Log_Interface
begin

text \<open>
  The durable id allocators (\<^verbatim>\<open>internal/idalloc/allocator.go\<close>), one for record ids and one for batch
  ids. Ids are handed out from a range whose upper end has been written to the log and synced
  before the first id of the range is used. A context is the error it has been cancelled with, if
  any. The lemmas follow the chain of reserve records through crashes and restarts and show that
  no id is ever issued twice.
\<close>

section \<open>The allocator\<close>

type_synonym Kind = u8

abbreviation KindRecordID :: Kind where "KindRecordID \<equiv> 1"
abbreviation KindBatchID :: Kind where "KindBatchID \<equiv> 2"

definition validKind :: "Kind \<Rightarrow> bool" where
  "validKind kind \<longleftrightarrow> kind = KindRecordID \<or> kind = KindBatchID"

record Allocator =
  AL_kind :: Kind
  AL_reserve :: u64
  AL_next :: u64
  AL_high :: u64

type_synonym ctx = "err option"

definition idalloc_New :: "Kind \<Rightarrow> u64 \<Rightarrow> u64 \<Rightarrow> Allocator res" where
  "idalloc_New kind reserveSize durableHigh =
     (if \<not> validKind kind \<or> reserveSize = 0 \<or> durableHigh = 0 \<or> (durableHigh - 1) mod reserveSize \<noteq> 0
      then Inl base_ErrInvalidConfig
      else Inr \<lparr>AL_kind = kind, AL_reserve = reserveSize, AL_next = durableHigh, AL_high = durableHigh\<rparr>)"

definition kind_recordType :: "Kind \<Rightarrow> RecordType" where
  "kind_recordType kind = (if kind = KindBatchID then RecordTypeBatchIDReserve else RecordTypeIDReserve)"

definition reserveRange :: "'l append_fun \<Rightarrow> Allocator \<Rightarrow> 'l \<Rightarrow> err option \<times> Allocator \<times> 'l" where
  "reserveRange log_append a l =
     (if AL_high a > max_u64 - AL_reserve a then (Some base_ErrIDExhausted, a, l)
      else let newHigh = AL_high a + AL_reserve a in
        case EncodeReserve (kind_recordType (AL_kind a)) \<lparr>RR_HighExclusive = newHigh\<rparr> of
          Inl e \<Rightarrow> (Some e, a, l)
        | Inr payload \<Rightarrow>
            (case log_append l payload True of
               (Inl e, l') \<Rightarrow> (Some e, a, l')
             | (Inr _, l') \<Rightarrow> (None, a\<lparr>AL_next := AL_high a, AL_high := newHigh\<rparr>, l')))"

definition Allocate :: "'l append_fun \<Rightarrow> ctx \<Rightarrow> Allocator \<Rightarrow> 'l \<Rightarrow> u64 res \<times> Allocator \<times> 'l" where
  "Allocate log_append ctx a l =
     (case ctx of Some e \<Rightarrow> (Inl e, a, l)
      | None \<Rightarrow>
          let (e, a1, l1) = (if AL_next a = AL_high a then reserveRange log_append a l else (None, a, l)) in
          case e of Some e \<Rightarrow> (Inl e, a1, l1)
          | None \<Rightarrow> (Inr (AL_next a1), a1\<lparr>AL_next := AL_next a1 + 1\<rparr>, l1))"

definition DurableHigh :: "Allocator \<Rightarrow> u64" where "DurableHigh a = AL_high a"

definition IssuedHigh :: "Allocator \<Rightarrow> u64" where "IssuedHigh a = AL_next a"

definition CanUse :: "Allocator \<Rightarrow> u64 \<Rightarrow> bool" where
  "CanUse a i \<longleftrightarrow> i \<noteq> 0 \<and> i < AL_next a"

definition AdvanceRecovered :: "Kind \<Rightarrow> u64 \<Rightarrow> u64 \<Rightarrow> ReserveRecord \<Rightarrow> u64 res" where
  "AdvanceRecovered kind reserveSize currentHigh r =
     (if \<not> validKind kind \<or> reserveSize = 0 \<or> currentHigh = 0 \<or> RR_HighExclusive r \<le> currentHigh \<or>
         currentHigh > max_u64 - reserveSize \<or> RR_HighExclusive r \<noteq> currentHigh + reserveSize \<or>
         (RR_HighExclusive r - 1) mod reserveSize \<noteq> 0
      then Inl base_ErrCorrupt else Inr (RR_HighExclusive r))"

section \<open>One process\<close>

definition alloc_ok :: "Allocator \<Rightarrow> bool" where
  "alloc_ok a \<longleftrightarrow> validKind (AL_kind a) \<and> AL_reserve a \<noteq> 0 \<and> AL_next a \<noteq> 0 \<and> AL_next a \<le> AL_high a \<and>
     unat (AL_reserve a) dvd unat (AL_high a) - 1"

lemma pred_mod_iff: "h \<noteq> 0 \<Longrightarrow> (h - 1) mod r = (0 :: u64) \<longleftrightarrow> unat r dvd unat h - 1"
proof -
  assume "h \<noteq> 0"
  then have "1 \<le> h" by (simp add: word_le_nat_alt word_unat_eq_iff [of h] Suc_le_eq)
  then have "unat ((h - 1) mod r) = (unat h - 1) mod unat r"
    by (simp add: unat_mod unat_sub)
  then show ?thesis
    unfolding word_unat_eq_iff [of "(h - 1) mod r"] by (simp add: mod_eq_0_iff_dvd)
qed

lemma idalloc_New_Inr:
  "idalloc_New kind sz high = Inr a \<longleftrightarrow> validKind kind \<and> sz \<noteq> 0 \<and> high \<noteq> 0 \<and> unat sz dvd unat high - 1 \<and>
     a = \<lparr>AL_kind = kind, AL_reserve = sz, AL_next = high, AL_high = high\<rparr>"
  using pred_mod_iff [of high sz] by (cases "high = 0") (auto simp: idalloc_New_def)

lemma idalloc_New_ok: "idalloc_New kind sz high = Inr a \<Longrightarrow> alloc_ok a"
  by (auto simp: idalloc_New_Inr alloc_ok_def)

lemma checked_add_u64:
  "\<not> (h :: u64) > max_u64 - r \<Longrightarrow> r \<noteq> 0 \<Longrightarrow> unat (h + r) = unat h + unat r \<and> h < h + r"
proof -
  assume a: "\<not> h > max_u64 - r" "r \<noteq> 0"
  then have "unat (h + r) = unat h + unat r"
    using u64_add_checked_iff [of h r] by (simp add: not_less unat_add_no_wrap)
  then show ?thesis
    using a(2) by (simp add: word_less_nat_alt word_unat_eq_iff [of r])
qed

lemma AdvanceRecovered_Inr:
  "AdvanceRecovered kind sz cur r = Inr h \<longleftrightarrow>
     validKind kind \<and> sz \<noteq> 0 \<and> cur \<noteq> 0 \<and> unat cur + unat sz \<le> MaxUint64 \<and> h = cur + sz \<and> RR_HighExclusive r = h \<and>
     unat sz dvd unat cur + unat sz - 1"
proof (cases "\<not> validKind kind \<or> sz = 0 \<or> cur = 0 \<or> cur > max_u64 - sz")
  case True
  then show ?thesis
    using u64_add_checked_iff [of cur sz] by (auto simp: AdvanceRecovered_def not_le)
next
  case False
  then have add: "unat (cur + sz) = unat cur + unat sz" "cur < cur + sz" "unat cur + unat sz \<le> MaxUint64"
    using checked_add_u64 [where h = cur and r = sz] u64_add_checked_iff [of cur sz] by (auto simp: not_less)
  then have "cur + sz \<noteq> 0"
    by auto
  then have "(cur + sz - 1) mod sz = 0 \<longleftrightarrow> unat sz dvd unat cur + unat sz - 1"
    using pred_mod_iff [of "cur + sz" sz] add by simp
  then show ?thesis
    using False add unfolding AdvanceRecovered_def
    by (cases "RR_HighExclusive r = cur + sz"; cases "unat sz dvd unat cur + unat sz - 1") auto
qed

lemma Allocate_ok:
  assumes "alloc_ok a" "Allocate log_append ctx a l = (r, a', l')"
  shows "alloc_ok a'" "AL_kind a' = AL_kind a" "AL_reserve a' = AL_reserve a"
    "AL_high a' = AL_high a \<or> unat (AL_high a') = unat (AL_high a) + unat (AL_reserve a)"
    "r = Inr i \<Longrightarrow> i = AL_next a \<and> unat (AL_next a') = Suc (unat i) \<and> i < AL_high a' \<and> AL_next a < AL_next a'"
    "r = Inl e \<Longrightarrow> a' = a"
proof -
  define step where "step = (if AL_next a = AL_high a then reserveRange log_append a l else (None, a, l))"
  obtain re a1 l1 where st: "step = (re, a1, l1)" by (metis prod.exhaust)
  have res: "(r, a', l') = (case ctx of Some e \<Rightarrow> (Inl e, a, l) | None \<Rightarrow>
      (case re of Some e \<Rightarrow> (Inl e, a1, l1) | None \<Rightarrow> (Inr (AL_next a1), a1\<lparr>AL_next := AL_next a1 + 1\<rparr>, l1)))"
    using assms(2) unfolding Allocate_def step_def [symmetric] st by (auto split: option.splits)
  have fail: "a1 = a" if "re = Some e" for e
    using st that by (auto simp: step_def reserveRange_def Let_def split: if_splits sum.splits prod.splits)
  have good: "alloc_ok a1 \<and> AL_next a1 = AL_next a \<and> AL_next a1 < AL_high a1 \<and> AL_kind a1 = AL_kind a \<and>
      AL_reserve a1 = AL_reserve a \<and>
      (AL_high a1 = AL_high a \<or> unat (AL_high a1) = unat (AL_high a) + unat (AL_reserve a))" if "re = None"
  proof (cases "AL_next a = AL_high a")
    case True
    have "\<not> AL_high a > max_u64 - AL_reserve a"
      and a1: "a1 = a\<lparr>AL_next := AL_high a, AL_high := AL_high a + AL_reserve a\<rparr>"
      using st that True by (auto simp: step_def reserveRange_def Let_def split: if_splits sum.splits prod.splits)
    then have h: "unat (AL_high a + AL_reserve a) = unat (AL_high a) + unat (AL_reserve a)"
        "AL_high a < AL_high a + AL_reserve a"
      using checked_add_u64 [where h = "AL_high a" and r = "AL_reserve a"] assms(1) by (auto simp: alloc_ok_def)
    have "1 \<le> unat (AL_high a)"
      using assms(1) True by (auto simp: alloc_ok_def word_unat_eq_iff [of "AL_high a"])
    then have "unat (AL_high a) + unat (AL_reserve a) - 1 = (unat (AL_high a) - 1) + unat (AL_reserve a)"
      by simp
    then have "unat (AL_reserve a) dvd unat (AL_high a) + unat (AL_reserve a) - 1"
      using assms(1) by (simp only: alloc_ok_def dvd_add_triv_right_iff)
    then show ?thesis
      using assms(1) True h by (auto simp: a1 alloc_ok_def)
  next
    case False
    then show ?thesis
      using st that assms(1) by (auto simp: step_def alloc_ok_def)
  qed
  have succ: "unat (AL_next a1 + 1) = Suc (unat (AL_next a1))" if "re = None"
  proof -
    have "AL_next a1 \<noteq> max_u64"
      using good [OF that] leD [OF u64_max_le] by auto
    then show ?thesis by (rule unat_succ_u64)
  qed
  consider (err) e where "r = Inl e" "a' = a" | (fine) "ctx = None" "re = None" "r = Inr (AL_next a1)"
      "a' = a1\<lparr>AL_next := AL_next a1 + 1\<rparr>"
    using res fail by (auto split: option.splits)
  then have "alloc_ok a' \<and> AL_kind a' = AL_kind a \<and> AL_reserve a' = AL_reserve a \<and>
    (AL_high a' = AL_high a \<or> unat (AL_high a') = unat (AL_high a) + unat (AL_reserve a)) \<and>
    (r = Inr i \<longrightarrow> i = AL_next a \<and> unat (AL_next a') = Suc (unat i) \<and> i < AL_high a' \<and> AL_next a < AL_next a') \<and>
    (r = Inl e \<longrightarrow> a' = a)"
  proof cases
    case err
    then show ?thesis using assms(1) by simp
  next
    case fine
    show ?thesis
      using good [OF fine(2)] succ [OF fine(2)] fine
      by (auto simp: alloc_ok_def word_le_nat_alt word_less_nat_alt word_unat_eq_iff [of "AL_next a1 + 1"])
  qed
  then show "alloc_ok a'" "AL_kind a' = AL_kind a" "AL_reserve a' = AL_reserve a"
    "AL_high a' = AL_high a \<or> unat (AL_high a') = unat (AL_high a) + unat (AL_reserve a)"
    "r = Inr i \<Longrightarrow> i = AL_next a \<and> unat (AL_next a') = Suc (unat i) \<and> i < AL_high a' \<and> AL_next a < AL_next a'"
    "r = Inl e \<Longrightarrow> a' = a"
    by blast+
qed

section \<open>Recovery of the reserved range\<close>

text \<open>
  The part of \<^verbatim>\<open>replay.Recover\<close> that follows one allocator: reserve records of its type advance the
  recovered upper end, every other record leaves it alone.
\<close>

definition recover_high_step :: "Kind \<Rightarrow> u64 \<Rightarrow> u64 \<Rightarrow> log_record \<Rightarrow> u64 res" where
  "recover_high_step kind sz h r =
     (case TypeOf (snd r) of Inl _ \<Rightarrow> Inl base_ErrCorrupt
      | Inr t \<Rightarrow> if t \<noteq> kind_recordType kind then Inr h
                 else res_bind (DecodeReserve (snd r) t) (AdvanceRecovered kind sz h))"

definition recovered_high :: "Kind \<Rightarrow> u64 \<Rightarrow> u64 \<Rightarrow> log_record list \<Rightarrow> u64 res" where
  "recovered_high kind sz h rs = res_fold (recover_high_step kind sz) h rs"

lemma recovered_high_append:
  "recovered_high kind sz h (rs @ rs') = res_bind (recovered_high kind sz h rs) (\<lambda>h'. recovered_high kind sz h' rs')"
  by (simp add: recovered_high_def res_fold_append)

lemma recovered_high_single: "recovered_high kind sz h [r] = recover_high_step kind sz h r"
  by (simp add: recovered_high_def res_bind_def split: sum.splits)

lemma recover_high_step_le: "recover_high_step kind sz h r = Inr h' \<Longrightarrow> h \<le> h'"
  using checked_add_u64 [where h = h and r = sz]
  by (auto simp: recover_high_step_def AdvanceRecovered_Inr not_less u64_add_checked_iff
      split: sum.splits if_splits intro: order.strict_implies_order)

lemma recovered_high_le: "recovered_high kind sz h rs = Inr h' \<Longrightarrow> h \<le> h'"
proof (induction rs arbitrary: h)
  case (Cons r rs)
  then show ?case
    by (auto simp: recovered_high_def dest!: recover_high_step_le) (meson order.trans)
qed (simp add: recovered_high_def)

lemma recovered_high_prefix:
  assumes "recovered_high kind sz h rs = Inr h'" "m \<le> n"
  shows "\<exists>hm hn. recovered_high kind sz h (take m rs) = Inr hm \<and> recovered_high kind sz h (take n rs) = Inr hn \<and>
    hm \<le> hn \<and> hn \<le> h'"
proof -
  have tn: "take n rs = take m rs @ take (n - m) (drop m rs)"
    using assms(2) take_add [of m "n - m" rs] by simp
  have "recovered_high kind sz h (take n rs @ drop n rs) = Inr h'"
    using assms(1) by simp
  then obtain hn where hn: "recovered_high kind sz h (take n rs) = Inr hn"
      "recovered_high kind sz hn (drop n rs) = Inr h'"
    unfolding recovered_high_append by auto
  obtain hm where "recovered_high kind sz h (take m rs) = Inr hm"
      "recovered_high kind sz hm (take (n - m) (drop m rs)) = Inr hn"
    using hn(1) unfolding tn recovered_high_append by auto
  then show ?thesis
    using hn recovered_high_le by blast
qed

lemma recovered_high_aligned:
  "recovered_high kind sz h rs = Inr h' \<Longrightarrow> h \<noteq> 0 \<Longrightarrow> unat sz dvd unat h - 1 \<Longrightarrow>
     unat sz dvd unat h' - 1 \<and> h' \<noteq> 0"
proof (induction rs arbitrary: h)
  case (Cons r rs)
  then obtain h1 where h1: "recover_high_step kind sz h r = Inr h1" "recovered_high kind sz h1 rs = Inr h'"
    by (auto simp: recovered_high_def)
  have "h1 \<noteq> 0 \<and> unat sz dvd unat h1 - 1"
  proof (cases "h1 = h")
    case False
    then have "h1 = h + sz" "unat h + unat sz \<le> MaxUint64" "unat sz dvd unat h + unat sz - 1" "sz \<noteq> 0"
      using h1(1) by (auto simp: recover_high_step_def AdvanceRecovered_Inr split: sum.splits if_splits)
    then show ?thesis
      using checked_add_u64 [where h = h and r = sz] u64_add_checked_iff [of h sz] by (auto simp: not_less)
  qed (use Cons.prems in simp)
  then show ?case using Cons.IH h1(2) by blast
qed (simp add: recovered_high_def)

lemma TypeOf_reserve:
  assumes "EncodeReserve typ r = Inr p"
  shows "TypeOf p = Inr typ" "DecodeReserve p typ = Inr r"
proof -
  have t: "typ = RecordTypeIDReserve \<or> typ = RecordTypeBatchIDReserve"
    and p: "p = encodeHeader 32 typ 32 @ le64 (RR_HighExclusive r) @ replicate 8 0"
    using assms by (auto simp: EncodeReserve_def split: if_splits)
  show "DecodeReserve p typ = Inr r"
    using Reserve_codec assms by blast
  have "p ! 6 = typ"
    by (simp add: p encodeHeader_def nth_append)
  moreover have "decodeHeader p typ 32 = Inr \<lparr>HD_Type = typ, HD_HeaderSize = 32, HD_TotalSize = 32\<rparr>"
    unfolding p by (subst decodeHeader_encode) simp_all
  moreover have "\<not> length p < 16" by (simp add: p)
  ultimately show "TypeOf p = Inr typ"
    using t by (auto simp: TypeOf_def Let_def)
qed

lemma recover_own_reserve:
  assumes "alloc_ok a" "\<not> AL_high a > max_u64 - AL_reserve a"
    "EncodeReserve (kind_recordType (AL_kind a)) \<lparr>RR_HighExclusive = AL_high a + AL_reserve a\<rparr> = Inr p"
  shows "recover_high_step (AL_kind a) (AL_reserve a) (AL_high a) (x, p) = Inr (AL_high a + AL_reserve a)"
proof -
  have h: "1 \<le> unat (AL_high a)"
    using assms(1) by (auto simp: alloc_ok_def word_le_nat_alt word_unat_eq_iff [of "AL_next a"])
  then have "AL_high a \<noteq> 0" by auto
  moreover have "unat (AL_high a) + unat (AL_reserve a) - 1 = (unat (AL_high a) - 1) + unat (AL_reserve a)"
    using h by simp
  then have "unat (AL_reserve a) dvd unat (AL_high a) + unat (AL_reserve a) - 1"
    using assms(1) by (simp only: alloc_ok_def dvd_add_triv_right_iff)
  moreover have "unat (AL_high a) + unat (AL_reserve a) \<le> MaxUint64"
    using assms(2) u64_add_checked_iff [of "AL_high a" "AL_reserve a"] by (simp add: not_less)
  ultimately have "AdvanceRecovered (AL_kind a) (AL_reserve a) (AL_high a)
      \<lparr>RR_HighExclusive = AL_high a + AL_reserve a\<rparr> = Inr (AL_high a + AL_reserve a)"
    using assms(1) by (simp add: AdvanceRecovered_Inr alloc_ok_def)
  then show ?thesis
    using TypeOf_reserve [OF assms(3)] by (simp add: recover_high_step_def)
qed

lemma EncodeReserve_kind:
  "high \<noteq> 0 \<Longrightarrow> \<exists>p. EncodeReserve (kind_recordType kind) \<lparr>RR_HighExclusive = high\<rparr> = Inr p"
  by (simp add: EncodeReserve_def kind_recordType_def)

section \<open>Crashes and restarts\<close>

text \<open>
  A life of one allocator: successful and failed allocations, appends of other components, and
  restarts. A restart reopens a log that holds some prefix of the records, at least those on stable
  storage, recovers the upper end from it and creates a new allocator. The last component of the
  state lists the ids issued so far, over all processes.
\<close>

inductive id_step ::
  "'l append_fun \<Rightarrow> ('l \<Rightarrow> log_record list) \<Rightarrow> ('l \<Rightarrow> nat) \<Rightarrow> ('l \<Rightarrow> bool) \<Rightarrow> ('l \<Rightarrow> bool) \<Rightarrow> Kind \<Rightarrow> u64 \<Rightarrow> u64 \<Rightarrow>
    Allocator \<times> 'l \<times> u64 list \<Rightarrow> Allocator \<times> 'l \<times> u64 list \<Rightarrow> bool"
  for log_append contents durable poisoned log_ok kind sz h0
where
  issued: "Allocate log_append ctx a l = (Inr i, a', l') \<Longrightarrow>
    id_step log_append contents durable poisoned log_ok kind sz h0 (a, l, is) (a', l', is @ [i])"
| refused: "Allocate log_append ctx a l = (Inl e, a', l') \<Longrightarrow>
    id_step log_append contents durable poisoned log_ok kind sz h0 (a, l, is) (a', l', is)"
| other: "log_append l p sync = (x, l') \<Longrightarrow> TypeOf p = Inr t \<Longrightarrow> t \<noteq> kind_recordType kind \<Longrightarrow>
    id_step log_append contents durable poisoned log_ok kind sz h0 (a, l, is) (a, l', is)"
| restart: "log_ok l2 \<Longrightarrow> \<not> poisoned l2 \<Longrightarrow> contents l2 = take n (contents l) \<Longrightarrow>
    durable l \<le> durable l2 \<Longrightarrow> recovered_high kind sz h0 (contents l2) = Inr h \<Longrightarrow>
    idalloc_New kind sz h = Inr a2 \<Longrightarrow>
    id_step log_append contents durable poisoned log_ok kind sz h0 (a, l, is) (a2, l2, is)"

definition id_inv ::
  "('l \<Rightarrow> log_record list) \<Rightarrow> ('l \<Rightarrow> nat) \<Rightarrow> ('l \<Rightarrow> bool) \<Rightarrow> ('l \<Rightarrow> bool) \<Rightarrow> Kind \<Rightarrow> u64 \<Rightarrow> u64 \<Rightarrow>
    Allocator \<times> 'l \<times> u64 list \<Rightarrow> bool"
where
  "id_inv contents durable poisoned log_ok kind sz h0 = (\<lambda>(a, l, is).
     log_ok l \<and> alloc_ok a \<and> AL_kind a = kind \<and> AL_reserve a = sz \<and>
     sorted_wrt (<) is \<and> (\<forall>i \<in> set is. i < AL_next a) \<and>
     (\<exists>hc. recovered_high kind sz h0 (contents l) = Inr hc \<and> (poisoned l \<or> hc = AL_high a)) \<and>
     (\<exists>hd. recovered_high kind sz h0 (take (durable l) (contents l)) = Inr hd \<and>
        (\<forall>i \<in> set is. i < hd) \<and> (AL_next a < AL_high a \<longrightarrow> AL_high a \<le> hd)))"

context append_log
begin

lemma reserveRange_log:
  assumes "alloc_ok a" "log_ok l" "recovered_high (AL_kind a) (AL_reserve a) h0 (contents l) = Inr hc"
    "poisoned l \<or> hc = AL_high a" "reserveRange log_append a l = (e, a1, l1)"
  shows "log_ok l1" "durable l \<le> durable l1" "take (durable l) (contents l1) = take (durable l) (contents l)"
    "\<exists>hc'. recovered_high (AL_kind a) (AL_reserve a) h0 (contents l1) = Inr hc' \<and> (poisoned l1 \<or> hc' = AL_high a1)"
    "e = None \<Longrightarrow> a1 = a\<lparr>AL_next := AL_high a, AL_high := AL_high a + AL_reserve a\<rparr> \<and>
      durable l1 = length (contents l1) \<and>
      recovered_high (AL_kind a) (AL_reserve a) h0 (contents l1) = Inr (AL_high a1)"
    "e \<noteq> None \<Longrightarrow> a1 = a"
proof -
  let ?rec = "recovered_high (AL_kind a) (AL_reserve a) h0"
  have main: "log_ok l1 \<and> durable l \<le> durable l1 \<and> take (durable l) (contents l1) = take (durable l) (contents l) \<and>
    (\<exists>hc'. ?rec (contents l1) = Inr hc' \<and> (poisoned l1 \<or> hc' = AL_high a1)) \<and>
    (e = None \<longrightarrow> a1 = a\<lparr>AL_next := AL_high a, AL_high := AL_high a + AL_reserve a\<rparr> \<and>
      durable l1 = length (contents l1) \<and> ?rec (contents l1) = Inr (AL_high a1)) \<and>
    (e \<noteq> None \<longrightarrow> a1 = a)"
  proof (cases "l1 = l \<and> a1 = a \<and> e \<noteq> None")
    case True
    then show ?thesis using assms by auto
  next
    case False
    then obtain p x where g: "\<not> AL_high a > max_u64 - AL_reserve a"
      and p: "EncodeReserve (kind_recordType (AL_kind a)) \<lparr>RR_HighExclusive = AL_high a + AL_reserve a\<rparr> = Inr p"
      and ap: "log_append l p True = (x, l1)"
      and a1: "a1 = (case x of Inl _ \<Rightarrow> a | Inr _ \<Rightarrow> a\<lparr>AL_next := AL_high a, AL_high := AL_high a + AL_reserve a\<rparr>)"
      and e: "e = None \<longleftrightarrow> (\<exists>r. x = Inr r)"
      using assms(5) by (auto simp: reserveRange_def Let_def split: if_splits sum.splits prod.splits)
    note own = recover_own_reserve [OF assms(1) g p]
    have rec_added: "?rec (contents l @ [(y, p)]) = Inr (AL_high a + AL_reserve a)" if "\<not> poisoned l" for y
      using assms(3,4) that own by (simp add: recovered_high_append recovered_high_single)
    have kept: "log_ok l1" "durable l \<le> durable l1" "take (durable l) (contents l1) = take (durable l) (contents l)"
      using append_ok append_durable append_keeps_durable ap assms(2) by blast+
    show ?thesis
    proof (cases "poisoned l")
      case True
      have "(\<exists>e. x = Inl e) \<and> contents l1 = contents l \<and> durable l1 = durable l \<and> poisoned l1"
        using append_poisoned [OF assms(2) True ap] .
      then show ?thesis
        using kept a1 e assms(3) by auto
    next
      case np: False
      have ex: "\<exists>hc'. ?rec (contents l1) = Inr hc' \<and> (poisoned l1 \<or> hc' = AL_high a1)"
      proof (cases x)
        case (Inl y)
        from append_prefix [OF assms(2) ap] obtain b n where
          "contents l1 = take n (contents l @ [(b, p)])" by blast
        then have "\<exists>hc'. ?rec (contents l1) = Inr hc'"
          using recovered_high_prefix [OF rec_added [OF np], of 0 n b] by auto
        moreover have "poisoned l1 \<or> contents l1 = contents l"
          using append_Inl [OF assms(2)] ap Inl by blast
        ultimately show ?thesis
          using Inl a1 assms(3,4) np by auto
      next
        case (Inr r)
        then show ?thesis
          using append_sync_contents(1) [OF assms(2)] ap rec_added [OF np] a1 by auto
      qed
      show ?thesis
      proof (cases x)
        case (Inl y)
        then show ?thesis using kept ex a1 e by auto
      next
        case (Inr r)
        then have "contents l1 = contents l @ [(AR_Addr r, p)]" "durable l1 = length (contents l1)"
          using append_sync_contents [OF assms(2)] ap by auto
        then show ?thesis
          using kept ex rec_added [OF np] Inr a1 e by auto
      qed
    qed
  qed
  from main show "log_ok l1" "durable l \<le> durable l1" "take (durable l) (contents l1) = take (durable l) (contents l)"
    "\<exists>hc'. ?rec (contents l1) = Inr hc' \<and> (poisoned l1 \<or> hc' = AL_high a1)"
    "e = None \<Longrightarrow> a1 = a\<lparr>AL_next := AL_high a, AL_high := AL_high a + AL_reserve a\<rparr> \<and>
      durable l1 = length (contents l1) \<and> ?rec (contents l1) = Inr (AL_high a1)"
    "e \<noteq> None \<Longrightarrow> a1 = a"
    by blast+
qed

lemma id_inv_Allocate:
  assumes inv: "id_inv contents durable poisoned log_ok kind sz h0 (a, l, is)"
    and al: "Allocate log_append ctx a l = (r, a', l')"
  shows "id_inv contents durable poisoned log_ok kind sz h0 (a', l', case r of Inl _ \<Rightarrow> is | Inr i \<Rightarrow> is @ [i])"
proof -
  let ?rec = "recovered_high kind sz h0"
  obtain hc hd where i: "log_ok l" "alloc_ok a" "AL_kind a = kind" "AL_reserve a = sz" "sorted_wrt (<) is"
      "\<forall>i \<in> set is. i < AL_next a" "?rec (contents l) = Inr hc" "poisoned l \<or> hc = AL_high a"
      "?rec (take (durable l) (contents l)) = Inr hd" "\<forall>i \<in> set is. i < hd" "AL_next a < AL_high a \<longrightarrow> AL_high a \<le> hd"
    using inv by (auto simp: id_inv_def)
  note ok = Allocate_ok [OF i(2) al]
  obtain e a1 l1 where st: "(if AL_next a = AL_high a then reserveRange log_append a l else (None, a, l)) = (e, a1, l1)"
    by (metis prod.exhaust)
  have log: "log_ok l1 \<and> (\<exists>hc'. ?rec (contents l1) = Inr hc' \<and> (poisoned l1 \<or> hc' = AL_high a1)) \<and>
      (\<exists>hd'. ?rec (take (durable l1) (contents l1)) = Inr hd' \<and> hd \<le> hd' \<and> (e = None \<longrightarrow> AL_high a1 \<le> hd'))"
  proof (cases "AL_next a = AL_high a")
    case True
    then have rr: "reserveRange log_append a l = (e, a1, l1)" using st by simp
    note R = reserveRange_log [OF i(2) i(1) _ i(8) rr, unfolded i(3,4), OF i(7)]
    obtain hc' where hc': "?rec (contents l1) = Inr hc'" "poisoned l1 \<or> hc' = AL_high a1" using R(4) by blast
    obtain hd1 hd' where hd': "?rec (take (durable l) (contents l1)) = Inr hd1"
        "?rec (take (durable l1) (contents l1)) = Inr hd'" "hd1 \<le> hd'"
      using recovered_high_prefix [OF hc'(1) R(2)] by blast
    have "hd \<le> hd'" using hd' R(3) i(9) by simp
    moreover have "AL_high a1 \<le> hd'" if "e = None" using R(5) [OF that] hd'(2) by simp
    ultimately show ?thesis using R(1) hc' hd'(2) by blast
  next
    case False
    moreover from False i(2) have "AL_next a < AL_high a" by (simp add: alloc_ok_def order_less_le)
    ultimately show ?thesis using st i by auto
  qed
  obtain hd' where hd': "?rec (take (durable l1) (contents l1)) = Inr hd'" "hd \<le> hd'" "e = None \<longrightarrow> AL_high a1 \<le> hd'"
    using log by blast
  have below: "\<forall>i \<in> set is. i < hd'" using i(10) hd'(2) by auto
  consider (err) x where "r = Inl x" "a' = a" "l' = l"
    | (err1) x where "r = Inl x" "a' = a1" "l' = l1" "e \<noteq> None"
    | (fine) "e = None" "r = Inr (AL_next a1)" "a' = a1\<lparr>AL_next := AL_next a1 + 1\<rparr>" "l' = l1"
    using al st by (auto simp: Allocate_def split: option.splits)
  then show ?thesis
  proof cases
    case err
    then show ?thesis using inv by simp
  next
    case err1
    have "a1 = a" using ok(6) err1 by auto
    moreover have "\<not> AL_next a < AL_high a" using st err1(4) by (auto split: if_splits)
    ultimately show ?thesis using err1 log i hd' below by (auto simp: id_inv_def)
  next
    case fine
    have n: "AL_next a1 = AL_next a" "AL_next a < AL_next a'" "AL_next a < AL_high a'"
      using ok(5) [OF fine(2)] fine by auto
    have hh: "AL_high a' = AL_high a1" using fine by simp
    have lt: "AL_next a < hd'" "AL_high a' \<le> hd'" using n(3) hd'(3) fine(1) hh by auto
    have nx: "\<forall>i \<in> set is. i < AL_next a'" using i(6) n(2) by (meson order.strict_trans)
    have srt: "sorted_wrt (<) (is @ [AL_next a])" using i(5,6) by (simp add: sorted_wrt_append)
    have hc: "\<exists>hc'. ?rec (contents l') = Inr hc' \<and> (poisoned l' \<or> hc' = AL_high a')"
      using log fine(4) hh by simp
    have hdx: "\<exists>hd. ?rec (take (durable l') (contents l')) = Inr hd \<and> (\<forall>i \<in> set (is @ [AL_next a]). i < hd) \<and>
        (AL_next a' < AL_high a' \<longrightarrow> AL_high a' \<le> hd)"
      using hd'(1) below lt fine(4) by auto
    show ?thesis
      unfolding id_inv_def using ok(1-3) i(3,4) srt nx n hc hdx log fine(2,4) by auto
  qed
qed

lemma id_inv_step:
  assumes "id_inv contents durable poisoned log_ok kind sz h0 s"
    and "id_step log_append contents durable poisoned log_ok kind sz h0 s s'"
  shows "id_inv contents durable poisoned log_ok kind sz h0 s'"
  using assms(2,1)
proof (induction rule: id_step.induct)
  case (issued ctx a l i a' l' "is")
  show ?case using id_inv_Allocate [OF issued(2,1)] by simp
next
  case (refused ctx a l e a' l' "is")
  show ?case using id_inv_Allocate [OF refused(2,1)] by simp
next
  case (other l p sync x l' t a "is")
  obtain hc hd where i: "log_ok l" "recovered_high kind sz h0 (contents l) = Inr hc" "poisoned l \<or> hc = AL_high a"
      "recovered_high kind sz h0 (take (durable l) (contents l)) = Inr hd"
      "\<forall>i \<in> set is. i < hd" "AL_next a < AL_high a \<longrightarrow> AL_high a \<le> hd"
    using other(4) by (auto simp: id_inv_def)
  have more: "recovered_high kind sz h0 (contents l @ [(y, p)]) = Inr hc" for y
    using i(2) other(2,3) by (simp add: recovered_high_append recovered_high_single recover_high_step_def)
  obtain hc' where hc': "recovered_high kind sz h0 (contents l') = Inr hc'" "poisoned l' \<or> hc' = AL_high a"
  proof (rule append_cases [OF i(1) other(1)], goal_cases)
    case (1 n)
    have "\<not> poisoned l" if "\<not> poisoned l'" using append_poisoned [OF i(1) _ other(1)] that by blast
    then show ?thesis
      using 1 i(2,3) recovered_high_prefix [OF i(2) order.refl, of n] by metis
  next
    case (2 y)
    have "\<not> poisoned l" if "\<not> poisoned l'" using append_poisoned [OF i(1) _ other(1)] that by blast
    then show ?thesis using 2 more [of y] i(3) by auto
  qed
  have d: "durable l \<le> durable l'" "take (durable l) (contents l') = take (durable l) (contents l)"
    using append_durable append_keeps_durable i(1) other(1) by blast+
  obtain hd' where hd': "recovered_high kind sz h0 (take (durable l') (contents l')) = Inr hd'" "hd \<le> hd'"
    using recovered_high_prefix [OF hc'(1) d(1)] d(2) i(4) by auto
  then have "(\<forall>i \<in> set is. i < hd') \<and> (AL_next a < AL_high a \<longrightarrow> AL_high a \<le> hd')"
    using i(5,6) by auto
  then show ?case
    using other(4) append_ok [OF i(1) other(1)] hc' hd'(1) by (auto simp: id_inv_def)
next
  case (restart l2 n l h a2 a "is")
  obtain hd where hd: "recovered_high kind sz h0 (take (durable l) (contents l)) = Inr hd"
      "\<forall>i \<in> set is. i < hd" "sorted_wrt (<) is" "log_ok l"
    using restart(7) by (auto simp: id_inv_def)
  have a2: "a2 = \<lparr>AL_kind = kind, AL_reserve = sz, AL_next = h, AL_high = h\<rparr>"
    using restart(6) by (simp add: idalloc_New_Inr)
  have "durable l \<le> n"
    using durable_le [OF restart(1)] durable_le [OF hd(4)] restart(3,4) by simp
  then have tk: "take (durable l) (contents l2) = take (durable l) (contents l)"
    using restart(3) by (simp add: min_absorb1)
  have whole: "take (length (contents l2)) (contents l2) = contents l2" by simp
  have d2: "durable l \<le> durable l2" "durable l2 \<le> length (contents l2)"
    using restart(4) durable_le [OF restart(1)] by auto
  obtain hd2 where hd2: "recovered_high kind sz h0 (take (durable l2) (contents l2)) = Inr hd2" "hd \<le> hd2"
    using recovered_high_prefix [OF restart(5) d2(1)] tk hd(1) by auto
  have "hd2 \<le> h"
    using recovered_high_prefix [OF restart(5) d2(2)] hd2(1) whole restart(5) by auto
  then have "\<forall>i \<in> set is. i < hd2 \<and> i < h" using hd(2) hd2(2) by auto
  then show ?case
    using restart(1,5) idalloc_New_ok [OF restart(6)] hd(3) hd2(1) by (auto simp: id_inv_def a2)
qed

lemma id_inv_init:
  assumes "log_ok l" "contents l = []" "idalloc_New kind sz h0 = Inr a"
  shows "id_inv contents durable poisoned log_ok kind sz h0 (a, l, [])"
  using assms by (auto simp: id_inv_def idalloc_New_Inr alloc_ok_def recovered_high_def)

lemma ids_never_reissued:
  assumes "id_inv contents durable poisoned log_ok kind sz h0 s"
    "(id_step log_append contents durable poisoned log_ok kind sz h0)\<^sup>*\<^sup>* s (a, l, is)"
  shows "id_inv contents durable poisoned log_ok kind sz h0 (a, l, is)" "sorted_wrt (<) is"
proof -
  show "id_inv contents durable poisoned log_ok kind sz h0 (a, l, is)"
    using assms(2,1) by (induction rule: rtranclp_induct) (auto intro: id_inv_step)
  then show "sorted_wrt (<) is" by (simp add: id_inv_def)
qed

lemma id_restart_succeeds:
  assumes "id_inv contents durable poisoned log_ok kind sz h0 (a, l, is)" "h0 \<noteq> 0"
    "unat sz dvd unat h0 - 1" "durable l \<le> n"
  shows "\<exists>h a2. recovered_high kind sz h0 (take n (contents l)) = Inr h \<and> idalloc_New kind sz h = Inr a2 \<and>
    (\<forall>i \<in> set is. i < AL_next a2)"
proof -
  obtain hc hd where i: "recovered_high kind sz h0 (contents l) = Inr hc" "alloc_ok a" "AL_kind a = kind" "AL_reserve a = sz"
      "recovered_high kind sz h0 (take (durable l) (contents l)) = Inr hd" "\<forall>i \<in> set is. i < hd"
    using assms(1) by (auto simp: id_inv_def)
  obtain h where h: "recovered_high kind sz h0 (take n (contents l)) = Inr h" "hd \<le> h"
    using recovered_high_prefix [OF i(1) assms(4)] i(5) by auto
  have "unat sz dvd unat h - 1 \<and> h \<noteq> 0"
    using recovered_high_aligned [OF h(1)] assms(2,3) by blast
  then show ?thesis
    using h i by (auto simp: idalloc_New_Inr alloc_ok_def)
qed

end

end
