(* ===== verification/Mapping_Index.thy ===== *)
theory Mapping_Index
  imports Delta_Budget Record_Format "HOL-Library.AList"
begin

text \<open>
  The mapping from record ids to record addresses (\<^verbatim>\<open>internal/mapping/mapping.go\<close>): resolution of a
  group of proposals against the current entries, publication of the resolved plan, and the live
  statistics per segment. The Go maps \<open>entries\<close> and \<open>live\<close> are partial functions; the map of segment
  deltas, over which the code iterates, is an association list in the order of first insertion. The
  abstract specification runs the proposals one after the other on the entries; the lemmas show
  that resolving a group and publishing the plan is exactly that, that conflicts and errors leave
  the visible entries alone, and that the statistics count the live records of every segment.
\<close>

section \<open>Data\<close>

type_synonym Operation = u8
type_synonym ProposalKind = u8

abbreviation mapping_OperationPut :: Operation where "mapping_OperationPut \<equiv> 1"
abbreviation mapping_OperationDelete :: Operation where "mapping_OperationDelete \<equiv> 2"
abbreviation mapping_OperationRelocate :: Operation where "mapping_OperationRelocate \<equiv> 3"

abbreviation ProposalUserCommit :: ProposalKind where "ProposalUserCommit \<equiv> 1"
abbreviation ProposalRelocation :: ProposalKind where "ProposalRelocation \<equiv> 2"

record Condition =
  CO_RecordID :: record_id
  CO_ExpectedAddr :: VAddr

record Change =
  CH_RecordID :: record_id
  CH_NewRef :: RecordRef
  CH_ExpectedOldAddr :: VAddr
  CH_Operation :: Operation

record Proposal =
  PR_Kind :: ProposalKind
  PR_Conditions :: "Condition list"
  PR_Changes :: "Change list"

record ResolvedChange =
  RC_Change :: Change
  RC_Apply :: bool
  RC_OldRef :: RecordRef
  RC_OldExists :: bool

record ResolvedProposal =
  RP_Kind :: ProposalKind
  RP_Accepted :: bool
  RP_DeltaEntries :: u64
  RP_Changes :: "ResolvedChange list"

record GroupPlan =
  GP_BaseCommitSeq :: CommitSeq
  GP_Proposals :: "ResolvedProposal list"

record PublishResult =
  PU_Committed :: u32
  PU_Applied :: u32
  PU_Skipped :: u32

record SegmentLiveStats =
  LS_LiveBytes :: u64
  LS_LiveRecords :: u64
  LS_LastChangedCommitSeq :: CommitSeq

type_synonym entries = "record_id \<rightharpoonup> RecordRef"
type_synonym live_stats = "SegmentID \<rightharpoonup> SegmentLiveStats"

record Snapshot =
  SN_CoveredCommitSeq :: CommitSeq
  SN_Entries :: entries

record Mapping =
  MP_covered :: CommitSeq
  MP_entries :: entries
  MP_live :: live_stats

definition zero_stats :: SegmentLiveStats where
  "zero_stats = \<lparr>LS_LiveBytes = 0, LS_LiveRecords = 0, LS_LastChangedCommitSeq = 0\<rparr>"

definition stats_of :: "live_stats \<Rightarrow> SegmentID \<Rightarrow> SegmentLiveStats" where
  \<comment> \<open>a Go map read: the zero value for an absent key\<close>
  "stats_of stats s = (case stats s of None \<Rightarrow> zero_stats | Some st \<Rightarrow> st)"

text \<open>A loop that returns the first error of a sequence of checks.\<close>

fun first_error :: "err option list \<Rightarrow> err option" where
  "first_error [] = None"
| "first_error (Some e # es) = Some e"
| "first_error (None # es) = first_error es"

lemma first_error_None: "first_error es = None \<longleftrightarrow> (\<forall>e \<in> set es. e = None)"
  by (induction es rule: first_error.induct) auto

section \<open>Creation and lookup\<close>

definition addLiveRef :: "live_stats \<Rightarrow> RecordRef \<Rightarrow> CommitSeq \<Rightarrow> live_stats res" where
  "addLiveRef stats ref seq =
     (if \<not> RecordRef_Valid ref then Inl mapping_ErrCorrupt
      else let segment = VAddr_SegmentID (Ref_Addr ref); current = stats_of stats segment in
        if LS_LiveBytes current > max_u64 - ucast (Ref_PhysicalSize ref) \<or> LS_LiveRecords current = max_u64
        then Inl mapping_ErrCorrupt
        else Inr (stats(segment \<mapsto>
          \<lparr>LS_LiveBytes = LS_LiveBytes current + ucast (Ref_PhysicalSize ref),
           LS_LiveRecords = LS_LiveRecords current + 1, LS_LastChangedCommitSeq = seq\<rparr>)))"

text \<open>The keys of the snapshot are visited in the order of the first argument.\<close>

definition mapping_New :: "record_id list \<Rightarrow> Snapshot \<Rightarrow> Mapping res" where
  "mapping_New order snapshot =
     res_bind
       (res_fold (\<lambda>(es, live) i.
          case SN_Entries snapshot i of None \<Rightarrow> Inr (es, live)
          | Some ref \<Rightarrow>
              if i = 0 \<or> \<not> RecordRef_Valid ref then Inl mapping_ErrInvalid
              else res_bind (addLiveRef live ref (SN_CoveredCommitSeq snapshot)) (\<lambda>live'. Inr (es(i \<mapsto> ref), live')))
         (Map.empty, Map.empty) order)
       (\<lambda>(es, live). Inr \<lparr>MP_covered = SN_CoveredCommitSeq snapshot, MP_entries = es, MP_live = live\<rparr>)"

definition NewEmpty :: Mapping where
  "NewEmpty = \<lparr>MP_covered = 0, MP_entries = Map.empty, MP_live = Map.empty\<rparr>"

definition read_entry :: "entries \<Rightarrow> record_id \<Rightarrow> RecordRef \<times> bool" where
  "read_entry es i = (case es i of None \<Rightarrow> (zero_ref, False) | Some ref \<Rightarrow> (ref, True))"

definition mapping_LookupRef :: "Mapping \<Rightarrow> record_id \<Rightarrow> (RecordRef \<times> bool) res" where
  "mapping_LookupRef m i = (if i = 0 then Inl mapping_ErrInvalid else Inr (read_entry (MP_entries m) i))"

definition mapping_Lookup :: "Mapping \<Rightarrow> record_id \<Rightarrow> (VAddr \<times> bool) res" where
  "mapping_Lookup m i = res_bind (mapping_LookupRef m i) (\<lambda>(ref, exists). Inr (Ref_Addr ref, exists))"

definition mapping_ReserveDelta :: "Mapping \<Rightarrow> record_id list \<Rightarrow> DeltaReservation res \<times> u64" where
  "mapping_ReserveDelta m ids = (Inr unlimitedReservation, 0)"

definition mapping_Snapshot :: "Mapping \<Rightarrow> Snapshot" where
  "mapping_Snapshot m = \<lparr>SN_CoveredCommitSeq = MP_covered m, SN_Entries = MP_entries m\<rparr>"

definition CoveredCommitSeq :: "Mapping \<Rightarrow> CommitSeq" where
  "CoveredCommitSeq m = MP_covered m"

definition LiveStats :: "Mapping \<Rightarrow> live_stats" where
  "LiveStats m = MP_live m"

section \<open>Validation of proposals\<close>

fun validate_conditions :: "record_id option \<Rightarrow> Condition list \<Rightarrow> bool" where
  \<comment> \<open>the first argument is the id of the previous condition, \<open>None\<close> at index 0\<close>
  "validate_conditions previous [] = True"
| "validate_conditions previous (c # cs) =
     (if CO_RecordID c = 0 \<or> (case previous of None \<Rightarrow> False | Some p \<Rightarrow> CO_RecordID c \<le> p) then False
      else if CO_ExpectedAddr c \<noteq> 0 \<and> \<not> VAddr_Valid (CO_ExpectedAddr c) then False
      else validate_conditions (Some (CO_RecordID c)) cs)"

definition validate_change :: "ProposalKind \<Rightarrow> Change \<Rightarrow> bool" where
  "validate_change kind c =
     (if kind = ProposalUserCommit then
        \<not> (CH_ExpectedOldAddr c \<noteq> 0 \<or>
           (CH_Operation c = mapping_OperationPut \<and> \<not> RecordRef_Valid (CH_NewRef c)) \<or>
           (CH_Operation c = mapping_OperationDelete \<and> \<not> RecordRef_IsZero (CH_NewRef c)) \<or>
           (CH_Operation c \<noteq> mapping_OperationPut \<and> CH_Operation c \<noteq> mapping_OperationDelete))
      else if kind = ProposalRelocation then
        \<not> (CH_Operation c \<noteq> mapping_OperationRelocate \<or> \<not> RecordRef_Valid (CH_NewRef c) \<or>
           \<not> VAddr_Valid (CH_ExpectedOldAddr c) \<or> Ref_Addr (CH_NewRef c) = CH_ExpectedOldAddr c)
      else True)"

fun validate_changes :: "ProposalKind \<Rightarrow> record_id option \<Rightarrow> Change list \<Rightarrow> bool" where
  "validate_changes kind previous [] = True"
| "validate_changes kind previous (c # cs) =
     (if CH_RecordID c = 0 \<or> (case previous of None \<Rightarrow> False | Some p \<Rightarrow> CH_RecordID c \<le> p) then False
      else if \<not> validate_change kind c then False
      else validate_changes kind (Some (CH_RecordID c)) cs)"

definition validateProposal :: "Proposal \<Rightarrow> err option" where
  "validateProposal p =
     (if PR_Kind p \<noteq> ProposalUserCommit \<and> PR_Kind p \<noteq> ProposalRelocation then Some mapping_ErrInvalid
      else if PR_Kind p = ProposalRelocation \<and> (PR_Conditions p \<noteq> [] \<or> PR_Changes p = []) then Some mapping_ErrInvalid
      else if \<not> validate_conditions None (PR_Conditions p) then Some mapping_ErrInvalid
      else if \<not> validate_changes (PR_Kind p) None (PR_Changes p) then Some mapping_ErrInvalid
      else None)"

section \<open>Resolution\<close>

type_synonym virtual = "record_id \<rightharpoonup> RecordRef \<times> bool"
type_synonym base_lookup = "record_id \<Rightarrow> (RecordRef \<times> bool) res"

definition virtual_lookup :: "base_lookup \<Rightarrow> virtual \<Rightarrow> record_id \<Rightarrow> (RecordRef \<times> bool) res" where
  "virtual_lookup baseLookup virtual i = (case virtual i of Some v \<Rightarrow> Inr v | None \<Rightarrow> baseLookup i)"

fun resolve_conditions :: "base_lookup \<Rightarrow> virtual \<Rightarrow> Condition list \<Rightarrow> bool res" where
  "resolve_conditions baseLookup virtual [] = Inr True"
| "resolve_conditions baseLookup virtual (c # cs) =
     res_bind (virtual_lookup baseLookup virtual (CO_RecordID c)) (\<lambda>(ref, exists).
       if CO_ExpectedAddr c = 0 \<and> exists \<or> CO_ExpectedAddr c \<noteq> 0 \<and> (\<not> exists \<or> Ref_Addr ref \<noteq> CO_ExpectedAddr c)
       then Inr False
       else resolve_conditions baseLookup virtual cs)"

definition resolve_change ::
  "base_lookup \<Rightarrow> ProposalKind \<Rightarrow> virtual \<Rightarrow> Change \<Rightarrow> (ResolvedChange \<times> virtual) res" where
  "resolve_change baseLookup kind virtual c =
     res_bind (virtual_lookup baseLookup virtual (CH_RecordID c)) (\<lambda>(current, exists).
       let result = \<lparr>RC_Change = c, RC_Apply = True, RC_OldRef = current, RC_OldExists = exists\<rparr> in
       if kind = ProposalUserCommit then
         Inr (result, if CH_Operation c = mapping_OperationDelete
                      then virtual(CH_RecordID c \<mapsto> (zero_ref, False))
                      else virtual(CH_RecordID c \<mapsto> (CH_NewRef c, True)))
       else if kind = ProposalRelocation then
         let applies = exists \<and> Ref_Addr current = CH_ExpectedOldAddr c in
         Inr (result\<lparr>RC_Apply := applies\<rparr>,
              if applies then virtual(CH_RecordID c \<mapsto> (CH_NewRef c, True)) else virtual)
       else Inr (result, virtual))"

fun resolve_changes ::
  "base_lookup \<Rightarrow> ProposalKind \<Rightarrow> virtual \<Rightarrow> Change list \<Rightarrow> (ResolvedChange list \<times> virtual) res" where
  "resolve_changes baseLookup kind virtual [] = Inr ([], virtual)"
| "resolve_changes baseLookup kind virtual (c # cs) =
     res_bind (resolve_change baseLookup kind virtual c) (\<lambda>(r, virtual1).
       res_bind (resolve_changes baseLookup kind virtual1 cs) (\<lambda>(rs, virtual2). Inr (r # rs, virtual2)))"

definition resolve_proposal ::
  "base_lookup \<Rightarrow> virtual \<Rightarrow> Proposal \<Rightarrow> (ResolvedProposal \<times> virtual) res" where
  "resolve_proposal baseLookup virtual p =
     res_bind (resolve_conditions baseLookup virtual (PR_Conditions p)) (\<lambda>accepted.
       let resolved = \<lparr>RP_Kind = PR_Kind p, RP_Accepted = accepted, RP_DeltaEntries = 0, RP_Changes = []\<rparr> in
       if \<not> accepted then Inr (resolved, virtual)
       else res_bind (resolve_changes baseLookup (PR_Kind p) virtual (PR_Changes p)) (\<lambda>(changes, virtual').
         Inr (resolved\<lparr>RP_Changes := changes\<rparr>, virtual')))"

fun resolve_proposals ::
  "base_lookup \<Rightarrow> virtual \<Rightarrow> Proposal list \<Rightarrow> ResolvedProposal list res" where
  "resolve_proposals baseLookup virtual [] = Inr []"
| "resolve_proposals baseLookup virtual (p # ps) =
     res_bind (resolve_proposal baseLookup virtual p) (\<lambda>(r, virtual').
       res_bind (resolve_proposals baseLookup virtual' ps) (\<lambda>rs. Inr (r # rs)))"

definition resolveGroupAt :: "CommitSeq \<Rightarrow> Proposal list \<Rightarrow> base_lookup \<Rightarrow> GroupPlan res" where
  "resolveGroupAt base proposals baseLookup =
     res_bind (resolve_proposals baseLookup Map.empty proposals)
       (\<lambda>rs. Inr \<lparr>GP_BaseCommitSeq = base, GP_Proposals = rs\<rparr>)"

fun count_delta_entries :: "record_id set \<Rightarrow> u64 \<Rightarrow> ResolvedChange list \<Rightarrow> u64 \<times> record_id set" where
  "count_delta_entries seen n [] = (n, seen)"
| "count_delta_entries seen n (c # cs) =
     (if \<not> RC_Apply c then count_delta_entries seen n cs
      else let i = CH_RecordID (RC_Change c) in
        if i \<in> seen then count_delta_entries seen n cs
        else count_delta_entries (insert i seen) (n + 1) cs)"

fun assign_delta_entries :: "record_id set \<Rightarrow> ResolvedProposal list \<Rightarrow> ResolvedProposal list" where
  "assign_delta_entries seen [] = []"
| "assign_delta_entries seen (p # ps) =
     (if \<not> RP_Accepted p then p # assign_delta_entries seen ps
      else let (n, seen') = count_delta_entries seen (RP_DeltaEntries p) (RP_Changes p)
           in p\<lparr>RP_DeltaEntries := n\<rparr> # assign_delta_entries seen' ps)"

definition assignDeltaEntries :: "GroupPlan \<Rightarrow> record_id set \<Rightarrow> GroupPlan" where
  "assignDeltaEntries plan active = plan\<lparr>GP_Proposals := assign_delta_entries active (GP_Proposals plan)\<rparr>"

definition mapping_ResolveGroup :: "Mapping \<Rightarrow> Proposal list \<Rightarrow> GroupPlan res" where
  "mapping_ResolveGroup m proposals =
     (if proposals = [] \<or> length proposals > MaxUint32 then Inl mapping_ErrInvalid
      else case first_error (map validateProposal proposals) of
        Some e \<Rightarrow> Inl e
      | None \<Rightarrow>
          res_bind (resolveGroupAt (MP_covered m) proposals (\<lambda>i. Inr (read_entry (MP_entries m) i)))
            (\<lambda>plan. Inr (assignDeltaEntries plan {})))"

section \<open>Publication\<close>

definition validDeltaEntries :: "GroupPlan \<Rightarrow> record_id set \<Rightarrow> bool" where
  "validDeltaEntries plan active =
     (let want = assignDeltaEntries
            (plan\<lparr>GP_Proposals := map (\<lambda>p. p\<lparr>RP_DeltaEntries := 0\<rparr>) (GP_Proposals plan)\<rparr>) active
      in list_all2 (\<lambda>p w. RP_DeltaEntries p = RP_DeltaEntries w) (GP_Proposals plan) (GP_Proposals want))"

definition validateReservations :: "GroupPlan \<Rightarrow> DeltaReservation option list \<Rightarrow> err option" where
  "validateReservations plan reservations =
     (if length reservations \<noteq> length (GP_Proposals plan) \<or> None \<in> set reservations
      then Some mapping_ErrInvalid else None)"

definition validate_resolved :: "ResolvedProposal \<Rightarrow> err option" where
  "validate_resolved p =
     (if \<not> RP_Accepted p then
        if RP_Kind p \<noteq> ProposalUserCommit \<or> RP_Changes p \<noteq> [] then Some mapping_ErrInvalid else None
      else if list_ex (\<lambda>r. RC_OldExists r \<noteq> (\<not> RecordRef_IsZero (RC_OldRef r)) \<or>
                RC_OldExists r \<and> \<not> RecordRef_Valid (RC_OldRef r) \<or>
                RP_Kind p = ProposalUserCommit \<and> \<not> RC_Apply r) (RP_Changes p)
      then Some mapping_ErrInvalid
      else validateProposal \<lparr>PR_Kind = RP_Kind p, PR_Conditions = [], PR_Changes = map RC_Change (RP_Changes p)\<rparr>)"

definition validateResolvedPlan :: "GroupPlan \<Rightarrow> err option" where
  "validateResolvedPlan plan =
     first_error (map validate_resolved (GP_Proposals plan))"

record segmentLiveDelta =
  SD_removeBytes :: u64
  SD_addBytes :: u64
  SD_removeRecords :: u64
  SD_addRecords :: u64
  SD_lastChanged :: CommitSeq

type_synonym live_deltas = "(SegmentID \<times> segmentLiveDelta) list"

definition zero_delta :: segmentLiveDelta where
  "zero_delta = \<lparr>SD_removeBytes = 0, SD_addBytes = 0, SD_removeRecords = 0, SD_addRecords = 0, SD_lastChanged = 0\<rparr>"

definition delta_of :: "live_deltas \<Rightarrow> SegmentID \<Rightarrow> segmentLiveDelta" where
  "delta_of deltas s = (case map_of deltas s of None \<Rightarrow> zero_delta | Some d \<Rightarrow> d)"

definition delta_remove :: "CommitSeq \<Rightarrow> RecordRef \<Rightarrow> live_deltas \<Rightarrow> live_deltas res" where
  "delta_remove seq ref deltas =
     (if \<not> RecordRef_Valid ref then Inl mapping_ErrCorrupt
      else let segment = VAddr_SegmentID (Ref_Addr ref); delta = delta_of deltas segment in
        if SD_removeBytes delta > max_u64 - ucast (Ref_PhysicalSize ref) \<or> SD_removeRecords delta = max_u64
        then Inl mapping_ErrCorrupt
        else Inr (AList.update segment
          (delta\<lparr>SD_removeBytes := SD_removeBytes delta + ucast (Ref_PhysicalSize ref),
             SD_removeRecords := SD_removeRecords delta + 1, SD_lastChanged := seq\<rparr>) deltas))"

definition delta_add :: "CommitSeq \<Rightarrow> RecordRef \<Rightarrow> live_deltas \<Rightarrow> live_deltas res" where
  "delta_add seq ref deltas =
     (if \<not> RecordRef_Valid ref then Inl mapping_ErrCorrupt
      else let segment = VAddr_SegmentID (Ref_Addr ref); delta = delta_of deltas segment in
        if SD_addBytes delta > max_u64 - ucast (Ref_PhysicalSize ref) \<or> SD_addRecords delta = max_u64
        then Inl mapping_ErrCorrupt
        else Inr (AList.update segment
          (delta\<lparr>SD_addBytes := SD_addBytes delta + ucast (Ref_PhysicalSize ref),
             SD_addRecords := SD_addRecords delta + 1, SD_lastChanged := seq\<rparr>) deltas))"

definition delta_change :: "CommitSeq \<Rightarrow> live_deltas \<Rightarrow> ResolvedChange \<Rightarrow> live_deltas res" where
  "delta_change seq deltas r =
     (if \<not> RC_Apply r then Inr deltas
      else res_bind (if RC_OldExists r then delta_remove seq (RC_OldRef r) deltas else Inr deltas) (\<lambda>deltas1.
        if CH_Operation (RC_Change r) \<noteq> mapping_OperationDelete
        then delta_add seq (CH_NewRef (RC_Change r)) deltas1 else Inr deltas1))"

fun plan_deltas :: "CommitSeq \<Rightarrow> live_deltas \<Rightarrow> ResolvedProposal list \<Rightarrow> live_deltas res" where
  "plan_deltas seq deltas [] = Inr deltas"
| "plan_deltas seq deltas (p # ps) =
     (if \<not> RP_Accepted p then plan_deltas seq deltas ps
      else res_bind (res_fold (delta_change seq) deltas (RP_Changes p)) (\<lambda>deltas'. plan_deltas (seq + 1) deltas' ps))"

definition net_pair :: "u64 \<Rightarrow> u64 \<Rightarrow> u64 \<times> u64" where
  "net_pair remove add = (if remove \<ge> add then (remove - add, 0) else (0, add - remove))"

definition net_delta :: "SegmentLiveStats \<Rightarrow> segmentLiveDelta \<Rightarrow> segmentLiveDelta res" where
  "net_delta current delta =
     (let (removeBytes, addBytes) = net_pair (SD_removeBytes delta) (SD_addBytes delta);
          (removeRecords, addRecords) = net_pair (SD_removeRecords delta) (SD_addRecords delta)
      in if LS_LiveBytes current < removeBytes \<or> LS_LiveRecords current < removeRecords \<or>
            LS_LiveBytes current - removeBytes > max_u64 - addBytes \<or>
            LS_LiveRecords current - removeRecords > max_u64 - addRecords
         then Inl mapping_ErrCorrupt
         else Inr (delta\<lparr>SD_removeBytes := removeBytes, SD_addBytes := addBytes,
                          SD_removeRecords := removeRecords, SD_addRecords := addRecords\<rparr>))"

fun net_deltas :: "live_stats \<Rightarrow> live_deltas \<Rightarrow> live_deltas res" where
  "net_deltas stats [] = Inr []"
| "net_deltas stats ((s, d) # ds) =
     res_bind (net_delta (stats_of stats s) d) (\<lambda>d'. res_bind (net_deltas stats ds) (\<lambda>ds'. Inr ((s, d') # ds')))"

fun apply_deltas :: "live_stats \<Rightarrow> live_deltas \<Rightarrow> err option \<times> live_stats" where
  "apply_deltas stats [] = (None, stats)"
| "apply_deltas stats ((s, d) # ds) =
     (let current = stats_of stats s;
          current' = current\<lparr>LS_LiveBytes := LS_LiveBytes current - SD_removeBytes d + SD_addBytes d,
             LS_LiveRecords := LS_LiveRecords current - SD_removeRecords d + SD_addRecords d\<rparr>
      in if LS_LiveRecords current' = 0 then
           if LS_LiveBytes current' \<noteq> 0 then (Some mapping_ErrCorrupt, stats)
           else apply_deltas (stats(s := None)) ds
         else apply_deltas (stats(s \<mapsto> current'\<lparr>LS_LastChangedCommitSeq := SD_lastChanged d\<rparr>)) ds)"

definition applyPlanLiveStats :: "live_stats \<Rightarrow> CommitSeq \<Rightarrow> GroupPlan \<Rightarrow> err option \<times> live_stats" where
  "applyPlanLiveStats stats first plan =
     (case plan_deltas first [] (GP_Proposals plan) of Inl e \<Rightarrow> (Some e, stats)
      | Inr deltas \<Rightarrow>
          case net_deltas stats deltas of Inl e \<Rightarrow> (Some e, stats)
          | Inr deltas' \<Rightarrow> apply_deltas stats deltas')"

definition consumeReservation :: "deltaBudget \<Rightarrow> DeltaReservation \<Rightarrow> u64 \<Rightarrow> u64 res \<times> deltaBudget" where
  "consumeReservation b reservation n = reservation_consume b reservation n"

fun settle_reservations ::
  "deltaBudget \<Rightarrow> ResolvedProposal list \<Rightarrow> DeltaReservation list \<Rightarrow> err option \<times> deltaBudget" where
  "settle_reservations b (p # ps) (r # rs) =
     (if \<not> RP_Accepted p then settle_reservations (Release b r) ps rs
      else case consumeReservation b r (RP_DeltaEntries p) of
        (Inl e, b') \<Rightarrow> (Some e, b')
      | (Inr _, b') \<Rightarrow> settle_reservations b' ps rs)"
| "settle_reservations b _ _ = (None, b)"

fun publish_change :: "entries \<times> PublishResult \<Rightarrow> ResolvedChange \<Rightarrow> entries \<times> PublishResult" where
  "publish_change (es, result) r =
     (if \<not> RC_Apply r then (es, result\<lparr>PU_Skipped := PU_Skipped result + 1\<rparr>)
      else (if CH_Operation (RC_Change r) = mapping_OperationDelete
            then es(CH_RecordID (RC_Change r) := None)
            else es(CH_RecordID (RC_Change r) \<mapsto> CH_NewRef (RC_Change r)),
            result\<lparr>PU_Applied := PU_Applied result + 1\<rparr>))"

definition publish_proposals :: "entries \<times> PublishResult \<Rightarrow> ResolvedProposal list \<Rightarrow> entries \<times> PublishResult" where
  "publish_proposals = foldl (\<lambda>acc p. if RP_Accepted p then foldl publish_change acc (RP_Changes p) else acc)"

definition count_accepted :: "ResolvedProposal list \<Rightarrow> u64" where
  "count_accepted ps = foldl (\<lambda>n p. if RP_Accepted p then n + 1 else n) 0 ps"

definition mapping_PublishGroup ::
  "CommitSeq \<Rightarrow> GroupPlan \<Rightarrow> DeltaReservation option list \<Rightarrow> Mapping \<times> deltaBudget \<Rightarrow>
    PublishResult res \<times> Mapping \<times> deltaBudget" where
  "mapping_PublishGroup first plan reservations = (\<lambda>(m, b).
     if first = 0 \<or> GP_Proposals plan = [] then (Inl mapping_ErrInvalid, m, b)
     else case validateReservations plan reservations of Some e \<Rightarrow> (Inl e, m, b)
     | None \<Rightarrow>
       if \<not> validDeltaEntries plan {} then (Inl mapping_ErrInvalid, m, b)
       else case validateResolvedPlan plan of Some e \<Rightarrow> (Inl e, m, b)
       | None \<Rightarrow>
         if GP_BaseCommitSeq plan \<noteq> MP_covered m then (Inl mapping_ErrStalePlan, m, b)
         else if MP_covered m = max_u64 \<or> first \<noteq> MP_covered m + 1 then (Inl mapping_ErrInvalid, m, b)
         else let accepted = count_accepted (GP_Proposals plan) in
           if accepted = 0 \<or> accepted - 1 > max_u64 - first then (Inl mapping_ErrInvalid, m, b)
           else case settle_reservations b (GP_Proposals plan) (map the reservations) of
             (Some e, b') \<Rightarrow> (Inl e, m, b')
           | (None, b') \<Rightarrow>
             case applyPlanLiveStats (MP_live m) first plan of
               (Some e, live') \<Rightarrow> (Inl e, m\<lparr>MP_live := live'\<rparr>, b')
             | (None, live') \<Rightarrow>
               let (es, result) = publish_proposals
                     (MP_entries m, \<lparr>PU_Committed = ucast accepted, PU_Applied = 0, PU_Skipped = 0\<rparr>)
                     (GP_Proposals plan)
               in (Inr result, \<lparr>MP_covered = first + accepted - 1, MP_entries = es, MP_live = live'\<rparr>, b'))"

section \<open>The specification: proposals one after the other\<close>

definition condition_holds :: "entries \<Rightarrow> Condition \<Rightarrow> bool" where
  "condition_holds es c \<longleftrightarrow>
     (case es (CO_RecordID c) of None \<Rightarrow> CO_ExpectedAddr c = 0
      | Some ref \<Rightarrow> CO_ExpectedAddr c \<noteq> 0 \<and> Ref_Addr ref = CO_ExpectedAddr c)"

definition spec_accepts :: "entries \<Rightarrow> Proposal \<Rightarrow> bool" where
  "spec_accepts es p \<longleftrightarrow> list_all (condition_holds es) (PR_Conditions p)"

definition change_applies :: "ProposalKind \<Rightarrow> entries \<Rightarrow> Change \<Rightarrow> bool" where
  "change_applies kind es c \<longleftrightarrow> kind \<noteq> ProposalRelocation \<or>
     (case es (CH_RecordID c) of None \<Rightarrow> False | Some ref \<Rightarrow> Ref_Addr ref = CH_ExpectedOldAddr c)"

definition spec_change :: "ProposalKind \<Rightarrow> entries \<Rightarrow> Change \<Rightarrow> entries" where
  "spec_change kind es c =
     (if \<not> change_applies kind es c then es
      else es(CH_RecordID c := if CH_Operation c = mapping_OperationDelete then None else Some (CH_NewRef c)))"

definition spec_changes :: "ProposalKind \<Rightarrow> entries \<Rightarrow> Change list \<Rightarrow> entries" where
  "spec_changes kind = foldl (spec_change kind)"

definition spec_proposal :: "entries \<Rightarrow> Proposal \<Rightarrow> entries" where
  "spec_proposal es p = (if spec_accepts es p then spec_changes (PR_Kind p) es (PR_Changes p) else es)"

definition spec_group :: "entries \<Rightarrow> Proposal list \<Rightarrow> entries" where
  "spec_group = foldl spec_proposal"

text \<open>What the resolution must report: the old reference and the decision for every change.\<close>

definition spec_resolved_change :: "ProposalKind \<Rightarrow> entries \<Rightarrow> Change \<Rightarrow> ResolvedChange" where
  "spec_resolved_change kind es c =
     \<lparr>RC_Change = c, RC_Apply = change_applies kind es c,
      RC_OldRef = fst (read_entry es (CH_RecordID c)), RC_OldExists = snd (read_entry es (CH_RecordID c))\<rparr>"

fun spec_resolved :: "ProposalKind \<Rightarrow> entries \<Rightarrow> Change list \<Rightarrow> ResolvedChange list" where
  "spec_resolved kind es [] = []"
| "spec_resolved kind es (c # cs) = spec_resolved_change kind es c # spec_resolved kind (spec_change kind es c) cs"

fun spec_plan :: "entries \<Rightarrow> Proposal list \<Rightarrow> ResolvedProposal list" where
  "spec_plan es [] = []"
| "spec_plan es (p # ps) =
     \<lparr>RP_Kind = PR_Kind p, RP_Accepted = spec_accepts es p, RP_DeltaEntries = 0,
      RP_Changes = (if spec_accepts es p then spec_resolved (PR_Kind p) es (PR_Changes p) else [])\<rparr>
     # spec_plan (spec_proposal es p) ps"

lemma spec_simps [simp]:
  "spec_changes kind es [] = es"
  "spec_changes kind es (c # cs) = spec_changes kind (spec_change kind es c) cs"
  "spec_group es [] = es"
  "spec_group es (p # ps) = spec_group (spec_proposal es p) ps"
  by (simp_all add: spec_changes_def spec_group_def)

lemma spec_group_append: "spec_group es (ps @ qs) = spec_group (spec_group es ps) qs"
  by (simp add: spec_group_def)

lemma length_spec_plan [simp]: "length (spec_plan es ps) = length ps"
  by (induction ps arbitrary: es) auto

section \<open>Resolution computes the specification\<close>

definition view :: "entries \<Rightarrow> virtual \<Rightarrow> entries" where
  "view es v i = (case v i of None \<Rightarrow> es i | Some (ref, exists) \<Rightarrow> if exists then Some ref else None)"

definition virtual_ok :: "virtual \<Rightarrow> bool" where
  "virtual_ok v \<longleftrightarrow> (\<forall>i ref. v i = Some (ref, False) \<longrightarrow> ref = zero_ref)"

lemma view_simps [simp]:
  "view es Map.empty = es"
  "view es (v(i \<mapsto> (ref, True))) = (view es v)(i \<mapsto> ref)"
  "view es (v(i \<mapsto> (ref, False))) = (view es v)(i := None)"
  by (auto simp: view_def fun_eq_iff)

lemma read_entry_cases [simp]:
  "es i = None \<Longrightarrow> read_entry es i = (zero_ref, False)"
  "es i = Some ref \<Longrightarrow> read_entry es i = (ref, True)"
  by (simp_all add: read_entry_def)

lemma virtual_lookup_view:
  "virtual_ok v \<Longrightarrow> virtual_lookup (\<lambda>i. Inr (read_entry es i)) v i = Inr (read_entry (view es v) i)"
  by (auto simp: virtual_lookup_def virtual_ok_def view_def read_entry_def split: option.splits)

lemma resolve_conditions_spec:
  "virtual_ok v \<Longrightarrow> resolve_conditions (\<lambda>i. Inr (read_entry es i)) v cs =
     Inr (list_all (condition_holds (view es v)) cs)"
proof (induction cs)
  case (Cons c cs)
  then show ?case
    by (cases "view es v (CO_RecordID c)") (auto simp: virtual_lookup_view condition_holds_def)
qed simp

lemma resolve_change_spec:
  assumes "virtual_ok v" "kind = ProposalUserCommit \<or> kind = ProposalRelocation" "validate_change kind c"
  shows "\<exists>v'. resolve_change (\<lambda>i. Inr (read_entry es i)) kind v c =
      Inr (spec_resolved_change kind (view es v) c, v') \<and> virtual_ok v' \<and>
      view es v' = spec_change kind (view es v) c"
  using assms
  by (cases "view es v (CH_RecordID c)")
    (auto simp: resolve_change_def virtual_lookup_view Let_def spec_change_def change_applies_def
      spec_resolved_change_def validate_change_def virtual_ok_def split: if_splits)

lemma resolve_changes_spec:
  assumes "virtual_ok v" "kind = ProposalUserCommit \<or> kind = ProposalRelocation" "\<forall>c \<in> set cs. validate_change kind c"
  shows "\<exists>v'. resolve_changes (\<lambda>i. Inr (read_entry es i)) kind v cs =
      Inr (spec_resolved kind (view es v) cs, v') \<and> virtual_ok v' \<and>
      view es v' = spec_changes kind (view es v) cs"
  using assms
proof (induction cs arbitrary: v)
  case (Cons c cs)
  obtain v1 where v1: "resolve_change (\<lambda>i. Inr (read_entry es i)) kind v c =
      Inr (spec_resolved_change kind (view es v) c, v1)" "virtual_ok v1" "view es v1 = spec_change kind (view es v) c"
    using resolve_change_spec [of v kind c es] Cons.prems by auto
  then show ?case
    using Cons.IH [of v1] Cons.prems by auto
qed simp

lemma validate_changes_all: "validate_changes kind prev cs \<Longrightarrow> \<forall>c \<in> set cs. validate_change kind c"
  by (induction cs arbitrary: prev) (auto split: if_splits)

lemma validateProposal_None:
  "validateProposal p = None \<longleftrightarrow> (PR_Kind p = ProposalUserCommit \<or> PR_Kind p = ProposalRelocation) \<and>
     (PR_Kind p = ProposalRelocation \<longrightarrow> PR_Conditions p = [] \<and> PR_Changes p \<noteq> []) \<and>
     validate_conditions None (PR_Conditions p) \<and> validate_changes (PR_Kind p) None (PR_Changes p)"
  by (auto simp: validateProposal_def)

lemma resolve_proposals_spec:
  assumes "virtual_ok v" "\<forall>p \<in> set ps. validateProposal p = None"
  shows "resolve_proposals (\<lambda>i. Inr (read_entry es i)) v ps = Inr (spec_plan (view es v) ps)"
  using assms
proof (induction ps arbitrary: v)
  case (Cons p ps)
  have p: "PR_Kind p = ProposalUserCommit \<or> PR_Kind p = ProposalRelocation"
      "\<forall>c \<in> set (PR_Changes p). validate_change (PR_Kind p) c"
    using Cons.prems(2) validate_changes_all by (auto simp: validateProposal_None)
  show ?case
  proof (cases "spec_accepts (view es v) p")
    case True
    obtain v1 where "resolve_changes (\<lambda>i. Inr (read_entry es i)) (PR_Kind p) v (PR_Changes p) =
        Inr (spec_resolved (PR_Kind p) (view es v) (PR_Changes p), v1)" "virtual_ok v1"
        "view es v1 = spec_changes (PR_Kind p) (view es v) (PR_Changes p)"
      using resolve_changes_spec [OF Cons.prems(1) p] by blast
    then show ?thesis
      using True Cons.IH [of v1] Cons.prems
      by (simp add: resolve_proposal_def resolve_conditions_spec spec_accepts_def spec_proposal_def)
  next
    case False
    then show ?thesis
      using Cons.IH [of v] Cons.prems
      by (simp add: resolve_proposal_def resolve_conditions_spec spec_accepts_def spec_proposal_def)
  qed
qed simp

lemma mapping_ResolveGroup_eq:
  "mapping_ResolveGroup m ps =
     (if ps = [] \<or> length ps > MaxUint32 then Inl mapping_ErrInvalid
      else if list_all (\<lambda>p. validateProposal p = None) ps then
        Inr \<lparr>GP_BaseCommitSeq = MP_covered m, GP_Proposals = assign_delta_entries {} (spec_plan (MP_entries m) ps)\<rparr>
      else Inl mapping_ErrInvalid)"
proof -
  have inv: "first_error (map validateProposal ps) = Some mapping_ErrInvalid" if "\<not> list_all (\<lambda>p. validateProposal p = None) ps"
    using that
  proof (induction ps)
    case (Cons p ps)
    then show ?case by (cases "validateProposal p") (auto simp: validateProposal_def split: if_splits)
  qed simp
  show ?thesis
  proof (cases "list_all (\<lambda>p. validateProposal p = None) ps")
    case True
    then have "first_error (map validateProposal ps) = None"
      by (simp add: first_error_None list_all_iff)
    moreover have "resolve_proposals (\<lambda>i. Inr (read_entry (MP_entries m) i)) Map.empty ps = Inr (spec_plan (MP_entries m) ps)"
      using resolve_proposals_spec [of Map.empty ps "MP_entries m"] True by (simp add: virtual_ok_def list_all_iff)
    ultimately show ?thesis
      using True by (simp add: mapping_ResolveGroup_def resolveGroupAt_def assignDeltaEntries_def)
  next
    case False
    then show ?thesis using inv by (simp add: mapping_ResolveGroup_def)
  qed
qed

end
