(* ===== verification/Index_Interface.thy ===== *)
theory Index_Interface
  imports Mapping_Index
begin

text \<open>
  The mapping as its clients see it, the interface \<^verbatim>\<open>Index\<close> of \<^verbatim>\<open>internal/mapping/mapping.go\<close>: the
  commit coordinator and the replay of the log reserve delta entries, resolve a group of proposals
  and publish the plan. The contract is stated over the entries and the covered commit sequence of
  the implementation and over the specification that runs the proposals one after the other.
\<close>

section \<open>Vocabulary of the contract\<close>

definition strip :: "ResolvedProposal \<Rightarrow> ResolvedProposal" where
  "strip p = p\<lparr>RP_DeltaEntries := 0\<rparr>"

lemma strip_simps [simp]:
  "RP_Kind (strip p) = RP_Kind p" "RP_Accepted (strip p) = RP_Accepted p" "RP_Changes (strip p) = RP_Changes p"
  "RP_DeltaEntries (strip p) = 0" "strip (strip p) = strip p" "strip (p\<lparr>RP_DeltaEntries := n\<rparr>) = strip p"
  by (simp_all add: strip_def)

definition entries_ok :: "entries \<Rightarrow> bool" where
  "entries_ok es \<longleftrightarrow> es 0 = None \<and> (\<forall>i ref. es i = Some ref \<longrightarrow> RecordRef_Valid ref)"

definition accepted_count :: "GroupPlan \<Rightarrow> nat" where
  "accepted_count plan = length (filter RP_Accepted (GP_Proposals plan))"

definition applied :: "ResolvedProposal list \<Rightarrow> ResolvedChange list" where
  "applied ps = filter RC_Apply (concat (map RP_Changes (filter RP_Accepted ps)))"

definition skipped :: "ResolvedProposal list \<Rightarrow> ResolvedChange list" where
  "skipped ps = filter (\<lambda>r. \<not> RC_Apply r) (concat (map RP_Changes (filter RP_Accepted ps)))"

text \<open>The number and the total size of the records of a segment that the entries point to.\<close>

definition weight :: "(RecordRef \<Rightarrow> nat) \<Rightarrow> SegmentID \<Rightarrow> RecordRef option \<Rightarrow> nat" where
  "weight w s x = (case x of None \<Rightarrow> 0 | Some ref \<Rightarrow> if VAddr_SegmentID (Ref_Addr ref) = s then w ref else 0)"

definition live_sum :: "(RecordRef \<Rightarrow> nat) \<Rightarrow> entries \<Rightarrow> SegmentID \<Rightarrow> nat" where
  "live_sum w es s = (\<Sum>i\<in>UNIV. weight w s (es i))"

abbreviation ref_bytes :: "RecordRef \<Rightarrow> nat" where "ref_bytes ref \<equiv> unat (Ref_PhysicalSize ref)"

definition ref_count :: "RecordRef \<Rightarrow> nat" where "ref_count ref = 1"

abbreviation live_bytes :: "entries \<Rightarrow> SegmentID \<Rightarrow> nat" where "live_bytes \<equiv> live_sum ref_bytes"

abbreviation live_records :: "entries \<Rightarrow> SegmentID \<Rightarrow> nat" where "live_records \<equiv> live_sum ref_count"

definition change_count :: "Proposal list \<Rightarrow> nat" where
  "change_count ps = sum_list (map (\<lambda>p. length (PR_Changes p)) ps)"

section \<open>The contract\<close>

locale mapping_index =
  fixes ReserveDelta :: "'m \<Rightarrow> record_id list \<Rightarrow> (DeltaReservation res \<times> u64) \<times> 'm"
    and ReleaseDelta :: "'m \<Rightarrow> DeltaReservation \<Rightarrow> 'm"
    and ResolveGroup :: "'m \<Rightarrow> Proposal list \<Rightarrow> GroupPlan res"
    and PublishGroup :: "CommitSeq \<Rightarrow> GroupPlan \<Rightarrow> DeltaReservation option list \<Rightarrow> 'm \<Rightarrow> PublishResult res \<times> 'm"
    and entries_of :: "'m \<Rightarrow> entries"
    and covered_of :: "'m \<Rightarrow> CommitSeq"
    and ok :: "'m \<Rightarrow> bool"
  assumes entries_valid: "ok m \<Longrightarrow> entries_ok (entries_of m)"
    and reserve_keeps: "ok m \<Longrightarrow> ReserveDelta m ids = (x, m') \<Longrightarrow>
      ok m' \<and> entries_of m' = entries_of m \<and> covered_of m' = covered_of m"
    and release_keeps: "ok m \<Longrightarrow>
      ok (ReleaseDelta m r) \<and> entries_of (ReleaseDelta m r) = entries_of m \<and> covered_of (ReleaseDelta m r) = covered_of m"
    and resolve_spec: "ok m \<Longrightarrow> ResolveGroup m ps = Inr plan \<Longrightarrow>
      ps \<noteq> [] \<and> length ps \<le> MaxUint32 \<and> (\<forall>p \<in> set ps. validateProposal p = None) \<and>
      map strip (GP_Proposals plan) = spec_plan (entries_of m) ps"
    and publish_Inr: "ok m \<Longrightarrow> ResolveGroup m ps = Inr plan \<Longrightarrow> PublishGroup first plan ress m = (Inr result, m') \<Longrightarrow>
      ok m' \<and> entries_of m' = spec_group (entries_of m) ps \<and> first = covered_of m + 1 \<and>
      unat (covered_of m') = unat (covered_of m) + accepted_count plan \<and>
      result = \<lparr>PU_Committed = of_nat (accepted_count plan), PU_Applied = of_nat (length (applied (GP_Proposals plan))),
        PU_Skipped = of_nat (length (skipped (GP_Proposals plan)))\<rparr>"
    and publish_Inl: "ok m \<Longrightarrow> ResolveGroup m ps = Inr plan \<Longrightarrow> PublishGroup first plan ress m = (Inl e, m') \<Longrightarrow>
      ok m' \<and> entries_of m' = entries_of m \<and> covered_of m' = covered_of m"

text \<open>An index whose reservations never run out: everything that is well formed succeeds.\<close>

locale unlimited_index = mapping_index +
  assumes reserve_total: "ok m \<Longrightarrow> ReserveDelta m ids = ((Inr unlimitedReservation, 0), m)"
    and resolve_total: "ok m \<Longrightarrow> ps \<noteq> [] \<Longrightarrow> length ps \<le> MaxUint32 \<Longrightarrow> \<forall>p \<in> set ps. validateProposal p = None \<Longrightarrow>
      \<exists>plan. ResolveGroup m ps = Inr plan"
    and publish_total: "ok m \<Longrightarrow> ResolveGroup m ps = Inr plan \<Longrightarrow> accepted_count plan \<noteq> 0 \<Longrightarrow>
      unat (covered_of m) + accepted_count plan \<le> MaxUint64 \<Longrightarrow> change_count ps \<le> MaxUint32 \<Longrightarrow>
      \<forall>s. live_bytes (spec_group (entries_of m) ps) s \<le> MaxUint64 \<Longrightarrow>
      \<exists>result m'. PublishGroup (covered_of m + 1) plan (replicate (length ps) (Some unlimitedReservation)) m = (Inr result, m')"

end
