(* ===== verification/Mapping_Publish.thy ===== *)
theory Mapping_Publish
  imports Index_Interface
begin

text \<open>
  Publication of a resolved group (\<^verbatim>\<open>internal/mapping/mapping.go\<close>): a plan that the mapping itself
  resolved is published exactly as the specification runs the proposals, the covered commit
  sequence advances by the number of accepted proposals, and the live statistics stay equal to the
  number and size of the records the entries point to. An error leaves entries and sequence alone.
\<close>

section \<open>Delta entries and decisions\<close>

lemma map_strip_assign [simp]: "map strip (assign_delta_entries seen ps) = map strip ps"
  by (induction ps arbitrary: seen) (auto split: prod.splits)

lemma length_assign [simp]: "length (assign_delta_entries seen ps) = length ps"
  by (induction ps arbitrary: seen) (auto split: prod.splits)

lemma map_strip_spec_plan [simp]: "map strip (spec_plan es ps) = spec_plan es ps"
  by (induction ps arbitrary: es) (auto simp: strip_def)

lemma valid_assigned:
  "validDeltaEntries \<lparr>GP_BaseCommitSeq = base, GP_Proposals = assign_delta_entries active (spec_plan es ps)\<rparr> active"
proof -
  have "map (\<lambda>p. p\<lparr>RP_DeltaEntries := 0\<rparr>) (assign_delta_entries active (spec_plan es ps)) = spec_plan es ps"
    unfolding strip_def [symmetric] by simp
  then show ?thesis
    by (simp add: validDeltaEntries_def assignDeltaEntries_def Let_def list_all2_same)
qed

lemma accepted_via_strip: "map RP_Accepted ps = map RP_Accepted (map strip ps)"
  by simp

lemma publish_via_strip: "publish_proposals acc ps = publish_proposals acc (map strip ps)"
  by (induction ps arbitrary: acc) (simp_all add: publish_proposals_def)

lemma plan_deltas_via_strip: "plan_deltas seq ds ps = plan_deltas seq ds (map strip ps)"
  by (induction seq ds ps rule: plan_deltas.induct) (auto intro: res_bind_cong)

lemma validate_via_strip: "validate_resolved p = validate_resolved (strip p)"
  by (simp add: validate_resolved_def)

lemma count_accepted_unat:
  "length ps \<le> MaxUint32 \<Longrightarrow> unat (count_accepted ps) = length (filter RP_Accepted ps)"
proof -
  have "foldl (\<lambda>n p. if RP_Accepted p then n + 1 else n) k ps = k + of_nat (length (filter RP_Accepted ps))" for k :: u64
    by (induction ps arbitrary: k) (auto simp: add.assoc)
  moreover assume "length ps \<le> MaxUint32"
  then have "length (filter RP_Accepted ps) < 2 ^ 64"
    by (intro le_less_trans [OF length_filter_le]) simp
  ultimately show ?thesis
    by (simp add: count_accepted_def unat_of_nat)
qed

lemma filter_accepted_assign:
  "length (filter RP_Accepted (assign_delta_entries seen ps)) = length (filter RP_Accepted ps)"
  by (induction ps arbitrary: seen) (auto split: prod.splits)

section \<open>Entries stay valid\<close>

lemma spec_change_ok:
  assumes "entries_ok es" "kind = ProposalUserCommit \<or> kind = ProposalRelocation" "validate_change kind c" "CH_RecordID c \<noteq> 0"
  shows "entries_ok (spec_change kind es c)"
  using assms by (auto simp: entries_ok_def spec_change_def validate_change_def split: if_splits)

lemma validate_changes_ids: "validate_changes kind prev cs \<Longrightarrow> \<forall>c \<in> set cs. CH_RecordID c \<noteq> 0"
  by (induction cs arbitrary: prev) (auto split: if_splits)

lemma spec_changes_ok:
  assumes "entries_ok es" "kind = ProposalUserCommit \<or> kind = ProposalRelocation"
    "\<forall>c \<in> set cs. validate_change kind c \<and> CH_RecordID c \<noteq> 0"
  shows "entries_ok (spec_changes kind es cs)"
  using assms by (induction cs arbitrary: es) (auto intro: spec_change_ok)

lemma validateProposal_changes:
  assumes "validateProposal p = None"
  shows "PR_Kind p = ProposalUserCommit \<or> PR_Kind p = ProposalRelocation"
    "\<forall>c \<in> set (PR_Changes p). validate_change (PR_Kind p) c \<and> CH_RecordID c \<noteq> 0"
  using assms validate_changes_ids validate_changes_all unfolding validateProposal_None by blast+

lemma spec_proposal_ok:
  assumes "entries_ok es" "validateProposal p = None"
  shows "entries_ok (spec_proposal es p)"
  using spec_changes_ok [OF assms(1) validateProposal_changes [OF assms(2)]] assms(1)
  by (simp add: spec_proposal_def)

lemma spec_group_ok:
  "entries_ok es \<Longrightarrow> \<forall>p \<in> set ps. validateProposal p = None \<Longrightarrow> entries_ok (spec_group es ps)"
  by (induction ps arbitrary: es) (auto intro: spec_proposal_ok)

lemma RecordRef_Valid_not_zero: "RecordRef_Valid ref \<Longrightarrow> \<not> RecordRef_IsZero ref"
  by (auto simp: RecordRef_Valid_def RecordRef_IsZero_def zero_ref_def VAddr_Valid_def)

lemma map_RC_Change_spec [simp]: "map RC_Change (spec_resolved kind es cs) = cs"
  by (induction cs arbitrary: es) (auto simp: spec_resolved_change_def)

lemma spec_resolved_ok:
  assumes "entries_ok es" "kind = ProposalUserCommit \<or> kind = ProposalRelocation"
    "\<forall>c \<in> set cs. validate_change kind c \<and> CH_RecordID c \<noteq> 0" "r \<in> set (spec_resolved kind es cs)"
  shows "RC_OldExists r = (\<not> RecordRef_IsZero (RC_OldRef r)) \<and> (RC_OldExists r \<longrightarrow> RecordRef_Valid (RC_OldRef r)) \<and>
    (kind = ProposalUserCommit \<longrightarrow> RC_Apply r)"
  using assms
proof (induction cs arbitrary: es)
  case (Cons c cs)
  show ?case
  proof (cases "r = spec_resolved_change kind es c")
    case True
    then show ?thesis
      using Cons.prems(1) RecordRef_Valid_not_zero
      by (cases "es (CH_RecordID c)")
        (auto simp: spec_resolved_change_def entries_ok_def change_applies_def RecordRef_IsZero_def)
  next
    case False
    then show ?thesis
      using Cons.IH [of "spec_change kind es c"] Cons.prems spec_change_ok [of es kind c] by auto
  qed
qed simp

lemma spec_plan_validates:
  assumes "entries_ok es" "\<forall>p \<in> set ps. validateProposal p = None" "q \<in> set (spec_plan es ps)"
  shows "validate_resolved q = None"
  using assms
proof (induction ps arbitrary: es)
  case (Cons p ps)
  have p: "validateProposal p = None" using Cons.prems(2) by simp
  note ch = validateProposal_changes [OF p]
  show ?case
  proof (cases "q \<in> set (spec_plan (spec_proposal es p) ps)")
    case True
    then show ?thesis using Cons.IH [OF spec_proposal_ok] Cons.prems by auto
  next
    case False
    then have q: "q = \<lparr>RP_Kind = PR_Kind p, RP_Accepted = spec_accepts es p, RP_DeltaEntries = 0,
        RP_Changes = (if spec_accepts es p then spec_resolved (PR_Kind p) es (PR_Changes p) else [])\<rparr>"
      using Cons.prems(3) by simp
    have rel: "spec_accepts es p" if "PR_Kind p \<noteq> ProposalUserCommit"
      using p that by (auto simp: validateProposal_None spec_accepts_def)
    have "validateProposal \<lparr>PR_Kind = PR_Kind p, PR_Conditions = [], PR_Changes = PR_Changes p\<rparr> = None"
      using p by (simp add: validateProposal_None)
    then show ?thesis
      using rel spec_resolved_ok [OF Cons.prems(1) ch] by (auto simp: q validate_resolved_def list_ex_iff)
  qed
qed simp

lemma plan_validates:
  assumes "entries_ok es" "\<forall>p \<in> set ps. validateProposal p = None"
  shows "validateResolvedPlan \<lparr>GP_BaseCommitSeq = base, GP_Proposals = assign_delta_entries seen (spec_plan es ps)\<rparr> = None"
proof -
  have "validate_resolved q = None" if "q \<in> set (assign_delta_entries seen (spec_plan es ps))" for q
  proof -
    have "strip q \<in> set (spec_plan es ps)"
      using that map_strip_assign [of seen "spec_plan es ps"] by (metis image_eqI list.set_map map_strip_spec_plan)
    then show ?thesis
      using spec_plan_validates [OF assms] validate_via_strip by metis
  qed
  then show ?thesis
    by (auto simp: validateResolvedPlan_def first_error_None)
qed

section \<open>Publication of the entries\<close>

lemma publish_changes_spec:
  "foldl publish_change (es, r) (spec_resolved kind es cs) =
     (spec_changes kind es cs,
      r\<lparr>PU_Applied := PU_Applied r + of_nat (length (filter RC_Apply (spec_resolved kind es cs))),
        PU_Skipped := PU_Skipped r + of_nat (length (filter (\<lambda>r. \<not> RC_Apply r) (spec_resolved kind es cs)))\<rparr>)"
proof (induction cs arbitrary: es r)
  case (Cons c cs)
  show ?case
    by (cases "change_applies kind es c")
      (auto simp: spec_resolved_change_def spec_change_def fun_upd_def Cons.IH [unfolded spec_change_def] ac_simps
        cong: if_cong)
qed simp

lemma publish_spec:
  "publish_proposals (es, r) (spec_plan es ps) =
     (spec_group es ps,
      r\<lparr>PU_Applied := PU_Applied r + of_nat (length (applied (spec_plan es ps))),
        PU_Skipped := PU_Skipped r + of_nat (length (skipped (spec_plan es ps)))\<rparr>)"
proof (induction ps arbitrary: es r)
  case Nil
  then show ?case by (simp add: publish_proposals_def applied_def skipped_def)
next
  case (Cons p ps)
  have step: "publish_proposals (es, r) (spec_plan es (p # ps)) =
      publish_proposals (if spec_accepts es p then foldl publish_change (es, r) (spec_resolved (PR_Kind p) es (PR_Changes p))
        else (es, r)) (spec_plan (spec_proposal es p) ps)"
    by (simp add: publish_proposals_def)
  show ?case
    unfolding step publish_changes_spec
    using Cons.IH by (simp add: spec_proposal_def applied_def skipped_def ac_simps)
qed

section \<open>Live statistics\<close>

definition live_ok :: "live_stats \<Rightarrow> entries \<Rightarrow> bool" where
  "live_ok live es \<longleftrightarrow> (\<forall>s.
     case live s of None \<Rightarrow> live_records es s = 0
     | Some st \<Rightarrow> unat (LS_LiveRecords st) = live_records es s \<and> unat (LS_LiveBytes st) = live_bytes es s \<and>
         live_records es s \<noteq> 0)"

lemma live_sum_upd: "live_sum w (es(i := x)) s + weight w s (es i) = live_sum w es s + weight w s x"
proof -
  have "live_sum w es s = weight w s (es i) + (\<Sum>j\<in>UNIV - {i}. weight w s (es j))"
    unfolding live_sum_def by (rule sum.remove) simp_all
  moreover have "live_sum w (es(i := x)) s = weight w s x + (\<Sum>j\<in>UNIV - {i}. weight w s ((es(i := x)) j))"
    unfolding live_sum_def by (subst sum.remove [of _ i]) simp_all
  moreover have "(\<Sum>j\<in>UNIV - {i}. weight w s ((es(i := x)) j)) = (\<Sum>j\<in>UNIV - {i}. weight w s (es j))"
    by (rule sum.cong) simp_all
  ultimately show ?thesis by simp
qed

lemma live_sum_empty [simp]: "live_sum w Map.empty s = 0"
  by (simp add: live_sum_def weight_def)

lemma no_records_no_bytes: "live_records es s = 0 \<Longrightarrow> live_sum w es s = 0"
  by (auto simp: live_sum_def weight_def ref_count_def split: option.splits if_splits)

lemma live_ok_stats:
  "live_ok live es \<Longrightarrow> unat (LS_LiveRecords (stats_of live s)) = live_records es s"
  "live_ok live es \<Longrightarrow> unat (LS_LiveBytes (stats_of live s)) = live_bytes es s"
  using no_records_no_bytes [of es s] by (auto simp: live_ok_def stats_of_def zero_stats_def dest!: spec [of _ s] split: option.splits)

text \<open>The deltas account for the difference between two states of the entries.\<close>

definition balanced :: "entries \<Rightarrow> entries \<Rightarrow> live_deltas \<Rightarrow> bool" where
  "balanced es0 es ds \<longleftrightarrow> distinct (map fst ds) \<and> (\<forall>s.
     live_bytes es s + unat (SD_removeBytes (delta_of ds s)) = live_bytes es0 s + unat (SD_addBytes (delta_of ds s)) \<and>
     live_records es s + unat (SD_removeRecords (delta_of ds s)) = live_records es0 s + unat (SD_addRecords (delta_of ds s)))"

lemma balancedD:
  assumes "balanced es0 es ds"
  shows "live_bytes es s + unat (SD_removeBytes (delta_of ds s)) = live_bytes es0 s + unat (SD_addBytes (delta_of ds s))"
    "live_records es s + unat (SD_removeRecords (delta_of ds s)) = live_records es0 s + unat (SD_addRecords (delta_of ds s))"
  using assms by (simp_all add: balanced_def)

lemma delta_of_update: "delta_of (AList.update s d ds) t = (if t = s then d else delta_of ds t)"
  by (simp add: delta_of_def AList.update_conv')

lemma unat_ucast_u32 [simp]: "unat (ucast (w :: u32) :: u64) = unat w"
  using unat_u32_bound [of w] by (simp add: unat_ucast)

lemma delta_remove_Inr:
  assumes "delta_remove seq ref ds = Inr ds'"
  shows "distinct (map fst ds) \<Longrightarrow> distinct (map fst ds')"
    "unat (SD_removeBytes (delta_of ds' s)) = unat (SD_removeBytes (delta_of ds s)) + weight ref_bytes s (Some ref)"
    "unat (SD_removeRecords (delta_of ds' s)) = unat (SD_removeRecords (delta_of ds s)) + weight ref_count s (Some ref)"
    "SD_addBytes (delta_of ds' s) = SD_addBytes (delta_of ds s)"
    "SD_addRecords (delta_of ds' s) = SD_addRecords (delta_of ds s)"
proof -
  let ?seg = "VAddr_SegmentID (Ref_Addr ref)"
  define d where "d = delta_of ds ?seg"
  have chk: "\<not> SD_removeBytes d > max_u64 - ucast (Ref_PhysicalSize ref)" "SD_removeRecords d \<noteq> max_u64"
    and ds': "ds' = AList.update ?seg (d\<lparr>SD_removeBytes := SD_removeBytes d + ucast (Ref_PhysicalSize ref),
        SD_removeRecords := SD_removeRecords d + 1, SD_lastChanged := seq\<rparr>) ds"
    using assms by (auto simp: delta_remove_def Let_def d_def split: if_splits)
  have b: "unat (SD_removeBytes d + ucast (Ref_PhysicalSize ref)) = unat (SD_removeBytes d) + ref_bytes ref"
    using chk(1) u64_add_checked_iff [of "SD_removeBytes d" "ucast (Ref_PhysicalSize ref)"]
    by (simp add: not_less unat_add_no_wrap)
  show "distinct (map fst ds) \<Longrightarrow> distinct (map fst ds')" by (simp add: ds' distinct_update)
  show "unat (SD_removeBytes (delta_of ds' s)) = unat (SD_removeBytes (delta_of ds s)) + weight ref_bytes s (Some ref)"
    by (auto simp: ds' delta_of_update weight_def b d_def [symmetric])
  show "unat (SD_removeRecords (delta_of ds' s)) = unat (SD_removeRecords (delta_of ds s)) + weight ref_count s (Some ref)"
    by (auto simp: ds' delta_of_update weight_def ref_count_def unat_succ_u64 [OF chk(2)] d_def [symmetric])
  show "SD_addBytes (delta_of ds' s) = SD_addBytes (delta_of ds s)"
    "SD_addRecords (delta_of ds' s) = SD_addRecords (delta_of ds s)"
    by (auto simp: ds' delta_of_update d_def)
qed

lemma delta_add_Inr:
  assumes "delta_add seq ref ds = Inr ds'"
  shows "distinct (map fst ds) \<Longrightarrow> distinct (map fst ds')"
    "unat (SD_addBytes (delta_of ds' s)) = unat (SD_addBytes (delta_of ds s)) + weight ref_bytes s (Some ref)"
    "unat (SD_addRecords (delta_of ds' s)) = unat (SD_addRecords (delta_of ds s)) + weight ref_count s (Some ref)"
    "SD_removeBytes (delta_of ds' s) = SD_removeBytes (delta_of ds s)"
    "SD_removeRecords (delta_of ds' s) = SD_removeRecords (delta_of ds s)"
proof -
  let ?seg = "VAddr_SegmentID (Ref_Addr ref)"
  define d where "d = delta_of ds ?seg"
  have chk: "\<not> SD_addBytes d > max_u64 - ucast (Ref_PhysicalSize ref)" "SD_addRecords d \<noteq> max_u64"
    and ds': "ds' = AList.update ?seg (d\<lparr>SD_addBytes := SD_addBytes d + ucast (Ref_PhysicalSize ref),
        SD_addRecords := SD_addRecords d + 1, SD_lastChanged := seq\<rparr>) ds"
    using assms by (auto simp: delta_add_def Let_def d_def split: if_splits)
  have b: "unat (SD_addBytes d + ucast (Ref_PhysicalSize ref)) = unat (SD_addBytes d) + ref_bytes ref"
    using chk(1) u64_add_checked_iff [of "SD_addBytes d" "ucast (Ref_PhysicalSize ref)"]
    by (simp add: not_less unat_add_no_wrap)
  show "distinct (map fst ds) \<Longrightarrow> distinct (map fst ds')" by (simp add: ds' distinct_update)
  show "unat (SD_addBytes (delta_of ds' s)) = unat (SD_addBytes (delta_of ds s)) + weight ref_bytes s (Some ref)"
    by (auto simp: ds' delta_of_update weight_def b d_def [symmetric])
  show "unat (SD_addRecords (delta_of ds' s)) = unat (SD_addRecords (delta_of ds s)) + weight ref_count s (Some ref)"
    by (auto simp: ds' delta_of_update weight_def ref_count_def unat_succ_u64 [OF chk(2)] d_def [symmetric])
  show "SD_removeBytes (delta_of ds' s) = SD_removeBytes (delta_of ds s)"
    "SD_removeRecords (delta_of ds' s) = SD_removeRecords (delta_of ds s)"
    by (auto simp: ds' delta_of_update d_def)
qed

lemma delta_change_balanced:
  assumes "balanced es0 es ds" "delta_change seq ds (spec_resolved_change kind es c) = Inr ds'"
  shows "balanced es0 (spec_change kind es c) ds'"
proof (cases "change_applies kind es c")
  case False
  then show ?thesis
    using assms by (simp add: delta_change_def spec_resolved_change_def spec_change_def)
next
  case True
  let ?i = "CH_RecordID c"
  define new where "new = (if CH_Operation c = mapping_OperationDelete then None else Some (CH_NewRef c))"
  obtain ds1 where d1: "(case es ?i of None \<Rightarrow> Inr ds | Some ref \<Rightarrow> delta_remove seq ref ds) = Inr ds1"
    and d2: "(case new of None \<Rightarrow> Inr ds1 | Some ref \<Rightarrow> delta_add seq ref ds1) = Inr ds'"
    using assms(2) True
    by (cases "es ?i") (auto simp: delta_change_def spec_resolved_change_def new_def split: if_splits)
  have e: "spec_change kind es c = es(?i := new)"
    using True by (simp add: spec_change_def new_def)
  have s1: "(distinct (map fst ds) \<longrightarrow> distinct (map fst ds1)) \<and>
      unat (SD_removeBytes (delta_of ds1 s)) = unat (SD_removeBytes (delta_of ds s)) + weight ref_bytes s (es ?i) \<and>
      unat (SD_removeRecords (delta_of ds1 s)) = unat (SD_removeRecords (delta_of ds s)) + weight ref_count s (es ?i) \<and>
      SD_addBytes (delta_of ds1 s) = SD_addBytes (delta_of ds s) \<and>
      SD_addRecords (delta_of ds1 s) = SD_addRecords (delta_of ds s)" for s
    using d1 delta_remove_Inr [of seq _ ds ds1] by (cases "es ?i") (auto simp: weight_def)
  have s2: "(distinct (map fst ds1) \<longrightarrow> distinct (map fst ds')) \<and>
      unat (SD_addBytes (delta_of ds' s)) = unat (SD_addBytes (delta_of ds1 s)) + weight ref_bytes s new \<and>
      unat (SD_addRecords (delta_of ds' s)) = unat (SD_addRecords (delta_of ds1 s)) + weight ref_count s new \<and>
      SD_removeBytes (delta_of ds' s) = SD_removeBytes (delta_of ds1 s) \<and>
      SD_removeRecords (delta_of ds' s) = SD_removeRecords (delta_of ds1 s)" for s
    using d2 delta_add_Inr [of seq "CH_NewRef c" ds1 ds']
    by (cases "CH_Operation c = mapping_OperationDelete") (auto simp: weight_def new_def)
  show ?thesis
    unfolding balanced_def e
  proof (intro conjI allI, goal_cases)
    case 1
    then show ?case using assms(1) s1 [of 0] s2 [of 0] by (simp add: balanced_def)
  next
    case (2 s)
    have "live_bytes es s + unat (SD_removeBytes (delta_of ds s)) = live_bytes es0 s + unat (SD_addBytes (delta_of ds s))"
      using assms(1) by (simp add: balanced_def)
    then show ?case
      using s1 [of s] s2 [of s] live_sum_upd [of ref_bytes es ?i new s] by auto
  next
    case (3 s)
    have "live_records es s + unat (SD_removeRecords (delta_of ds s)) = live_records es0 s + unat (SD_addRecords (delta_of ds s))"
      using assms(1) by (simp add: balanced_def)
    then show ?case
      using s1 [of s] s2 [of s] live_sum_upd [of ref_count es ?i new s] by auto
  qed
qed

lemma delta_changes_balanced:
  "balanced es0 es ds \<Longrightarrow> res_fold (delta_change seq) ds (spec_resolved kind es cs) = Inr ds' \<Longrightarrow>
     balanced es0 (spec_changes kind es cs) ds'"
  by (induction cs arbitrary: es ds) (auto dest: delta_change_balanced)

lemma plan_deltas_balanced:
  "balanced es0 es ds \<Longrightarrow> plan_deltas seq ds (spec_plan es ps) = Inr ds' \<Longrightarrow> balanced es0 (spec_group es ps) ds'"
proof (induction ps arbitrary: es ds seq)
  case (Cons p ps)
  then show ?case
    by (cases "spec_accepts es p") (auto simp: spec_proposal_def dest: delta_changes_balanced)
qed simp

lemma net_pair_nat:
  assumes "net_pair r a = (r', a')" "\<not> c < r'" "\<not> c - r' > max_u64 - a'"
  shows "unat (c - r' + a') + unat r = unat c + unat a"
proof -
  have *: "unat (c - r') = unat c - unat r'" "unat r' \<le> unat c"
    using assms(2) by (simp_all add: unat_sub not_less word_le_nat_alt)
  have "unat (c - r') + unat a' \<le> MaxUint64"
    using assms(3) u64_add_checked_iff [of "c - r'" a'] by (simp add: not_less)
  then have "unat (c - r' + a') = unat c - unat r' + unat a'"
    using * by (simp add: unat_add_no_wrap)
  moreover have "unat r' + unat a = unat r + unat a'"
    using assms(1) by (auto simp: net_pair_def not_le unat_sub word_le_nat_alt word_less_nat_alt split: if_splits)
  ultimately show ?thesis using *(2) by linarith
qed

lemma net_pair_fits:
  assumes "net_pair r a = (r', a')" "unat r + x = unat c + unat a" "x \<le> MaxUint64"
  shows "\<not> c < r'" "\<not> c - r' > max_u64 - a'"
proof -
  have ra: "unat r' + unat a = unat r + unat a'" "unat r' = 0 \<or> unat a' = 0"
    using assms(1) by (auto simp: net_pair_def not_le unat_sub word_le_nat_alt word_less_nat_alt split: if_splits)
  then have le: "unat r' \<le> unat c" "unat c - unat r' + unat a' = x"
    using assms(2) by linarith+
  then show "\<not> c < r'" by (simp add: word_less_nat_alt)
  have "unat (c - r') = unat c - unat r'"
    using le(1) by (simp add: unat_sub word_le_nat_alt)
  then have "c - r' \<le> max_u64 - a'"
    unfolding u64_add_checked_iff using le(2) assms(3) by simp
  then show "\<not> c - r' > max_u64 - a'" by simp
qed

lemma net_delta_Inr:
  assumes "net_delta cur d = Inr d'"
  shows "unat (LS_LiveBytes cur - SD_removeBytes d' + SD_addBytes d') + unat (SD_removeBytes d) =
      unat (LS_LiveBytes cur) + unat (SD_addBytes d)"
    "unat (LS_LiveRecords cur - SD_removeRecords d' + SD_addRecords d') + unat (SD_removeRecords d) =
      unat (LS_LiveRecords cur) + unat (SD_addRecords d)"
  using assms net_pair_nat
  by (auto simp: net_delta_def split: prod.splits if_splits)

lemma net_delta_succeeds:
  assumes "unat (SD_removeBytes d) + x = unat (LS_LiveBytes cur) + unat (SD_addBytes d)" "x \<le> MaxUint64"
    "unat (SD_removeRecords d) + y = unat (LS_LiveRecords cur) + unat (SD_addRecords d)" "y \<le> MaxUint64"
  shows "\<exists>d'. net_delta cur d = Inr d'"
proof -
  obtain rb ab rr ar where "net_pair (SD_removeBytes d) (SD_addBytes d) = (rb, ab)"
      "net_pair (SD_removeRecords d) (SD_addRecords d) = (rr, ar)"
    by (metis prod.exhaust)
  then show ?thesis
    using net_pair_fits [OF _ assms(1,2)] net_pair_fits [OF _ assms(3,4)] by (simp add: net_delta_def)
qed

lemma net_deltas_Inr:
  "net_deltas stats ds = Inr ds' \<longleftrightarrow>
     list_all2 (\<lambda>x y. fst x = fst y \<and> net_delta (stats_of stats (fst x)) (snd x) = Inr (snd y)) ds ds'"
proof (induction ds arbitrary: ds')
  case (Cons x ds)
  then show ?case by (cases x; cases ds') (auto simp: list_all2_Cons1)
qed auto

lemma net_deltas_succeeds:
  "(\<And>s d. (s, d) \<in> set ds \<Longrightarrow> \<exists>d'. net_delta (stats_of stats s) d = Inr d') \<Longrightarrow> \<exists>ds'. net_deltas stats ds = Inr ds'"
proof (induction ds)
  case (Cons x ds)
  then show ?case by (cases x) fastforce
qed simp

definition new_stats :: "SegmentLiveStats \<Rightarrow> segmentLiveDelta \<Rightarrow> SegmentLiveStats option" where
  "new_stats st d =
     (if LS_LiveRecords st - SD_removeRecords d + SD_addRecords d = 0 then None
      else Some (st\<lparr>LS_LiveBytes := LS_LiveBytes st - SD_removeBytes d + SD_addBytes d,
        LS_LiveRecords := LS_LiveRecords st - SD_removeRecords d + SD_addRecords d,
        LS_LastChangedCommitSeq := SD_lastChanged d\<rparr>))"

lemma apply_deltas_eq:
  assumes "distinct (map fst ds)"
    "\<And>s d. (s, d) \<in> set ds \<Longrightarrow> LS_LiveRecords (stats_of stats s) - SD_removeRecords d + SD_addRecords d = 0 \<Longrightarrow>
      LS_LiveBytes (stats_of stats s) - SD_removeBytes d + SD_addBytes d = 0"
  shows "apply_deltas stats ds =
    (None, \<lambda>s. case map_of ds s of None \<Rightarrow> stats s | Some d \<Rightarrow> new_stats (stats_of stats s) d)"
  using assms
proof (induction ds arbitrary: stats)
  case (Cons x ds)
  obtain s d where x: "x = (s, d)" by (cases x)
  define stats1 where "stats1 = stats(s := new_stats (stats_of stats s) d)"
  have other: "stats_of stats1 t = stats_of stats t" if "t \<noteq> s" for t
    using that by (simp add: stats1_def stats_of_def)
  have fresh: "s \<notin> fst ` set ds" using Cons.prems(1) by (simp add: x)
  have "apply_deltas stats (x # ds) = apply_deltas stats1 ds"
    using Cons.prems(2) [of s d] by (auto simp: x Let_def stats1_def new_stats_def fun_upd_def)
  also have "\<dots> = (None, \<lambda>s. case map_of ds s of None \<Rightarrow> stats1 s | Some d \<Rightarrow> new_stats (stats_of stats1 s) d)"
  proof (rule Cons.IH)
    show "distinct (map fst ds)" using Cons.prems(1) by simp
    fix t d'
    assume td: "(t, d') \<in> set ds"
    then have ts: "t \<noteq> s" using fresh by force
    assume "LS_LiveRecords (stats_of stats1 t) - SD_removeRecords d' + SD_addRecords d' = 0"
    then show "LS_LiveBytes (stats_of stats1 t) - SD_removeBytes d' + SD_addBytes d' = 0"
      unfolding other [OF ts] using Cons.prems(2) [of t d'] td by simp
  qed
  also have "\<dots> = (None, \<lambda>s. case map_of (x # ds) s of None \<Rightarrow> stats s | Some d \<Rightarrow> new_stats (stats_of stats s) d)"
  proof (rule arg_cong [of _ _ "Pair None"], rule ext)
    fix t
    have "map_of ds s = None" using fresh by (simp add: map_of_eq_None_iff)
    then show "(case map_of ds t of None \<Rightarrow> stats1 t | Some d \<Rightarrow> new_stats (stats_of stats1 t) d) =
        (case map_of (x # ds) t of None \<Rightarrow> stats t | Some d \<Rightarrow> new_stats (stats_of stats t) d)"
      using other [of t] by (cases "t = s"; cases "map_of ds t") (simp_all add: x stats1_def)
  qed
  finally show ?case .
qed simp

lemma applyPlanLiveStats_ok:
  assumes ok: "live_ok live es" and pd: "plan_deltas first [] (spec_plan es ps) = Inr ds"
    and nd: "net_deltas live ds = Inr ds'"
  shows "\<exists>live'. apply_deltas live ds' = (None, live') \<and> live_ok live' (spec_group es ps)"
proof -
  define es' where "es' = spec_group es ps"
  have bal: "balanced es es' ds"
    unfolding es'_def using pd by (rule plan_deltas_balanced [rotated]) (simp add: balanced_def delta_of_def zero_delta_def)
  have fsts: "map fst ds' = map fst ds"
    using nd unfolding net_deltas_Inr by (auto simp: list_all2_conv_all_nth intro: nth_equalityI)
  have dist: "distinct (map fst ds)" "distinct (map fst ds')"
    using bal fsts by (simp_all add: balanced_def)
  have net: "map_of ds s = Some (delta_of ds s) \<and> net_delta (stats_of live s) (delta_of ds s) = Inr d'"
    if sd: "(s, d') \<in> set ds'" for s d'
  proof -
    obtain k where k: "k < length ds'" "ds' ! k = (s, d')" using sd by (auto simp: in_set_conv_nth)
    then have "k < length ds" "fst (ds ! k) = s" "net_delta (stats_of live s) (snd (ds ! k)) = Inr d'"
      using nd unfolding net_deltas_Inr by (auto simp: list_all2_conv_all_nth)
    moreover from this have "map_of ds s = Some (snd (ds ! k))"
      using dist(1) nth_mem [of k ds] by (intro map_of_is_SomeI) (auto simp: prod_eq_iff)
    ultimately show ?thesis by (simp add: delta_of_def)
  qed
  have new: "unat (LS_LiveBytes (stats_of live s) - SD_removeBytes d' + SD_addBytes d') = live_bytes es' s"
      "unat (LS_LiveRecords (stats_of live s) - SD_removeRecords d' + SD_addRecords d') = live_records es' s"
    if "(s, d') \<in> set ds'" for s d'
    using net_delta_Inr [OF conjunct2 [OF net [OF that]]] balancedD [OF bal, of s] live_ok_stats [OF ok, of s]
    by linarith+
  define live' where "live' = (\<lambda>s. case map_of ds' s of None \<Rightarrow> live s | Some d \<Rightarrow> new_stats (stats_of live s) d)"
  have ap: "apply_deltas live ds' = (None, live')"
    unfolding live'_def
  proof (rule apply_deltas_eq [OF dist(2)])
    fix s d
    assume sd: "(s, d) \<in> set ds'" and "LS_LiveRecords (stats_of live s) - SD_removeRecords d + SD_addRecords d = 0"
    then have "live_records es' s = 0" using new(2) [OF sd] by simp
    then have "live_bytes es' s = 0" by (rule no_records_no_bytes)
    then show "LS_LiveBytes (stats_of live s) - SD_removeBytes d + SD_addBytes d = 0"
      using new(1) [OF sd] unfolding word_unat_eq_iff [of "LS_LiveBytes (stats_of live s) - SD_removeBytes d + SD_addBytes d"] by simp
  qed
  have "live_ok live' es'"
    unfolding live_ok_def
  proof
    fix s
    show "case live' s of None \<Rightarrow> live_records es' s = 0
      | Some st \<Rightarrow> unat (LS_LiveRecords st) = live_records es' s \<and> unat (LS_LiveBytes st) = live_bytes es' s \<and> live_records es' s \<noteq> 0"
    proof (cases "map_of ds' s")
      case None
      then have "map_of ds s = None" using fsts by (metis map_of_eq_None_iff list.set_map)
      then have "live_records es' s = live_records es s" "live_bytes es' s = live_bytes es s"
        using balancedD [OF bal, of s] by (simp_all add: delta_of_def zero_delta_def)
      then show ?thesis
        using None spec [OF ok [unfolded live_ok_def], of s] by (cases "live s") (simp_all add: live'_def)
    next
      case (Some d)
      then have sd: "(s, d) \<in> set ds'" by (rule map_of_SomeD)
      show ?thesis
        using Some new [OF sd]
        by (auto simp: live'_def new_stats_def
            word_unat_eq_iff [of "LS_LiveRecords (stats_of live s) - SD_removeRecords d + SD_addRecords d"])
    qed
  qed
  then show ?thesis using ap es'_def by blast
qed

section \<open>Publication of a resolved group\<close>

definition mapping_ok :: "Mapping \<Rightarrow> bool" where
  "mapping_ok m \<longleftrightarrow> entries_ok (MP_entries m) \<and> live_ok (MP_live m) (MP_entries m)"

lemma NewEmpty_ok: "mapping_ok NewEmpty"
  by (simp add: mapping_ok_def NewEmpty_def entries_ok_def live_ok_def)

lemma ResolveGroup_Inr:
  "mapping_ResolveGroup m ps = Inr plan \<longleftrightarrow> ps \<noteq> [] \<and> length ps \<le> MaxUint32 \<and>
     (\<forall>p \<in> set ps. validateProposal p = None) \<and>
     plan = \<lparr>GP_BaseCommitSeq = MP_covered m, GP_Proposals = assign_delta_entries {} (spec_plan (MP_entries m) ps)\<rparr>"
  by (auto simp: mapping_ResolveGroup_eq list_all_iff not_less)

lemma applied_via_strip: "applied ps = applied (map strip ps)" "skipped ps = skipped (map strip ps)"
  by (induction ps) (auto simp: applied_def skipped_def)

lemma applyPlanLiveStats_resolved:
  assumes "mapping_ok m" "mapping_ResolveGroup m ps = Inr plan" "applyPlanLiveStats (MP_live m) first plan = (x, live')"
  shows "x \<noteq> None \<Longrightarrow> live' = MP_live m" "x = None \<Longrightarrow> live_ok live' (spec_group (MP_entries m) ps)"
proof -
  have "plan_deltas first [] (GP_Proposals plan) = plan_deltas first [] (spec_plan (MP_entries m) ps)"
    using assms(2) plan_deltas_via_strip [of first "[]" "GP_Proposals plan"] by (auto simp: ResolveGroup_Inr)
  moreover have "live_ok (MP_live m) (MP_entries m)" using assms(1) by (simp add: mapping_ok_def)
  note ok = applyPlanLiveStats_ok [OF this]
  ultimately have "(x \<noteq> None \<longrightarrow> live' = MP_live m) \<and> (x = None \<longrightarrow> live_ok live' (spec_group (MP_entries m) ps))"
    using assms(3) unfolding applyPlanLiveStats_def
    by (cases "plan_deltas first [] (spec_plan (MP_entries m) ps)";
        cases "net_deltas (MP_live m) (projr (plan_deltas first [] (spec_plan (MP_entries m) ps)))")
      (auto dest: ok)
  then show "x \<noteq> None \<Longrightarrow> live' = MP_live m" "x = None \<Longrightarrow> live_ok live' (spec_group (MP_entries m) ps)"
    by auto
qed

lemma commit_range:
  assumes "c \<noteq> max_u64" "first = c + 1" "unat a = n"
  shows "(a = 0 \<or> a - 1 > max_u64 - first) \<longleftrightarrow> (n = 0 \<or> unat c + n > MaxUint64)"
proof (cases "a = 0")
  case False
  then have "1 \<le> a" "n \<noteq> 0"
    using assms(3) by (auto simp: word_le_nat_alt word_unat_eq_iff [of a])
  then have "unat (a - 1) = n - 1" using assms(3) by (simp add: unat_sub)
  moreover have "unat first = Suc (unat c)" using assms(1,2) by (simp add: unat_succ_u64)
  ultimately have "a - 1 \<le> max_u64 - first \<longleftrightarrow> unat c + n \<le> MaxUint64"
    unfolding u64_add_checked_iff using \<open>n \<noteq> 0\<close> by auto
  then show ?thesis
    unfolding not_le [symmetric] using False \<open>n \<noteq> 0\<close> by blast
qed (use assms in auto)

lemma PublishGroup_resolved:
  assumes ok: "mapping_ok m" and res: "mapping_ResolveGroup m ps = Inr plan"
  shows "mapping_PublishGroup first plan ress (m, b) =
    (if first = 0 \<or> length ress \<noteq> length ps \<or> None \<in> set ress \<or> MP_covered m = max_u64 \<or> first \<noteq> MP_covered m + 1 \<or>
        accepted_count plan = 0 \<or> unat (MP_covered m) + accepted_count plan > MaxUint64
     then (Inl mapping_ErrInvalid, m, b)
     else case settle_reservations b (GP_Proposals plan) (map the ress) of
       (Some e, b') \<Rightarrow> (Inl e, m, b')
     | (None, b') \<Rightarrow>
       (case applyPlanLiveStats (MP_live m) first plan of
          (Some e, live') \<Rightarrow> (Inl e, m, b')
        | (None, live') \<Rightarrow>
          (Inr \<lparr>PU_Committed = of_nat (accepted_count plan), PU_Applied = of_nat (length (applied (GP_Proposals plan))),
                PU_Skipped = of_nat (length (skipped (GP_Proposals plan)))\<rparr>,
           \<lparr>MP_covered = first + of_nat (accepted_count plan) - 1, MP_entries = spec_group (MP_entries m) ps,
             MP_live = live'\<rparr>, b')))"
proof -
  let ?es = "MP_entries m"
  have ps: "ps \<noteq> []" "length ps \<le> MaxUint32" "\<forall>p \<in> set ps. validateProposal p = None"
    and plan: "plan = \<lparr>GP_BaseCommitSeq = MP_covered m, GP_Proposals = assign_delta_entries {} (spec_plan ?es ps)\<rparr>"
    using res by (auto simp: ResolveGroup_Inr)
  have len: "length (GP_Proposals plan) = length ps" by (simp add: plan)
  then have ne: "GP_Proposals plan \<noteq> []" using ps(1) by auto
  have valid: "validDeltaEntries plan {}" "validateResolvedPlan plan = None"
    using valid_assigned plan_validates [OF _ ps(3)] ok unfolding plan mapping_ok_def by blast+
  have cnt: "unat (count_accepted (GP_Proposals plan)) = accepted_count plan"
    unfolding accepted_count_def using len ps(2) by (intro count_accepted_unat) simp
  have acc: "count_accepted (GP_Proposals plan) = of_nat (accepted_count plan)"
    by (simp add: cnt [symmetric])
  have acc32: "ucast (count_accepted (GP_Proposals plan)) = (of_nat (accepted_count plan) :: u32)"
    by (simp add: cnt [symmetric] word_unat_eq_iff unat_ucast unat_of_nat)
  have pub: "publish_proposals (?es, r) (GP_Proposals plan) = (spec_group ?es ps,
      r\<lparr>PU_Applied := PU_Applied r + of_nat (length (applied (GP_Proposals plan))),
        PU_Skipped := PU_Skipped r + of_nat (length (skipped (GP_Proposals plan)))\<rparr>)" for r
    unfolding publish_via_strip [of _ "GP_Proposals plan"] applied_via_strip [of "GP_Proposals plan"]
    by (simp add: plan publish_spec)
  have stats: "live' = MP_live m" if "applyPlanLiveStats (MP_live m) first plan = (Some e, live')" for e live'
    using applyPlanLiveStats_resolved(1) [OF ok res that] by simp
  have range: "(count_accepted (GP_Proposals plan) = 0 \<or> count_accepted (GP_Proposals plan) - 1 > max_u64 - first) \<longleftrightarrow>
      (accepted_count plan = 0 \<or> unat (MP_covered m) + accepted_count plan > MaxUint64)"
    if "MP_covered m \<noteq> max_u64" "first = MP_covered m + 1"
    using that by (intro commit_range) (simp_all add: cnt)
  show ?thesis
  proof (cases "first = 0 \<or> length ress \<noteq> length ps \<or> None \<in> set ress \<or> MP_covered m = max_u64 \<or> first \<noteq> MP_covered m + 1")
    case True
    then show ?thesis
      using ne len valid by (auto simp: mapping_PublishGroup_def validateReservations_def plan)
  next
    case False
    then have "validateReservations plan ress = None" by (simp add: validateReservations_def len)
    moreover have "GP_BaseCommitSeq plan = MP_covered m" by (simp add: plan)
    ultimately show ?thesis
      using False ne valid range stats
      by (auto simp: mapping_PublishGroup_def Let_def pub acc32 acc [symmetric] split: option.splits prod.splits)
  qed
qed

lemma PublishGroup_Inr:
  assumes "mapping_ok m" "mapping_ResolveGroup m ps = Inr plan" "mapping_PublishGroup first plan ress (m, b) = (Inr r, m', b')"
  shows "MP_entries m' = spec_group (MP_entries m) ps" "mapping_ok m'"
    "unat (MP_covered m') = unat (MP_covered m) + accepted_count plan" "first = MP_covered m + 1" "accepted_count plan \<noteq> 0"
    "r = \<lparr>PU_Committed = of_nat (accepted_count plan), PU_Applied = of_nat (length (applied (GP_Proposals plan))),
      PU_Skipped = of_nat (length (skipped (GP_Proposals plan)))\<rparr>"
proof -
  obtain live' where c: "MP_covered m \<noteq> max_u64" "first = MP_covered m + 1" "accepted_count plan \<noteq> 0"
      "unat (MP_covered m) + accepted_count plan \<le> MaxUint64"
    and st: "applyPlanLiveStats (MP_live m) first plan = (None, live')"
    and m': "m' = \<lparr>MP_covered = first + of_nat (accepted_count plan) - 1, MP_entries = spec_group (MP_entries m) ps, MP_live = live'\<rparr>"
    and r: "r = \<lparr>PU_Committed = of_nat (accepted_count plan), PU_Applied = of_nat (length (applied (GP_Proposals plan))),
      PU_Skipped = of_nat (length (skipped (GP_Proposals plan)))\<rparr>"
    using assms(3) unfolding PublishGroup_resolved [OF assms(1,2)]
    by (auto split: if_splits option.splits prod.splits)
  show "MP_entries m' = spec_group (MP_entries m) ps" by (simp add: m')
  show "first = MP_covered m + 1" "accepted_count plan \<noteq> 0" by (rule c)+
  show "r = \<lparr>PU_Committed = of_nat (accepted_count plan), PU_Applied = of_nat (length (applied (GP_Proposals plan))),
      PU_Skipped = of_nat (length (skipped (GP_Proposals plan)))\<rparr>" by (rule r)
  have "entries_ok (spec_group (MP_entries m) ps)"
    using assms(1,2) by (auto simp: mapping_ok_def ResolveGroup_Inr intro: spec_group_ok)
  then show "mapping_ok m'"
    using applyPlanLiveStats_resolved(2) [OF assms(1,2) st] by (simp add: m' mapping_ok_def)
  have "MP_covered m' = MP_covered m + of_nat (accepted_count plan)"
    by (simp add: m' c(2))
  moreover have "unat (of_nat (accepted_count plan) :: u64) = accepted_count plan"
    using c(4) by (simp add: unat_of_nat)
  ultimately show "unat (MP_covered m') = unat (MP_covered m) + accepted_count plan"
    using c(4) by (simp add: unat_add_no_wrap)
qed

lemma PublishGroup_Inl:
  assumes "mapping_ok m" "mapping_ResolveGroup m ps = Inr plan" "mapping_PublishGroup first plan ress (m, b) = (Inl e, m', b')"
  shows "m' = m"
  using assms(3) unfolding PublishGroup_resolved [OF assms(1,2)] by (auto split: if_splits option.splits prod.splits)

section \<open>Publication succeeds\<close>

definition deltas_below :: "nat \<Rightarrow> live_deltas \<Rightarrow> bool" where
  "deltas_below n ds \<longleftrightarrow> (\<forall>s.
     unat (SD_removeBytes (delta_of ds s)) \<le> n * MaxUint32 \<and> unat (SD_addBytes (delta_of ds s)) \<le> n * MaxUint32 \<and>
     unat (SD_removeRecords (delta_of ds s)) \<le> n \<and> unat (SD_addRecords (delta_of ds s)) \<le> n)"

lemma weight_le: "weight ref_bytes s x \<le> MaxUint32" "weight ref_count s x \<le> 1"
  using unat_u32_bound by (auto simp: weight_def ref_count_def split: option.splits)

lemma small_fits:
  assumes "unat (x :: u64) \<le> n * MaxUint32" "n < MaxUint32"
  shows "\<not> x > max_u64 - ucast (w :: u32)"
proof -
  have "n * MaxUint32 + MaxUint32 \<le> MaxUint32 * MaxUint32"
    using assms(2) mult_le_mono1 [of "Suc n" MaxUint32 MaxUint32] by simp
  then have "unat x + unat (ucast w :: u64) \<le> MaxUint64"
    using assms(1) unat_u32_bound [of w] by simp
  then show ?thesis
    unfolding not_less u64_add_checked_iff .
qed

lemma delta_remove_succeeds:
  assumes "deltas_below n ds" "n < MaxUint32" "RecordRef_Valid ref"
  shows "\<exists>ds'. delta_remove seq ref ds = Inr ds'"
proof -
  define d where "d = delta_of ds (VAddr_SegmentID (Ref_Addr ref))"
  have "unat (SD_removeBytes d) \<le> n * MaxUint32" "unat (SD_removeRecords d) \<le> n"
    using assms(1) by (auto simp: deltas_below_def d_def)
  then have "\<not> SD_removeBytes d > max_u64 - ucast (Ref_PhysicalSize ref)" "SD_removeRecords d \<noteq> max_u64"
    using small_fits assms(2) by (blast, auto simp: u64_eq_max_iff)
  then show ?thesis
    using assms(3) by (simp add: delta_remove_def Let_def d_def)
qed

lemma delta_add_succeeds:
  assumes "\<And>s. unat (SD_addBytes (delta_of ds s)) \<le> n * MaxUint32 \<and> unat (SD_addRecords (delta_of ds s)) \<le> n"
    "n < MaxUint32" "RecordRef_Valid ref"
  shows "\<exists>ds'. delta_add seq ref ds = Inr ds'"
proof -
  define d where "d = delta_of ds (VAddr_SegmentID (Ref_Addr ref))"
  have "unat (SD_addBytes d) \<le> n * MaxUint32" "unat (SD_addRecords d) \<le> n"
    using assms(1) by (auto simp: d_def)
  then have "\<not> SD_addBytes d > max_u64 - ucast (Ref_PhysicalSize ref)" "SD_addRecords d \<noteq> max_u64"
    using small_fits assms(2) by (blast, auto simp: u64_eq_max_iff)
  then show ?thesis
    using assms(3) by (simp add: delta_add_def Let_def d_def)
qed

lemma delta_change_succeeds:
  assumes "deltas_below n ds" "n < MaxUint32" "RC_OldExists r \<Longrightarrow> RecordRef_Valid (RC_OldRef r)"
    "CH_Operation (RC_Change r) \<noteq> mapping_OperationDelete \<Longrightarrow> RecordRef_Valid (CH_NewRef (RC_Change r))"
  shows "\<exists>ds'. delta_change seq ds r = Inr ds' \<and> deltas_below (Suc n) ds'"
proof (cases "RC_Apply r")
  case True
  obtain ds1 where d1: "(if RC_OldExists r then delta_remove seq (RC_OldRef r) ds else Inr ds) = Inr ds1"
    using delta_remove_succeeds [OF assms(1,2)] assms(3) by fastforce
  have below: "unat (SD_removeBytes (delta_of ds s)) \<le> n * MaxUint32 \<and> unat (SD_addBytes (delta_of ds s)) \<le> n * MaxUint32 \<and>
     unat (SD_removeRecords (delta_of ds s)) \<le> n \<and> unat (SD_addRecords (delta_of ds s)) \<le> n" for s
    using assms(1) by (simp add: deltas_below_def)
  have up: "unat (SD_addBytes (delta_of ds s)) \<le> Suc n * MaxUint32 \<and> unat (SD_addRecords (delta_of ds s)) \<le> Suc n" for s
    using below [of s] by auto
  have b1: "unat (SD_removeBytes (delta_of ds1 s)) \<le> Suc n * MaxUint32 \<and> SD_addBytes (delta_of ds1 s) = SD_addBytes (delta_of ds s) \<and>
     unat (SD_removeRecords (delta_of ds1 s)) \<le> Suc n \<and> SD_addRecords (delta_of ds1 s) = SD_addRecords (delta_of ds s)" for s
    using d1 below [of s] delta_remove_Inr(2-5) [of seq "RC_OldRef r" ds ds1 s] weight_le [of s "Some (RC_OldRef r)"]
    by (auto split: if_splits)
  show ?thesis
  proof (cases "CH_Operation (RC_Change r) = mapping_OperationDelete")
    case True
    then show ?thesis
      using \<open>RC_Apply r\<close> d1 b1 up by (simp add: delta_change_def deltas_below_def)
  next
    case False
    let ?ref = "CH_NewRef (RC_Change r)"
    have "unat (SD_addBytes (delta_of ds1 s)) \<le> n * MaxUint32 \<and> unat (SD_addRecords (delta_of ds1 s)) \<le> n" for s
      using b1 [of s] below [of s] by simp
    then have "\<exists>ds'. delta_add seq ?ref ds1 = Inr ds'"
      using assms(2,4) False by (intro delta_add_succeeds)
    then obtain ds' where d2: "delta_add seq ?ref ds1 = Inr ds'" by blast
    have "deltas_below (Suc n) ds'"
      unfolding deltas_below_def
    proof
      fix s
      show "unat (SD_removeBytes (delta_of ds' s)) \<le> Suc n * MaxUint32 \<and> unat (SD_addBytes (delta_of ds' s)) \<le> Suc n * MaxUint32 \<and>
        unat (SD_removeRecords (delta_of ds' s)) \<le> Suc n \<and> unat (SD_addRecords (delta_of ds' s)) \<le> Suc n"
        using delta_add_Inr(2-5) [OF d2, of s] b1 [of s] below [of s] weight_le [of s "Some ?ref"] by auto
    qed
    then show ?thesis
      using False d1 d2 \<open>RC_Apply r\<close> by (simp add: delta_change_def)
  qed
next
  case False
  have "deltas_below (Suc n) ds"
    using assms(1) by (auto simp: deltas_below_def) (metis le_SucI trans_le_add2)+
  then show ?thesis using False by (simp add: delta_change_def)
qed

lemma delta_changes_succeed:
  assumes "deltas_below n ds" "n + length cs \<le> MaxUint32" "entries_ok es"
    "kind = ProposalUserCommit \<or> kind = ProposalRelocation" "\<forall>c \<in> set cs. validate_change kind c \<and> CH_RecordID c \<noteq> 0"
  shows "\<exists>ds'. res_fold (delta_change seq) ds (spec_resolved kind es cs) = Inr ds' \<and> deltas_below (n + length cs) ds'"
  using assms
proof (induction cs arbitrary: n ds es)
  case (Cons c cs)
  let ?r = "spec_resolved_change kind es c"
  have old: "RecordRef_Valid (RC_OldRef ?r)" if "RC_OldExists ?r"
    using that Cons.prems(3) by (cases "es (CH_RecordID c)") (auto simp: spec_resolved_change_def entries_ok_def)
  have new: "RecordRef_Valid (CH_NewRef (RC_Change ?r))" if "CH_Operation (RC_Change ?r) \<noteq> mapping_OperationDelete"
    using that Cons.prems(4,5) by (auto simp: spec_resolved_change_def validate_change_def split: if_splits)
  have "n < MaxUint32" using Cons.prems(2) by simp
  then obtain ds1 where ds1: "delta_change seq ds ?r = Inr ds1" "deltas_below (Suc n) ds1"
    using delta_change_succeeds [OF Cons.prems(1)] old new by blast
  have "entries_ok (spec_change kind es c)"
    using Cons.prems spec_change_ok by simp
  then show ?case
    using Cons.IH [OF ds1(2)] Cons.prems ds1(1) by simp
qed simp

lemma plan_deltas_succeed:
  assumes "deltas_below n ds" "n + change_count ps \<le> MaxUint32" "entries_ok es" "\<forall>p \<in> set ps. validateProposal p = None"
  shows "\<exists>ds'. plan_deltas seq ds (spec_plan es ps) = Inr ds'"
  using assms
proof (induction ps arbitrary: n ds es seq)
  case (Cons p ps)
  have ok: "entries_ok (spec_proposal es p)" using Cons.prems spec_proposal_ok by simp
  show ?case
  proof (cases "spec_accepts es p")
    case True
    obtain ds1 where "res_fold (delta_change seq) ds (spec_resolved (PR_Kind p) es (PR_Changes p)) = Inr ds1"
        "deltas_below (n + length (PR_Changes p)) ds1"
      using delta_changes_succeed [OF Cons.prems(1) _ Cons.prems(3) validateProposal_changes, of p seq] Cons.prems(2,4)
      by (auto simp: change_count_def)
    then show ?thesis
      using True Cons.IH [of "n + length (PR_Changes p)" ds1] ok Cons.prems(2,4) by (simp add: change_count_def add.assoc)
  next
    case False
    then show ?thesis
      using Cons.IH [OF Cons.prems(1) _ ok] Cons.prems(2,4) by (simp add: change_count_def)
  qed
qed simp

lemma live_records_le: "es 0 = None \<Longrightarrow> live_records es s \<le> MaxUint64"
proof -
  assume "es 0 = None"
  then have "live_records es s = (\<Sum>i\<in>UNIV - {0}. weight ref_count s (es i))"
    unfolding live_sum_def by (subst sum.remove [of _ 0]) (simp_all add: weight_def)
  also have "\<dots> \<le> (\<Sum>i\<in>UNIV - {0 :: record_id}. 1)"
    by (rule sum_mono) (rule weight_le)
  also have "\<dots> = card (UNIV :: record_id set) - 1"
    by (simp add: card_Diff_singleton)
  also have "\<dots> = MaxUint64" by (simp add: card_word)
  finally show ?thesis .
qed

lemma settle_unlimited: "settle_reservations b qs (replicate n unlimitedReservation) = (None, b)"
proof (induction qs arbitrary: n)
  case (Cons q qs)
  then show ?case by (cases n) (simp_all add: consumeReservation_def)
qed simp

lemma PublishGroup_succeeds:
  assumes ok: "mapping_ok m" and res: "mapping_ResolveGroup m ps = Inr plan"
    and acc: "accepted_count plan \<noteq> 0" "unat (MP_covered m) + accepted_count plan \<le> MaxUint64"
    and room: "change_count ps \<le> MaxUint32" "\<forall>s. live_bytes (spec_group (MP_entries m) ps) s \<le> MaxUint64"
    and ress: "length ress = length ps" "None \<notin> set ress" "settle_reservations b (GP_Proposals plan) (map the ress) = (None, b')"
  shows "\<exists>r m'. mapping_PublishGroup (MP_covered m + 1) plan ress (m, b) = (Inr r, m', b')"
proof -
  let ?es = "MP_entries m" and ?first = "MP_covered m + 1"
  have ps: "\<forall>p \<in> set ps. validateProposal p = None"
    and plan: "plan = \<lparr>GP_BaseCommitSeq = MP_covered m, GP_Proposals = assign_delta_entries {} (spec_plan ?es ps)\<rparr>"
    using res by (auto simp: ResolveGroup_Inr)
  have es: "entries_ok ?es" "live_ok (MP_live m) ?es" using ok by (auto simp: mapping_ok_def)
  have "deltas_below 0 []" by (simp add: deltas_below_def delta_of_def zero_delta_def)
  then obtain ds where ds: "plan_deltas ?first [] (spec_plan ?es ps) = Inr ds"
    using plan_deltas_succeed [of 0 "[]" ps ?es ?first] room(1) es(1) ps by auto
  then have ds': "plan_deltas ?first [] (GP_Proposals plan) = Inr ds"
    using plan_deltas_via_strip [of ?first "[]" "GP_Proposals plan"] by (simp add: plan)
  have bal: "balanced ?es (spec_group ?es ps) ds"
    using ds by (rule plan_deltas_balanced [rotated]) (simp add: balanced_def delta_of_def zero_delta_def)
  have "\<exists>d'. net_delta (stats_of (MP_live m) s) d = Inr d'" if "(s, d) \<in> set ds" for s d
  proof (rule net_delta_succeeds)
    have "delta_of ds s = d" using that bal by (simp add: balanced_def delta_of_def)
    then show "unat (SD_removeBytes d) + live_bytes (spec_group ?es ps) s = unat (LS_LiveBytes (stats_of (MP_live m) s)) + unat (SD_addBytes d)"
        "unat (SD_removeRecords d) + live_records (spec_group ?es ps) s = unat (LS_LiveRecords (stats_of (MP_live m) s)) + unat (SD_addRecords d)"
      using balancedD [OF bal, of s] live_ok_stats [OF es(2), of s] by auto
    show "live_bytes (spec_group ?es ps) s \<le> MaxUint64" using room(2) by blast
    show "live_records (spec_group ?es ps) s \<le> MaxUint64"
      using spec_group_ok [OF es(1) ps] by (intro live_records_le) (simp add: entries_ok_def)
  qed
  then obtain ds2 where ds2: "net_deltas (MP_live m) ds = Inr ds2"
    using net_deltas_succeeds by blast
  obtain live' where "apply_deltas (MP_live m) ds2 = (None, live')"
    using applyPlanLiveStats_ok [OF es(2) ds ds2] by blast
  then have "applyPlanLiveStats (MP_live m) ?first plan = (None, live')"
    by (simp add: applyPlanLiveStats_def ds' ds2)
  moreover have "MP_covered m \<noteq> max_u64" using acc by (auto simp: u64_eq_max_iff)
  moreover from this have "?first \<noteq> 0" by (metis unat_succ_u64 nat.distinct(1) unat_0)
  ultimately show ?thesis
    using acc ress by (simp add: PublishGroup_resolved [OF ok res])
qed

section \<open>The in-memory mapping implements the index\<close>

text \<open>
  The client state is the mapping together with the budget its callers' reservations belong to;
  the reservations the in-memory mapping hands out are unlimited.
\<close>

definition index_ReserveDelta ::
  "Mapping \<times> deltaBudget \<Rightarrow> record_id list \<Rightarrow> (DeltaReservation res \<times> u64) \<times> Mapping \<times> deltaBudget" where
  "index_ReserveDelta = (\<lambda>(m, b) ids. (mapping_ReserveDelta m ids, m, b))"

definition index_Release :: "Mapping \<times> deltaBudget \<Rightarrow> DeltaReservation \<Rightarrow> Mapping \<times> deltaBudget" where
  "index_Release = (\<lambda>(m, b) r. (m, Release b r))"

definition index_ResolveGroup :: "Mapping \<times> deltaBudget \<Rightarrow> Proposal list \<Rightarrow> GroupPlan res" where
  "index_ResolveGroup = (\<lambda>(m, b) ps. mapping_ResolveGroup m ps)"

definition index_entries :: "Mapping \<times> deltaBudget \<Rightarrow> entries" where
  "index_entries = (\<lambda>(m, b). MP_entries m)"

definition index_covered :: "Mapping \<times> deltaBudget \<Rightarrow> CommitSeq" where
  "index_covered = (\<lambda>(m, b). CoveredCommitSeq m)"

definition index_ok :: "Mapping \<times> deltaBudget \<Rightarrow> bool" where
  "index_ok = (\<lambda>(m, b). mapping_ok m)"

lemmas index_defs = index_ReserveDelta_def index_Release_def index_ResolveGroup_def index_entries_def
  index_covered_def index_ok_def mapping_ReserveDelta_def CoveredCommitSeq_def

interpretation memory: unlimited_index index_ReserveDelta index_Release index_ResolveGroup mapping_PublishGroup
  index_entries index_covered index_ok
proof (unfold_locales, goal_cases)
  case (1 m)
  then show ?case by (auto simp: index_defs mapping_ok_def)
next
  case (2 m ids x m')
  then show ?case by (auto simp: index_defs)
next
  case (3 m r)
  then show ?case by (auto simp: index_defs)
next
  case (4 m ps plan)
  then show ?case by (auto simp: index_defs ResolveGroup_Inr)
next
  case (5 mb ps plan first ress r mb')
  then show ?case
    by (cases mb; cases mb') (auto simp: index_defs dest: PublishGroup_Inr)
next
  case (6 mb ps plan first ress e mb')
  then show ?case
    by (cases mb; cases mb') (auto simp: index_defs dest: PublishGroup_Inl)
next
  case (7 m ids)
  then show ?case by (auto simp: index_defs split: prod.splits)
next
  case (8 m ps)
  then show ?case by (auto simp: index_defs mapping_ResolveGroup_eq list_all_iff)
next
  case (9 mb ps plan)
  obtain m b where mb: "mb = (m, b)" by (cases mb)
  have "map the (replicate (length ps) (Some unlimitedReservation)) = replicate (length ps) unlimitedReservation"
    by simp
  then show ?case
    using PublishGroup_succeeds [of m ps plan "replicate (length ps) (Some unlimitedReservation)" b b]
      settle_unlimited [of b "GP_Proposals plan" "length ps"] 9
    by (auto simp: mb index_defs)
qed

section \<open>Creation from a snapshot\<close>

lemma addLiveRef_ok:
  assumes "addLiveRef live ref seq = Inr live'" "live_ok live es" "es i = None"
  shows "live_ok live' (es(i \<mapsto> ref))"
proof -
  let ?seg = "VAddr_SegmentID (Ref_Addr ref)"
  define cur where "cur = stats_of live ?seg"
  have chk: "\<not> LS_LiveBytes cur > max_u64 - ucast (Ref_PhysicalSize ref)" "LS_LiveRecords cur \<noteq> max_u64"
    and live': "live' = live(?seg \<mapsto> \<lparr>LS_LiveBytes = LS_LiveBytes cur + ucast (Ref_PhysicalSize ref),
        LS_LiveRecords = LS_LiveRecords cur + 1, LS_LastChangedCommitSeq = seq\<rparr>)"
    using assms(1) by (auto simp: addLiveRef_def Let_def cur_def split: if_splits)
  have b: "unat (LS_LiveBytes cur + ucast (Ref_PhysicalSize ref)) = unat (LS_LiveBytes cur) + ref_bytes ref"
    using chk(1) u64_add_checked_iff [of "LS_LiveBytes cur" "ucast (Ref_PhysicalSize ref)"]
    by (simp add: not_less unat_add_no_wrap)
  have sum: "live_sum w (es(i \<mapsto> ref)) s = live_sum w es s + weight w s (Some ref)" for w s
    using live_sum_upd [of w es i "Some ref" s] assms(3) by (simp add: weight_def)
  show ?thesis
    unfolding live_ok_def
  proof
    fix s
    show "case live' s of None \<Rightarrow> live_records (es(i \<mapsto> ref)) s = 0
      | Some st \<Rightarrow> unat (LS_LiveRecords st) = live_records (es(i \<mapsto> ref)) s \<and>
          unat (LS_LiveBytes st) = live_bytes (es(i \<mapsto> ref)) s \<and> live_records (es(i \<mapsto> ref)) s \<noteq> 0"
    proof (cases "s = ?seg")
      case True
      then show ?thesis
        using live_ok_stats [OF assms(2), of s]
        by (simp add: live' sum weight_def ref_count_def b unat_succ_u64 [OF chk(2)] cur_def [symmetric])
    next
      case False
      then show ?thesis
        using spec [OF assms(2) [unfolded live_ok_def], of s]
        by (cases "live s") (simp_all add: live' sum weight_def)
    qed
  qed
qed

lemma mapping_New_Inr:
  assumes "mapping_New order snapshot = Inr m" "distinct order" "set order = dom (SN_Entries snapshot)"
  shows "MP_entries m = SN_Entries snapshot \<and> MP_covered m = SN_CoveredCommitSeq snapshot \<and> mapping_ok m"
proof -
  let ?step = "\<lambda>(es, live) i. case SN_Entries snapshot i of None \<Rightarrow> Inr (es, live)
    | Some ref \<Rightarrow> if i = 0 \<or> \<not> RecordRef_Valid ref then Inl mapping_ErrInvalid
        else res_bind (addLiveRef live ref (SN_CoveredCommitSeq snapshot)) (\<lambda>live'. Inr (es(i \<mapsto> ref), live'))"
  have fold: "es' = es ++ SN_Entries snapshot |` set xs \<and> entries_ok es' \<and> live_ok live' es'"
    if "res_fold ?step (es, live) xs = Inr (es', live')" "distinct xs" "set xs \<inter> dom es = {}" "entries_ok es" "live_ok live es"
    for xs es live es' live'
    using that
  proof (induction xs arbitrary: es live)
    case (Cons i xs)
    show ?case
    proof (cases "SN_Entries snapshot i")
      case None
      then have "SN_Entries snapshot |` insert i (set xs) = SN_Entries snapshot |` set xs"
        by (auto simp: restrict_map_def fun_eq_iff)
      then show ?thesis using None Cons.IH [of es live] Cons.prems by auto
    next
      case (Some ref)
      then obtain live1 where l1: "addLiveRef live ref (SN_CoveredCommitSeq snapshot) = Inr live1" "i \<noteq> 0" "RecordRef_Valid ref"
          "res_fold ?step (es(i \<mapsto> ref), live1) xs = Inr (es', live')"
        using Cons.prems(1) by (auto split: if_splits)
      have i: "es i = None" using Cons.prems(3) by auto
      have "es' = es(i \<mapsto> ref) ++ SN_Entries snapshot |` set xs \<and> entries_ok es' \<and> live_ok live' es'"
      proof (rule Cons.IH [OF l1(4)])
        show "distinct xs" "set xs \<inter> dom (es(i \<mapsto> ref)) = {}" using Cons.prems(2,3) by auto
        show "entries_ok (es(i \<mapsto> ref))" using Cons.prems(4) l1(2,3) by (auto simp: entries_ok_def)
        show "live_ok live1 (es(i \<mapsto> ref))" using l1(1) Cons.prems(5) i by (rule addLiveRef_ok)
      qed
      moreover have "es(i \<mapsto> ref) ++ SN_Entries snapshot |` set xs = es ++ SN_Entries snapshot |` insert i (set xs)"
        using Some Cons.prems(2) by (auto simp: fun_eq_iff map_add_def restrict_map_def split: option.splits)
      ultimately show ?thesis by force
    qed
  qed simp
  obtain es live where st: "res_fold ?step (Map.empty, Map.empty) order = Inr (es, live)"
    and m: "m = \<lparr>MP_covered = SN_CoveredCommitSeq snapshot, MP_entries = es, MP_live = live\<rparr>"
    using assms(1) by (auto simp: mapping_New_def)
  have "es = SN_Entries snapshot |` set order \<and> entries_ok es \<and> live_ok live es"
  proof -
    have "entries_ok Map.empty" "live_ok Map.empty Map.empty" by (simp_all add: entries_ok_def live_ok_def)
    then show ?thesis using fold [OF st assms(2)] by auto
  qed
  then show ?thesis
    using assms(3) by (auto simp: m mapping_ok_def restrict_map_def fun_eq_iff domIff)
qed

section \<open>Properties\<close>

definition example_ref :: RecordRef where
  "example_ref = \<lparr>Ref_Addr = 4294967360, Ref_PhysicalSize = 64\<rparr>"

definition example_put :: Proposal where
  \<comment> \<open>create record 1, provided it is absent\<close>
  "example_put = \<lparr>PR_Kind = ProposalUserCommit, PR_Conditions = [\<lparr>CO_RecordID = 1, CO_ExpectedAddr = 0\<rparr>],
     PR_Changes = [\<lparr>CH_RecordID = 1, CH_NewRef = example_ref, CH_ExpectedOldAddr = 0, CH_Operation = mapping_OperationPut\<rparr>]\<rparr>"

definition example_budget :: deltaBudget where
  "example_budget = \<lparr>DB_soft = 64, DB_hard = 128, DB_charged = 0, DB_reserved = 0, DB_reservations = []\<rparr>"

lemma example_ref_valid: "RecordRef_Valid example_ref"
  by code_simp

lemma example_put_valid: "validateProposal example_put = None"
  using example_ref_valid by (simp add: validateProposal_None example_put_def validate_change_def)

text \<open>The same proposal twice: the first is accepted, the second finds its condition violated.\<close>

lemma example_group:
  "spec_group Map.empty [example_put, example_put] = [1 \<mapsto> example_ref]"
  "map RP_Accepted (spec_plan Map.empty [example_put, example_put]) = [True, False]"
  by (simp_all add: example_put_def spec_proposal_def spec_accepts_def condition_holds_def spec_change_def change_applies_def)

lemma example_live_bytes: "live_bytes [1 \<mapsto> example_ref] s \<le> MaxUint64"
  using live_sum_upd [of ref_bytes Map.empty 1 "Some example_ref" s] weight_le(1) [of s "Some example_ref"]
  by (simp add: weight_def)

lemma accepted_count_resolved:
  "mapping_ResolveGroup m ps = Inr plan \<Longrightarrow> accepted_count plan = length (filter id (map RP_Accepted (spec_plan (MP_entries m) ps)))"
  by (auto simp: ResolveGroup_Inr accepted_count_def filter_accepted_assign filter_map o_def)

lemma example_resolve:
  obtains plan where "mapping_ResolveGroup NewEmpty [example_put, example_put] = Inr plan" "accepted_count plan = 1"
    "MP_covered NewEmpty = 0" "MP_entries NewEmpty = Map.empty"
proof -
  obtain plan where plan: "mapping_ResolveGroup NewEmpty [example_put, example_put] = Inr plan"
    by (simp add: mapping_ResolveGroup_eq example_put_valid)
  then show thesis
    using that accepted_count_resolved [OF plan] example_group(2) by (simp add: NewEmpty_def)
qed

lemma example_publish:
  obtains plan r m' where "mapping_ResolveGroup NewEmpty [example_put, example_put] = Inr plan"
    "mapping_PublishGroup 1 plan (replicate 2 (Some unlimitedReservation)) (NewEmpty, example_budget) = (Inr r, m', example_budget)"
proof -
  obtain plan where plan: "mapping_ResolveGroup NewEmpty [example_put, example_put] = Inr plan" "accepted_count plan = 1"
      "MP_covered NewEmpty = 0" "MP_entries NewEmpty = Map.empty"
    by (rule example_resolve)
  have "\<exists>r m'. mapping_PublishGroup (MP_covered NewEmpty + 1) plan (replicate 2 (Some unlimitedReservation))
      (NewEmpty, example_budget) = (Inr r, m', example_budget)"
    using plan example_live_bytes settle_unlimited [of example_budget "GP_Proposals plan" 2]
    by (intro PublishGroup_succeeds [OF NewEmpty_ok plan(1)])
      (simp_all only: example_group plan, simp_all add: change_count_def example_put_def numeral_2_eq_2)
  then show thesis using that plan by auto
qed

text \<open>
  C12: Publishing a plan that the mapping resolved is the sequential execution of the proposals:
  the new entries are those of the specification, the covered commit sequence grows by exactly the
  number of accepted proposals, the result counts the applied and the skipped changes, and the
  live statistics still describe the entries. The reservations may be of any kind.
\<close>

theorem mapping_publish_refines:
  assumes "mapping_ok m" "mapping_ResolveGroup m ps = Inr plan"
    "mapping_PublishGroup first plan ress (m, b) = (Inr r, m', b')"
  shows "MP_entries m' = spec_group (MP_entries m) ps \<and>
    unat (CoveredCommitSeq m') = unat (CoveredCommitSeq m) + accepted_count plan \<and>
    r = \<lparr>PU_Committed = of_nat (accepted_count plan), PU_Applied = of_nat (length (applied (GP_Proposals plan))),
      PU_Skipped = of_nat (length (skipped (GP_Proposals plan)))\<rparr> \<and> mapping_ok m'"
  using PublishGroup_Inr [OF assms] by (simp add: CoveredCommitSeq_def)

theorem mapping_publish_refines_witness:
  "\<exists>m'. MP_entries m' = [1 \<mapsto> example_ref] \<and> unat (CoveredCommitSeq m') = 1 \<and> mapping_ok m'"
proof -
  obtain plan r m' where p: "mapping_ResolveGroup NewEmpty [example_put, example_put] = Inr plan"
    "mapping_PublishGroup 1 plan (replicate 2 (Some unlimitedReservation)) (NewEmpty, example_budget) = (Inr r, m', example_budget)"
    by (rule example_publish)
  have "accepted_count plan = 1"
    using accepted_count_resolved [OF p(1)] example_group(2) by (simp add: NewEmpty_def)
  then show ?thesis
    using mapping_publish_refines [OF NewEmpty_ok p] example_group(1) by (auto simp: NewEmpty_def CoveredCommitSeq_def)
qed

text \<open>
  C13: Committing a group to the in-memory mapping succeeds: for validated proposals of which the
  specification accepts at least one, with room in the commit sequence and in the counters, the
  group resolves, the plan is published under the next commit sequence and the entries are those
  of the specification.
\<close>

theorem mapping_group_commits:
  assumes "mapping_ok m" "ps \<noteq> []" "length ps \<le> MaxUint32" "\<forall>p \<in> set ps. validateProposal p = None"
    "True \<in> set (map RP_Accepted (spec_plan (MP_entries m) ps))"
    "unat (MP_covered m) + length ps \<le> MaxUint64" "change_count ps \<le> MaxUint32"
    "\<forall>s. live_bytes (spec_group (MP_entries m) ps) s \<le> MaxUint64"
  shows "\<exists>plan r m'. mapping_ResolveGroup m ps = Inr plan \<and>
    mapping_PublishGroup (MP_covered m + 1) plan (replicate (length ps) (Some unlimitedReservation)) (m, b) = (Inr r, m', b) \<and>
    MP_entries m' = spec_group (MP_entries m) ps \<and> mapping_ok m'"
proof -
  obtain plan where plan: "mapping_ResolveGroup m ps = Inr plan"
    using assms(2-4) by (auto simp: mapping_ResolveGroup_eq list_all_iff)
  have "accepted_count plan \<noteq> 0" "accepted_count plan \<le> length ps"
    using accepted_count_resolved [OF plan] assms(5) length_filter_le [of id "map RP_Accepted (spec_plan (MP_entries m) ps)"]
    by (auto simp: filter_empty_conv)
  then obtain r m' where "mapping_PublishGroup (MP_covered m + 1) plan (replicate (length ps) (Some unlimitedReservation)) (m, b) = (Inr r, m', b)"
    using PublishGroup_succeeds [OF assms(1) plan, of "replicate (length ps) (Some unlimitedReservation)" b b]
      settle_unlimited [of b "GP_Proposals plan" "length ps"] assms(6-8) by auto
  then show ?thesis
    using plan PublishGroup_Inr [OF assms(1) plan] by blast
qed

theorem mapping_group_commits_witness:
  "\<exists>plan r m'. mapping_ResolveGroup NewEmpty [example_put, example_put] = Inr plan \<and>
    mapping_PublishGroup 1 plan (replicate 2 (Some unlimitedReservation)) (NewEmpty, example_budget) = (Inr r, m', example_budget) \<and>
    MP_entries m' = [1 \<mapsto> example_ref] \<and> mapping_ok m'"
proof -
  have e: "MP_entries NewEmpty = Map.empty" "MP_covered NewEmpty = 0" by (simp_all add: NewEmpty_def)
  show ?thesis
    using mapping_group_commits [OF NewEmpty_ok, of "[example_put, example_put]" example_budget]
      example_group example_put_valid example_live_bytes
    by (simp add: e change_count_def) (simp add: example_put_def numeral_2_eq_2)
qed

text \<open>
  C14: An error of the publication is invisible: whatever the plan, the entries and the covered
  commit sequence are unchanged. If the plan was resolved by this mapping nothing of the mapping
  has changed, the statistics included.
\<close>

theorem mapping_publish_error_invisible:
  assumes "mapping_PublishGroup first plan ress (m, b) = (Inl e, m', b')"
  shows "MP_entries m' = MP_entries m \<and> MP_covered m' = MP_covered m \<and>
    (mapping_ok m \<and> mapping_ResolveGroup m ps = Inr plan \<longrightarrow> m' = m)"
proof -
  have "MP_entries m' = MP_entries m \<and> MP_covered m' = MP_covered m"
    using assms by (auto simp: mapping_PublishGroup_def Let_def split: if_splits option.splits prod.splits)
  then show ?thesis
    using PublishGroup_Inl [OF _ _ assms] by blast
qed

theorem mapping_publish_error_invisible_witness:
  "\<exists>plan. mapping_ResolveGroup NewEmpty [example_put, example_put] = Inr plan \<and>
    mapping_PublishGroup 2 plan (replicate 2 (Some unlimitedReservation)) (NewEmpty, example_budget) =
      (Inl mapping_ErrInvalid, NewEmpty, example_budget)"
proof -
  obtain plan where plan: "mapping_ResolveGroup NewEmpty [example_put, example_put] = Inr plan"
    by (rule example_resolve)
  obtain e m' b' where p: "mapping_PublishGroup 2 plan (replicate 2 (Some unlimitedReservation)) (NewEmpty, example_budget) = (Inl e, m', b')"
      "e = mapping_ErrInvalid" "b' = example_budget"
    using PublishGroup_resolved [OF NewEmpty_ok plan, of 2 "replicate 2 (Some unlimitedReservation)" example_budget]
    by (simp add: NewEmpty_def)
  then have "m' = NewEmpty"
    using mapping_publish_error_invisible [OF p(1)] NewEmpty_ok plan by blast
  then show ?thesis using plan p by blast
qed

text \<open>
  C15: A mapping created from a snapshot has the snapshot's entries and sequence and correct live
  statistics, in whatever order the entries of the snapshot are visited.
\<close>

theorem mapping_New_exact:
  assumes "mapping_New order snapshot = Inr m" "distinct order" "set order = dom (SN_Entries snapshot)"
  shows "mapping_Snapshot m = snapshot \<and> mapping_ok m"
  using mapping_New_Inr [OF assms] by (simp add: mapping_Snapshot_def)

theorem mapping_New_exact_witness:
  "\<exists>m. mapping_New [1] \<lparr>SN_CoveredCommitSeq = 1, SN_Entries = [1 \<mapsto> example_ref]\<rparr> = Inr m \<and> mapping_ok m"
proof -
  let ?s = "\<lparr>SN_CoveredCommitSeq = 1, SN_Entries = [1 \<mapsto> example_ref]\<rparr>"
  obtain m where m: "mapping_New [1] ?s = Inr m"
    using example_ref_valid
    by (simp add: mapping_New_def addLiveRef_def stats_of_def zero_stats_def Let_def)
  then show ?thesis using mapping_New_exact [OF m] by auto
qed

end
