(* ===== verification/Log_Catalog.thy ===== *)
theory Log_Catalog
  imports Segment_Recovery
begin

text \<open>
  What the record log knows of the store catalog (\<^verbatim>\<open>internal/recordlog/catalog.go\<close>) and the journal
  that makes a segment rotation recoverable (\<^verbatim>\<open>rotation_journal.go\<close>, \<^verbatim>\<open>open.go\<close>). The catalog itself is
  reached through the interface \<^verbatim>\<open>CatalogPort\<close>: a record of operations on a catalog state of type
  \<open>'c\<close>, so that the record log is modelled without knowing how the catalog stores its manifest. The
  lemmas show that the binary search finds exactly the listed summaries, that the journal codec is
  exact, and that whatever the port answers, an accepted rotation has sealed the old segment.
\<close>

section \<open>Catalog snapshots\<close>

record CatalogSnapshot =
  CS_Generation :: u64
  CS_LogID :: LogID
  CS_SegmentSize :: u32
  CS_MaxPayloadBytes :: u32
  CS_ActiveSegmentID :: SegmentID
  CS_NextSegmentID :: SegmentID
  CS_CompactionSegmentFloor :: SegmentID
  CS_SealedSegments :: "SegmentSummary list"

definition headerFor :: "CatalogSnapshot \<Rightarrow> SegmentID \<Rightarrow> SegmentHeader" where
  "headerFor s i = \<lparr>SH_LogID = CS_LogID s, SH_SegmentID = i,
     SH_PreviousSegment = (if i > 1 then i - 1 else 0), SH_SegmentSize = CS_SegmentSize s\<rparr>"

text \<open>\<^verbatim>\<open>sort.Search\<close>: the smallest index at which a monotone predicate holds, by bisection.\<close>

function sort_Search :: "(nat \<Rightarrow> bool) \<Rightarrow> nat \<Rightarrow> nat \<Rightarrow> nat" where
  "sort_Search f i j =
     (if i < j then let h = (i + j) div 2 in if \<not> f h then sort_Search f (h + 1) j else sort_Search f i h else i)"
  by pat_completeness auto
termination
  by (relation "measure (\<lambda>(_, i, j). j - i)") auto

declare sort_Search.simps [simp del]

definition sealedSummary :: "CatalogSnapshot \<Rightarrow> SegmentID \<Rightarrow> SegmentSummary option" where
  "sealedSummary s i =
     (let xs = CS_SealedSegments s;
          index = sort_Search (\<lambda>k. SS_SegmentID (xs ! k) \<ge> i) 0 (length xs)
      in if index < length xs \<and> SS_SegmentID (xs ! index) = i then Some (xs ! index) else None)"

fun validate_sealed :: "CatalogSnapshot \<Rightarrow> SegmentID \<Rightarrow> SegmentSummary list \<Rightarrow> bool" where
  "validate_sealed s previous [] = True"
| "validate_sealed s previous (summary # rest) =
     (let regular = SS_SegmentID summary < CS_ActiveSegmentID s;
          compacted = IsCompactionSegment (SS_SegmentID summary) \<and> CS_CompactionSegmentFloor s \<noteq> 0 \<and>
            SS_SegmentID summary > CS_CompactionSegmentFloor s
      in if SS_SegmentID summary \<le> previous \<or> (\<not> regular \<and> \<not> compacted) \<or>
            SS_SegmentID summary = CS_ActiveSegmentID s \<or> SegmentSummary_validate summary (CS_SegmentSize s) \<noteq> None
         then False else validate_sealed s (SS_SegmentID summary) rest)"

definition CatalogSnapshot_validate :: "CatalogSnapshot \<Rightarrow> err option" where
  \<comment> \<open>the test \<^verbatim>\<open>SegmentSize > math.MaxUint32\<close> is never true of a 32-bit size\<close>
  "CatalogSnapshot_validate s =
     (if CS_Generation s = 0 \<or> CS_LogID s = 0 \<or> CS_ActiveSegmentID s = 0 \<or>
         CS_NextSegmentID s \<noteq> CS_ActiveSegmentID s + 1 \<or> CS_ActiveSegmentID s \<ge> CompactionSegmentBase \<or>
         CS_MaxPayloadBytes s = 0 \<or>
         CS_CompactionSegmentFloor s \<noteq> 0 \<and> CS_CompactionSegmentFloor s < CompactionSegmentBase - 1
      then Some recordlog_ErrInvalidConfig
      else case EncodeSegmentHeader (headerFor s (CS_ActiveSegmentID s)) of Inl e \<Rightarrow> Some e
      | Inr _ \<Rightarrow>
          case PhysicalRecordSize (unat (CS_MaxPayloadBytes s)) of Inl _ \<Rightarrow> Some recordlog_ErrInvalidConfig
          | Inr maximum \<Rightarrow>
              if maximum > CS_SegmentSize s - SegmentHeaderSize - SegmentFooterSize then Some recordlog_ErrInvalidConfig
              else if \<not> validate_sealed s 0 (CS_SealedSegments s) then Some recordlog_ErrInvalidConfig
              else None)"

definition validateRotationResult ::
  "CatalogSnapshot \<Rightarrow> CatalogSnapshot \<Rightarrow> SegmentSummary \<Rightarrow> SegmentID \<Rightarrow> SegmentID \<Rightarrow> err option" where
  "validateRotationResult before after sealed newActive next =
     (if CS_Generation after \<le> CS_Generation before \<or> CS_LogID after \<noteq> CS_LogID before \<or>
         CS_SegmentSize after \<noteq> CS_SegmentSize before \<or> CS_MaxPayloadBytes after \<noteq> CS_MaxPayloadBytes before \<or>
         CS_ActiveSegmentID after \<noteq> newActive \<or> CS_NextSegmentID after \<noteq> next
      then Some recordlog_ErrCorrupt
      else if sealedSummary after (SS_SegmentID sealed) \<noteq> Some sealed then Some recordlog_ErrCorrupt
      else CatalogSnapshot_validate after)"

section \<open>The catalog port\<close>

record 'c CatalogPort =
  SnapshotRecordLog :: "'c \<Rightarrow> CatalogSnapshot"
  InstallRecordLogRotation :: "'c \<Rightarrow> u64 \<Rightarrow> SegmentSummary \<Rightarrow> SegmentID \<Rightarrow> SegmentID \<Rightarrow> CatalogSnapshot res \<times> 'c"
  RemoveRecordLogSegment :: "'c \<Rightarrow> u64 \<Rightarrow> SegmentSummary \<Rightarrow> CatalogSnapshot res \<times> 'c"

section \<open>The rotation journal\<close>

record rotationJournal =
  RJ_BaseGeneration :: u64
  RJ_LogID :: LogID
  RJ_SegmentSize :: u32
  RJ_Old :: SegmentSummary
  RJ_NewActive :: SegmentID
  RJ_NextSegmentID :: SegmentID

definition rotationJournalMagic :: bytes where
  "rotationJournalMagic = [82, 73, 68, 82, 74, 86, 50, 0]"

definition rotationJournal_validate :: "rotationJournal \<Rightarrow> err option" where
  "rotationJournal_validate j =
     (if RJ_BaseGeneration j = 0 \<or> RJ_LogID j = 0 \<or> SS_SegmentID (RJ_Old j) = NOT 0 \<or> RJ_NewActive j = NOT 0 \<or>
         RJ_NewActive j \<noteq> SS_SegmentID (RJ_Old j) + 1 \<or> RJ_NextSegmentID j \<noteq> RJ_NewActive j + 1 \<or>
         SegmentSummary_validate (RJ_Old j) (RJ_SegmentSize j) \<noteq> None
      then Some recordlog_ErrInvalidConfig else None)"

definition encodeRotationJournal :: "rotationJournal \<Rightarrow> bytes res" where
  "encodeRotationJournal j =
     (case rotationJournal_validate j of Some e \<Rightarrow> Inl e
      | None \<Rightarrow>
          let old = RJ_Old j;
              body = rotationJournalMagic @ le16 FormatVersion @ le16 96 @ replicate 4 0 @
                le64 (RJ_BaseGeneration j) @ LogID_bytes (RJ_LogID j) @ le32 (RJ_SegmentSize j) @
                le32 (SS_SegmentID old) @ le32 (SS_ValidEnd old) @ replicate 4 0 @ le64 (SS_RecordCount old) @
                le64 (SS_FirstAddr old) @ le64 (SS_LastAddr old) @ le32 (RJ_NewActive j) @
                le32 (RJ_NextSegmentID j) @ replicate 4 0
          in Inr (body @ le32 (crc32c body)))"

definition decodeRotationJournal :: "bytes \<Rightarrow> rotationJournal res" where
  "decodeRotationJournal encoded =
     (if length encoded \<noteq> 96 \<or> subslice 0 8 encoded \<noteq> rotationJournalMagic \<or>
         get16 (subslice 8 10 encoded) \<noteq> FormatVersion then Inl recordlog_ErrCorrupt
      else if get16 (subslice 10 12 encoded) \<noteq> 96 \<or> \<not> all_zero (subslice 12 16 encoded) \<or>
         \<not> all_zero (subslice 52 56 encoded) \<or> \<not> all_zero (subslice 88 92 encoded) \<or>
         get32 (subslice 92 96 encoded) \<noteq> crc32c (subslice 0 92 encoded) then Inl recordlog_ErrCorrupt
      else let j = \<lparr>RJ_BaseGeneration = get64 (subslice 16 24 encoded),
                RJ_LogID = LogID_of (subslice 24 40 encoded), RJ_SegmentSize = get32 (subslice 40 44 encoded),
                RJ_Old = \<lparr>SS_SegmentID = get32 (subslice 44 48 encoded), SS_ValidEnd = get32 (subslice 48 52 encoded),
                  SS_RecordCount = get64 (subslice 56 64 encoded), SS_FirstAddr = get64 (subslice 64 72 encoded),
                  SS_LastAddr = get64 (subslice 72 80 encoded)\<rparr>,
                RJ_NewActive = get32 (subslice 80 84 encoded), RJ_NextSegmentID = get32 (subslice 84 88 encoded)\<rparr>
           in case rotationJournal_validate j of Some _ \<Rightarrow> Inl recordlog_ErrCorrupt | None \<Rightarrow> Inr j)"

definition committedRotation :: "CatalogSnapshot \<Rightarrow> rotationJournal \<Rightarrow> bool" where
  "committedRotation snapshot j =
     (if CS_ActiveSegmentID snapshot \<noteq> RJ_NewActive j \<or> CS_NextSegmentID snapshot \<noteq> RJ_NextSegmentID j then False
      else sealedSummary snapshot (SS_SegmentID (RJ_Old j)) = Some (RJ_Old j))"

text \<open>The retry loop of \<^verbatim>\<open>installCatalogRotation\<close>; the first argument counts the remaining attempts.\<close>

fun install_attempts ::
  "nat \<Rightarrow> 'c CatalogPort \<Rightarrow> 'c \<Rightarrow> CatalogSnapshot \<Rightarrow> rotationJournal \<Rightarrow> CatalogSnapshot res \<times> 'c" where
  "install_attempts 0 port c current j = (Inl recordlog_ErrPoisoned, c)"
| "install_attempts (Suc n) port c current j =
     (case InstallRecordLogRotation port c (CS_Generation current) (RJ_Old j) (RJ_NewActive j) (RJ_NextSegmentID j) of
        (Inr installed, c1) \<Rightarrow> (Inr installed, c1)
      | (Inl e, c1) \<Rightarrow>
          let fresh = SnapshotRecordLog port c1 in
          if committedRotation fresh j then (Inr fresh, c1)
          else if CS_Generation fresh = CS_Generation current then (Inl e, c1)
          else if CS_ActiveSegmentID fresh \<noteq> SS_SegmentID (RJ_Old j) \<or> CS_LogID fresh \<noteq> RJ_LogID j \<or>
                  CS_SegmentSize fresh \<noteq> RJ_SegmentSize j
          then (Inl (Join e recordlog_ErrCorrupt), c1)
          else install_attempts n port c1 fresh j)"

definition installCatalogRotation ::
  "'c CatalogPort \<Rightarrow> 'c \<Rightarrow> CatalogSnapshot \<Rightarrow> rotationJournal \<Rightarrow> CatalogSnapshot res \<times> 'c" where
  "installCatalogRotation port c before j = install_attempts 16 port c before j"

section \<open>The search finds the listed summary\<close>

lemma sort_Search_invariant:
  assumes "\<And>k l. k \<le> l \<Longrightarrow> l < n \<Longrightarrow> f k \<Longrightarrow> f l"
  shows "i \<le> j \<Longrightarrow> j \<le> n \<Longrightarrow> \<forall>k < i. \<not> f k \<Longrightarrow> j < n \<longrightarrow> f j \<Longrightarrow>
    sort_Search f i j \<le> n \<and> (\<forall>k < sort_Search f i j. \<not> f k) \<and> (sort_Search f i j < n \<longrightarrow> f (sort_Search f i j))"
  using assms
proof (induction f i j rule: sort_Search.induct)
  case (1 f i j)
  show ?case
  proof (cases "i < j")
    case True
    define h where "h = (i + j) div 2"
    have h: "i \<le> h" "h < j" using True by (auto simp: h_def)
    show ?thesis
    proof (cases "f h")
      case f: True
      have "sort_Search f i j = sort_Search f i h"
        using True f by (subst sort_Search.simps) (simp add: h_def [symmetric] Let_def)
      then show ?thesis
        using 1(2) [OF True h_def] f h 1(4,5) 1(7) by simp
    next
      case f: False
      have "sort_Search f i j = sort_Search f (h + 1) j"
        using True f by (subst sort_Search.simps) (simp add: h_def [symmetric] Let_def)
      moreover have "\<not> f k" if "k < h + 1" for k
        using 1(7) [of k h] that f h 1(4) by auto
      ultimately show ?thesis
        using 1(1) [OF True h_def] f h 1(4,6) 1(7) by simp
    qed
  next
    case False
    then have "sort_Search f i j = i" by (subst sort_Search.simps) simp
    then show ?thesis using False 1(3-6) by auto
  qed
qed

lemma sealedSummary_eq:
  assumes "sorted_wrt (<) (map SS_SegmentID (CS_SealedSegments s))"
  shows "sealedSummary s i = find (\<lambda>x. SS_SegmentID x = i) (CS_SealedSegments s)"
proof -
  let ?xs = "CS_SealedSegments s" and ?f = "\<lambda>k. SS_SegmentID (CS_SealedSegments s ! k) \<ge> i"
  define r where "r = sort_Search ?f 0 (length ?xs)"
  have less: "SS_SegmentID (?xs ! k) < SS_SegmentID (?xs ! l)" if "k < l" "l < length ?xs" for k l
    using assms that by (simp add: sorted_wrt_iff_nth_less)
  have mono: "?f l" if "k \<le> l" "l < length ?xs" "?f k" for k l
    using less [of k l] that by (cases "k = l") (auto intro: order.trans order.strict_implies_order)
  have r: "r \<le> length ?xs" "\<forall>k < r. \<not> ?f k" "r < length ?xs \<longrightarrow> ?f r"
    unfolding r_def using sort_Search_invariant [of "length ?xs" ?f 0 "length ?xs", OF mono] by simp_all
  show ?thesis
  proof (cases "r < length ?xs \<and> SS_SegmentID (?xs ! r) = i")
    case True
    then have "find (\<lambda>x. SS_SegmentID x = i) ?xs = Some (?xs ! r)"
      using r(2) by (auto simp: find_Some_iff intro!: exI [of _ r])
    then show ?thesis using True by (simp add: sealedSummary_def Let_def r_def)
  next
    case False
    have "SS_SegmentID (?xs ! k) \<noteq> i" if "k < length ?xs" for k
    proof (cases "k < r")
      case True
      then show ?thesis using r(2) by auto
    next
      case ge: False
      then have "r < length ?xs" using that by simp
      then have "i < SS_SegmentID (?xs ! r)" using False r(3) by (auto simp: order_less_le)
      also have "\<dots> \<le> SS_SegmentID (?xs ! k)" using less [of r k] ge that by (cases "r = k") auto
      finally show ?thesis by simp
    qed
    then have "find (\<lambda>x. SS_SegmentID x = i) ?xs = None"
      by (auto simp: find_None_iff in_set_conv_nth)
    moreover have "sealedSummary s i = None"
      using False unfolding sealedSummary_def Let_def r_def by simp
    ultimately show ?thesis by simp
  qed
qed

lemma validate_sealed_sorted:
  "validate_sealed s previous xs \<Longrightarrow> sorted_wrt (<) (map SS_SegmentID xs) \<and> (\<forall>x \<in> set xs. previous < SS_SegmentID x)"
proof (induction xs arbitrary: previous)
  case (Cons x xs)
  then have "previous < SS_SegmentID x" "validate_sealed s (SS_SegmentID x) xs"
    by (auto simp: Let_def not_le split: if_splits)
  then show ?case using Cons.IH [of "SS_SegmentID x"] by (auto intro: order.strict_trans)
qed simp

lemma CatalogSnapshot_validate_None:
  assumes "CatalogSnapshot_validate s = None"
  shows "CS_NextSegmentID s = CS_ActiveSegmentID s + 1" "CS_ActiveSegmentID s < CompactionSegmentBase"
    "CS_ActiveSegmentID s \<noteq> 0" "sorted_wrt (<) (map SS_SegmentID (CS_SealedSegments s))"
    "\<exists>hdr. EncodeSegmentHeader (headerFor s (CS_ActiveSegmentID s)) = Inr hdr"
    "\<exists>maximum. PhysicalRecordSize (unat (CS_MaxPayloadBytes s)) = Inr maximum \<and>
       maximum \<le> CS_SegmentSize s - SegmentHeaderSize - SegmentFooterSize"
  using assms validate_sealed_sorted [of s 0 "CS_SealedSegments s"]
  by (auto simp: CatalogSnapshot_validate_def not_less not_le split: if_splits sum.splits)

section \<open>The journal codec is exact\<close>

lemma length_rotationJournalMagic [simp]: "length rotationJournalMagic = 8"
  by (simp add: rotationJournalMagic_def)

lemma decode_encodeRotationJournal:
  assumes "encodeRotationJournal j = Inr bs"
  shows "decodeRotationJournal bs = Inr j"
proof -
  define body where "body = rotationJournalMagic @ le16 FormatVersion @ le16 96 @ replicate 4 0 @
      le64 (RJ_BaseGeneration j) @ LogID_bytes (RJ_LogID j) @ le32 (RJ_SegmentSize j) @
      le32 (SS_SegmentID (RJ_Old j)) @ le32 (SS_ValidEnd (RJ_Old j)) @ replicate 4 0 @ le64 (SS_RecordCount (RJ_Old j)) @
      le64 (SS_FirstAddr (RJ_Old j)) @ le64 (SS_LastAddr (RJ_Old j)) @ le32 (RJ_NewActive j) @
      le32 (RJ_NextSegmentID j) @ replicate 4 0"
  have v: "rotationJournal_validate j = None" and bs: "bs = body @ le32 (crc32c body)"
    using assms by (auto simp: encodeRotationJournal_def Let_def body_def split: option.splits)
  have len: "length body = 92" by (simp add: body_def)
  have sub: "b \<le> 92 \<Longrightarrow> subslice a b bs = subslice a b body" for a b
    unfolding bs using len by (intro subslice_append_left) simp
  have crc: "get32 (subslice 92 96 bs) = crc32c (subslice 0 92 bs)" "length bs = 96"
    using len by (simp_all add: bs codec_simps)
  have fields: "subslice 0 8 bs = rotationJournalMagic" "get16 (subslice 8 10 bs) = FormatVersion"
      "get16 (subslice 10 12 bs) = 96" "all_zero (subslice 12 16 bs)" "all_zero (subslice 52 56 bs)" "all_zero (subslice 88 92 bs)"
      "get64 (subslice 16 24 bs) = RJ_BaseGeneration j" "LogID_of (subslice 24 40 bs) = RJ_LogID j"
      "get32 (subslice 40 44 bs) = RJ_SegmentSize j" "get32 (subslice 44 48 bs) = SS_SegmentID (RJ_Old j)"
      "get32 (subslice 48 52 bs) = SS_ValidEnd (RJ_Old j)" "get64 (subslice 56 64 bs) = SS_RecordCount (RJ_Old j)"
      "get64 (subslice 64 72 bs) = SS_FirstAddr (RJ_Old j)" "get64 (subslice 72 80 bs) = SS_LastAddr (RJ_Old j)"
      "get32 (subslice 80 84 bs) = RJ_NewActive j" "get32 (subslice 84 88 bs) = RJ_NextSegmentID j"
    by (simp_all add: sub, simp_all add: body_def codec_simps)
  moreover have whole: "\<lparr>RJ_BaseGeneration = RJ_BaseGeneration j, RJ_LogID = RJ_LogID j, RJ_SegmentSize = RJ_SegmentSize j,
      RJ_Old = \<lparr>SS_SegmentID = SS_SegmentID (RJ_Old j), SS_ValidEnd = SS_ValidEnd (RJ_Old j),
        SS_RecordCount = SS_RecordCount (RJ_Old j), SS_FirstAddr = SS_FirstAddr (RJ_Old j),
        SS_LastAddr = SS_LastAddr (RJ_Old j)\<rparr>,
      RJ_NewActive = RJ_NewActive j, RJ_NextSegmentID = RJ_NextSegmentID j\<rparr> = j"
    by simp
  ultimately show ?thesis
    using v crc by (simp add: decodeRotationJournal_def Let_def whole)
qed

lemma encode_decodeRotationJournal:
  assumes "decodeRotationJournal bs = Inr j"
  shows "encodeRotationJournal j = Inr bs"
proof -
  have len: "length bs = 96"
    and c: "rotationJournalMagic = subslice 0 8 bs" "get16 (subslice 8 10 bs) = FormatVersion"
      "get16 (subslice 10 12 bs) = 96" "all_zero (subslice 12 16 bs)" "all_zero (subslice 52 56 bs)"
      "all_zero (subslice 88 92 bs)" "get32 (subslice 92 96 bs) = crc32c (subslice 0 92 bs)" "rotationJournal_validate j = None"
    and j: "j = \<lparr>RJ_BaseGeneration = get64 (subslice 16 24 bs),
        RJ_LogID = LogID_of (subslice 24 40 bs), RJ_SegmentSize = get32 (subslice 40 44 bs),
        RJ_Old = \<lparr>SS_SegmentID = get32 (subslice 44 48 bs), SS_ValidEnd = get32 (subslice 48 52 bs),
          SS_RecordCount = get64 (subslice 56 64 bs), SS_FirstAddr = get64 (subslice 64 72 bs),
          SS_LastAddr = get64 (subslice 72 80 bs)\<rparr>,
        RJ_NewActive = get32 (subslice 80 84 bs), RJ_NextSegmentID = get32 (subslice 84 88 bs)\<rparr>"
    using assms by (auto simp: decodeRotationJournal_def Let_def split: if_splits option.splits)
  have body: "rotationJournalMagic @ le16 FormatVersion @ le16 96 @ replicate 4 0 @
      le64 (RJ_BaseGeneration j) @ LogID_bytes (RJ_LogID j) @ le32 (RJ_SegmentSize j) @
      le32 (SS_SegmentID (RJ_Old j)) @ le32 (SS_ValidEnd (RJ_Old j)) @ replicate 4 0 @ le64 (SS_RecordCount (RJ_Old j)) @
      le64 (SS_FirstAddr (RJ_Old j)) @ le64 (SS_LastAddr (RJ_Old j)) @ le32 (RJ_NewActive j) @
      le32 (RJ_NextSegmentID j) @ replicate 4 0 = subslice 0 92 bs"
  proof -
    have z: "subslice 12 16 bs = replicate 4 0" "subslice 52 56 bs = replicate 4 0" "subslice 88 92 bs = replicate 4 0"
      using len all_zero_subslice [OF c(4)] all_zero_subslice [OF c(5)] all_zero_subslice [OF c(6)] by simp_all
    have split: "subslice 0 92 bs = subslice 0 8 bs @ subslice 8 10 bs @ subslice 10 12 bs @ subslice 12 16 bs @
        subslice 16 24 bs @ subslice 24 40 bs @ subslice 40 44 bs @ subslice 44 48 bs @ subslice 48 52 bs @
        subslice 52 56 bs @ subslice 56 64 bs @ subslice 64 72 bs @ subslice 72 80 bs @ subslice 80 84 bs @
        subslice 84 88 bs @ subslice 88 92 bs"
      by (simp add: subslice_join)
    show ?thesis
      unfolding split c(1) using len get_eqD(1) [OF c(2)] get_eqD(1) [OF c(3)]
      by (simp add: j z codec_simps le_get LogID_bytes_of)
  qed
  have "subslice 0 92 bs @ le32 (crc32c (subslice 0 92 bs)) = bs"
    using len get_eqD(2) [OF c(7)] by (simp add: codec_simps subslice_join)
  then show ?thesis
    by (simp only: encodeRotationJournal_def c(8) option.case Let_def body)
qed

text \<open>
  C24: the rotation journal codec is exact: a byte string decodes to a journal if and only if it is
  the image the encoder writes for it.
\<close>

theorem rotation_journal_exact: "decodeRotationJournal bs = Inr j \<longleftrightarrow> encodeRotationJournal j = Inr bs"
  using decode_encodeRotationJournal encode_decodeRotationJournal by blast

section \<open>An accepted rotation is committed\<close>

lemma validateRotationResult_None:
  assumes "validateRotationResult before after sealed newActive next = None"
  shows "CS_ActiveSegmentID after = newActive" "CS_NextSegmentID after = next" "CS_Generation before < CS_Generation after"
    "CS_LogID after = CS_LogID before" "CS_SegmentSize after = CS_SegmentSize before"
    "sealed \<in> set (CS_SealedSegments after)" "CatalogSnapshot_validate after = None"
proof -
  have v: "CatalogSnapshot_validate after = None" "sealedSummary after (SS_SegmentID sealed) = Some sealed"
    using assms by (auto simp: validateRotationResult_def split: if_splits)
  then show "sealed \<in> set (CS_SealedSegments after)" "CatalogSnapshot_validate after = None"
    by (auto simp: sealedSummary_def Let_def split: if_splits) (metis nth_mem)
  show "CS_ActiveSegmentID after = newActive" "CS_NextSegmentID after = next" "CS_Generation before < CS_Generation after"
    "CS_LogID after = CS_LogID before" "CS_SegmentSize after = CS_SegmentSize before"
    using assms by (auto simp: validateRotationResult_def not_le split: if_splits)
qed

lemma install_attempts_Inr:
  "install_attempts n port c current j = (Inr installed, c') \<Longrightarrow>
     (\<exists>c1 g. InstallRecordLogRotation port c1 g (RJ_Old j) (RJ_NewActive j) (RJ_NextSegmentID j) = (Inr installed, c')) \<or>
     installed = SnapshotRecordLog port c' \<and> committedRotation installed j"
  by (induction n port c current j rule: install_attempts.induct)
    (auto simp: Let_def split: prod.splits sum.splits if_splits)

lemma accepted_rotation_committed:
  assumes "validateRotationResult before installed (RJ_Old j) (RJ_NewActive j) (RJ_NextSegmentID j) = None"
  shows "committedRotation installed j"
proof -
  have "sealedSummary installed (SS_SegmentID (RJ_Old j)) = Some (RJ_Old j)"
    using assms by (auto simp: validateRotationResult_def split: if_splits)
  then show ?thesis
    using validateRotationResult_None [OF assms] by (simp add: committedRotation_def)
qed

end
