(* ===== verification/Segment_Registry.thy ===== *)
theory Segment_Registry
  imports Segment_Recovery "HOL-Library.AList"
begin

text \<open>
  The registry of open segments (\<^verbatim>\<open>internal/recordlog/registry.go\<close>): pins held by readers, publication
  of rotated and of compacted segments, and retirement. The Go map of entries is an association
  list. An entry points to an active segment object that the writer also holds; the objects live in
  the store \<open>R_objs\<close>, keyed by their segment id. A pin is the id it was taken for; an operation
  that waits for a signal is the single test it makes after each wake-up, with \<open>None\<close> for "wait".
  The lemmas show that a pinned segment stays readable until the pin is released.
\<close>

datatype segmentState = segmentActive | segmentSealed | segmentRetiring

record registryEntry =
  RG_state :: segmentState
  RG_active :: bool  \<comment> \<open>the pointer to the active segment is not nil\<close>
  RG_sealed :: "sealedSegment option"
  RG_pins :: u64

record segmentRegistry =
  R_entries :: "(SegmentID \<times> registryEntry) list"
  R_active :: SegmentID
  R_closed :: bool
  R_objs :: "SegmentID \<rightharpoonup> activeSegment"

definition entry_of :: "segmentRegistry \<Rightarrow> SegmentID \<Rightarrow> registryEntry option" where
  "entry_of r i = map_of (R_entries r) i"

definition set_entry :: "segmentRegistry \<Rightarrow> SegmentID \<Rightarrow> registryEntry \<Rightarrow> segmentRegistry" where
  "set_entry r i e = r\<lparr>R_entries := AList.update i e (R_entries r)\<rparr>"

section \<open>Operations\<close>

definition active_entry :: registryEntry where
  "active_entry = \<lparr>RG_state = segmentActive, RG_active = True, RG_sealed = None, RG_pins = 0\<rparr>"

definition sealed_entry :: "sealedSegment \<Rightarrow> registryEntry" where
  "sealed_entry s = \<lparr>RG_state = segmentSealed, RG_active = False, RG_sealed = Some s, RG_pins = 0\<rparr>"

fun register_sealed :: "segmentRegistry \<Rightarrow> sealedSegment list \<Rightarrow> segmentRegistry res" where
  "register_sealed r [] = Inr r"
| "register_sealed r (item # rest) =
     (let i = SH_SegmentID (SG_header item) in
      if \<not> SG_open item \<or> i = R_active r then Inl recordlog_ErrInvalidConfig
      else if entry_of r i \<noteq> None then Inl recordlog_ErrInvalidConfig
      else register_sealed (set_entry r i (sealed_entry item)) rest)"

definition newSegmentRegistry :: "activeSegment \<Rightarrow> sealedSegment list \<Rightarrow> segmentRegistry res" where
  "newSegmentRegistry active sealed =
     (if \<not> AS_open active \<or> SH_SegmentID (AS_header active) = 0 then Inl recordlog_ErrInvalidConfig
      else let i = SH_SegmentID (AS_header active) in
        register_sealed \<lparr>R_entries = [(i, active_entry)], R_active = i, R_closed = False, R_objs = [i \<mapsto> active]\<rparr> sealed)"

definition registry_pin :: "segmentRegistry \<Rightarrow> SegmentID \<Rightarrow> err option \<times> segmentRegistry" where
  "registry_pin r i =
     (if i = 0 then (Some recordlog_ErrInvalidVAddr, r)
      else if R_closed r then (Some recordlog_ErrClosed, r)
      else case entry_of r i of None \<Rightarrow> (Some recordlog_ErrSegmentMissing, r)
      | Some entry \<Rightarrow>
          if RG_state entry = segmentRetiring then (Some recordlog_ErrSegmentRetiring, r)
          else (None, set_entry r i (entry\<lparr>RG_pins := RG_pins entry + 1\<rparr>)))"

fun pin_all :: "segmentRegistry \<Rightarrow> SegmentID list \<Rightarrow> segmentRegistry" where
  "pin_all r [] = r"
| "pin_all r (i # is) =
     (case entry_of r i of None \<Rightarrow> pin_all r is
      | Some entry \<Rightarrow> pin_all (set_entry r i (entry\<lparr>RG_pins := RG_pins entry + 1\<rparr>)) is)"

definition pinSnapshot :: "segmentRegistry \<Rightarrow> SegmentID list res \<times> segmentRegistry" where
  "pinSnapshot r =
     (if R_closed r then (Inl recordlog_ErrClosed, r)
      else if list_ex (\<lambda>(_, entry). RG_state entry = segmentRetiring) (R_entries r)
      then (Inl recordlog_ErrSegmentRetiring, r)
      else let ids = sort (map fst (R_entries r)) in (Inr ids, pin_all r ids))"

definition pinSealed :: "segmentRegistry \<Rightarrow> SegmentID \<Rightarrow> err option option \<times> segmentRegistry" where
  "pinSealed r i =
     (if i = 0 then (Some (Some recordlog_ErrInvalidVAddr), r)
      else if R_closed r then (Some (Some recordlog_ErrClosed), r)
      else case entry_of r i of None \<Rightarrow> (Some (Some recordlog_ErrSegmentMissing), r)
      | Some entry \<Rightarrow>
          case RG_state entry of
            segmentSealed \<Rightarrow>
              if RG_sealed entry = None then (Some (Some recordlog_ErrInvalidConfig), r)
              else (Some None, set_entry r i (entry\<lparr>RG_pins := RG_pins entry + 1\<rparr>))
          | segmentRetiring \<Rightarrow> (Some (Some recordlog_ErrSegmentRetiring), r)
          | segmentActive \<Rightarrow> (None, r))"

definition pin_read :: "segmentRegistry \<Rightarrow> SegmentID \<Rightarrow> VAddr \<Rightarrow> bytes res" where
  "pin_read r i addr =
     (if VAddr_SegmentID addr \<noteq> i then Inl recordlog_ErrInvalidVAddr
      else case entry_of r i of None \<Rightarrow> Inl recordlog_ErrSegmentMissing
      | Some entry \<Rightarrow>
          if RG_active entry then
            (case R_objs r i of Some s \<Rightarrow> active_read s addr | None \<Rightarrow> Inl recordlog_ErrSegmentMissing)
          else case RG_sealed entry of Some s \<Rightarrow> sealed_read s addr | None \<Rightarrow> Inl recordlog_ErrSegmentMissing)"

definition pin_scanSealed :: "segmentRegistry \<Rightarrow> SegmentID \<Rightarrow> u32 \<Rightarrow> 's visitor option \<Rightarrow> 's \<Rightarrow> 's res" where
  "pin_scanSealed r i start visit st =
     (case entry_of r i of None \<Rightarrow> Inl recordlog_ErrInvalidConfig
      | Some entry \<Rightarrow>
          (case RG_sealed entry of None \<Rightarrow> Inl recordlog_ErrInvalidConfig
           | Some s \<Rightarrow> if RG_state entry \<noteq> segmentSealed then Inl recordlog_ErrInvalidConfig
                       else sealed_scan s start visit st))"

definition pin_release :: "segmentRegistry \<Rightarrow> SegmentID \<Rightarrow> err option \<times> segmentRegistry" where
  "pin_release r i =
     (case entry_of r i of None \<Rightarrow> (Some recordlog_ErrCorrupt, r)
      | Some entry \<Rightarrow>
          if RG_pins entry = 0 then (Some recordlog_ErrCorrupt, r)
          else (None, set_entry r i (entry\<lparr>RG_pins := RG_pins entry - 1\<rparr>)))"

definition publishRotation ::
  "segmentRegistry \<Rightarrow> SegmentID \<Rightarrow> sealedSegment \<Rightarrow> activeSegment \<Rightarrow> err option \<times> segmentRegistry" where
  "publishRotation r oldID sealed active =
     (if SH_SegmentID (SG_header sealed) \<noteq> oldID \<or> SH_PreviousSegment (AS_header active) \<noteq> oldID \<or>
         \<not> SG_open sealed \<or> \<not> AS_open active then (Some recordlog_ErrInvalidConfig, r)
      else if R_closed r then (Some recordlog_ErrClosed, r)
      else case entry_of r oldID of None \<Rightarrow> (Some recordlog_ErrInvalidConfig, r)
      | Some old \<Rightarrow>
          if R_active r \<noteq> oldID \<or> RG_state old \<noteq> segmentActive \<or> \<not> RG_active old then (Some recordlog_ErrInvalidConfig, r)
          else if entry_of r (SH_SegmentID (AS_header active)) \<noteq> None then (Some recordlog_ErrInvalidConfig, r)
          else case R_objs r oldID of None \<Rightarrow> (Some recordlog_ErrInvalidConfig, r)
          | Some obj \<Rightarrow>
              case transferSealedOwnership obj sealed of Inl e \<Rightarrow> (Some e, r)
              | Inr obj' \<Rightarrow>
                  let newID = SH_SegmentID (AS_header active);
                      r1 = set_entry r oldID (old\<lparr>RG_state := segmentSealed, RG_active := False, RG_sealed := Some sealed\<rparr>);
                      r2 = set_entry r1 newID active_entry
                  in (None, r2\<lparr>R_active := newID, R_objs := (R_objs r)(oldID \<mapsto> obj', newID \<mapsto> active)\<rparr>))"

definition publishSealed :: "segmentRegistry \<Rightarrow> sealedSegment list \<Rightarrow> err option \<times> segmentRegistry" where
  "publishSealed r segments =
     (if R_closed r \<or> segments = [] then (Some recordlog_ErrInvalidConfig, r)
      else if list_ex (\<lambda>s. \<not> SG_open s \<or> \<not> IsCompactionSegment (SH_SegmentID (SG_header s)) \<or>
                entry_of r (SH_SegmentID (SG_header s)) \<noteq> None) segments
      then (Some recordlog_ErrInvalidConfig, r)
      else (None, foldl (\<lambda>r s. set_entry r (SH_SegmentID (SG_header s)) (sealed_entry s)) r segments))"

definition beginRetire :: "segmentRegistry \<Rightarrow> SegmentID \<Rightarrow> err option \<times> segmentRegistry" where
  "beginRetire r i =
     (if R_closed r then (Some recordlog_ErrClosed, r)
      else case entry_of r i of None \<Rightarrow> (Some recordlog_ErrSegmentMissing, r)
      | Some entry \<Rightarrow>
          if RG_state entry = segmentRetiring then (None, r)
          else if RG_state entry \<noteq> segmentSealed \<or> RG_sealed entry = None then (Some recordlog_ErrInvalidConfig, r)
          else (None, set_entry r i (entry\<lparr>RG_state := segmentRetiring\<rparr>)))"

definition cancelRetire :: "segmentRegistry \<Rightarrow> SegmentID \<Rightarrow> err option \<times> segmentRegistry" where
  "cancelRetire r i =
     (if R_closed r then (Some recordlog_ErrClosed, r)
      else case entry_of r i of None \<Rightarrow> (Some recordlog_ErrSegmentMissing, r)
      | Some entry \<Rightarrow>
          if RG_state entry \<noteq> segmentRetiring then (Some recordlog_ErrInvalidConfig, r)
          else (None, set_entry r i (entry\<lparr>RG_state := segmentSealed\<rparr>)))"

definition waitNoReaders :: "segmentRegistry \<Rightarrow> SegmentID \<Rightarrow> err option option" where
  "waitNoReaders r i =
     (case entry_of r i of None \<Rightarrow> Some (Some recordlog_ErrSegmentMissing)
      | Some entry \<Rightarrow>
          if RG_state entry \<noteq> segmentRetiring then Some (Some recordlog_ErrInvalidConfig)
          else if RG_pins entry = 0 then Some None else None)"

definition detachRetired :: "segmentRegistry \<Rightarrow> SegmentID \<Rightarrow> sealedSegment res \<times> segmentRegistry" where
  "detachRetired r i =
     (case entry_of r i of None \<Rightarrow> (Inl recordlog_ErrSegmentMissing, r)
      | Some entry \<Rightarrow>
          (case RG_sealed entry of None \<Rightarrow> (Inl recordlog_ErrInvalidConfig, r)
           | Some sealed \<Rightarrow>
               if RG_state entry \<noteq> segmentRetiring then (Inl recordlog_ErrInvalidConfig, r)
               else if RG_pins entry \<noteq> 0 then (Inl recordlog_ErrReadersActive, r)
               else (Inr sealed, r\<lparr>R_entries := AList.delete i (R_entries r)\<rparr>)))"

definition registry_close :: "segmentRegistry \<Rightarrow> err option option \<times> segmentRegistry" where
  "registry_close r =
     (if R_closed r then (Some (Some recordlog_ErrClosed), r)
      else if list_ex (\<lambda>(_, entry). RG_pins entry \<noteq> 0) (R_entries r) then (None, r\<lparr>R_closed := True\<rparr>)
      else (Some None, r\<lparr>R_closed := True, R_entries := []\<rparr>))"

section \<open>Pins keep segments readable\<close>

text \<open>
  The registry together with the pins that readers hold. Every operation is one step; a reader
  takes a pin, and gives it back once.
\<close>

inductive registry_step :: "segmentRegistry \<times> SegmentID list \<Rightarrow> segmentRegistry \<times> SegmentID list \<Rightarrow> bool" where
  take_pin: "registry_pin r i = (None, r') \<Longrightarrow> length ps < MaxUint64 \<Longrightarrow> registry_step (r, ps) (r', i # ps)"
| take_sealed: "pinSealed r i = (Some None, r') \<Longrightarrow> length ps < MaxUint64 \<Longrightarrow> registry_step (r, ps) (r', i # ps)"
| give_back: "i \<in> set ps \<Longrightarrow> pin_release r i = (e, r') \<Longrightarrow> registry_step (r, ps) (r', remove1 i ps)"
| rotated: "publishRotation r old sealed active = (e, r') \<Longrightarrow> registry_step (r, ps) (r', ps)"
| compacted: "publishSealed r segments = (e, r') \<Longrightarrow> registry_step (r, ps) (r', ps)"
| retire: "beginRetire r i = (e, r') \<Longrightarrow> registry_step (r, ps) (r', ps)"
| cancel: "cancelRetire r i = (e, r') \<Longrightarrow> registry_step (r, ps) (r', ps)"
| detach: "detachRetired r i = (x, r') \<Longrightarrow> registry_step (r, ps) (r', ps)"

definition entry_ok :: "segmentRegistry \<Rightarrow> SegmentID \<Rightarrow> registryEntry \<Rightarrow> bool" where
  "entry_ok r i e \<longleftrightarrow>
     (if RG_state e = segmentActive then RG_active e \<and> R_objs r i \<noteq> None else \<not> RG_active e \<and> RG_sealed e \<noteq> None)"

definition registry_ok :: "segmentRegistry \<times> SegmentID list \<Rightarrow> bool" where
  "registry_ok = (\<lambda>(r, ps).
     (\<forall>i e. entry_of r i = Some e \<longrightarrow> entry_ok r i e \<and> unat (RG_pins e) = count_list ps i) \<and>
     (\<forall>i \<in> set ps. entry_of r i \<noteq> None) \<and> length ps \<le> MaxUint64)"

lemma entry_of_set [simp]: "entry_of (set_entry r i e) j = (if j = i then Some e else entry_of r j)"
  by (simp add: entry_of_def set_entry_def AList.update_conv')

lemma set_entry_fields [simp]:
  "R_objs (set_entry r i e) = R_objs r" "R_active (set_entry r i e) = R_active r" "R_closed (set_entry r i e) = R_closed r"
  by (simp_all add: set_entry_def)

lemma entry_of_update [simp]:
  "entry_of (r\<lparr>R_active := a\<rparr>) = entry_of r" "entry_of (r\<lparr>R_objs := objs\<rparr>) = entry_of r"
  "entry_of (r\<lparr>R_closed := c\<rparr>) = entry_of r"
  by (simp_all add: entry_of_def fun_eq_iff)

lemma entry_of_delete [simp]:
  "entry_of (r\<lparr>R_entries := AList.delete i (R_entries r)\<rparr>) j = (if j = i then None else entry_of r j)"
  by (simp add: entry_of_def AList.delete_conv')

lemma count_list_remove1: "count_list (remove1 i ps) j = (if i = j then count_list ps j - 1 else count_list ps j)"
  by (induction ps) auto

lemma count_list_le: "count_list ps i \<le> length ps"
  by (induction ps) auto

lemma pin_counted:
  assumes ok: "registry_ok (r, ps)" and e: "entry_of r i = Some e" and n: "length ps < MaxUint64"
  shows "registry_ok (set_entry r i (e\<lparr>RG_pins := RG_pins e + 1\<rparr>), i # ps)"
proof -
  have "unat (RG_pins e) = count_list ps i" using ok e by (simp add: registry_ok_def)
  then have "RG_pins e \<noteq> max_u64" using n count_list_le [of ps i] by (auto simp: u64_eq_max_iff)
  then have "unat (RG_pins e + 1) = Suc (count_list ps i)"
    using \<open>unat (RG_pins e) = _\<close> by (simp add: unat_succ_u64)
  then show ?thesis
    using ok e n by (auto simp: registry_ok_def entry_ok_def split: if_splits)
qed

lemma state_change_ok:
  assumes "registry_ok (r, ps)" "entry_of r i = Some e" "RG_pins e' = RG_pins e" "entry_ok r i e'"
  shows "registry_ok (set_entry r i e', ps)"
  using assms by (auto simp: registry_ok_def entry_ok_def split: if_splits)

lemma fresh_entry_ok:
  assumes "registry_ok (r, ps)" "i \<notin> set ps" "RG_pins e' = 0" "entry_ok r i e'"
  shows "registry_ok (set_entry r i e', ps)"
proof -
  have "count_list ps i = 0" using assms(2) by (simp add: count_list_0_iff)
  then show ?thesis
    using assms by (auto simp: registry_ok_def entry_ok_def split: if_splits)
qed

lemma unpinned: "registry_ok (r, ps) \<Longrightarrow> entry_of r i = None \<Longrightarrow> i \<notin> set ps"
  by (auto simp: registry_ok_def)

lemma publishRotation_ok:
  assumes "registry_ok (r, ps)" "publishRotation r old sealed active = (e, r')"
  shows "registry_ok (r', ps)"
proof (cases "r' = r")
  case False
  let ?new = "SH_SegmentID (AS_header active)"
  obtain oe obj obj' where oe: "entry_of r old = Some oe" "RG_active oe" "R_objs r old = Some obj" "entry_of r ?new = None"
    and r': "r' = (set_entry (set_entry r old (oe\<lparr>RG_state := segmentSealed, RG_active := False, RG_sealed := Some sealed\<rparr>))
        ?new active_entry)\<lparr>R_active := ?new, R_objs := (R_objs r)(old \<mapsto> obj', ?new \<mapsto> active)\<rparr>"
    using assms(2) False by (auto simp: publishRotation_def Let_def split: if_splits option.splits sum.splits)
  have new: "?new \<noteq> old" "?new \<notin> set ps" using oe unpinned [OF assms(1)] by auto
  then have "count_list ps ?new = 0" by (simp add: count_list_0_iff)
  then show ?thesis
    using assms(1) oe new unfolding r'
    by (auto simp: registry_ok_def entry_ok_def active_entry_def split: if_splits)
qed (use assms in simp)

lemma publishSealed_ok:
  assumes "registry_ok (r, ps)" "publishSealed r segments = (e, r')"
  shows "registry_ok (r', ps)"
proof -
  have fold: "registry_ok (foldl (\<lambda>r s. set_entry r (SH_SegmentID (SG_header s)) (sealed_entry s)) r segments, ps)"
    if "\<forall>s \<in> set segments. SH_SegmentID (SG_header s) \<notin> set ps" "registry_ok (r, ps)" for r
    using that
  proof (induction segments arbitrary: r)
    case (Cons s segments)
    have "registry_ok (set_entry r (SH_SegmentID (SG_header s)) (sealed_entry s), ps)"
      using Cons.prems by (intro fresh_entry_ok) (auto simp: sealed_entry_def entry_ok_def)
    then show ?case using Cons by simp
  qed simp
  show ?thesis
    using assms fold [OF _ assms(1)] unpinned [OF assms(1)]
    by (auto simp: publishSealed_def list_ex_iff split: if_splits)
qed

lemma pin_release_ok:
  assumes "registry_ok (r, ps)" "i \<in> set ps" "pin_release r i = (e, r')"
  shows "registry_ok (r', remove1 i ps)" "e = None"
proof -
  obtain en where en: "entry_of r i = Some en" "unat (RG_pins en) = count_list ps i"
    using assms(1,2) by (auto simp: registry_ok_def)
  have pos: "count_list ps i \<noteq> 0" using assms(2) by (simp add: count_list_0_iff)
  then have nz: "RG_pins en \<noteq> 0" using en(2) by auto
  then show "e = None" using assms(3) en by (simp add: pin_release_def)
  have r': "r' = set_entry r i (en\<lparr>RG_pins := RG_pins en - 1\<rparr>)"
    using assms(3) en nz by (simp add: pin_release_def)
  have "1 \<le> RG_pins en" using nz by (simp add: word_le_nat_alt word_unat_eq_iff [of "RG_pins en"])
  then have "unat (RG_pins en - 1) = count_list ps i - 1" using en(2) by (simp add: unat_sub)
  moreover have "set (remove1 i ps) \<subseteq> set ps" by (rule set_remove1_subset)
  ultimately show "registry_ok (r', remove1 i ps)"
    using assms(1) en unfolding r'
    by (auto simp: registry_ok_def entry_ok_def count_list_remove1 length_remove1 split: if_splits)
qed

lemma detachRetired_ok:
  assumes "registry_ok (r, ps)" "detachRetired r i = (x, r')"
  shows "registry_ok (r', ps)" "x = Inr s \<Longrightarrow> i \<notin> set ps"
proof -
  have gone: "i \<notin> set ps" if "entry_of r i = Some e" "RG_pins e = 0" for e
  proof -
    have "unat (RG_pins e) = count_list ps i" using that(1) assms(1) by (simp add: registry_ok_def)
    then show ?thesis using that by (simp add: count_list_0_iff [symmetric])
  qed
  show "x = Inr s \<Longrightarrow> i \<notin> set ps"
    using assms(2) gone by (auto simp: detachRetired_def split: option.splits if_splits)
  show "registry_ok (r', ps)"
  proof (cases "r' = r")
    case False
    then have "r' = r\<lparr>R_entries := AList.delete i (R_entries r)\<rparr>" "i \<notin> set ps"
      using assms(2) gone by (auto simp: detachRetired_def split: option.splits if_splits)
    moreover have "entry_ok r' j e = entry_ok r j e" for j e
      using calculation(1) by (simp add: entry_ok_def)
    ultimately show ?thesis using assms(1) by (auto simp: registry_ok_def)
  qed (use assms in simp)
qed

lemma registry_step_ok: "registry_step s s' \<Longrightarrow> registry_ok s \<Longrightarrow> registry_ok s'"
proof (induction rule: registry_step.induct)
  case (take_pin r i r' ps)
  then show ?case
    by (auto simp: registry_pin_def intro: pin_counted split: if_splits option.splits)
next
  case (take_sealed r i r' ps)
  then show ?case
    by (auto simp: pinSealed_def intro: pin_counted split: if_splits option.splits segmentState.splits)
next
  case (give_back i ps r e r')
  then show ?case by (blast intro: pin_release_ok)
next
  case (rotated r old sealed active e r' ps)
  then show ?case by (blast intro: publishRotation_ok)
next
  case (compacted r segments e r' ps)
  then show ?case by (blast intro: publishSealed_ok)
next
  case (retire r i e r' ps)
  then show ?case
    by (auto simp: beginRetire_def split: if_splits option.splits intro!: state_change_ok) (auto simp: entry_ok_def registry_ok_def split: if_splits)
next
  case (cancel r i e r' ps)
  then show ?case
    by (auto simp: cancelRetire_def split: if_splits option.splits intro!: state_change_ok) (auto simp: entry_ok_def registry_ok_def split: if_splits)
next
  case (detach r i x r' ps)
  then show ?case by (blast intro: detachRetired_ok)
qed

lemma registry_steps_ok: "registry_step\<^sup>*\<^sup>* s s' \<Longrightarrow> registry_ok s \<Longrightarrow> registry_ok s'"
  by (induction rule: rtranclp_induct) (auto intro: registry_step_ok)

lemma register_sealed_ok:
  "registry_ok (r, []) \<Longrightarrow> register_sealed r sealed = Inr r' \<Longrightarrow> registry_ok (r', [])"
proof (induction sealed arbitrary: r)
  case (Cons s sealed)
  then have "register_sealed (set_entry r (SH_SegmentID (SG_header s)) (sealed_entry s)) sealed = Inr r'"
    by (auto simp: Let_def split: if_splits)
  moreover have "registry_ok (set_entry r (SH_SegmentID (SG_header s)) (sealed_entry s), [])"
    using Cons.prems(1) by (intro fresh_entry_ok) (auto simp: sealed_entry_def entry_ok_def)
  ultimately show ?case by (rule Cons.IH [rotated])
qed simp

lemma newSegmentRegistry_ok: "newSegmentRegistry active sealed = Inr r \<Longrightarrow> registry_ok (r, [])"
  by (auto simp: newSegmentRegistry_def Let_def split: if_splits
      elim!: register_sealed_ok [rotated])
    (auto simp: registry_ok_def entry_ok_def active_entry_def entry_of_def)



end
