(* ===== verification/Log_Writer.thy ===== *)
theory Log_Writer
  imports Log_Catalog Segment_Registry
begin

text \<open>
  The record log above its segments: the byte budget of queued appends (\<^verbatim>\<open>budget.go\<close>), the segment
  rotation (\<^verbatim>\<open>open.go\<close> and the file protocol of \<^verbatim>\<open>rotation_journal.go\<close>), the writer goroutine
  (\<^verbatim>\<open>writer.go\<close>) and the operations of a \<^verbatim>\<open>Log\<close> (\<^verbatim>\<open>log.go\<close>).

  The state of a log is one record, which every operation takes and returns. The writer holds a
  pointer to the active segment: the id under which the object lives in the registry's store. The
  response channel of a request is an entry of \<open>L_responses\<close>; a request is completed once its id
  occurs there. The request channel is a list passed to the writer's loop. A context is the list of
  answers it gives at the points that consult it. Durations are not modelled, and closing a file
  does not fail.
\<close>

section \<open>The byte budget\<close>

record byteBudget =
  BB_limit :: u64
  BB_used :: u64
  BB_closed :: bool

datatype acquire_outcome = Acquired | AcquireFailed err | AcquireWait

definition newByteBudget :: "u64 \<Rightarrow> byteBudget" where
  "newByteBudget limit = \<lparr>BB_limit = limit, BB_used = 0, BB_closed = False\<rparr>"

text \<open>One turn of the loop of \<^verbatim>\<open>acquire\<close>; \<open>AcquireWait\<close> is the \<^verbatim>\<open>select\<close> on the change signal.\<close>

definition budget_acquire :: "byteBudget \<Rightarrow> u64 \<Rightarrow> acquire_outcome \<times> byteBudget" where
  "budget_acquire b bytes =
     (if bytes > BB_limit b then (AcquireFailed recordlog_ErrPayloadTooBig, b)
      else if BB_closed b then (AcquireFailed recordlog_ErrClosed, b)
      else if bytes \<le> BB_limit b - BB_used b then (Acquired, b\<lparr>BB_used := BB_used b + bytes\<rparr>)
      else (AcquireWait, b))"

definition release_panics :: "byteBudget \<Rightarrow> u64 \<Rightarrow> bool" where
  "release_panics b bytes \<longleftrightarrow> bytes > BB_used b"

definition budget_release :: "byteBudget \<Rightarrow> u64 \<Rightarrow> byteBudget" where
  \<comment> \<open>the subtraction, which the source makes unless \<open>release_panics\<close>\<close>
  "budget_release b bytes = b\<lparr>BB_used := BB_used b - bytes\<rparr>"

definition budget_close :: "byteBudget \<Rightarrow> byteBudget" where
  "budget_close b = b\<lparr>BB_closed := True\<rparr>"

section \<open>The state of a log\<close>

record LogConfig =
  CF_MaxQueuedBytes :: u64
  CF_QueueCapacity :: int
  CF_BufferBytes :: u32
  CF_BufferRecords :: int

definition LogConfig_validate :: "LogConfig \<Rightarrow> u32 \<Rightarrow> u32 \<Rightarrow> err option" where
  "LogConfig_validate c segmentSize maxPayloadBytes =
     (if segmentSize \<le> SegmentHeaderSize + SegmentFooterSize \<or> maxPayloadBytes = 0 \<or> CF_MaxQueuedBytes c = 0 \<or>
         CF_QueueCapacity c \<le> 0 \<or> CF_BufferBytes c = 0 \<or> CF_BufferRecords c \<le> 0
      then Some recordlog_ErrInvalidConfig
      else case PhysicalRecordSize (unat maxPayloadBytes) of Inl _ \<Rightarrow> Some recordlog_ErrInvalidConfig
      | Inr maximum \<Rightarrow>
          if maximum > segmentSize - SegmentHeaderSize - SegmentFooterSize \<or> ucast maximum > CF_MaxQueuedBytes c
          then Some recordlog_ErrInvalidConfig else None)"

record Watermarks =
  WM_Reserved :: LogPos
  WM_Written :: LogPos
  WM_Durable :: LogPos

record LogStatus =
  LST_Watermarks :: Watermarks
  LST_PendingRecords :: nat
  LST_PendingBytes :: u64
  LST_QueuedRequests :: nat
  LST_QueuedBytes :: u64
  LST_WriteCalls :: u64
  LST_SyncCalls :: u64
  LST_RotationCalls :: u64
  LST_Poisoned :: bool
  LST_Closed :: bool

record log_context =
  X_entry :: "err option"  \<comment> \<open>\<^verbatim>\<open>ctx.Err()\<close> on entry\<close>
  X_wait :: err  \<comment> \<open>the error that ends a wait for budget\<close>
  X_enqueue :: "err option"  \<comment> \<open>the branch \<^verbatim>\<open>ctx.Done()\<close> of the \<^verbatim>\<open>select\<close> that submits the request\<close>
  X_stage :: "err option"  \<comment> \<open>\<^verbatim>\<open>request.ctx.Err()\<close> in the writer\<close>

record appendRequest =
  RQ_id :: nat
  RQ_ctx :: "err option"
  RQ_payload :: bytes
  RQ_physical :: u32
  RQ_sync :: bool
  RQ_budget :: u64
  RQ_stop :: bool
  RQ_reserved :: bool

record pendingRecord =
  PD_request :: appendRequest
  PD_result :: AppendResult
  PD_size :: u32
  PD_payload :: bytes

record log_writer =
  W_active :: SegmentID
  W_deferred :: "appendRequest option"
  W_pending :: "pendingRecord list"
  W_encoded :: bytes
  W_bytes :: u32
  W_waiters :: "pendingRecord list"
  W_needSync :: bool
  W_writes :: u64
  W_syncs :: u64
  W_fault :: "err option"

record 'c Log =
  L_cfg :: LogConfig
  L_catalog :: 'c
  L_hook :: bool  \<comment> \<open>a fault hook is installed\<close>
  L_journal :: "bytes option"  \<comment> \<open>the rotation journal file\<close>
  L_budget :: byteBudget
  L_registry :: segmentRegistry
  L_maxPayloadBytes :: u32
  L_closing :: bool
  L_pending :: "(VAddr \<times> bytes) list"
  L_status :: LogStatus
  L_terminal :: "err option"
  L_writer :: log_writer
  L_responses :: "(nat \<times> AppendResult res) list"
  L_nextRequest :: nat  \<comment> \<open>the identity of the next request object\<close>

definition active_object :: "'c Log \<Rightarrow> activeSegment" where
  "active_object l = the (R_objs (L_registry l) (W_active (L_writer l)))"

definition set_object :: "SegmentID \<Rightarrow> activeSegment \<Rightarrow> 'c Log \<Rightarrow> 'c Log" where
  "set_object i s l = l\<lparr>L_registry := (L_registry l)\<lparr>R_objs := (R_objs (L_registry l))(i \<mapsto> s)\<rparr>\<rparr>"

definition errors_Join :: "err option list \<Rightarrow> err option" where
  \<comment> \<open>\<^verbatim>\<open>errors.Join\<close>: nil arguments are dropped\<close>
  "errors_Join es = (case List.map_filter id es of [] \<Rightarrow> None | e # rest \<Rightarrow> Some (foldl Join e rest))"

section \<open>Rotation\<close>

definition installRotationJournal :: "env \<Rightarrow> rotationJournal \<Rightarrow> 'c Log \<Rightarrow> err option \<times> 'c Log" where
  \<comment> \<open>the creation of the directory and of the temporary file does not fail; a journal that was not
    renamed into place leaves no trace in \<open>L_journal\<close>\<close>
  "installRotationJournal env j l =
     (case encodeRotationJournal j of Inl e \<Rightarrow> (Some e, l) | Inr encoded \<Rightarrow>
      if L_journal l \<noteq> None then (Some recordlog_ErrCorrupt, l)
      else case hitSegmentFault env faultBeforeJournalWrite of Some e \<Rightarrow> (Some e, l) | None \<Rightarrow>
        case os_call env faultBeforeJournalWrite of Some e \<Rightarrow> (Some e, l) | None \<Rightarrow>
        case hitSegmentFault env faultBeforeJournalSync of Some e \<Rightarrow> (Some e, l) | None \<Rightarrow>
        case os_call env faultBeforeJournalSync of Some e \<Rightarrow> (Some e, l) | None \<Rightarrow>
        case hitSegmentFault env faultBeforeJournalRename of Some e \<Rightarrow> (Some e, l) | None \<Rightarrow>
        case os_call env faultBeforeJournalRename of Some e \<Rightarrow> (Some e, l) | None \<Rightarrow>
        let l' = l\<lparr>L_journal := Some encoded\<rparr> in
        case hitSegmentFault env faultBeforeJournalDirSync of Some e \<Rightarrow> (Some e, l') | None \<Rightarrow>
        (os_call env faultBeforeJournalDirSync, l'))"

definition removeRotationJournal :: "env \<Rightarrow> 'c Log \<Rightarrow> err option \<times> 'c Log" where
  "removeRotationJournal env l =
     (let exists = L_journal l \<noteq> None in
      case (if exists then hitSegmentFault env faultBeforeJournalRemove else None) of Some e \<Rightarrow> (Some e, l)
      | None \<Rightarrow>
        case (if exists then os_call env faultBeforeJournalRemove else None) of Some e \<Rightarrow> (Some e, l) | None \<Rightarrow>
        let l' = l\<lparr>L_journal := None\<rparr> in
        case (if exists then hitSegmentFault env faultBeforeCleanupDirSync else None) of Some e \<Rightarrow> (Some e, l')
        | None \<Rightarrow> (os_call env faultBeforeCleanupDirSync, l'))"

text \<open>
  With a fault hook the old segment is published before the new one is created; without one the two
  run concurrently on different files, and both are attempted whatever the other does.
\<close>

definition prepareRotationFiles ::
  "env \<Rightarrow> bool \<Rightarrow> activeSegment \<Rightarrow> SegmentSummary \<Rightarrow> SegmentHeader \<Rightarrow>
   (sealedSegment \<times> SegmentSummary \<times> activeSegment) res \<times> activeSegment" where
  "prepareRotationFiles env hook old prepared header =
     (if hook then
        (case publishPreparedSeal env old prepared of
           (Inl e, old') \<Rightarrow> (Inl e, old')
         | (Inr (sealed, summary), old') \<Rightarrow>
             (case createActiveSegment env header of Inl e \<Rightarrow> (Inl e, old')
              | Inr active \<Rightarrow> (Inr (sealed, summary, active), old')))
      else
        (case (publishPreparedSeal env old prepared, createActiveSegment env header) of
           ((Inr (sealed, summary), old'), Inr active) \<Rightarrow> (Inr (sealed, summary, active), old')
         | ((Inr _, old'), Inl e) \<Rightarrow> (Inl e, old')
         | ((Inl e, old'), Inr active) \<Rightarrow> (Inl e, old')
         | ((Inl e, old'), Inl e') \<Rightarrow> (Inl (Join e e'), old')))"

definition rotation_journal :: "CatalogSnapshot \<Rightarrow> SegmentSummary \<Rightarrow> rotationJournal" where
  "rotation_journal snapshot summary =
     \<lparr>RJ_BaseGeneration = CS_Generation snapshot, RJ_LogID = CS_LogID snapshot, RJ_SegmentSize = CS_SegmentSize snapshot,
      RJ_Old = summary, RJ_NewActive = CS_NextSegmentID snapshot, RJ_NextSegmentID = CS_NextSegmentID snapshot + 1\<rparr>"

text \<open>The second half of \<^verbatim>\<open>rotate\<close>: the files are prepared, the catalog and the registry follow.\<close>

definition rotate_publish ::
  "'c CatalogPort \<Rightarrow> env \<Rightarrow> CatalogSnapshot \<Rightarrow> SegmentSummary \<Rightarrow> SegmentID \<Rightarrow> sealedSegment \<Rightarrow> activeSegment \<Rightarrow> 'c Log \<Rightarrow>
   SegmentID res \<times> 'c Log" where
  "rotate_publish port env snapshot summary oldID sealed newActive l =
     (let journal = rotation_journal snapshot summary;
          (inst, c) = installCatalogRotation port (L_catalog l) snapshot journal; l1 = l\<lparr>L_catalog := c\<rparr> in
      case inst of Inl e \<Rightarrow> (Inl e, l1) | Inr installed \<Rightarrow>
      case validateRotationResult snapshot installed summary (RJ_NewActive journal) (RJ_NextSegmentID journal) of
        Some e \<Rightarrow> (Inl e, l1) | None \<Rightarrow>
      let (pe, r) = publishRotation (L_registry l1) oldID sealed newActive; l2 = l1\<lparr>L_registry := r\<rparr> in
      case pe of Some e \<Rightarrow> (Inl e, l2) | None \<Rightarrow>
      case removeRotationJournal env l2 of (Some e, l3) \<Rightarrow> (Inl e, l3)
      | (None, l3) \<Rightarrow> (Inr (SH_SegmentID (AS_header newActive)), l3))"

definition log_rotate :: "'c CatalogPort \<Rightarrow> env \<Rightarrow> 'c Log \<Rightarrow> SegmentID res \<times> 'c Log" where
  "log_rotate port env l =
     (let old = active_object l; i = W_active (L_writer l); snapshot = SnapshotRecordLog port (L_catalog l) in
      case CatalogSnapshot_validate snapshot of Some e \<Rightarrow> (Inl e, l) | None \<Rightarrow>
      if CS_ActiveSegmentID snapshot \<noteq> SH_SegmentID (AS_header old) \<or> CS_LogID snapshot \<noteq> SH_LogID (AS_header old) \<or>
         CS_SegmentSize snapshot \<noteq> SH_SegmentSize (AS_header old) then (Inl recordlog_ErrCorrupt, l)
      else let summary = summaryLocked old; journal = rotation_journal snapshot summary;
        (p, old1) = prepareSeal env old; l1 = set_object i old1 l
      in case p of Inl e \<Rightarrow> (Inl e, l1) | Inr prepared \<Rightarrow>
      if prepared \<noteq> summary then (Inl recordlog_ErrCorrupt, l1)
      else case installRotationJournal env journal l1 of (Some e, l2) \<Rightarrow> (Inl e, l2) | (None, l2) \<Rightarrow>
      let (f, old2) = prepareRotationFiles env (L_hook l2) old1 prepared (headerFor snapshot (RJ_NewActive journal));
        l3 = set_object i old2 l2
      in case f of Inl e \<Rightarrow> (Inl e, l3) | Inr (sealed, published, newActive) \<Rightarrow>
      if published \<noteq> summary then (Inl recordlog_ErrCorrupt, l3)
      else rotate_publish port env snapshot summary (SH_SegmentID (AS_header old)) sealed newActive l3)"

section \<open>The writer\<close>

definition setTerminal :: "err \<Rightarrow> 'c Log \<Rightarrow> err \<times> 'c Log" where
  "setTerminal cause l =
     (case L_terminal l of Some t \<Rightarrow> (t, l)
      | None \<Rightarrow> let t = Join recordlog_ErrPoisoned cause in
          (t, l\<lparr>L_terminal := Some t, L_status := (L_status l)\<lparr>LST_Poisoned := True\<rparr>, L_budget := budget_close (L_budget l)\<rparr>))"

definition completed :: "'c Log \<Rightarrow> appendRequest \<Rightarrow> bool" where
  "completed l rq \<longleftrightarrow> RQ_id rq \<in> fst ` set (L_responses l)"

definition writer_complete :: "appendRequest \<Rightarrow> AppendResult res \<Rightarrow> 'c Log \<Rightarrow> 'c Log" where
  "writer_complete rq response l =
     (if completed l rq then l else l\<lparr>L_responses := L_responses l @ [(RQ_id rq, response)]\<rparr>)"

definition writer_reject :: "appendRequest \<Rightarrow> err \<Rightarrow> 'c Log \<Rightarrow> 'c Log" where
  "writer_reject rq e l =
     (if completed l rq then l
      else writer_complete rq (Inl e)
        (if \<not> RQ_reserved rq \<and> RQ_budget rq \<noteq> 0 then l\<lparr>L_budget := budget_release (L_budget l) (RQ_budget rq)\<rparr> else l))"

definition clear_pending :: "'c Log \<Rightarrow> 'c Log" where
  "clear_pending l = l\<lparr>L_status := (L_status l)\<lparr>LST_PendingRecords := 0, LST_PendingBytes := 0\<rparr>\<rparr>"

definition writer_poison :: "err \<Rightarrow> 'c Log \<Rightarrow> err \<times> 'c Log" where
  "writer_poison cause l =
     (case W_fault (L_writer l) of Some f \<Rightarrow> (f, l)
      | None \<Rightarrow>
          let (f, l1) = setTerminal cause l;
              l2 = foldl (\<lambda>l waiter. writer_complete (PD_request waiter) (Inl f) l) l1 (W_waiters (L_writer l));
              l3 = clear_pending (l2\<lparr>L_pending := []\<rparr>)
          in (f, l3\<lparr>L_writer := (L_writer l3)\<lparr>W_fault := Some f, W_pending := [], W_waiters := [], W_encoded := [],
                      W_bytes := 0, W_needSync := False\<rparr>\<rparr>))"

definition poison_reject :: "appendRequest \<Rightarrow> err \<Rightarrow> 'c Log \<Rightarrow> 'c Log" where
  \<comment> \<open>\<^verbatim>\<open>w.reject(request, w.poison(err))\<close>\<close>
  "poison_reject rq cause l = (let (f, l') = writer_poison cause l in writer_reject rq f l')"

definition canStage :: "'c Log \<Rightarrow> appendRequest \<Rightarrow> bool" where
  "canStage l rq =
     (let w = L_writer l; limit = CF_BufferBytes (L_cfg l); remaining = remainingLocked (active_object l) in
      if RQ_stop rq \<or> RQ_physical rq = 0 then False
      else if W_pending w \<noteq> [] \<and> (RQ_physical rq > limit \<or> W_bytes w > limit - RQ_physical rq) then False
      else W_bytes w \<le> remaining \<and> RQ_physical rq \<le> remaining - W_bytes w)"

text \<open>
  The part of \<^verbatim>\<open>stage\<close> that replaces a full segment: the new active segment and its watermarks. A
  rotation that fails poisons the log and rejects the request.
\<close>

definition stage_rotate :: "'c CatalogPort \<Rightarrow> env \<Rightarrow> appendRequest \<Rightarrow> 'c Log \<Rightarrow> bool \<times> 'c Log" where
  "stage_rotate port env rq l =
     (if RQ_physical rq \<le> remainingLocked (active_object l) then (True, l)
      else let (next, l1) = log_rotate port env l;
               l2 = l1\<lparr>L_status := (L_status l1)\<lparr>LST_RotationCalls := LST_RotationCalls (L_status l1) + 1\<rparr>\<rparr> in
        case next of Inl e \<Rightarrow> (False, poison_reject rq e l2)
        | Inr i \<Rightarrow>
            let s = the (R_objs (L_registry l2) i) in
            if \<not> AS_open s \<or> SH_PreviousSegment (AS_header s) \<noteq> SH_SegmentID (AS_header (active_object l2))
            then (False, poison_reject rq recordlog_ErrInvalidConfig l2)
            else let position = \<lparr>LogPos_SegmentID = SH_SegmentID (AS_header s), LogPos_Offset = SS_ValidEnd (summaryLocked s)\<rparr> in
              (True, l2\<lparr>L_writer := (L_writer l2)\<lparr>W_active := i\<rparr>,
                L_status := (L_status l2)\<lparr>LST_Watermarks :=
                  \<lparr>WM_Reserved = position, WM_Written = position, WM_Durable = position\<rparr>\<rparr>\<rparr>))"

text \<open>The part of \<^verbatim>\<open>stage\<close> that puts the record into the buffer, once its address is known.\<close>

definition stage_record :: "appendRequest \<Rightarrow> AppendResult \<Rightarrow> bytes \<Rightarrow> 'c Log \<Rightarrow> 'c Log" where
  "stage_record rq result encoded l =
     (let w = L_writer l; rq' = rq\<lparr>RQ_payload := [], RQ_reserved := True, RQ_budget := 0\<rparr>;
        record = \<lparr>PD_request = rq', PD_result = result, PD_size = RQ_physical rq, PD_payload = RQ_payload rq\<rparr>;
        w' = w\<lparr>W_encoded := W_encoded w @ encoded, W_pending := W_pending w @ [record], W_bytes := W_bytes w + RQ_physical rq,
               W_needSync := W_needSync w \<or> RQ_sync rq,
               W_waiters := (if RQ_sync rq then W_waiters w @ [record] else W_waiters w)\<rparr>;
        status = L_status l;
        l' = l\<lparr>L_writer := w', L_pending := AList.update (AR_Addr result) (RQ_payload rq) (L_pending l),
               L_status := status\<lparr>LST_Watermarks := (LST_Watermarks status)\<lparr>WM_Reserved := AR_End result\<rparr>,
                 LST_PendingRecords := length (W_pending w'), LST_PendingBytes := ucast (W_bytes w')\<rparr>,
               L_budget := budget_release (L_budget l) (RQ_budget rq)\<rparr>
      in if RQ_sync rq then l' else writer_complete rq' (Inr result) l')"

definition writer_stage :: "'c CatalogPort \<Rightarrow> env \<Rightarrow> appendRequest \<Rightarrow> 'c Log \<Rightarrow> bool \<times> 'c Log" where
  "writer_stage port env rq l =
     (case RQ_ctx rq of Some e \<Rightarrow> (False, writer_reject rq e l)
      | None \<Rightarrow>
          let (rotated, l1) = stage_rotate port env rq l in
          if \<not> rotated then (False, l1)
          else let s = active_object l1; offset = SS_ValidEnd (summaryLocked s) + W_bytes (L_writer l1) in
            case NewVAddr (SH_SegmentID (AS_header s)) offset (RQ_physical rq) of
              Inl e \<Rightarrow> (False, poison_reject rq e l1)
            | Inr addr \<Rightarrow>
              case NewAppendResult addr (RQ_physical rq) of Inl e \<Rightarrow> (False, poison_reject rq e l1)
              | Inr result \<Rightarrow>
                case EncodeRecordTo (unat (RQ_physical rq)) addr (RQ_payload rq) of Inl e \<Rightarrow> (False, poison_reject rq e l1)
                | Inr encoded \<Rightarrow> (True, stage_record rq result encoded l1))"

definition reset_buffer :: "'c Log \<Rightarrow> 'c Log" where
  "reset_buffer l = l\<lparr>L_writer := (L_writer l)\<lparr>W_pending := [], W_waiters := [], W_bytes := 0, W_needSync := False, W_encoded := []\<rparr>\<rparr>"

definition note_sync :: "'c Log \<Rightarrow> 'c Log" where
  "note_sync l =
     (let w = L_writer l; status = L_status l; marks = LST_Watermarks status in
      l\<lparr>L_writer := w\<lparr>W_syncs := W_syncs w + 1\<rparr>,
        L_status := status\<lparr>LST_Watermarks := marks\<lparr>WM_Durable := WM_Written marks\<rparr>, LST_SyncCalls := W_syncs w + 1\<rparr>\<rparr>)"

definition note_write :: "'c Log \<Rightarrow> 'c Log" where
  "note_write l =
     (let w = L_writer l; status = L_status l; marks = LST_Watermarks status in
      l\<lparr>L_writer := w\<lparr>W_writes := W_writes w + 1\<rparr>,
        L_pending := foldl (\<lambda>m record. AList.delete (AR_Addr (PD_result record)) m) (L_pending l) (W_pending w),
        L_status := status\<lparr>LST_Watermarks := marks\<lparr>WM_Written := AR_End (PD_result (last (W_pending w)))\<rparr>,
          LST_PendingRecords := 0, LST_PendingBytes := 0, LST_WriteCalls := W_writes w + 1\<rparr>\<rparr>)"

definition writer_flush :: "env \<Rightarrow> 'c Log \<Rightarrow> err option \<times> 'c Log" where
  "writer_flush env l =
     (let w = L_writer l; i = W_active w in
      if W_pending w = [] then (None, l)
      else let extents = map (\<lambda>record. \<lparr>RE_Result = PD_result record, RE_Size = PD_size record\<rparr>) (W_pending w);
               (written, e, s) = appendEncoded env (active_object l) (W_encoded w) extents;
               l1 = set_object i s l in
        if e \<noteq> None \<or> written \<noteq> length (W_encoded w) then (errors_Join [e, Some recordlog_ErrCorrupt], l1)
        else let l2 = note_write l1 in
          if \<not> W_needSync w then (None, reset_buffer l2)
          else let (se, s') = active_sync env s; l3 = set_object i s' l2 in
            case se of Some e' \<Rightarrow> (Some e', l3)
            | None \<Rightarrow>
                let l4 = note_sync l3 in
                (None, reset_buffer (foldl (\<lambda>l waiter. writer_complete (PD_request waiter) (Inr (PD_result waiter)) l) l4 (W_waiters w))))"

definition writer_stop :: "env \<Rightarrow> appendRequest \<Rightarrow> 'c Log \<Rightarrow> err option \<times> 'c Log" where
  \<comment> \<open>the response of a stop request carries only the error, returned here\<close>
  "writer_stop env rq l =
     (case W_fault (L_writer l) of Some f \<Rightarrow> (Some f, l)
      | None \<Rightarrow>
          let (e, s) = active_sync env (active_object l); l1 = set_object (W_active (L_writer l)) s l in
          case e of Some e' \<Rightarrow> (let (f, l2) = writer_poison e' l1 in (Some f, l2))
          | None \<Rightarrow> (None, note_sync l1))"

text \<open>The inner loop of \<^verbatim>\<open>run\<close>: take the requests that are waiting while the buffer has room.\<close>

fun writer_fill :: "'c CatalogPort \<Rightarrow> env \<Rightarrow> appendRequest list \<Rightarrow> 'c Log \<Rightarrow> appendRequest list \<times> 'c Log" where
  "writer_fill port env [] l = ([], l)"
| "writer_fill port env (next # queue) l =
     (if \<not> (int (length (W_pending (L_writer l))) < CF_BufferRecords (L_cfg l) \<and>
            W_bytes (L_writer l) < CF_BufferBytes (L_cfg l)) then (next # queue, l)
      else if RQ_stop next \<or> \<not> canStage l next
      then (queue, l\<lparr>L_writer := (L_writer l)\<lparr>W_deferred := Some next\<rparr>\<rparr>)
      else let (staged, l') = writer_stage port env next l in
        if \<not> staged \<and> W_fault (L_writer l') \<noteq> None then (queue, l')
        else writer_fill port env queue l')"

text \<open>
  One turn of the loop of \<^verbatim>\<open>run\<close> on the requests that are waiting. A stop request ends the loop
  with the error of its response; \<open>None\<close> is a turn that goes on.
\<close>

definition writer_turn ::
  "'c CatalogPort \<Rightarrow> env \<Rightarrow> appendRequest list \<Rightarrow> 'c Log \<Rightarrow> err option option \<times> appendRequest list \<times> 'c Log" where
  "writer_turn port env queue l =
     (case (case W_deferred (L_writer l) of
              Some rq \<Rightarrow> Some (rq, queue, l\<lparr>L_writer := (L_writer l)\<lparr>W_deferred := None\<rparr>\<rparr>)
            | None \<Rightarrow> (case queue of [] \<Rightarrow> None | rq # rest \<Rightarrow> Some (rq, rest, l))) of
        None \<Rightarrow> (None, queue, l)
      | Some (rq, queue1, l1) \<Rightarrow>
          if RQ_stop rq then (let (e, l2) = writer_stop env rq l1 in (Some e, queue1, l2))
          else case W_fault (L_writer l1) of Some f \<Rightarrow> (None, queue1, writer_reject rq f l1)
          | None \<Rightarrow>
              let (staged, l2) = writer_stage port env rq l1 in
              if \<not> staged then (None, queue1, l2)
              else let (queue2, l3) = writer_fill port env queue1 l2; (e, l4) = writer_flush env l3 in
                case e of None \<Rightarrow> (None, queue2, l4)
                | Some cause \<Rightarrow> (None, queue2, snd (writer_poison cause l4)))"

section \<open>Operations of a log\<close>

definition newLog :: "LogConfig \<Rightarrow> u32 \<Rightarrow> activeSegment \<Rightarrow> segmentRegistry \<Rightarrow> bool \<Rightarrow> 'c \<Rightarrow> 'c Log res" where
  "newLog cfg maxPayloadBytes active registry hook c =
     (if LogConfig_validate cfg (SH_SegmentSize (AS_header active)) maxPayloadBytes \<noteq> None
      then Inl recordlog_ErrInvalidConfig
      else let i = SH_SegmentID (AS_header active) in
        if R_closed registry \<or> R_active registry \<noteq> i \<or>
           (case entry_of registry i of None \<Rightarrow> True | Some e \<Rightarrow> \<not> RG_active e \<or> R_objs registry i \<noteq> Some active)
        then Inl recordlog_ErrInvalidConfig
        else let initial = \<lparr>LogPos_SegmentID = i, LogPos_Offset = SS_ValidEnd (summaryLocked active)\<rparr> in
          Inr \<lparr>L_cfg = cfg, L_catalog = c, L_hook = hook, L_journal = None,
            L_budget = newByteBudget (CF_MaxQueuedBytes cfg), L_registry = registry, L_maxPayloadBytes = maxPayloadBytes,
            L_closing = False, L_pending = [],
            L_status = \<lparr>LST_Watermarks = \<lparr>WM_Reserved = initial, WM_Written = initial, WM_Durable = initial\<rparr>,
              LST_PendingRecords = 0, LST_PendingBytes = 0, LST_QueuedRequests = 0, LST_QueuedBytes = 0, LST_WriteCalls = 0,
              LST_SyncCalls = 0, LST_RotationCalls = 0, LST_Poisoned = False, LST_Closed = False\<rparr>,
            L_terminal = None,
            L_writer = \<lparr>W_active = i, W_deferred = None, W_pending = [], W_encoded = [], W_bytes = 0, W_waiters = [],
              W_needSync = False, W_writes = 0, W_syncs = 0, W_fault = None\<rparr>,
            L_responses = [], L_nextRequest = 0\<rparr>)"

definition preferTerminal :: "'c Log \<Rightarrow> err \<Rightarrow> err" where
  "preferTerminal l fallback =
     (case L_terminal l of Some t \<Rightarrow> t | None \<Rightarrow> if L_closing l then recordlog_ErrClosed else fallback)"

definition submitErrorLocked :: "'c Log \<Rightarrow> err" where
  "submitErrorLocked l = (case L_terminal l of Some t \<Rightarrow> t | None \<Rightarrow> recordlog_ErrClosed)"

text \<open>\<^verbatim>\<open>Append\<close> up to the hand-over of the request to the writer.\<close>

definition log_submit :: "log_context \<Rightarrow> 'c Log \<Rightarrow> bytes \<Rightarrow> bool \<Rightarrow> appendRequest res \<times> 'c Log" where
  "log_submit ctx l payload syncWrite =
     (case X_entry ctx of Some e \<Rightarrow> (Inl e, l)
      | None \<Rightarrow>
          if length payload > unat (L_maxPayloadBytes l) then (Inl recordlog_ErrPayloadTooBig, l)
          else case PhysicalRecordSize (length payload) of Inl e \<Rightarrow> (Inl e, l)
          | Inr physical \<Rightarrow>
              (case budget_acquire (L_budget l) (ucast physical) of
                 (AcquireFailed e, _) \<Rightarrow> (Inl (preferTerminal l e), l)
               | (AcquireWait, _) \<Rightarrow> (Inl (preferTerminal l (X_wait ctx)), l)
               | (Acquired, b) \<Rightarrow>
                   let rq = \<lparr>RQ_id = L_nextRequest l, RQ_ctx = X_stage ctx, RQ_payload = payload, RQ_physical = physical,
                         RQ_sync = syncWrite, RQ_budget = ucast physical, RQ_stop = False, RQ_reserved = False\<rparr>;
                       l1 = l\<lparr>L_budget := b, L_nextRequest := Suc (L_nextRequest l)\<rparr>;
                       l2 = l1\<lparr>L_budget := budget_release b (ucast physical)\<rparr>
                   in if L_closing l then (Inl (submitErrorLocked l), l2)
                      else case L_terminal l of Some t \<Rightarrow> (Inl t, l2)
                      | None \<Rightarrow>
                          (case X_enqueue ctx of Some e \<Rightarrow> (Inl e, l2) | None \<Rightarrow> (Inr rq, l1))))"

text \<open>An \<^verbatim>\<open>Append\<close> whose request is the next one the writer takes, and its response.\<close>

definition Log_Append :: "'c CatalogPort \<Rightarrow> env \<Rightarrow> log_context \<Rightarrow> 'c Log \<Rightarrow> bytes \<Rightarrow> bool \<Rightarrow> AppendResult res \<times> 'c Log" where
  "Log_Append port env ctx l payload syncWrite =
     (case log_submit ctx l payload syncWrite of (Inl e, l1) \<Rightarrow> (Inl e, l1)
      | (Inr rq, l1) \<Rightarrow>
          let (_, _, l2) = writer_turn port env [rq] l1 in (the (map_of (L_responses l2) (RQ_id rq)), l2))"

definition Log_Read :: "'c Log \<Rightarrow> err option \<Rightarrow> VAddr \<Rightarrow> bytes res \<times> 'c Log" where
  "Log_Read l ctx addr =
     (case ctx of Some e \<Rightarrow> (Inl e, l) | None \<Rightarrow>
      if \<not> VAddr_Valid addr then (Inl recordlog_ErrInvalidVAddr, l)
      else case L_terminal l of Some t \<Rightarrow> (Inl t, l) | None \<Rightarrow>
      if L_closing l then (Inl recordlog_ErrClosed, l)
      else case map_of (L_pending l) addr of Some payload \<Rightarrow> (Inr payload, l) | None \<Rightarrow>
      (case registry_pin (L_registry l) (VAddr_SegmentID addr) of (Some e, _) \<Rightarrow> (Inl e, l)
       | (None, r) \<Rightarrow>
           let payload = pin_read r (VAddr_SegmentID addr) addr;
               (re, r') = pin_release r (VAddr_SegmentID addr)
           in (case errors_Join [(case payload of Inl e \<Rightarrow> Some e | Inr _ \<Rightarrow> None), re] of
                 Some e \<Rightarrow> Inl e | None \<Rightarrow> payload, l\<lparr>L_registry := r'\<rparr>)))"

definition Log_Status :: "'c Log \<Rightarrow> appendRequest list \<Rightarrow> LogStatus" where
  "Log_Status l queue = (L_status l)\<lparr>LST_QueuedRequests := length queue, LST_QueuedBytes := BB_used (L_budget l)\<rparr>"

definition Log_Close :: "env \<Rightarrow> 'c CatalogPort \<Rightarrow> 'c Log \<Rightarrow> err option option \<times> 'c Log" where
  \<comment> \<open>the first \<^verbatim>\<open>Close\<close>, with no other request waiting; \<open>None\<close> waits for the pins of readers\<close>
  "Log_Close env port l =
     (let l1 = l\<lparr>L_closing := True, L_budget := budget_close (L_budget l)\<rparr>;
          stop = \<lparr>RQ_id = L_nextRequest l, RQ_ctx = None, RQ_payload = [], RQ_physical = 0, RQ_sync = False, RQ_budget = 0,
            RQ_stop = True, RQ_reserved = False\<rparr>;
          (e, _, l2) = writer_turn port env [stop] l1;
          (ce, r) = registry_close (L_registry l2);
          l3 = l2\<lparr>L_registry := r\<rparr>
      in case ce of None \<Rightarrow> (None, l3)
         | Some ce' \<Rightarrow> (Some (errors_Join [case e of Some e' \<Rightarrow> e' | None \<Rightarrow> None, ce']),
                        l3\<lparr>L_status := (L_status l3)\<lparr>LST_Closed := True\<rparr>\<rparr>))"

section \<open>Scans of a log\<close>

record scanSnapshot =
  SNAP_written :: LogPos
  SNAP_reserved :: LogPos
  SNAP_pending :: "(AppendResult \<times> bytes) list"

definition snapshotForScan :: "'c Log \<Rightarrow> scanSnapshot" where
  "snapshotForScan l =
     (let marks = LST_Watermarks (L_status l);
          item = (\<lambda>(addr, payload).
            (case res_bind (PhysicalRecordSize (length payload)) (NewAppendResult addr) of
               Inr result \<Rightarrow> (result, payload)
             | Inl _ \<Rightarrow> (\<lparr>AR_Addr = 0, AR_End = \<lparr>LogPos_SegmentID = 0, LogPos_Offset = 0\<rparr>\<rparr>, payload)))
      in \<lparr>SNAP_written = WM_Written marks, SNAP_reserved = WM_Reserved marks,
          SNAP_pending = sort_key (\<lambda>r. AR_Addr (fst r)) (map item (L_pending l))\<rparr>)"

definition record_start :: "AppendResult \<Rightarrow> LogPos" where
  "record_start r = \<lparr>LogPos_SegmentID = VAddr_SegmentID (AR_Addr r), LogPos_Offset = VAddr_Offset (AR_Addr r)\<rparr>"

definition validPendingBoundary :: "scanSnapshot \<Rightarrow> LogPos \<Rightarrow> bool" where
  "validPendingBoundary snapshot position =
     (if position = SNAP_written snapshot \<or> position = SNAP_reserved snapshot then True
      else list_ex (\<lambda>(r, _). position = record_start r \<or> position = AR_End r) (SNAP_pending snapshot))"

text \<open>
  The body of the loop of \<^verbatim>\<open>Scan\<close> over the pinned segments. The context is consulted before each visit; an error
  it reports during the scan is an error of the visitor. The test for \<^verbatim>\<open>start == limit\<close> that the source
  repeats under \<^verbatim>\<open>start > limit\<close> never holds there.
\<close>

definition scan_pin ::
  "segmentRegistry \<Rightarrow> scanSnapshot \<Rightarrow> LogPos \<Rightarrow> 's visitor \<Rightarrow> bool \<times> 's \<Rightarrow> SegmentID \<Rightarrow> (bool \<times> 's) res" where
  "scan_pin r snapshot from visit = (\<lambda>(found, st) i.
     (if i < LogPos_SegmentID from \<or> i > LogPos_SegmentID (SNAP_written snapshot) then Inr (found, st)
      else let found' = (found \<or> i = LogPos_SegmentID from);
               start = (if i = LogPos_SegmentID from then LogPos_Offset from else SegmentHeaderSize);
               active = (case entry_of r i of Some e \<Rightarrow> if RG_active e then R_objs r i else None | None \<Rightarrow> None);
               sealed = (case entry_of r i of Some e \<Rightarrow> RG_sealed e | None \<Rightarrow> None);
               limit = (case active of
                   Some s \<Rightarrow> let e = SS_ValidEnd (summaryLocked s) in
                     if i = LogPos_SegmentID (SNAP_written snapshot) \<and> e > LogPos_Offset (SNAP_written snapshot)
                     then LogPos_Offset (SNAP_written snapshot) else e
                 | None \<Rightarrow> (case sealed of Some s \<Rightarrow> SS_ValidEnd (SG_summary s) | None \<Rightarrow> 0))
        in if start > limit then
             if active \<noteq> None \<and> i = LogPos_SegmentID (SNAP_reserved snapshot) \<and> validPendingBoundary snapshot from
             then Inr (found', st) else Inl recordlog_ErrInvalidLogPos
           else if start = limit then Inr (found', st)
           else res_bind
             (case active of Some s \<Rightarrow> active_scanTo s start limit (Some visit) st
              | None \<Rightarrow> (case sealed of Some s \<Rightarrow> sealed_scan s start (Some visit) st | None \<Rightarrow> Inl recordlog_ErrInvalidLogPos))
             (\<lambda>st'. Inr (found', st'))))"

definition Log_Scan :: "'c Log \<Rightarrow> err option \<Rightarrow> LogPos \<Rightarrow> 's visitor option \<Rightarrow> 's \<Rightarrow> 's res \<times> 'c Log" where
  "Log_Scan l ctx from visit st =
     (case visit of None \<Rightarrow> (Inl recordlog_ErrInvalidConfig, l) | Some v \<Rightarrow>
      if \<not> LogPos_Valid from then (Inl recordlog_ErrInvalidConfig, l)
      else case ctx of Some e \<Rightarrow> (Inl e, l) | None \<Rightarrow>
      case L_terminal l of Some t \<Rightarrow> (Inl t, l) | None \<Rightarrow>
      if L_closing l then (Inl recordlog_ErrClosed, l)
      else let snapshot = snapshotForScan l in
        case pinSnapshot (L_registry l) of (Inl e, _) \<Rightarrow> (Inl e, l)
        | (Inr pins, r) \<Rightarrow>
            let result = res_bind (res_fold (scan_pin r snapshot from v) (False, st) pins) (\<lambda>(found, st').
                  if \<not> found then Inl recordlog_ErrInvalidLogPos
                  else res_fold (\<lambda>st (record, payload). v st record payload) st'
                    (filter (\<lambda>(record, _). \<not> LogPos_Compare (record_start record) from < 0) (SNAP_pending snapshot)));
                r' = foldl (\<lambda>r i. snd (pin_release r i)) r pins
            in (result, l\<lparr>L_registry := r'\<rparr>))"

definition Log_ScanSegment ::
  "'c CatalogPort \<Rightarrow> 'c Log \<Rightarrow> err option \<Rightarrow> SegmentID \<Rightarrow> 's visitor option \<Rightarrow> 's \<Rightarrow> 's res option \<times> 'c Log" where
  \<comment> \<open>\<open>None\<close> while the registry has not published the rotation that sealed the segment\<close>
  "Log_ScanSegment port l ctx i visit st =
     (if i = 0 \<or> visit = None then (Some (Inl recordlog_ErrInvalidConfig), l)
      else case ctx of Some e \<Rightarrow> (Some (Inl e), l) | None \<Rightarrow>
      case L_terminal l of Some t \<Rightarrow> (Some (Inl t), l) | None \<Rightarrow>
      if L_closing l then (Some (Inl recordlog_ErrClosed), l)
      else let snapshot = SnapshotRecordLog port (L_catalog l) in
        case CatalogSnapshot_validate snapshot of Some e \<Rightarrow> (Some (Inl e), l) | None \<Rightarrow>
        if CS_ActiveSegmentID snapshot = i then (Some (Inl recordlog_ErrInvalidConfig), l)
        else if sealedSummary snapshot i = None then (Some (Inl recordlog_ErrSegmentMissing), l)
        else (case pinSealed (L_registry l) i of
            (None, _) \<Rightarrow> (None, l)
          | (Some (Some e), _) \<Rightarrow> (Some (Inl e), l)
          | (Some None, r) \<Rightarrow>
              let result = pin_scanSealed r i SegmentHeaderSize visit st; (re, r') = pin_release r i in
              (Some (case errors_Join [(case result of Inl e \<Rightarrow> Some e | Inr _ \<Rightarrow> None), re] of
                  Some e \<Rightarrow> Inl e | None \<Rightarrow> result), l\<lparr>L_registry := r'\<rparr>)))"

end
