(* ===== verification/Log_View.thy ===== *)
theory Log_View
  imports Log_Writer Log_Interface
begin

text \<open>
  The records a log holds. The contents of a log are what the recovery scan finds in the regular
  segments of its registry, in the order of their ids; the durable part is what the scan finds in
  the prefixes of the files that are on stable storage. The lemmas describe how the contents change
  when the active segment is extended, torn, sealed or replaced by a rotation.
\<close>

section \<open>Contents and durable prefix\<close>

definition seg_records :: "bytes \<Rightarrow> SegmentHeader \<Rightarrow> log_record list" where
  "seg_records data header =
     (case scanActiveSegmentWithVisitor data header (Some collect) [] of
        Inl _ \<Rightarrow> [] | Inr (_, _, xs) \<Rightarrow> map (\<lambda>(r, payload). (AR_Addr r, payload)) xs)"

definition seg_file :: "segmentRegistry \<Rightarrow> SegmentID \<Rightarrow> (fileHandle \<times> SegmentHeader) option" where
  "seg_file r i =
     (case entry_of r i of None \<Rightarrow> None
      | Some e \<Rightarrow>
          if RG_active e then map_option (\<lambda>s. (AS_file s, AS_header s)) (R_objs r i)
          else map_option (\<lambda>s. (SG_file s, SG_header s)) (RG_sealed e))"

definition seg_contents :: "segmentRegistry \<Rightarrow> SegmentID \<Rightarrow> log_record list" where
  "seg_contents r i = (case seg_file r i of None \<Rightarrow> [] | Some (f, h) \<Rightarrow> seg_records (F_data f) h)"

definition seg_durable :: "segmentRegistry \<Rightarrow> SegmentID \<Rightarrow> nat" where
  "seg_durable r i = (case seg_file r i of None \<Rightarrow> 0 | Some (f, h) \<Rightarrow> length (seg_records (take (F_synced f) (F_data f)) h))"

definition regular_ids :: "segmentRegistry \<Rightarrow> SegmentID list" where
  "regular_ids r = sort (filter (\<lambda>i. \<not> IsCompactionSegment i) (map fst (R_entries r)))"

definition reg_contents :: "segmentRegistry \<Rightarrow> log_record list" where
  "reg_contents r = concat (map (seg_contents r) (regular_ids r))"

definition reg_durable :: "segmentRegistry \<Rightarrow> nat" where
  "reg_durable r = sum_list (map (seg_durable r) (regular_ids r))"

section \<open>One segment\<close>

definition seg_state :: "fileHandle \<Rightarrow> SegmentHeader \<Rightarrow> log_record list \<Rightarrow> nat \<Rightarrow> bool" where
  \<comment> \<open>the file holds the first \<open>n\<close> bytes of a segment with the records \<open>rs\<close>\<close>
  "seg_state f h rs n \<longleftrightarrow>
     (\<exists>hdr foot. EncodeSegmentHeader h = Inr hdr \<and> (foot = [] \<or> (\<exists>x. EncodeSegmentFooter x = Inr foot)) \<and>
        F_data f = take n (hdr @ frames rs @ foot)) \<and>
     placed (SH_SegmentID h) 64 rs \<and> 64 + length (frames rs) \<le> seg_limit h \<and> 64 \<le> n \<and>
     64 \<le> F_synced f \<and> F_synced f \<le> length (F_data f)"

lemma seg_stateI:
  assumes "EncodeSegmentHeader h = Inr hdr" "foot = [] \<or> (\<exists>x. EncodeSegmentFooter x = Inr foot)"
    "F_data f = take n (hdr @ frames rs @ foot)" "placed (SH_SegmentID h) 64 rs" "64 + length (frames rs) \<le> seg_limit h"
    "64 \<le> n" "64 \<le> F_synced f" "F_synced f \<le> length (F_data f)"
  shows "seg_state f h rs n"
  using assms unfolding seg_state_def by blast

lemma fst_visited [simp]: "map (\<lambda>(r, payload). (AR_Addr r, payload)) (visited rs) = rs"
  by (induction rs) (auto simp: visited_def rec_result_def)

lemma seg_records_take:
  assumes "EncodeSegmentHeader h = Inr hdr" "placed (SH_SegmentID h) 64 rs" "64 + length (frames rs) \<le> seg_limit h"
    "foot = [] \<or> (\<exists>x. EncodeSegmentFooter x = Inr foot)" "64 \<le> n"
  shows "seg_records (take n (hdr @ frames rs @ foot)) h = complete (n - 64) rs"
proof -
  obtain f where "foot = [] \<or> EncodeSegmentFooter f = Inr foot" using assms(4) by blast
  from scan_after_crash [OF assms(1-3) this assms(5), of "Some collect" "[]"]
  show ?thesis by (auto simp: seg_records_def visits_collect)
qed

lemma seg_state_records:
  assumes "seg_state f h rs n"
  shows "seg_records (F_data f) h = complete (n - 64) rs"
    "seg_records (take (F_synced f) (F_data f)) h = complete (F_synced f - 64) rs"
proof -
  obtain hdr foot where h: "EncodeSegmentHeader h = Inr hdr" "foot = [] \<or> (\<exists>x. EncodeSegmentFooter x = Inr foot)"
      "F_data f = take n (hdr @ frames rs @ foot)"
    using assms by (auto simp: seg_state_def)
  then show "seg_records (F_data f) h = complete (n - 64) rs"
    using assms seg_records_take [OF h(1) _ _ h(2), of rs n] by (simp add: seg_state_def)
  have "length (F_data f) \<le> n" using h(3) by simp
  moreover have "F_synced f \<le> length (F_data f)" using assms by (simp add: seg_state_def)
  ultimately have "min (F_synced f) n = F_synced f" by simp
  then have "take (F_synced f) (F_data f) = take (F_synced f) (hdr @ frames rs @ foot)"
    unfolding h(3) by (simp only: take_take)
  then show "seg_records (take (F_synced f) (F_data f)) h = complete (F_synced f - 64) rs"
    using assms seg_records_take [OF h(1) _ _ h(2), of rs "F_synced f"] by (simp add: seg_state_def)
qed

lemma complete_mono: "m \<le> n \<Longrightarrow> length (complete m rs) \<le> length (complete n rs)"
  by (induction rs arbitrary: m n) auto

lemma complete_length: "length (complete n rs) \<le> length rs"
  by (induction n rs rule: complete.induct) auto

lemma complete_take: "complete n rs = take (length (complete n rs)) rs"
  by (induction n rs rule: complete.induct) auto

lemma active_ok_state:
  assumes "active_ok s rs" "64 \<le> F_synced (AS_file s)"
  shows "seg_state (AS_file s) (AS_header s) rs (64 + length (frames rs))"
proof -
  obtain hdr where hdr: "EncodeSegmentHeader (AS_header s) = Inr hdr" "F_data (AS_file s) = hdr @ frames rs"
    using assms by (auto simp: active_ok_def)
  then have "F_data (AS_file s) = take (64 + length (frames rs)) (hdr @ frames rs @ [])"
    using EncodeSegmentHeader_facts(1) [OF hdr(1)] by simp
  from seg_stateI [OF hdr(1) _ this] show ?thesis
    using assms by (simp add: active_ok_def)
qed

lemma sealed_ok_state:
  assumes "sealed_ok s rs"
  shows "seg_state (SG_file s) (SG_header s) rs (64 + length (frames rs) + 64)" "F_synced (SG_file s) = 64 + length (frames rs) + 64"
proof -
  obtain hdr foot where hdr: "EncodeSegmentHeader (SG_header s) = Inr hdr"
      "EncodeSegmentFooter (summary_footer (SG_summary s)) = Inr foot" "F_data (SG_file s) = hdr @ frames rs @ foot"
    using assms by (auto simp: sealed_ok_def)
  have l: "length hdr = 64" "length foot = 64"
    using EncodeSegmentHeader_facts(1) [OF hdr(1)] length_EncodeSegmentFooter [OF hdr(2)] by simp_all
  then show "F_synced (SG_file s) = 64 + length (frames rs) + 64" using assms hdr(3) by (simp add: sealed_ok_def)
  have "F_data (SG_file s) = take (64 + length (frames rs) + 64) (hdr @ frames rs @ foot)"
    using hdr(3) l by simp
  from seg_stateI [OF hdr(1) _ this] hdr(2)
  show "seg_state (SG_file s) (SG_header s) rs (64 + length (frames rs) + 64)"
    using assms hdr(3) l by (auto simp: sealed_ok_def)
qed

section \<open>The regular segments of a registry\<close>

definition reg_ok :: "segmentRegistry \<Rightarrow> SegmentID \<Rightarrow> log_record list \<Rightarrow> bool" where
  \<comment> \<open>the active segment \<open>act\<close> comes after the sealed regular segments, which hold \<open>older\<close>\<close>
  "reg_ok r act older \<longleftrightarrow>
     distinct (map fst (R_entries r)) \<and> \<not> IsCompactionSegment act \<and> R_active r = act \<and>
     (\<exists>e. entry_of r act = Some e \<and> RG_active e \<and> RG_state e = segmentActive) \<and>
     (\<forall>i e. entry_of r i = Some e \<longrightarrow> i \<noteq> act \<longrightarrow> \<not> IsCompactionSegment i \<longrightarrow>
        i < act \<and> \<not> RG_active e \<and> (\<exists>sg rs. RG_sealed e = Some sg \<and> sealed_ok sg rs)) \<and>
     older = concat (map (seg_contents r) (filter (\<lambda>i. i \<noteq> act) (regular_ids r))) \<and>
     sorted_wrt (<) (map fst older) \<and> (\<forall>x \<in> set older. VAddr_SegmentID (fst x) < act)"

lemma set_regular_ids: "set (regular_ids r) = {i. entry_of r i \<noteq> None \<and> \<not> IsCompactionSegment i}"
proof -
  have "entry_of r i \<noteq> None \<longleftrightarrow> i \<in> fst ` set (R_entries r)" for i
    by (simp add: entry_of_def map_of_eq_None_iff)
  then show ?thesis by (auto simp: regular_ids_def)
qed

lemma regular_ids_sorted: "distinct (map fst (R_entries r)) \<Longrightarrow> sorted (regular_ids r) \<and> distinct (regular_ids r)"
  by (auto simp: regular_ids_def distinct_map_filter)

lemma sorted_last_max:
  fixes xs :: "'a :: linorder list"
  assumes "sorted xs" "distinct xs" "x \<in> set xs" "\<forall>y \<in> set xs. y \<le> x"
  shows "xs = filter (\<lambda>y. y \<noteq> x) xs @ [x]"
proof (rule sorted_distinct_set_unique)
  show "sorted (filter (\<lambda>y. y \<noteq> x) xs @ [x])"
    using assms by (auto simp: sorted_append intro: sorted_wrt_filter)
qed (use assms in auto)

lemma reg_ok_split:
  assumes "reg_ok r act older"
  shows "regular_ids r = filter (\<lambda>i. i \<noteq> act) (regular_ids r) @ [act]"
proof (rule sorted_last_max)
  show "sorted (regular_ids r)" "distinct (regular_ids r)"
    using assms regular_ids_sorted [of r] by (auto simp: reg_ok_def)
  show "act \<in> set (regular_ids r)" using assms by (auto simp: set_regular_ids reg_ok_def)
  show "\<forall>y \<in> set (regular_ids r). y \<le> act" using assms by (fastforce simp: set_regular_ids reg_ok_def)
qed

lemma sealed_seg_durable:
  assumes "entry_of r i = Some e" "\<not> RG_active e" "RG_sealed e = Some sg" "sealed_ok sg rs"
  shows "seg_contents r i = rs" "seg_durable r i = length rs"
proof -
  note S = seg_state_records [OF sealed_ok_state(1) [OF assms(4)]] sealed_ok_state(2) [OF assms(4)]
  show "seg_contents r i = rs" "seg_durable r i = length rs"
    using assms S by (simp_all add: seg_contents_def seg_durable_def seg_file_def complete_all)
qed

lemma reg_ok_contents:
  assumes "reg_ok r act older" "R_objs r act = Some s"
  shows "reg_contents r = older @ seg_records (F_data (AS_file s)) (AS_header s)"
    "reg_durable r = length older + length (seg_records (take (F_synced (AS_file s)) (F_data (AS_file s))) (AS_header s))"
proof -
  have f: "seg_file r act = Some (AS_file s, AS_header s)"
    using assms by (auto simp: seg_file_def reg_ok_def)
  let ?ids = "filter (\<lambda>i. i \<noteq> act) (regular_ids r)"
  have o: "older = concat (map (seg_contents r) ?ids)" using assms(1) by (simp add: reg_ok_def)
  show "reg_contents r = older @ seg_records (F_data (AS_file s)) (AS_header s)"
    unfolding reg_contents_def o
    by (subst reg_ok_split [OF assms(1)]) (simp add: seg_contents_def f)
  have "seg_durable r i = length (seg_contents r i)" if i: "i \<in> set ?ids" for i
  proof -
    obtain e where e: "entry_of r i = Some e" using i by (auto simp: set_regular_ids)
    then have "\<not> RG_active e \<and> (\<exists>sg rs. RG_sealed e = Some sg \<and> sealed_ok sg rs)"
      using i assms(1) by (auto simp: set_regular_ids reg_ok_def)
    then show ?thesis using sealed_seg_durable [OF e] by auto
  qed
  then have "sum_list (map (seg_durable r) ?ids) = length older"
    unfolding o length_concat map_map by (intro arg_cong [of _ _ sum_list]) simp
  then show "reg_durable r = length older + length (seg_records (take (F_synced (AS_file s)) (F_data (AS_file s))) (AS_header s))"
    unfolding reg_durable_def by (subst reg_ok_split [OF assms(1)]) (simp add: seg_durable_def f)
qed

lemma reg_ok_state:
  assumes "reg_ok r act older" "R_objs r act = Some s" "seg_state (AS_file s) (AS_header s) rs n"
  shows "reg_contents r = older @ complete (n - 64) rs"
    "reg_durable r = length older + length (complete (F_synced (AS_file s) - 64) rs)"
  using reg_ok_contents [OF assms(1,2)] seg_state_records [OF assms(3)] by simp_all

lemma reg_ok_object [simp]: "reg_ok (r\<lparr>R_objs := (R_objs r)(act \<mapsto> s)\<rparr>) act older \<longleftrightarrow> reg_ok r act older"
proof -
  let ?r = "r\<lparr>R_objs := (R_objs r)(act \<mapsto> s)\<rparr>"
  have i: "regular_ids ?r = regular_ids r" by (simp add: regular_ids_def)
  have "seg_contents ?r i = seg_contents r i" if "i \<noteq> act" for i
    using that by (cases "entry_of r i") (simp_all add: seg_contents_def seg_file_def)
  then have m: "map (seg_contents ?r) (filter (\<lambda>i. i \<noteq> act) (regular_ids r)) =
      map (seg_contents r) (filter (\<lambda>i. i \<noteq> act) (regular_ids r))"
    by simp
  show ?thesis unfolding reg_ok_def i m by simp
qed

lemma placed_sorted: "placed seg off rs \<Longrightarrow> sorted_wrt (<) (map fst rs) \<and> (\<forall>x \<in> set rs. VAddr_SegmentID (fst x) = seg)"
proof (induction rs arbitrary: off)
  case (Cons r rs)
  then show ?case using placed_addr_less [OF Cons.prems] by fastforce
qed simp

lemma VAddr_less_segment:
  assumes "VAddr_SegmentID a < VAddr_SegmentID b"
  shows "a < b"
  using assms VAddr_less_iff [of a b] by (cases "VAddr_SegmentID a = VAddr_SegmentID b") auto

section \<open>Rotation of the registry\<close>

lemma active_ok_placed:
  assumes "active_ok s rs"
  shows "placed (SH_SegmentID (AS_header s)) 64 rs" "64 + length (frames rs) \<le> seg_limit (AS_header s)"
  using assms by (simp_all add: active_ok_def)

lemma reg_ok_rotated:
  assumes ok: "reg_ok r act older" and sealed: "sealed_ok sg rs" "SH_SegmentID (SG_header sg) = act"
    and new: "SH_SegmentID (AS_header s') = new" "act < new" "\<not> IsCompactionSegment new"
    and pub: "publishRotation r act sg s' = (None, r')"
  shows "reg_ok r' new (older @ rs)" "R_objs r' new = Some s'"
proof -
  obtain oe obj' where oe: "entry_of r act = Some oe" "entry_of r new = None"
    and r': "r' = (set_entry (set_entry r act (oe\<lparr>RG_state := segmentSealed, RG_active := False, RG_sealed := Some sg\<rparr>))
        new active_entry)\<lparr>R_active := new, R_objs := (R_objs r)(act \<mapsto> obj', new \<mapsto> s')\<rparr>"
    using pub new(1) by (auto simp: publishRotation_def Let_def split: if_splits option.splits sum.splits)
  show obj: "R_objs r' new = Some s'" by (simp add: r')
  have e: "entry_of r' i = (if i = new then Some active_entry else if i = act then
      Some (oe\<lparr>RG_state := segmentSealed, RG_active := False, RG_sealed := Some sg\<rparr>) else entry_of r i)" for i
    by (simp add: r')
  have d: "distinct (map fst (R_entries r'))"
    using ok by (auto simp: r' set_entry_def reg_ok_def intro!: distinct_update)
  have older: "i < act" if "entry_of r i \<noteq> None" "i \<noteq> act" "\<not> IsCompactionSegment i" for i
    using ok that by (auto simp: reg_ok_def)
  have act: "act \<in> set (regular_ids r)" "\<not> IsCompactionSegment act" using ok by (auto simp: set_regular_ids reg_ok_def)
  have le: "i \<le> act" if "i \<in> set (regular_ids r)" for i
    using older [of i] that by (cases "i = act") (auto simp: set_regular_ids)
  have ids: "regular_ids r' = regular_ids r @ [new]"
  proof (rule sorted_distinct_set_unique)
    have s: "sorted (regular_ids r)" "distinct (regular_ids r)" using ok regular_ids_sorted [of r] by (auto simp: reg_ok_def)
    show "sorted (regular_ids r')" "distinct (regular_ids r')" using regular_ids_sorted [OF d] by simp_all
    show "sorted (regular_ids r @ [new])" using s le new(2) by (auto simp: sorted_append intro: order.trans order.strict_implies_order)
    show "distinct (regular_ids r @ [new])" using s oe(2) by (auto simp: set_regular_ids)
    show "set (regular_ids r') = set (regular_ids r @ [new])"
      using act new(3) by (auto simp: set_regular_ids e)
  qed
  have "new \<notin> set (regular_ids r)" using oe(2) by (simp add: set_regular_ids)
  then have "filter (\<lambda>i. i \<noteq> new) (regular_ids r') = regular_ids r"
    by (auto simp: ids filter_id_conv)
  moreover have "seg_contents r' i = seg_contents r i" if "i \<in> set (filter (\<lambda>i. i \<noteq> act) (regular_ids r))" for i
  proof -
    have i: "i \<noteq> new" "i \<noteq> act" "entry_of r i \<noteq> None" "\<not> IsCompactionSegment i"
      using that oe(2) by (auto simp: set_regular_ids)
    then have "\<exists>x. entry_of r i = Some x \<and> \<not> RG_active x" using ok by (auto simp: reg_ok_def)
    then show ?thesis using i by (auto simp: seg_contents_def seg_file_def e)
  qed
  then have "map (seg_contents r') (filter (\<lambda>i. i \<noteq> act) (regular_ids r)) = map (seg_contents r) (filter (\<lambda>i. i \<noteq> act) (regular_ids r))"
    by simp
  moreover have "seg_contents r' act = rs"
    by (rule sealed_seg_durable(1) [where sg = sg, of _ _ "oe\<lparr>RG_state := segmentSealed, RG_active := False, RG_sealed := Some sg\<rparr>"])
      (use sealed(1) new(2) e [of act] in simp_all)
  ultimately have "concat (map (seg_contents r') (filter (\<lambda>i. i \<noteq> new) (regular_ids r'))) = older @ rs"
    using ok reg_ok_split [OF ok] by (metis (no_types, lifting) append_Nil2 concat.simps concat_append list.map map_append reg_ok_def)
  moreover have "sorted_wrt (<) (map fst (older @ rs)) \<and> (\<forall>x \<in> set (older @ rs). VAddr_SegmentID (fst x) < new)"
  proof -
    have p: "sorted_wrt (<) (map fst rs)" "\<forall>x \<in> set rs. VAddr_SegmentID (fst x) = act"
      using placed_sorted [of act 64 rs] sealed by (auto simp: sealed_ok_def)
    have o: "sorted_wrt (<) (map fst older)" "\<forall>x \<in> set older. VAddr_SegmentID (fst x) < act"
      using ok by (auto simp: reg_ok_def)
    have "fst x < fst y" if "x \<in> set older" "y \<in> set rs" for x y
      using that p o by (intro VAddr_less_segment) auto
    then show ?thesis using p o new(2) by (auto simp: sorted_wrt_append intro: order.strict_trans)
  qed
  moreover have "i < new \<and> \<not> RG_active x \<and> (\<exists>sg rs. RG_sealed x = Some sg \<and> sealed_ok sg rs)"
    if "entry_of r' i = Some x" "i \<noteq> new" "\<not> IsCompactionSegment i" for i x
  proof (cases "i = act")
    case False
    then have "entry_of r i = Some x" using that e [of i] by simp
    then have "i < act \<and> \<not> RG_active x \<and> (\<exists>sg rs. RG_sealed x = Some sg \<and> sealed_ok sg rs)"
      using ok False that(3) unfolding reg_ok_def by blast
    then show ?thesis using new(2) by auto
  qed (use that e [of i] new(2) sealed(1) in auto)
  moreover have "R_active r' = new" "entry_of r' new = Some active_entry" by (simp_all add: r')
  ultimately show "reg_ok r' new (older @ rs)"
    unfolding reg_ok_def using d new(3) by (simp add: active_entry_def)
qed

section \<open>Rotation of the log\<close>

lemma createActiveSegment_ok:
  assumes "createActiveSegment env h = Inr s"
  shows "active_ok s []" "AS_header s = h" "F_synced (AS_file s) = 64"
proof -
  obtain hdr where hdr: "EncodeSegmentHeader h = Inr hdr" using assms by (auto simp: createActiveSegment_def)
  note H = EncodeSegmentHeader_facts [OF hdr]
  have "160 < SH_SegmentSize h"
    using hdr by (auto simp: EncodeSegmentHeader_def segment_shape_ok_def not_le split: if_splits)
  then have lim: "64 \<le> seg_limit h" using H(2) by (simp add: word_less_nat_alt)
  have "s = \<lparr>AS_open = True, AS_file = \<lparr>F_data = hdr, F_synced = 64\<rparr>, AS_header = h, AS_end = SegmentHeaderSize,
      AS_first = 0, AS_last = 0, AS_records = 0, AS_sealed = False, AS_transferred = False\<rparr>"
    using assms hdr H(1)
    by (auto simp: createActiveSegment_def writeFullAt_def write_at_def file_Sync_def Let_def split: option.splits)
  then show "active_ok s []" "AS_header s = h" "F_synced (AS_file s) = 64"
    using hdr H(1) lim by (simp_all add: active_ok_def summaryLocked_def summary_of_def)
qed

lemma prepareSeal_view:
  assumes ok: "active_ok s rs" "64 \<le> F_synced (AS_file s)" and step: "prepareSeal env s = (p, s1)"
  shows "\<exists>f. s1 = s\<lparr>AS_file := f\<rparr> \<and> F_synced (AS_file s) \<le> F_synced f \<and>
      (\<exists>n \<ge> 64 + length (frames rs). seg_state f (AS_header s) rs n)"
    and "p = Inr sm \<Longrightarrow> sm = summaryLocked s \<and> sealed_ok \<lparr>SG_open = True, SG_file = AS_file s1, SG_header = AS_header s, SG_summary = sm\<rparr> rs"
proof -
  obtain hdr where hdr: "EncodeSegmentHeader (AS_header s) = Inr hdr" "F_data (AS_file s) = hdr @ frames rs"
    using ok by (auto simp: active_ok_def)
  obtain foot where foot: "EncodeSegmentFooter (summary_footer (summaryLocked s)) = Inr foot" "length foot = 64"
    using active_ok_footer [OF ok(1)] by blast
  have l: "length hdr = 64" "unat (AS_end s) = length (F_data (AS_file s))"
    using active_ok_end(1) [OF ok(1)] hdr EncodeSegmentHeader_facts(1) [OF hdr(1)] by simp_all
  have sy: "F_synced (AS_file s) \<le> length hdr + length (frames rs)" using ok(1) hdr(2) by (simp add: active_ok_def)
  have st: "seg_state f (AS_header s) rs (64 + length (frames rs) + k)"
    if "F_data f = hdr @ frames rs @ take k foot" "64 \<le> F_synced f" "F_synced f \<le> length (F_data f)" for f k
  proof (rule seg_stateI [OF hdr(1)])
    show "foot = [] \<or> (\<exists>x. EncodeSegmentFooter x = Inr foot)" using foot(1) by blast
    show "F_data f = take (64 + length (frames rs) + k) (hdr @ frames rs @ foot)" using that l by simp
  qed (use active_ok_placed [OF ok(1)] that in simp_all)
  define G where "G x \<longleftrightarrow> (\<exists>k f. x = s\<lparr>AS_file := f\<rparr> \<and> F_data f = hdr @ frames rs @ take k foot \<and>
      F_synced (AS_file s) \<le> F_synced f \<and> F_synced f \<le> length (F_data f))" for x
  have cases: "G s1 \<and> (\<forall>sm. p = Inr sm \<longrightarrow> sm = summaryLocked s \<and> F_data (AS_file s1) = hdr @ frames rs @ foot \<and>
      F_synced (AS_file s1) = length (F_data (AS_file s1)))"
  proof -
    have nowrite: "G s"
      unfolding G_def using hdr sy by (intro exI [of _ 0] exI [of _ "AS_file s"]) simp
    have ve: "SS_ValidEnd (summaryLocked s) = AS_end s" by (simp add: summaryLocked_def)
    have op: "AS_open s" "\<not> AS_sealed s" using ok(1) by (simp_all add: active_ok_def)
    show ?thesis
    proof (cases "hitSegmentFault env faultBeforeFooterWrite")
      case (Some e)
      then show ?thesis using step op foot(1) nowrite by (auto simp: prepareSeal_def Let_def)
    next
      case h1: None
      define k e where "k = (case E_os env faultBeforeFooterWrite of None \<Rightarrow> length foot | Some (k, _) \<Rightarrow> min k (length foot))"
        and "e = map_option snd (E_os env faultBeforeFooterWrite)"
      define f where "f = (AS_file s)\<lparr>F_data := hdr @ frames rs @ take k foot\<rparr>"
      have w: "writeFullAt env faultBeforeFooterWrite (AS_file s) foot (unat (AS_end s)) = (k, e, f)"
        using l(2) hdr(2) sy
        by (cases "E_os env faultBeforeFooterWrite")
          (auto simp: writeFullAt_def write_at_def k_def e_def f_def l(1) split: prod.splits)
      have ex: "G (s\<lparr>AS_file := f\<rparr>)"
        unfolding G_def using sy by (intro exI [of _ k] exI [of _ f]) (simp add: f_def)
      show ?thesis
      proof (cases e)
        case (Some e')
        then show ?thesis using step op foot(1) h1 w ex by (auto simp: prepareSeal_def Let_def ve)
      next
        case n: None
        then have k: "k = length foot" by (cases "E_os env faultBeforeFooterWrite") (auto simp: e_def k_def)
        have ex2: "G (s\<lparr>AS_file := f\<lparr>F_synced := length (F_data f)\<rparr>\<rparr>)"
          unfolding G_def using sy by (intro exI [of _ k] exI [of _ "f\<lparr>F_synced := length (F_data f)\<rparr>"]) (simp add: f_def)
        have fd: "F_data f = hdr @ frames rs @ foot" by (simp add: f_def k)
        show ?thesis
          using step op foot(1) h1 w n ex ex2 fd
          by (auto simp: prepareSeal_def Let_def ve file_Sync_def split: option.splits prod.splits)
      qed
    qed
  qed
  then obtain k f where f: "s1 = s\<lparr>AS_file := f\<rparr>" "F_data f = hdr @ frames rs @ take k foot"
      "F_synced (AS_file s) \<le> F_synced f" "F_synced f \<le> length (F_data f)" unfolding G_def by blast
  have "64 \<le> F_synced f" using f(3) ok(2) by simp
  from st [OF f(2) this f(4)] f
  show "\<exists>f. s1 = s\<lparr>AS_file := f\<rparr> \<and> F_synced (AS_file s) \<le> F_synced f \<and>
      (\<exists>n \<ge> 64 + length (frames rs). seg_state f (AS_header s) rs n)"
    by (intro exI [of _ f]) (auto intro!: exI [of _ "64 + length (frames rs) + k"])
  show "p = Inr sm \<Longrightarrow> sm = summaryLocked s \<and> sealed_ok \<lparr>SG_open = True, SG_file = AS_file s1, SG_header = AS_header s, SG_summary = sm\<rparr> rs"
    using cases ok(1) hdr foot by (auto simp: sealed_ok_def active_ok_def)
qed

lemma set_object_simps [simp]:
  "L_registry (set_object i s l) = (L_registry l)\<lparr>R_objs := (R_objs (L_registry l))(i \<mapsto> s)\<rparr>"
  "L_writer (set_object i s l) = L_writer l" "L_status (set_object i s l) = L_status l"
  "L_terminal (set_object i s l) = L_terminal l" "L_responses (set_object i s l) = L_responses l"
  "L_budget (set_object i s l) = L_budget l" "L_cfg (set_object i s l) = L_cfg l" "L_pending (set_object i s l) = L_pending l"
  "L_catalog (set_object i s l) = L_catalog l" "L_journal (set_object i s l) = L_journal l"
  "L_hook (set_object i s l) = L_hook l" "L_closing (set_object i s l) = L_closing l"
  "L_nextRequest (set_object i s l) = L_nextRequest l" "L_maxPayloadBytes (set_object i s l) = L_maxPayloadBytes l"
  by (simp_all add: set_object_def)

definition log_frame :: "'c Log \<Rightarrow> 'c Log \<Rightarrow> bool" where
  \<comment> \<open>only the segments, the catalog and the journal differ\<close>
  "log_frame l l' \<longleftrightarrow> l' = l\<lparr>L_registry := L_registry l', L_catalog := L_catalog l', L_journal := L_journal l'\<rparr>"

lemma log_frame_intros [intro]:
  "log_frame l l" "log_frame l l' \<Longrightarrow> log_frame l (set_object i s l')" "log_frame l l' \<Longrightarrow> log_frame l (l'\<lparr>L_registry := r\<rparr>)"
  "log_frame l l' \<Longrightarrow> log_frame l (l'\<lparr>L_catalog := c\<rparr>)" "log_frame l l' \<Longrightarrow> log_frame l (l'\<lparr>L_journal := j\<rparr>)"
  by (cases l; cases l'; simp add: log_frame_def set_object_def)+

lemma log_frameD:
  assumes "log_frame l l'"
  shows "L_writer l' = L_writer l" "L_status l' = L_status l" "L_terminal l' = L_terminal l" "L_responses l' = L_responses l"
    "L_budget l' = L_budget l" "L_cfg l' = L_cfg l" "L_pending l' = L_pending l" "L_closing l' = L_closing l"
    "L_nextRequest l' = L_nextRequest l" "L_maxPayloadBytes l' = L_maxPayloadBytes l" "L_hook l' = L_hook l"
  by (subst assms [unfolded log_frame_def], simp)+

lemma installRotationJournal_frame:
  "installRotationJournal env j l = (e, l') \<Longrightarrow> log_frame l l' \<and> L_registry l' = L_registry l \<and> L_catalog l' = L_catalog l"
  by (auto simp: installRotationJournal_def Let_def split: sum.splits if_splits option.splits)

lemma removeRotationJournal_frame:
  "removeRotationJournal env l = (e, l') \<Longrightarrow> log_frame l l' \<and> L_registry l' = L_registry l \<and> L_catalog l' = L_catalog l"
  by (auto simp: removeRotationJournal_def Let_def split: if_splits option.splits)

lemma publishPreparedSeal_view:
  assumes "publishPreparedSeal env s sm = (x, s')"
  shows "s' = s \<or> s' = s\<lparr>AS_sealed := True\<rparr>"
    "x = Inr (sg, sm') \<Longrightarrow> sg = \<lparr>SG_open = True, SG_file = AS_file s, SG_header = AS_header s, SG_summary = sm\<rparr> \<and> sm' = sm \<and>
       s' = s\<lparr>AS_sealed := True\<rparr>"
  using assms by (auto simp: publishPreparedSeal_def split: if_splits option.splits)

lemma prepareRotationFiles_view:
  assumes "prepareRotationFiles env hook s sm h = (x, s')"
  shows "s' = s \<or> s' = s\<lparr>AS_sealed := True\<rparr>"
    "x = Inr (sg, sm', new) \<Longrightarrow> sg = \<lparr>SG_open = True, SG_file = AS_file s, SG_header = AS_header s, SG_summary = sm\<rparr> \<and> sm' = sm \<and>
       s' = s\<lparr>AS_sealed := True\<rparr> \<and> createActiveSegment env h = Inr new"
proof -
  obtain y t where pub: "publishPreparedSeal env s sm = (y, t)" by fastforce
  note P = publishPreparedSeal_view [OF pub]
  show "s' = s \<or> s' = s\<lparr>AS_sealed := True\<rparr>"
    using assms P(1) pub by (auto simp: prepareRotationFiles_def split: if_splits sum.splits prod.splits)
  show "x = Inr (sg, sm', new) \<Longrightarrow> sg = \<lparr>SG_open = True, SG_file = AS_file s, SG_header = AS_header s, SG_summary = sm\<rparr> \<and> sm' = sm \<and>
       s' = s\<lparr>AS_sealed := True\<rparr> \<and> createActiveSegment env h = Inr new"
    using assms P(2) pub by (auto simp: prepareRotationFiles_def split: if_splits sum.splits prod.splits)
qed

definition reg_holds :: "segmentRegistry \<Rightarrow> log_record list \<Rightarrow> nat \<Rightarrow> bool" where
  "reg_holds r cs n \<longleftrightarrow> reg_contents r = cs \<and> n \<le> reg_durable r \<and> reg_durable r \<le> length cs"

definition active_at :: "segmentRegistry \<Rightarrow> SegmentID \<Rightarrow> log_record list \<Rightarrow> activeSegment \<Rightarrow> log_record list \<Rightarrow> bool" where
  \<comment> \<open>the registry with a healthy active segment\<close>
  "active_at r act older s rs \<longleftrightarrow> reg_ok r act older \<and> R_objs r act = Some s \<and> active_ok s rs \<and>
     SH_SegmentID (AS_header s) = act \<and> 64 \<le> F_synced (AS_file s)"

lemma active_at_holds:
  assumes "active_at r act older s rs"
  shows "reg_contents r = older @ rs" "reg_durable r = length older + length (complete (F_synced (AS_file s) - 64) rs)"
    "reg_holds r (older @ rs) (reg_durable r)"
proof -
  have st: "seg_state (AS_file s) (AS_header s) rs (64 + length (frames rs))"
    using assms active_ok_state by (simp add: active_at_def)
  show c: "reg_contents r = older @ rs" "reg_durable r = length older + length (complete (F_synced (AS_file s) - 64) rs)"
    using assms reg_ok_state [OF _ _ st, of r act older] by (simp_all add: active_at_def complete_all)
  then show "reg_holds r (older @ rs) (reg_durable r)"
    using complete_length [of _ rs] by (simp add: reg_holds_def)
qed

lemma torn_holds:
  assumes "active_at r act older s rs" "reg_ok r' act older" "R_objs r' act = Some s'"
    "seg_state (AS_file s') (AS_header s') (rs @ new) n" "64 + length (frames rs) \<le> n" "F_synced (AS_file s) \<le> F_synced (AS_file s')"
    "new = [] \<or> F_synced (AS_file s') = F_synced (AS_file s)"
  shows "reg_holds r' (older @ rs @ complete (n - 64 - length (frames rs)) new) (reg_durable r)"
proof -
  note A = active_at_holds [OF assms(1)] and B = reg_ok_state [OF assms(2-4)]
  have le: "F_synced (AS_file s) \<le> 64 + length (frames rs)"
    using assms(1) active_ok_state [of s rs] by (auto simp: active_at_def seg_state_def)
  have d: "length (complete (F_synced (AS_file s) - 64) rs) \<le> length (complete (F_synced (AS_file s') - 64) (rs @ new)) \<and>
      length (complete (F_synced (AS_file s') - 64) (rs @ new)) \<le> length rs"
  proof (cases "new = []")
    case True
    then show ?thesis using assms(6) complete_mono [of "F_synced (AS_file s) - 64"] complete_length [of _ rs] by simp
  next
    case False
    then have eq: "F_synced (AS_file s') - 64 = F_synced (AS_file s) - 64" using assms(7) by simp
    have "placed (SH_SegmentID (AS_header s')) (64 + length (frames rs)) new" using assms(4) by (simp add: seg_state_def)
    then have "complete 0 new = []" using frame_facts(1) [of "hd new"] by (cases new) auto
    then have "complete m (rs @ new) = complete m rs" if "m \<le> length (frames rs)" for m
      using that by (induction rs arbitrary: m) auto
    then show ?thesis unfolding eq using le complete_length [of _ rs] by simp
  qed
  then show ?thesis
    using A B assms(5) by (simp add: reg_holds_def complete_append)
qed

end
