(* ===== verification/Log_Turn.thy ===== *)
theory Log_Turn
  imports Log_View "HOL-Library.Sublist"
begin

text \<open>
  What one turn of the writer does to a log, whatever faults occur: the requests it takes are all
  answered, a successful answer names a record that was placed after the contents, and a log that
  fails keeps its durable records.
\<close>

section \<open>Rotation of the log\<close>

lemma log_frame_trans: "log_frame l k \<Longrightarrow> log_frame k m \<Longrightarrow> log_frame l m"
  by (cases l; cases k; cases m) (simp add: log_frame_def)

lemma segment_succ: "act < CompactionSegmentBase \<Longrightarrow> act < act + 1"
proof -
  assume "act < CompactionSegmentBase"
  then have "unat act < 2 ^ 31" by (simp add: CompactionSegmentBase_def word_less_nat_alt)
  then show ?thesis by (simp add: word_less_nat_alt unat_word_ariths)
qed

lemma rotate_publish_view:
  assumes reg: "reg_ok (L_registry l) act older" and sealed: "sealed_ok sg rs" "SH_SegmentID (SG_header sg) = act"
    and snap: "CatalogSnapshot_validate snap = None" "CS_ActiveSegmentID snap = act"
    and new: "active_ok s' []" "AS_header s' = headerFor snap (CS_NextSegmentID snap)" "F_synced (AS_file s') = 64"
    and hold: "reg_holds (L_registry l) (older @ rs) n"
    and step: "rotate_publish port env snap summary act sg s' l = (x, l')"
  shows "log_frame l l'" "x = Inl e \<Longrightarrow> reg_holds (L_registry l') (older @ rs) n"
    "x = Inr i \<Longrightarrow> active_at (L_registry l') i (older @ rs) s' []"
proof -
  let ?J = "rotation_journal snap summary"
  define good where "good y k \<longleftrightarrow> log_frame l k \<and> (\<forall>e. y = Inl e \<longrightarrow> reg_holds (L_registry k) (older @ rs) n) \<and>
      (\<forall>i. y = Inr i \<longrightarrow> active_at (L_registry k) i (older @ rs) s' [])" for y :: "SegmentID res" and k
  obtain inst c where inst: "installCatalogRotation port (L_catalog l) snap ?J = (inst, c)" by fastforce
  define l1 where "l1 = l\<lparr>L_catalog := c\<rparr>"
  have l1: "log_frame l l1" "L_registry l1 = L_registry l" by (auto simp: l1_def)
  have "good x l'"
  proof (cases "\<exists>installed. inst = Inr installed \<and>
      validateRotationResult snap installed summary (RJ_NewActive ?J) (RJ_NextSegmentID ?J) = None")
    case False
    then have "\<exists>e. x = Inl e" "l' = l1"
      using step inst by (auto simp: rotate_publish_def Let_def l1_def split: sum.splits option.splits)
    then show ?thesis using l1 hold by (auto simp: good_def)
  next
    case True
    then obtain installed where i: "inst = Inr installed"
        "validateRotationResult snap installed summary (RJ_NewActive ?J) (RJ_NextSegmentID ?J) = None" by blast
    note V = CatalogSnapshot_validate_None [OF snap(1)] and W = validateRotationResult_None [OF i(2)]
    have id: "SH_SegmentID (AS_header s') = RJ_NewActive ?J" "RJ_NewActive ?J = act + 1"
      using new(2) V(1) snap(2) by (simp_all add: headerFor_def rotation_journal_def)
    have lt: "act < RJ_NewActive ?J" "\<not> IsCompactionSegment (RJ_NewActive ?J)"
      using CatalogSnapshot_validate_None(2) [OF W(7)] W(1) V(2) snap(2) id(2)
      by (simp_all add: IsCompactionSegment_def segment_succ not_le)
    obtain pe r where pub: "publishRotation (L_registry l) act sg s' = (pe, r)" by fastforce
    define l2 where "l2 = l1\<lparr>L_registry := r\<rparr>"
    have l2: "log_frame l l2" using l1(1) by (auto simp: l2_def)
    show ?thesis
    proof (cases pe)
      case (Some e)
      then have "r = L_registry l"
        using pub by (auto simp: publishRotation_def Let_def split: if_splits option.splits sum.splits)
      moreover have "x = Inl e" "l' = l2"
        using step inst i pub Some l1(2) by (auto simp: rotate_publish_def Let_def l1_def [symmetric] l2_def)
      ultimately show ?thesis using l2 hold by (auto simp: good_def l2_def)
    next
      case None
      from reg_ok_rotated [OF reg sealed id(1) lt] pub None
      have rot: "reg_ok r (RJ_NewActive ?J) (older @ rs)" "R_objs r (RJ_NewActive ?J) = Some s'" by simp_all
      then have at: "active_at r (RJ_NewActive ?J) (older @ rs) s' []" using new(1,3) id(1) by (simp add: active_at_def)
      have "n \<le> length (older @ rs)" using hold by (simp add: reg_holds_def)
      then have h: "reg_holds r (older @ rs) n"
        using active_at_holds [OF at] new(3) by (simp add: reg_holds_def)
      obtain re l3 where rm: "removeRotationJournal env l2 = (re, l3)" by fastforce
      have l3: "log_frame l l3" "L_registry l3 = r"
        using removeRotationJournal_frame [OF rm] l2 log_frame_trans [of l l2 l3] by (auto simp: l2_def)
      have "l' = l3" "x = (case re of None \<Rightarrow> Inr (RJ_NewActive ?J) | Some e \<Rightarrow> Inl e)"
        using step inst i pub None rm id(1) l1(2)
        by (auto simp: rotate_publish_def Let_def l1_def [symmetric] l2_def [symmetric] split: option.splits)
      then show ?thesis using l3 at h by (auto simp: good_def split: option.splits)
    qed
  qed
  then show "log_frame l l'" "x = Inl e \<Longrightarrow> reg_holds (L_registry l') (older @ rs) n"
    "x = Inr i \<Longrightarrow> active_at (L_registry l') i (older @ rs) s' []"
    by (auto simp: good_def)
qed

lemma log_rotate_view:
  assumes at: "active_at (L_registry l) act older s rs" "W_active (L_writer l) = act"
    and step: "log_rotate port env l = (x, l')"
  shows "log_frame l l'"
    "x = Inl e \<Longrightarrow> reg_holds (L_registry l') (older @ rs) (reg_durable (L_registry l))"
    "x = Inr new \<Longrightarrow> \<exists>s'. active_at (L_registry l') new (older @ rs) s' [] \<and> SH_SegmentSize (AS_header s') = SH_SegmentSize (AS_header s)"
proof -
  let ?snap = "SnapshotRecordLog port (L_catalog l)" and ?r = "L_registry l"
  let ?J = "rotation_journal ?snap (summaryLocked s)"
  have s: "R_objs ?r act = Some s" "reg_ok ?r act older" "active_ok s rs" "SH_SegmentID (AS_header s) = act"
      "64 \<le> F_synced (AS_file s)" and obj: "active_object l = s"
    using at by (simp_all add: active_at_def active_object_def)
  obtain p s1 where prep: "prepareSeal env s = (p, s1)" by fastforce
  obtain f n where s1: "s1 = s\<lparr>AS_file := f\<rparr>" "F_synced (AS_file s) \<le> F_synced f" "64 + length (frames rs) \<le> n"
      "seg_state f (AS_header s) rs n"
    using prepareSeal_view(1) [OF s(3,5) prep] by blast
  define good where "good y k \<longleftrightarrow> log_frame l k \<and> (\<forall>e. y = Inl e \<longrightarrow> reg_holds (L_registry k) (older @ rs) (reg_durable ?r)) \<and>
      (\<forall>new. y = Inr new \<longrightarrow> (\<exists>s'. active_at (L_registry k) new (older @ rs) s' [] \<and> SH_SegmentSize (AS_header s') = SH_SegmentSize (AS_header s)))"
    for y :: "SegmentID res" and k
  have torn: "reg_holds (?r\<lparr>R_objs := (R_objs ?r)(act \<mapsto> t)\<rparr>) (older @ rs) (reg_durable ?r)"
    if "t = s1 \<or> t = s1\<lparr>AS_sealed := True\<rparr>" for t
    using torn_holds [OF at(1), of "?r\<lparr>R_objs := (R_objs ?r)(act \<mapsto> t)\<rparr>" t "[]" n] s s1 that by auto
  have same: "reg_holds ?r (older @ rs) (reg_durable ?r)" by (rule active_at_holds(3) [OF at(1)])
  have "good x l'"
  proof (cases "CatalogSnapshot_validate ?snap = None \<and> CS_ActiveSegmentID ?snap = SH_SegmentID (AS_header s) \<and>
      CS_LogID ?snap = SH_LogID (AS_header s) \<and> CS_SegmentSize ?snap = SH_SegmentSize (AS_header s)")
    case False
    then show ?thesis
      using step same by (auto simp: log_rotate_def Let_def obj good_def split: option.splits if_splits)
  next
    case snap: True
    show ?thesis
    proof (cases p)
      case (Inl e)
      then have "x = Inl e" "l' = set_object act s1 l"
        using step snap prep by (simp_all add: log_rotate_def Let_def obj at(2))
      then show ?thesis using torn [of s1] by (auto simp: good_def)
    next
      case p: (Inr sm)
      have sm: "sm = summaryLocked s"
        and sealed: "sealed_ok \<lparr>SG_open = True, SG_file = AS_file s1, SG_header = AS_header s, SG_summary = sm\<rparr> rs"
        using prepareSeal_view(2) [OF s(3,5) prep p] by blast+
      obtain je l2 where j: "installRotationJournal env ?J (set_object act s1 l) = (je, l2)" by fastforce
      have l2: "log_frame l l2" "L_registry l2 = ?r\<lparr>R_objs := (R_objs ?r)(act \<mapsto> s1)\<rparr>"
        using installRotationJournal_frame [OF j] log_frame_trans [of l "set_object act s1 l" l2] by auto
      obtain y s2 where files: "prepareRotationFiles env (L_hook l2) s1 sm (headerFor ?snap (RJ_NewActive ?J)) = (y, s2)" by fastforce
      note F = prepareRotationFiles_view [OF files]
      define l3 where "l3 = set_object act s2 l2"
      have l3: "log_frame l l3" "L_registry l3 = ?r\<lparr>R_objs := (R_objs ?r)(act \<mapsto> s2)\<rparr>"
        using l2 by (auto simp: l3_def)
      have t2: "reg_holds (L_registry l3) (older @ rs) (reg_durable ?r)" using torn [OF F(1)] l3(2) by simp
      have eq: "(case je of Some e \<Rightarrow> (Inl e, l2) | None \<Rightarrow>
        (case y of Inl e \<Rightarrow> (Inl e, l3) | Inr (sealed, published, newActive) \<Rightarrow>
          if published \<noteq> summaryLocked s then (Inl recordlog_ErrCorrupt, l3)
          else rotate_publish port env ?snap (summaryLocked s) (SH_SegmentID (AS_header s)) sealed newActive l3)) = (x, l')"
        unfolding l3_def using step snap prep p sm j files
        by (cases je) (simp_all add: log_rotate_def Let_def obj at(2))
      have F2: "sg = \<lparr>SG_open = True, SG_file = AS_file s1, SG_header = AS_header s1, SG_summary = sm\<rparr> \<and> sm' = sm \<and>
          createActiveSegment env (headerFor ?snap (RJ_NewActive ?J)) = Inr new" if "y = Inr (sg, sm', new)" for sg sm' new
        using F(2) [OF that] by blast
      consider e where "je = Some e" | e where "je = None" "y = Inl e" | sg sm' new where "je = None" "y = Inr (sg, sm', new)"
        by (metis (no_types) not_Some_eq old.sum.exhaust prod_cases3)
      then show ?thesis
      proof cases
        case 1
        then show ?thesis using eq l2 torn [of s1] by (auto simp: good_def)
      next
        case 2
        then show ?thesis using eq l3 t2 by (auto simp: good_def)
      next
        case 3
        note f2 = F2 [OF 3(2)]
        note C = createActiveSegment_ok [OF conjunct2 [OF conjunct2 [OF f2]]]
        have e3: "rotate_publish port env ?snap (summaryLocked s) act sg new l3 = (x, l')"
          using eq 3 sm s(4) f2 by simp
        have r3: "reg_ok (L_registry l3) act older" using s(2) l3(2) by simp
        have sg: "sealed_ok sg rs" "SH_SegmentID (SG_header sg) = act" using sealed f2 s1(1) s(4) by simp_all
        have h: "AS_header new = headerFor ?snap (CS_NextSegmentID ?snap)" using C(2) by (simp add: rotation_journal_def)
        note R = rotate_publish_view [OF r3 sg conjunct1 [OF snap] _ C(1) h C(3) t2 e3]
        show ?thesis
          using R snap s(4) l3(1) log_frame_trans [of l l3 l'] h by (auto simp: good_def headerFor_def)
      qed
    qed
  qed
  then show "log_frame l l'"
    "x = Inl e \<Longrightarrow> reg_holds (L_registry l') (older @ rs) (reg_durable (L_registry l))"
    "x = Inr new \<Longrightarrow> \<exists>s'. active_at (L_registry l') new (older @ rs) s' [] \<and> SH_SegmentSize (AS_header s') = SH_SegmentSize (AS_header s)"
    by (auto simp: good_def)
qed

section \<open>Responses\<close>

definition answer :: "'c Log \<Rightarrow> appendRequest \<Rightarrow> AppendResult res option" where
  "answer l rq = map_of (L_responses l) (RQ_id rq)"

lemma completed_answer: "completed l rq \<longleftrightarrow> answer l rq \<noteq> None"
  by (simp add: completed_def answer_def map_of_eq_None_iff)

lemma answer_cong: "L_responses l' = L_responses l \<Longrightarrow> answer l' rq = answer l rq"
  by (simp add: answer_def)

lemma answer_complete:
  "answer (writer_complete rq x l) rq' = (if RQ_id rq' = RQ_id rq \<and> answer l rq = None then Some x else answer l rq')"
  by (auto simp: writer_complete_def completed_answer answer_def map_add_def split: option.splits)

lemma writer_complete_frame:
  "L_registry (writer_complete rq x l) = L_registry l" "L_writer (writer_complete rq x l) = L_writer l"
  "L_terminal (writer_complete rq x l) = L_terminal l" "L_status (writer_complete rq x l) = L_status l"
  "L_budget (writer_complete rq x l) = L_budget l" "L_cfg (writer_complete rq x l) = L_cfg l"
  "L_pending (writer_complete rq x l) = L_pending l" "L_maxPayloadBytes (writer_complete rq x l) = L_maxPayloadBytes l"
  "L_nextRequest (writer_complete rq x l) = L_nextRequest l" "L_closing (writer_complete rq x l) = L_closing l"
  by (simp_all add: writer_complete_def)

lemma foldl_complete:
  fixes f :: "pendingRecord \<Rightarrow> AppendResult res" and l :: "'c Log"
  defines "g \<equiv> \<lambda>l w. writer_complete (PD_request w) (f w) l"
  shows "L_registry (foldl g l ws) = L_registry l" "L_writer (foldl g l ws) = L_writer l"
    "L_terminal (foldl g l ws) = L_terminal l" "L_status (foldl g l ws) = L_status l"
    "L_budget (foldl g l ws) = L_budget l" "L_cfg (foldl g l ws) = L_cfg l" "L_pending (foldl g l ws) = L_pending l"
    "L_maxPayloadBytes (foldl g l ws) = L_maxPayloadBytes l" "L_nextRequest (foldl g l ws) = L_nextRequest l"
    "L_closing (foldl g l ws) = L_closing l"
    "(\<And>w. w \<in> set ws \<Longrightarrow> RQ_id (PD_request w) \<noteq> RQ_id rq) \<Longrightarrow> answer (foldl g l ws) rq = answer l rq"
    "answer l rq \<noteq> None \<Longrightarrow> answer (foldl g l ws) rq = answer l rq"
    "distinct (map (\<lambda>w. RQ_id (PD_request w)) ws) \<Longrightarrow> (\<And>w. w \<in> set ws \<Longrightarrow> answer l (PD_request w) = None) \<Longrightarrow>
      w \<in> set ws \<Longrightarrow> answer (foldl g l ws) (PD_request w) = Some (f w)"
proof -
  show "L_registry (foldl g l ws) = L_registry l" "L_writer (foldl g l ws) = L_writer l"
    "L_terminal (foldl g l ws) = L_terminal l" "L_status (foldl g l ws) = L_status l"
    "L_budget (foldl g l ws) = L_budget l" "L_cfg (foldl g l ws) = L_cfg l" "L_pending (foldl g l ws) = L_pending l"
    "L_maxPayloadBytes (foldl g l ws) = L_maxPayloadBytes l" "L_nextRequest (foldl g l ws) = L_nextRequest l"
    "L_closing (foldl g l ws) = L_closing l"
    by (induction ws arbitrary: l) (simp_all add: g_def writer_complete_frame)
  show other: "answer (foldl g l ws) rq = answer l rq" if "\<And>w. w \<in> set ws \<Longrightarrow> RQ_id (PD_request w) \<noteq> RQ_id rq" for ws l rq
    using that by (induction ws arbitrary: l) (force simp: g_def answer_complete)+
  show kept: "answer (foldl g l ws) rq = answer l rq" if "answer l rq \<noteq> None" for ws l rq
    using that
  proof (induction ws arbitrary: l)
    case (Cons w ws)
    have "answer (g l w) rq = answer l rq"
      using Cons.prems by (auto simp: g_def answer_complete) (simp add: answer_def)
    then show ?case using Cons by simp
  qed simp
  show "answer (foldl g l ws) (PD_request w) = Some (f w)"
    if "distinct (map (\<lambda>w. RQ_id (PD_request w)) ws)" "\<And>w. w \<in> set ws \<Longrightarrow> answer l (PD_request w) = None" "w \<in> set ws"
    using that
  proof (induction ws arbitrary: l)
    case (Cons v ws)
    have v: "answer (g l v) (PD_request v) = Some (f v)" using Cons.prems(2) by (simp add: g_def answer_complete)
    show ?case
    proof (cases "w = v")
      case True
      then show ?thesis using kept [of "g l v"] v by simp
    next
      case False
      then have w: "w \<in> set ws" using Cons.prems(3) by simp
      have "answer (g l v) (PD_request u) = None" if "u \<in> set ws" for u
      proof -
        have "RQ_id (PD_request u) \<noteq> RQ_id (PD_request v)" using Cons.prems(1) that by (auto simp: image_iff)
        then show ?thesis using Cons.prems(2) [of u] that by (simp add: g_def answer_complete)
      qed
      then show ?thesis using Cons.IH [of "g l v"] Cons.prems(1) w by simp
    qed
  qed simp
qed

section \<open>The write buffer\<close>

definition pend_record :: "pendingRecord \<Rightarrow> log_record" where
  "pend_record p = (AR_Addr (PD_result p), PD_payload p)"

definition staged_ok :: "'c Log \<Rightarrow> bool" where
  \<comment> \<open>the buffered requests and the answers they have got so far\<close>
  "staged_ok l \<longleftrightarrow>
     (let w = L_writer l in
      W_waiters w = filter (\<lambda>p. RQ_sync (PD_request p)) (W_pending w) \<and> W_needSync w = (W_waiters w \<noteq> []) \<and>
      distinct (map (\<lambda>p. RQ_id (PD_request p)) (W_pending w)) \<and>
      (\<forall>p \<in> set (W_pending w). answer l (PD_request p) = (if RQ_sync (PD_request p) then None else Some (Inr (PD_result p)))))"

definition fits :: "'c Log \<Rightarrow> activeSegment \<Rightarrow> bool" where
  "fits l s \<longleftrightarrow> (\<exists>m. PhysicalRecordSize (unat (L_maxPayloadBytes l)) = Inr m \<and> 64 + unat m \<le> seg_limit (AS_header s))"

definition buffered :: "'c Log \<Rightarrow> SegmentID \<Rightarrow> log_record list \<Rightarrow> activeSegment \<Rightarrow> log_record list \<Rightarrow> bool" where
  "buffered l act older s rs \<longleftrightarrow>
     active_at (L_registry l) act older s rs \<and> fits l s \<and> L_terminal l = None \<and> staged_ok l \<and>
     (let w = L_writer l; pend = map pend_record (W_pending w) in
      W_active w = act \<and> W_fault w = None \<and>
      map (\<lambda>p. \<lparr>RE_Result = PD_result p, RE_Size = PD_size p\<rparr>) (W_pending w) = map extent pend \<and>
      W_encoded w = frames pend \<and> W_bytes w = word_of_nat (length (frames pend)) \<and>
      placed act (64 + length (frames rs)) pend \<and> 64 + length (frames (rs @ pend)) \<le> seg_limit (AS_header s))"

definition failed :: "'c Log \<Rightarrow> bool" where
  "failed l \<longleftrightarrow> L_terminal l \<noteq> None \<and> W_fault (L_writer l) = L_terminal l \<and> W_pending (L_writer l) = []"

definition rq_ok :: "'c Log \<Rightarrow> appendRequest \<Rightarrow> bool" where
  "rq_ok l rq \<longleftrightarrow> PhysicalRecordSize (length (RQ_payload rq)) = Inr (RQ_physical rq) \<and>
     length (RQ_payload rq) \<le> unat (L_maxPayloadBytes l) \<and> \<not> RQ_stop rq \<and> \<not> RQ_reserved rq"

definition fresh :: "'c Log \<Rightarrow> appendRequest \<Rightarrow> bool" where
  "fresh l rq \<longleftrightarrow> answer l rq = None \<and> (\<forall>p \<in> set (W_pending (L_writer l)). RQ_id (PD_request p) \<noteq> RQ_id rq)"

lemma buffered_staged: "buffered l act older s rs \<Longrightarrow> staged_ok l"
  by (simp add: buffered_def)

lemma writer_poison_view:
  assumes "staged_ok l" "L_terminal l = None" "W_fault (L_writer l) = None" "writer_poison cause l = (f, l')"
  shows "L_registry l' = L_registry l" "failed l'" "W_pending (L_writer l') = []" "W_deferred (L_writer l') = W_deferred (L_writer l)"
    "L_maxPayloadBytes l' = L_maxPayloadBytes l" "L_nextRequest l' = L_nextRequest l"
    "p \<in> set (W_waiters (L_writer l)) \<Longrightarrow> answer l' (PD_request p) = Some (Inl f)"
    "(\<And>p. p \<in> set (W_pending (L_writer l)) \<Longrightarrow> RQ_id (PD_request p) \<noteq> RQ_id rq) \<Longrightarrow> answer l' rq = answer l rq"
    "answer l rq \<noteq> None \<Longrightarrow> answer l' rq = answer l rq"
proof -
  define ws where "ws = W_waiters (L_writer l)"
  define l1 where "l1 = l\<lparr>L_terminal := Some f, L_status := (L_status l)\<lparr>LST_Poisoned := True\<rparr>, L_budget := budget_close (L_budget l)\<rparr>"
  define l2 where "l2 = foldl (\<lambda>l waiter. writer_complete (PD_request waiter) (Inl f) l) l1 ws"
  have "setTerminal cause l = (f, l1)"
    using assms(2-4) by (auto simp: writer_poison_def setTerminal_def Let_def l1_def)
  then have l': "l' = (clear_pending (l2\<lparr>L_pending := []\<rparr>))\<lparr>L_writer := (L_writer l2)\<lparr>W_fault := Some f, W_pending := [],
      W_waiters := [], W_encoded := [], W_bytes := 0, W_needSync := False\<rparr>\<rparr>"
    using assms(3,4) by (simp add: writer_poison_def Let_def l2_def ws_def clear_pending_def)
  note F = foldl_complete [where f = "\<lambda>_. Inl f" and l = l1 and ws = ws, folded l2_def]
  show "L_registry l' = L_registry l" "W_pending (L_writer l') = []" "W_deferred (L_writer l') = W_deferred (L_writer l)"
    "L_maxPayloadBytes l' = L_maxPayloadBytes l" "L_nextRequest l' = L_nextRequest l"
    using F by (simp_all add: l' clear_pending_def l1_def)
  show "failed l'" using F by (simp add: failed_def l' clear_pending_def l1_def)
  have a: "answer l' rq = answer l2 rq" "answer l1 rq = answer l rq" for rq
    by (simp_all add: answer_def l' clear_pending_def l1_def)
  have ws: "ws = filter (\<lambda>p. RQ_sync (PD_request p)) (W_pending (L_writer l))"
    "distinct (map (\<lambda>w. RQ_id (PD_request w)) ws)" "\<And>w. w \<in> set ws \<Longrightarrow> answer l1 (PD_request w) = None"
    using assms(1) by (auto simp: staged_ok_def Let_def ws_def a distinct_map_filter)
  show "answer l' (PD_request p) = Some (Inl f)" if "p \<in> set (W_waiters (L_writer l))"
    using F(13) [OF ws(2,3), of p] that by (simp add: a ws_def)
  show "answer l' rq = answer l rq" if "\<And>p. p \<in> set (W_pending (L_writer l)) \<Longrightarrow> RQ_id (PD_request p) \<noteq> RQ_id rq"
    using F(11) [of rq] that by (simp add: a ws(1))
  show "answer l' rq = answer l rq" if "answer l rq \<noteq> None"
    using F(12) [of rq] that by (simp add: a)
qed

lemma writer_reject_view:
  "L_registry (writer_reject rq e l) = L_registry l" "L_writer (writer_reject rq e l) = L_writer l"
  "L_terminal (writer_reject rq e l) = L_terminal l" "L_cfg (writer_reject rq e l) = L_cfg l"
  "L_maxPayloadBytes (writer_reject rq e l) = L_maxPayloadBytes l" "L_nextRequest (writer_reject rq e l) = L_nextRequest l"
  "answer (writer_reject rq e l) rq' = (if RQ_id rq' = RQ_id rq \<and> answer l rq = None then Some (Inl e) else answer l rq')"
  by (auto simp: writer_reject_def writer_complete_frame completed_answer answer_complete) (simp add: answer_def)+

lemma PhysicalRecordSize_mono:
  assumes "PhysicalRecordSize m = Inr a" "PhysicalRecordSize n = Inr b" "m \<le> n"
  shows "unat a \<le> unat b"
  using PhysicalRecordSize_Inr(1) [OF assms(1)] PhysicalRecordSize_Inr(1) [OF assms(2)] assms(3)
  by (simp add: div_le_mono)

definition log_same :: "'c Log \<Rightarrow> 'c Log \<Rightarrow> bool" where
  "log_same l l' \<longleftrightarrow> W_deferred (L_writer l') = W_deferred (L_writer l) \<and> L_maxPayloadBytes l' = L_maxPayloadBytes l \<and>
     L_nextRequest l' = L_nextRequest l"

definition handled :: "'c Log \<Rightarrow> appendRequest \<Rightarrow> bool" where
  \<comment> \<open>the writer has taken the request: it is rejected or in the buffer\<close>
  "handled l rq \<longleftrightarrow> (\<exists>e. answer l rq = Some (Inl e)) \<or>
     (\<exists>p \<in> set (W_pending (L_writer l)). RQ_id (PD_request p) = RQ_id rq \<and> RQ_sync (PD_request p) = RQ_sync rq \<and>
        PD_payload p = RQ_payload rq)"

definition settled :: "'c Log \<Rightarrow> appendRequest \<Rightarrow> pendingRecord list \<Rightarrow> bool \<Rightarrow> bool" where
  \<comment> \<open>the request is answered; a success names one of the records, and synced only if \<open>ok\<close>\<close>
  "settled l rq ps ok \<longleftrightarrow> (\<exists>x. answer l rq = Some x \<and>
     (\<forall>r. x = Inr r \<longrightarrow> (RQ_sync rq \<longrightarrow> ok) \<and> (\<exists>p \<in> set ps. PD_result p = r \<and> PD_payload p = RQ_payload rq)))"

lemma answer_id: "RQ_id rq = RQ_id rq' \<Longrightarrow> answer l rq = answer l rq'"
  by (simp add: answer_def)

lemma poison_settles:
  assumes "staged_ok l" "L_terminal l = None" "W_fault (L_writer l) = None" "writer_poison cause l = (f, l')" "handled l rq"
  shows "settled l' rq (W_pending (L_writer l)) False"
proof -
  note P = writer_poison_view [OF assms(1-4)]
  from assms(5) consider e where "answer l rq = Some (Inl e)"
    | p where "p \<in> set (W_pending (L_writer l))" "RQ_id (PD_request p) = RQ_id rq" "RQ_sync (PD_request p) = RQ_sync rq"
        "PD_payload p = RQ_payload rq"
    by (auto simp: handled_def)
  then show ?thesis
  proof cases
    case 1
    then show ?thesis using P(9) [of rq] by (simp add: settled_def)
  next
    case 2
    have a: "answer k rq = answer k (PD_request p)" for k :: "'a Log" using 2(2) by (simp add: answer_def)
    show ?thesis
    proof (cases "RQ_sync rq")
      case True
      then have "p \<in> set (W_waiters (L_writer l))" using 2 assms(1) by (simp add: staged_ok_def Let_def)
      then show ?thesis using P(7) [of p] a by (simp add: settled_def)
    next
      case False
      then have "answer l (PD_request p) = Some (Inr (PD_result p))" using 2 assms(1) by (auto simp: staged_ok_def Let_def)
      then show ?thesis using P(9) [of rq] a False 2 by (auto simp: settled_def)
    qed
  qed
qed

lemma poison_reject_view:
  assumes "staged_ok l" "L_terminal l = None" "W_fault (L_writer l) = None" "fresh l rq"
  shows "L_registry (poison_reject rq cause l) = L_registry l" "failed (poison_reject rq cause l)"
    "log_same l (poison_reject rq cause l)" "\<exists>e. answer (poison_reject rq cause l) rq = Some (Inl e)"
    "handled l rq' \<Longrightarrow> RQ_id rq' \<noteq> RQ_id rq \<Longrightarrow> settled (poison_reject rq cause l) rq' (W_pending (L_writer l)) False"
    "fresh l rq' \<Longrightarrow> RQ_id rq' \<noteq> RQ_id rq \<Longrightarrow> answer (poison_reject rq cause l) rq' = None"
    "RQ_id rq' \<noteq> RQ_id rq \<Longrightarrow> answer l rq' \<noteq> None \<Longrightarrow> answer (poison_reject rq cause l) rq' = answer l rq'"
proof -
  obtain f l1 where p: "writer_poison cause l = (f, l1)" by fastforce
  note P = writer_poison_view [OF assms(1-3) p]
  have l': "poison_reject rq cause l = writer_reject rq f l1" by (simp add: poison_reject_def p)
  have fr: "answer l1 rq' = None" if "fresh l rq'" for rq'
    using P(8) [of rq'] that by (simp add: fresh_def)
  show "L_registry (poison_reject rq cause l) = L_registry l" "failed (poison_reject rq cause l)"
    "log_same l (poison_reject rq cause l)" "\<exists>e. answer (poison_reject rq cause l) rq = Some (Inl e)"
    using P(1-6) fr [OF assms(4)] by (auto simp: l' writer_reject_view failed_def log_same_def)
  show "settled (poison_reject rq cause l) rq' (W_pending (L_writer l)) False" if "handled l rq'" "RQ_id rq' \<noteq> RQ_id rq"
    using poison_settles [OF assms(1-3) p that(1)] that(2) by (simp add: settled_def l' writer_reject_view)
  show "answer (poison_reject rq cause l) rq' = None" if "fresh l rq'" "RQ_id rq' \<noteq> RQ_id rq"
    using fr [OF that(1)] that(2) by (simp add: l' writer_reject_view)
  show "answer (poison_reject rq cause l) rq' = answer l rq'" if "RQ_id rq' \<noteq> RQ_id rq" "answer l rq' \<noteq> None"
    using P(9) [OF that(2)] that(1) by (simp add: l' writer_reject_view)
qed

section \<open>Staging a request\<close>

definition stage_failed :: "'c Log \<Rightarrow> 'c Log \<Rightarrow> appendRequest \<Rightarrow> log_record list \<Rightarrow> bool" where
  "stage_failed l l' rq cs \<longleftrightarrow> failed l' \<and> log_same l l' \<and> reg_holds (L_registry l') cs (reg_durable (L_registry l)) \<and>
     (\<exists>e. answer l' rq = Some (Inl e)) \<and>
     (\<forall>rq'. RQ_id rq' \<noteq> RQ_id rq \<longrightarrow> handled l rq' \<longrightarrow> settled l' rq' (W_pending (L_writer l)) False) \<and>
     (\<forall>rq'. RQ_id rq' \<noteq> RQ_id rq \<longrightarrow> fresh l rq' \<longrightarrow> answer l' rq' = None)"

lemma poison_stage_failed:
  assumes "staged_ok l1" "L_terminal l1 = None" "W_fault (L_writer l1) = None" "fresh l1 rq"
    "reg_holds (L_registry l1) cs n" "L_responses l1 = L_responses l" "W_pending (L_writer l1) = W_pending (L_writer l)"
    "log_same l l1" "reg_durable (L_registry l) \<le> n"
  shows "stage_failed l (poison_reject rq cause l1) rq cs"
proof -
  note P = poison_reject_view [OF assms(1-4), where cause = cause]
  have eq: "handled l rq' = handled l1 rq'" "fresh l rq' = fresh l1 rq'" for rq'
    using assms(6,7) answer_cong [OF assms(6)] by (simp_all add: handled_def fresh_def)
  show ?thesis
    using P(1-4) P(5,6) assms(5,7-9) by (auto simp: stage_failed_def eq log_same_def reg_holds_def)
qed

lemma fits_physical:
  assumes "fits l s" "rq_ok l rq"
  shows "64 + unat (RQ_physical rq) \<le> seg_limit (AS_header s)"
  using assms PhysicalRecordSize_mono [of "length (RQ_payload rq)" "RQ_physical rq"]
  by (fastforce simp: fits_def rq_ok_def)

lemma stage_rotate_view:
  assumes buf: "buffered l act older s rs" and rq: "rq_ok l rq" "fresh l rq" and room: "W_pending (L_writer l) = [] \<or> canStage l rq"
    and step: "stage_rotate port env rq l = (ok, l')"
  shows "\<not> ok \<Longrightarrow> stage_failed l l' rq (older @ rs)"
    "ok \<Longrightarrow> \<exists>act' older' s' rs'. buffered l' act' older' s' rs' \<and> older' @ rs' = older @ rs \<and>
       reg_durable (L_registry l) \<le> reg_durable (L_registry l') \<and> L_responses l' = L_responses l \<and>
       W_pending (L_writer l') = W_pending (L_writer l) \<and> log_same l l' \<and>
       64 + length (frames (rs' @ map pend_record (W_pending (L_writer l')))) + unat (RQ_physical rq) \<le> seg_limit (AS_header s')"
proof -
  have at: "active_at (L_registry l) act older s rs" and wa: "W_active (L_writer l) = act" and obj: "active_object l = s"
    and ok: "active_ok s rs"
    using buf by (simp_all add: buffered_def active_at_def active_object_def Let_def)
  let ?pend = "map pend_record (W_pending (L_writer l))"
  note E = active_ok_end [OF ok]
  have stay: "\<exists>act' older' s' rs'. buffered l act' older' s' rs' \<and> older' @ rs' = older @ rs \<and>
       64 + length (frames (rs' @ ?pend)) + unat (RQ_physical rq) \<le> seg_limit (AS_header s')"
    if fit: "RQ_physical rq \<le> remainingLocked s"
  proof -
    have lim: "64 + length (frames (rs @ ?pend)) \<le> seg_limit (AS_header s)" and wb: "W_bytes (L_writer l) = word_of_nat (length (frames ?pend))"
      using buf by (simp_all add: buffered_def Let_def)
    have "64 + length (frames (rs @ ?pend)) + unat (RQ_physical rq) \<le> seg_limit (AS_header s)"
    proof (cases "W_pending (L_writer l) = []")
      case True
      then show ?thesis using fit E(2) lim by (simp add: word_le_nat_alt)
    next
      case False
      then have c: "W_bytes (L_writer l) \<le> remainingLocked s" "RQ_physical rq \<le> remainingLocked s - W_bytes (L_writer l)"
        using room obj by (auto simp: canStage_def Let_def split: if_splits)
      have "unat (W_bytes (L_writer l)) = length (frames ?pend)"
        unfolding wb using lim seg_limit_bound [of "AS_header s"] by (intro unat_word_u32) simp
      then show ?thesis using c E(2) lim by (simp add: word_le_nat_alt unat_sub)
    qed
    then show ?thesis using buf by blast
  qed
  obtain x l1 where rot: "log_rotate port env l = (x, l1)" by fastforce
  note R = log_rotate_view [OF at wa rot] and D = log_frameD [OF log_rotate_view(1) [OF at wa rot]]
  define l2 where "l2 = l1\<lparr>L_status := (L_status l1)\<lparr>LST_RotationCalls := LST_RotationCalls (L_status l1) + 1\<rparr>\<rparr>"
  have l2: "L_registry l2 = L_registry l1" "L_writer l2 = L_writer l" "L_terminal l2 = L_terminal l" "L_responses l2 = L_responses l"
      "L_maxPayloadBytes l2 = L_maxPayloadBytes l" "L_nextRequest l2 = L_nextRequest l"
    using D by (simp_all add: l2_def)
  have same2: "log_same l l2" by (simp add: log_same_def l2)
  have st2: "staged_ok l2" "fresh l2 rq" "L_terminal l2 = None" "W_fault (L_writer l2) = None"
    using buf rq(2) l2 answer_cong [OF l2(4)] by (simp_all add: buffered_def staged_ok_def fresh_def Let_def)
  have fail: "stage_failed l (poison_reject rq cause l2) rq (older @ rs)"
    if "reg_holds (L_registry l1) (older @ rs) (reg_durable (L_registry l))" for cause
    by (rule poison_stage_failed [where n = "reg_durable (L_registry l)"])
      (use st2 l2 same2 that in simp_all)
  consider (fit) "RQ_physical rq \<le> remainingLocked s" "ok" "l' = l"
    | (full) e where "\<not> RQ_physical rq \<le> remainingLocked s" "x = Inl e" "\<not> ok" "l' = poison_reject rq e l2"
    | (rotated) i s' where "\<not> RQ_physical rq \<le> remainingLocked s" "x = Inr i" "R_objs (L_registry l2) i = Some s'"
        "active_at (L_registry l1) i (older @ rs) s' []" "SH_SegmentSize (AS_header s') = SH_SegmentSize (AS_header s)"
  proof (cases "RQ_physical rq \<le> remainingLocked s")
    case True
    then show ?thesis using step obj fit by (simp add: stage_rotate_def)
  next
    case False
    show ?thesis
    proof (cases x)
      case (Inl e)
      then show ?thesis using step obj False rot full by (simp add: stage_rotate_def Let_def l2_def)
    next
      case (Inr i)
      then show ?thesis using R(3) [OF Inr] False rotated l2(1) by (auto simp: active_at_def)
    qed
  qed
  then have "(\<not> ok \<longrightarrow> stage_failed l l' rq (older @ rs)) \<and> (ok \<longrightarrow> (\<exists>act' older' s' rs'. buffered l' act' older' s' rs' \<and> older' @ rs' = older @ rs \<and>
       reg_durable (L_registry l) \<le> reg_durable (L_registry l') \<and> L_responses l' = L_responses l \<and>
       W_pending (L_writer l') = W_pending (L_writer l) \<and> log_same l l' \<and>
       64 + length (frames (rs' @ map pend_record (W_pending (L_writer l')))) + unat (RQ_physical rq) \<le> seg_limit (AS_header s')))"
  proof cases
    case fit
    then show ?thesis using stay by (auto simp: log_same_def)
  next
    case full
    then show ?thesis using fail [OF R(2)] by blast
  next
    case rotated
    have hold: "reg_holds (L_registry l1) (older @ rs) (reg_durable (L_registry l))"
    proof -
      have "reg_durable (L_registry l) \<le> length (older @ rs)" using active_at_holds(3) [OF at] by (simp add: reg_holds_def)
      then show ?thesis using active_at_holds [OF rotated(4)] by (simp add: reg_holds_def)
    qed
    have none: "W_pending (L_writer l) = []"
    proof (rule ccontr)
      assume "W_pending (L_writer l) \<noteq> []"
      then have "W_bytes (L_writer l) \<le> remainingLocked s" "RQ_physical rq \<le> remainingLocked s - W_bytes (L_writer l)"
        using room obj by (auto simp: canStage_def Let_def split: if_splits)
      then show False using rotated(1) by (simp add: word_le_nat_alt unat_sub)
    qed
    define position where "position = \<lparr>LogPos_SegmentID = SH_SegmentID (AS_header s'), LogPos_Offset = SS_ValidEnd (summaryLocked s')\<rparr>"
    define l3 where "l3 = l2\<lparr>L_writer := (L_writer l2)\<lparr>W_active := i\<rparr>, L_status := (L_status l2)\<lparr>LST_Watermarks :=
        \<lparr>WM_Reserved = position, WM_Written = position, WM_Durable = position\<rparr>\<rparr>\<rparr>"
    have eq: "(if \<not> AS_open s' \<or> SH_PreviousSegment (AS_header s') \<noteq> SH_SegmentID (AS_header (active_object l2))
        then (False, poison_reject rq recordlog_ErrInvalidConfig l2) else (True, l3)) = (ok, l')"
    proof -
      have "R_objs (L_registry l1) i = Some s'" using rotated(3) l2(1) by simp
      then show ?thesis
        unfolding l3_def l2_def position_def using step obj rotated(1,2) rot by (auto simp: stage_rotate_def Let_def split: if_splits)
    qed
    show ?thesis
    proof (cases "\<not> AS_open s' \<or> SH_PreviousSegment (AS_header s') \<noteq> SH_SegmentID (AS_header (active_object l2))")
      case True
      then have "\<not> ok" "l' = poison_reject rq recordlog_ErrInvalidConfig l2"
        using eq by (simp_all split: if_splits)
      then show ?thesis using fail [OF hold] by blast
    next
      case False
      then have ok: "ok" and l'3: "l' = l3" using eq by (simp_all split: if_splits)
      note l' = l'3 [unfolded l3_def]
      have resp: "answer l' q = answer l q" for q by (rule answer_cong) (simp add: l' l2)
      have lim: "seg_limit (AS_header s') = seg_limit (AS_header s)" using rotated(5) by (simp add: seg_limit_def)
      have max: "64 + unat (RQ_physical rq) \<le> seg_limit (AS_header s')"
        using fits_physical [of l s rq] buf rq(1) lim by (simp add: buffered_def)
      have "buffered l' i (older @ rs) s' []"
        using buf rotated(4) none lim max by (simp add: buffered_def Let_def l' l2 staged_ok_def resp fits_def)
      moreover have "(older @ rs) @ [] = older @ rs" "reg_durable (L_registry l) \<le> reg_durable (L_registry l')"
          "L_responses l' = L_responses l" "W_pending (L_writer l') = W_pending (L_writer l)" "log_same l l'"
          "64 + length (frames ([] @ map pend_record (W_pending (L_writer l')))) + unat (RQ_physical rq) \<le> seg_limit (AS_header s')"
        using hold none max by (simp_all add: l' l2 log_same_def reg_holds_def)
      ultimately show ?thesis using ok by blast
    qed
  qed
  then show "\<not> ok \<Longrightarrow> stage_failed l l' rq (older @ rs)"
    "ok \<Longrightarrow> \<exists>act' older' s' rs'. buffered l' act' older' s' rs' \<and> older' @ rs' = older @ rs \<and>
       reg_durable (L_registry l) \<le> reg_durable (L_registry l') \<and> L_responses l' = L_responses l \<and>
       W_pending (L_writer l') = W_pending (L_writer l) \<and> log_same l l' \<and>
       64 + length (frames (rs' @ map pend_record (W_pending (L_writer l')))) + unat (RQ_physical rq) \<le> seg_limit (AS_header s')"
    by blast+
qed

lemma stage_record_view:
  assumes "fresh l rq"
  shows "L_registry (stage_record rq result encoded l) = L_registry l" "L_terminal (stage_record rq result encoded l) = L_terminal l"
    "log_same l (stage_record rq result encoded l)"
    "RQ_id q \<noteq> RQ_id rq \<Longrightarrow> answer (stage_record rq result encoded l) q = answer l q"
    "answer (stage_record rq result encoded l) rq = (if RQ_sync rq then None else Some (Inr result))"
    "\<exists>p. W_pending (L_writer (stage_record rq result encoded l)) = W_pending (L_writer l) @ [p] \<and>
       PD_request p = rq\<lparr>RQ_payload := [], RQ_reserved := True, RQ_budget := 0\<rparr> \<and> PD_result p = result \<and> PD_size p = RQ_physical rq \<and>
       PD_payload p = RQ_payload rq \<and>
       W_waiters (L_writer (stage_record rq result encoded l)) = W_waiters (L_writer l) @ (if RQ_sync rq then [p] else [])"
    "W_encoded (L_writer (stage_record rq result encoded l)) = W_encoded (L_writer l) @ encoded"
    "W_bytes (L_writer (stage_record rq result encoded l)) = W_bytes (L_writer l) + RQ_physical rq"
    "W_active (L_writer (stage_record rq result encoded l)) = W_active (L_writer l)"
    "W_fault (L_writer (stage_record rq result encoded l)) = W_fault (L_writer l)"
    "W_needSync (L_writer (stage_record rq result encoded l)) = (W_needSync (L_writer l) \<or> RQ_sync rq)"
    "L_cfg (stage_record rq result encoded l) = L_cfg l"
  using assms
  by (auto simp: stage_record_def Let_def writer_complete_frame log_same_def answer_complete fresh_def) (auto simp: answer_def)

lemma stage_record_buffered:
  assumes buf: "buffered l act older s rs" and rq: "rq_ok l rq" "fresh l rq"
    and room: "64 + length (frames (rs @ map pend_record (W_pending (L_writer l)))) + unat (RQ_physical rq) \<le> seg_limit (AS_header s)"
    and addr: "NewVAddr act (AS_end s + W_bytes (L_writer l)) (RQ_physical rq) = Inr addr"
    and result: "NewAppendResult addr (RQ_physical rq) = Inr result"
    and enc: "EncodeRecordTo (unat (RQ_physical rq)) addr (RQ_payload rq) = Inr encoded"
  shows "buffered (stage_record rq result encoded l) act older s rs"
proof -
  let ?pend = "map pend_record (W_pending (L_writer l))" and ?r = "(addr, RQ_payload rq)" and ?l = "stage_record rq result encoded l"
  have b: "active_ok s rs" "W_bytes (L_writer l) = word_of_nat (length (frames ?pend))" "placed act (64 + length (frames rs)) ?pend"
    using buf by (simp_all add: buffered_def Let_def active_at_def)
  have ph: "PhysicalRecordSize (length (RQ_payload rq)) = Inr (RQ_physical rq)" using rq by (simp add: rq_ok_def)
  have er: "EncodeRecord addr (RQ_payload rq) = Inr encoded" using enc ph by (simp add: EncodeRecord_def)
  then have f: "frame ?r = encoded" by (simp add: frame_def)
  have len: "length encoded = unat (RQ_physical rq)" using DecodeRecordHeader_Encode(2) [OF er ph] by simp
  then have sz: "RQ_physical rq = word_of_nat (length (frame ?r))" by (simp add: f)
  have mx: "seg_limit (AS_header s) \<le> MaxUint32" by (rule seg_limit_bound)
  have ub: "unat (W_bytes (L_writer l)) = length (frames ?pend)"
    unfolding b(2) using room mx by (intro unat_word_u32) simp
  have off: "unat (AS_end s + W_bytes (L_writer l)) = 64 + length (frames rs) + length (frames ?pend)"
    using active_ok_end(1) [OF b(1)] ub room mx by (simp add: unat_word_ariths)
  note A = NewVAddr_fields [OF addr]
  have pl: "placed act (64 + length (frames rs) + length (frames ?pend)) [?r]" using A off er f by simp
  have "NewAppendResult addr (RH_PhysicalSize (rec_header ?r)) = Inr (rec_result ?r)"
    using NewAppendResult_rec [of ?r] er f A(2) off room mx len by simp
  then have res: "result = rec_result ?r" using result sz by (simp add: rec_header_def)
  have ext: "\<lparr>RE_Result = result, RE_Size = RQ_physical rq\<rparr> = extent ?r" by (simp add: extent_def res sz)
  have ad: "AR_Addr result = addr" by (simp add: res rec_result_def)
  note R = stage_record_view [OF rq(2), where result = result and encoded = encoded]
  obtain p where p: "W_pending (L_writer ?l) = W_pending (L_writer l) @ [p]"
      "PD_request p = rq\<lparr>RQ_payload := [], RQ_reserved := True, RQ_budget := 0\<rparr>" "PD_result p = result" "PD_size p = RQ_physical rq"
      "PD_payload p = RQ_payload rq" "W_waiters (L_writer ?l) = W_waiters (L_writer l) @ (if RQ_sync rq then [p] else [])"
    using R(6) by blast
  have pr: "pend_record p = ?r" by (simp add: pend_record_def p ad)
  have pa: "answer ?l (PD_request p) = (if RQ_sync rq then None else Some (Inr result))"
    using R(5) by (simp add: p(2) answer_def)
  have st: "staged_ok l" by (rule buffered_staged [OF buf])
  have "answer ?l (PD_request q) = answer l (PD_request q)" if "q \<in> set (W_pending (L_writer l))" for q
    using R(4) rq(2) that by (simp add: fresh_def)
  then have st': "staged_ok ?l"
    using st rq(2) pa p by (auto simp: staged_ok_def Let_def R fresh_def)
  have "W_bytes (L_writer ?l) = word_of_nat (length (frames (?pend @ [?r])))"
    by (simp add: R(8) b(2) f len)
  moreover have "64 + length (frames (rs @ ?pend @ [?r])) \<le> seg_limit (AS_header s)"
    using room len f by simp
  ultimately show ?thesis
    using buf st' pl ext R(1,2) R(3) by (simp add: buffered_def Let_def R p pr fits_def log_same_def f)
qed

lemma buffered_reject:
  assumes "buffered l act older s rs" "fresh l rq"
  shows "buffered (writer_reject rq e l) act older s rs" "answer (writer_reject rq e l) rq = Some (Inl e)"
    "RQ_id q \<noteq> RQ_id rq \<Longrightarrow> answer (writer_reject rq e l) q = answer l q"
proof -
  have "answer (writer_reject rq e l) (PD_request p) = answer l (PD_request p)" if "p \<in> set (W_pending (L_writer l))" for p
    using assms(2) that by (simp add: fresh_def writer_reject_view)
  then have "staged_ok (writer_reject rq e l)"
    using assms(1) by (simp add: buffered_def staged_ok_def writer_reject_view Let_def)
  then show "buffered (writer_reject rq e l) act older s rs"
    using assms(1) by (simp add: buffered_def writer_reject_view fits_def)
  show "answer (writer_reject rq e l) rq = Some (Inl e)" "RQ_id q \<noteq> RQ_id rq \<Longrightarrow> answer (writer_reject rq e l) q = answer l q"
    using assms(2) by (simp_all add: writer_reject_view fresh_def)
qed

lemma writer_stage_view:
  assumes buf: "buffered l act older s rs" and rq: "rq_ok l rq" "fresh l rq" and room: "W_pending (L_writer l) = [] \<or> canStage l rq"
    and step: "writer_stage port env rq l = (ok, l')"
  obtains (staged) act' older' s' rs' p where "ok" "buffered l' act' older' s' rs'" "older' @ rs' = older @ rs"
      "reg_durable (L_registry l) \<le> reg_durable (L_registry l')" "W_pending (L_writer l') = W_pending (L_writer l) @ [p]"
      "RQ_id (PD_request p) = RQ_id rq" "RQ_sync (PD_request p) = RQ_sync rq" "PD_payload p = RQ_payload rq" "log_same l l'"
      "\<And>q. RQ_id q \<noteq> RQ_id rq \<Longrightarrow> answer l' q = answer l q"
    | (rejected) e where "\<not> ok" "buffered l' act older s rs" "L_registry l' = L_registry l"
      "W_pending (L_writer l') = W_pending (L_writer l)" "answer l' rq = Some (Inl e)" "log_same l l'"
      "\<And>q. RQ_id q \<noteq> RQ_id rq \<Longrightarrow> answer l' q = answer l q"
    | (failed) "\<not> ok" "stage_failed l l' rq (older @ rs)"
proof (cases "RQ_ctx rq")
  case (Some e)
  then have "\<not> ok" "l' = writer_reject rq e l" using step by (simp_all add: writer_stage_def)
  then show thesis
    using rejected buffered_reject [OF buf rq(2), where e = e] by (simp add: writer_reject_view log_same_def)
next
  case ctx: None
  obtain rotated l1 where rot: "stage_rotate port env rq l = (rotated, l1)" by fastforce
  note R = stage_rotate_view [OF buf rq room rot]
  show thesis
  proof (cases rotated)
    case False
    then show thesis using step ctx rot failed R(1) by (simp add: writer_stage_def)
  next
    case True
    obtain act' older' s' rs' where b1: "buffered l1 act' older' s' rs'" "older' @ rs' = older @ rs"
        "reg_durable (L_registry l) \<le> reg_durable (L_registry l1)" "L_responses l1 = L_responses l"
        "W_pending (L_writer l1) = W_pending (L_writer l)" "log_same l l1"
        "64 + length (frames (rs' @ map pend_record (W_pending (L_writer l1)))) + unat (RQ_physical rq) \<le> seg_limit (AS_header s')"
      using R(2) [OF True] by blast
    have ans: "answer l1 q = answer l q" for q by (rule answer_cong [OF b1(4)])
    have rq1: "rq_ok l1 rq" "fresh l1 rq"
      using rq b1(5,6) by (simp_all add: rq_ok_def fresh_def log_same_def ans)
    have o1: "active_object l1 = s'" "SH_SegmentID (AS_header s') = act'" "SS_ValidEnd (summaryLocked s') = AS_end s'"
      using b1(1) by (simp_all add: buffered_def active_at_def active_object_def Let_def summaryLocked_def)
    have t1: "L_terminal l1 = None" "W_fault (L_writer l1) = None"
      using b1(1) by (simp_all add: buffered_def Let_def)
    have "reg_holds (L_registry l1) (older @ rs) (reg_durable (L_registry l1))"
      using b1(1,2) active_at_holds(3) by (metis buffered_def)
    then have fail: "stage_failed l (poison_reject rq e l1) rq (older @ rs)" for e
      using poison_stage_failed [OF buffered_staged [OF b1(1)] t1 rq1(2), of "older @ rs" _ l e] b1 by blast
    show thesis
    proof (cases "\<exists>addr result encoded. NewVAddr act' (AS_end s' + W_bytes (L_writer l1)) (RQ_physical rq) = Inr addr \<and>
        NewAppendResult addr (RQ_physical rq) = Inr result \<and> EncodeRecordTo (unat (RQ_physical rq)) addr (RQ_payload rq) = Inr encoded")
      case False
      then have "\<not> ok" "\<exists>e. l' = poison_reject rq e l1"
        using step ctx rot True o1 by (auto simp: writer_stage_def Let_def split: sum.splits)
      then show thesis using failed fail by auto
    next
      case True
      then obtain addr result encoded where c: "NewVAddr act' (AS_end s' + W_bytes (L_writer l1)) (RQ_physical rq) = Inr addr"
        "NewAppendResult addr (RQ_physical rq) = Inr result" "EncodeRecordTo (unat (RQ_physical rq)) addr (RQ_payload rq) = Inr encoded"
        by blast
      have ok: "ok" and l': "l' = stage_record rq result encoded l1"
        using step ctx rot \<open>rotated\<close> o1 c by (simp_all add: writer_stage_def Let_def)
      note S = stage_record_view [OF rq1(2), where result = result and encoded = encoded, folded l']
      have b': "buffered l' act' older' s' rs'"
        using stage_record_buffered [OF b1(1) rq1 b1(7) c] by (simp add: l')
      obtain p where p: "W_pending (L_writer l') = W_pending (L_writer l) @ [p]" "RQ_id (PD_request p) = RQ_id rq"
          "RQ_sync (PD_request p) = RQ_sync rq" "PD_payload p = RQ_payload rq"
        using S(6) b1(5) by auto
      show thesis
        using ok b' b1(2,3,6) p S(1,3,4) ans by (intro staged [of act' older' s' rs' p]) (simp_all add: log_same_def)
    qed
  qed
qed

section \<open>Filling and flushing the buffer\<close>

definition good_records :: "pendingRecord list \<Rightarrow> bool" where
  "good_records ps \<longleftrightarrow> (\<forall>p \<in> set ps. PD_result p = rec_result (pend_record p) \<and>
     EncodeRecord (AR_Addr (PD_result p)) (PD_payload p) = Inr (frame (pend_record p)))"

lemma placed_encodes: "placed seg off rs \<Longrightarrow> r \<in> set rs \<Longrightarrow> EncodeRecord (fst r) (snd r) = Inr (frame r)"
  by (induction rs arbitrary: off) auto

lemma buffered_good:
  assumes "buffered l act older s rs"
  shows "good_records (W_pending (L_writer l))"
proof -
  let ?ps = "W_pending (L_writer l)"
  have e: "map (\<lambda>p. \<lparr>RE_Result = PD_result p, RE_Size = PD_size p\<rparr>) ?ps = map extent (map pend_record ?ps)"
    and pl: "placed act (64 + length (frames rs)) (map pend_record ?ps)"
    using assms by (simp_all add: buffered_def Let_def)
  have "\<lparr>RE_Result = PD_result p, RE_Size = PD_size p\<rparr> = extent (pend_record p)" if "p \<in> set ?ps" for p
    using e that by (simp add: map_eq_conv)
  then show ?thesis
    using placed_encodes [OF pl] by (auto simp: good_records_def extent_def pend_record_def)
qed

lemma sorted_fst_append:
  "sorted_wrt (<) (map fst xs) \<Longrightarrow> sorted_wrt (<) (map fst ys) \<Longrightarrow> (\<And>x y. x \<in> set xs \<Longrightarrow> y \<in> set ys \<Longrightarrow> fst x < fst y) \<Longrightarrow>
   sorted_wrt (<) (map fst (xs @ ys))"
  by (simp add: sorted_wrt_append)

lemma buffered_sorted:
  assumes "buffered l act older s rs"
  shows "sorted_wrt (<) (map fst ((older @ rs) @ map pend_record (W_pending (L_writer l))))"
proof -
  let ?new = "map pend_record (W_pending (L_writer l))"
  have at: "active_at (L_registry l) act older s rs" and p: "placed act (64 + length (frames rs)) ?new"
    using assms by (simp_all add: buffered_def Let_def)
  then have pl: "placed act 64 (rs @ ?new)" using active_ok_placed(1) [of s rs] by (auto simp: active_at_def)
  have o: "sorted_wrt (<) (map fst older)" "\<forall>x \<in> set older. VAddr_SegmentID (fst x) < act"
    using at unfolding active_at_def reg_ok_def by blast+
  moreover have "fst x < fst y" if "x \<in> set older" "y \<in> set (rs @ ?new)" for x y
    using that o(2) placed_sorted [OF pl] by (intro VAddr_less_segment) auto
  ultimately have "sorted_wrt (<) (map fst (older @ rs @ ?new))"
    using placed_sorted [OF pl] by (blast intro: sorted_fst_append)
  then show ?thesis by simp
qed

definition pend_key :: "pendingRecord \<Rightarrow> nat \<times> bytes" where
  "pend_key p = (RQ_id (PD_request p), PD_payload p)"

definition rq_key :: "appendRequest \<Rightarrow> nat \<times> bytes" where
  "rq_key rq = (RQ_id rq, RQ_payload rq)"

definition in_order :: "pendingRecord list \<Rightarrow> appendRequest list \<Rightarrow> bool" where
  \<comment> \<open>the records belong to some of the requests, in the order of the requests\<close>
  "in_order ps taken \<longleftrightarrow> subseq (map pend_key ps) (map rq_key taken)"

lemma in_order_simps:
  "in_order ps taken \<Longrightarrow> in_order ps (taken @ [rq])"
  "in_order ps taken \<Longrightarrow> RQ_id (PD_request p) = RQ_id rq \<Longrightarrow> PD_payload p = RQ_payload rq \<Longrightarrow> in_order (ps @ [p]) (taken @ [rq])"
  "in_order [] taken"
  by (auto simp: in_order_def pend_key_def rq_key_def intro: list_emb_append_mono subseq_rev_drop_many)

definition progress :: "'c Log \<Rightarrow> log_record list \<Rightarrow> nat \<Rightarrow> appendRequest list \<Rightarrow> bool" where
  "progress l cs n taken \<longleftrightarrow> (\<exists>act older s rs. buffered l act older s rs \<and> older @ rs = cs) \<and>
     n \<le> reg_durable (L_registry l) \<and> (\<forall>rq \<in> set taken. handled l rq) \<and> in_order (W_pending (L_writer l)) taken"

definition broken :: "'c Log \<Rightarrow> log_record list \<Rightarrow> nat \<Rightarrow> appendRequest list \<Rightarrow> pendingRecord list \<Rightarrow> bool" where
  "broken l cs n taken ps \<longleftrightarrow> failed l \<and> reg_holds (L_registry l) cs n \<and> good_records ps \<and>
     sorted_wrt (<) (map fst (cs @ map pend_record ps)) \<and> in_order ps taken \<and>
     (\<forall>rq \<in> set taken. settled l rq ps False)"

lemma handled_fresh: "staged_ok l \<Longrightarrow> handled l rq \<Longrightarrow> fresh l rq' \<Longrightarrow> RQ_id rq \<noteq> RQ_id rq'"
  by (auto simp: handled_def fresh_def answer_def)

lemma stage_progress:
  assumes prog: "progress l cs n taken" and rq: "rq_ok l rq" "fresh l rq"
    and room: "W_pending (L_writer l) = [] \<or> canStage l rq" and step: "writer_stage port env rq l = (ok, l')"
  shows "log_same l l'" "(\<And>q. fresh l q \<Longrightarrow> RQ_id q \<noteq> RQ_id rq \<Longrightarrow> answer l' q = None)"
    "W_fault (L_writer l') = None \<Longrightarrow> progress l' cs n (taken @ [rq])"
    "W_fault (L_writer l') = None \<Longrightarrow> fresh l q \<Longrightarrow> RQ_id q \<noteq> RQ_id rq \<Longrightarrow> fresh l' q"
    "W_fault (L_writer l') \<noteq> None \<Longrightarrow> \<not> ok \<and> broken l' cs n (taken @ [rq]) (W_pending (L_writer l))"
    "\<not> ok \<Longrightarrow> W_pending (L_writer l) = [] \<Longrightarrow> W_fault (L_writer l') = None \<Longrightarrow> W_pending (L_writer l') = []"
proof -
  obtain act older s rs where b: "buffered l act older s rs" "older @ rs = cs"
    and n: "n \<le> reg_durable (L_registry l)" and h: "\<forall>q \<in> set taken. handled l q" and o: "in_order (W_pending (L_writer l)) taken"
    using prog by (auto simp: progress_def)
  have ne: "RQ_id q \<noteq> RQ_id rq" if "q \<in> set taken" for q
    using handled_fresh [OF buffered_staged [OF b(1)] _ rq(2)] h that by blast
  have "log_same l l' \<and> (\<forall>q. fresh l q \<longrightarrow> RQ_id q \<noteq> RQ_id rq \<longrightarrow> answer l' q = None) \<and>
    (W_fault (L_writer l') = None \<longrightarrow> progress l' cs n (taken @ [rq]) \<and> (\<forall>q. fresh l q \<longrightarrow> RQ_id q \<noteq> RQ_id rq \<longrightarrow> fresh l' q)) \<and>
    (W_fault (L_writer l') \<noteq> None \<longrightarrow> \<not> ok \<and> broken l' cs n (taken @ [rq]) (W_pending (L_writer l))) \<and>
    (\<not> ok \<longrightarrow> W_pending (L_writer l) = [] \<longrightarrow> W_fault (L_writer l') = None \<longrightarrow> W_pending (L_writer l') = [])"
    using b(1) rq room step
  proof (cases rule: writer_stage_view)
    case (staged act' older' s' rs' p)
    have "handled l' q" if "q \<in> set taken" for q
      using h ne [OF that] that staged(5,10) by (fastforce simp: handled_def)
    moreover have "handled l' rq" using staged(5-8) by (auto simp: handled_def)
    ultimately have "progress l' cs n (taken @ [rq])"
      using staged(2-4) n b(2) in_order_simps(2) [OF o staged(6,8)] staged(5) by (auto simp: progress_def)
    moreover have "W_fault (L_writer l') = None" using staged(2) by (simp add: buffered_def Let_def)
    ultimately show ?thesis using staged by (auto simp: fresh_def)
  next
    case (rejected e)
    have "handled l' q" if "q \<in> set taken" for q
      using h ne [OF that] that rejected(4,7) by (fastforce simp: handled_def)
    moreover have "handled l' rq" using rejected(5) by (auto simp: handled_def)
    ultimately have "progress l' cs n (taken @ [rq])"
      using rejected(2,3) n b(2) in_order_simps(1) [OF o] rejected(4) by (auto simp: progress_def)
    moreover have "W_fault (L_writer l') = None" using rejected(2) by (simp add: buffered_def Let_def)
    ultimately show ?thesis using rejected by (auto simp: fresh_def)
  next
    case failed
    have "W_fault (L_writer l') \<noteq> None" using failed(2) by (simp add: stage_failed_def failed_def)
    moreover have "reg_holds (L_registry l') cs n"
      using failed(2) n b(2) by (auto simp: stage_failed_def reg_holds_def)
    moreover have "settled l' q (W_pending (L_writer l)) False" if "q \<in> set (taken @ [rq])" for q
      using that ne h failed(2) by (auto simp: stage_failed_def) (auto simp: settled_def)
    ultimately show ?thesis
      using failed buffered_good [OF b(1)] buffered_sorted [OF b(1), unfolded b(2)] in_order_simps(1) [OF o]
      by (auto simp: broken_def stage_failed_def)
  qed
  then show "log_same l l'" "(\<And>q. fresh l q \<Longrightarrow> RQ_id q \<noteq> RQ_id rq \<Longrightarrow> answer l' q = None)"
    "W_fault (L_writer l') = None \<Longrightarrow> progress l' cs n (taken @ [rq])"
    "W_fault (L_writer l') = None \<Longrightarrow> fresh l q \<Longrightarrow> RQ_id q \<noteq> RQ_id rq \<Longrightarrow> fresh l' q"
    "W_fault (L_writer l') \<noteq> None \<Longrightarrow> \<not> ok \<and> broken l' cs n (taken @ [rq]) (W_pending (L_writer l))"
    "\<not> ok \<Longrightarrow> W_pending (L_writer l) = [] \<Longrightarrow> W_fault (L_writer l') = None \<Longrightarrow> W_pending (L_writer l') = []"
    by blast+
qed

definition deferred_list :: "'c Log \<Rightarrow> appendRequest list" where
  "deferred_list l = (case W_deferred (L_writer l) of None \<Rightarrow> [] | Some rq \<Rightarrow> [rq])"

definition queue_ok :: "'c Log \<Rightarrow> appendRequest list \<Rightarrow> bool" where
  "queue_ok l queue \<longleftrightarrow> (\<forall>rq \<in> set queue. (RQ_stop rq \<or> rq_ok l rq) \<and> answer l rq = None) \<and> distinct (map RQ_id queue)"

lemma fresh_deferred [simp]:
  "answer (l\<lparr>L_writer := w\<rparr>) = answer l"
  by (simp add: answer_def fun_eq_iff)

lemma progress_deferred: "progress l cs n taken \<Longrightarrow> progress (l\<lparr>L_writer := (L_writer l)\<lparr>W_deferred := d\<rparr>\<rparr>) cs n taken"
  by (auto simp: progress_def buffered_def staged_ok_def handled_def Let_def fits_def)

lemma writer_fill_view:
  assumes "progress l cs n taken" "queue_ok l queue" "\<forall>rq \<in> set queue. fresh l rq" "W_deferred (L_writer l) = None"
    "writer_fill port env queue l = (queue', l')" "\<forall>q \<in> set others. fresh l q \<and> RQ_id q \<notin> RQ_id ` set queue"
  shows "\<exists>took. queue = took @ deferred_list l' @ queue' \<and> L_maxPayloadBytes l' = L_maxPayloadBytes l \<and>
    L_nextRequest l' = L_nextRequest l \<and>
    (progress l' cs n (taken @ took) \<and> (\<forall>q \<in> set (others @ deferred_list l' @ queue'). fresh l' q) \<or>
     (\<exists>ps. broken l' cs n (taken @ took) ps) \<and> (\<forall>q \<in> set (others @ deferred_list l' @ queue'). answer l' q = None))"
  using assms
proof (induction queue arbitrary: l taken)
  case Nil
  then show ?case by (auto simp: deferred_list_def)
next
  case (Cons rq queue)
  obtain ok l1 where st: "writer_stage port env rq l = (ok, l1)" by (metis surj_pair)
  have eq: "(if \<not> (int (length (W_pending (L_writer l))) < CF_BufferRecords (L_cfg l) \<and>
            W_bytes (L_writer l) < CF_BufferBytes (L_cfg l)) then (rq # queue, l)
      else if RQ_stop rq \<or> \<not> canStage l rq then (queue, l\<lparr>L_writer := (L_writer l)\<lparr>W_deferred := Some rq\<rparr>\<rparr>)
      else if \<not> ok \<and> W_fault (L_writer l1) \<noteq> None then (queue, l1) else writer_fill port env queue l1) = (queue', l')"
    using Cons.prems(5) unfolding writer_fill.simps st Let_def prod.case .
  consider "l' = l" "queue' = rq # queue"
    | "l' = l\<lparr>L_writer := (L_writer l)\<lparr>W_deferred := Some rq\<rparr>\<rparr>" "queue' = queue"
    | "\<not> RQ_stop rq" "canStage l rq" "\<not> ok" "W_fault (L_writer l1) \<noteq> None" "l' = l1" "queue' = queue"
    | "\<not> RQ_stop rq" "canStage l rq" "ok \<or> W_fault (L_writer l1) = None" "writer_fill port env queue l1 = (queue', l')"
    using eq by (metis prod.inject)
  then show ?case
  proof cases
    case 1
    then show ?thesis using Cons.prems(1,3,4,6) by (intro exI [of _ "[]"]) (auto simp: deferred_list_def)
  next
    case 2
    then show ?thesis
      using Cons.prems(1,3,4,6) by (intro exI [of _ "[]"]) (auto simp: deferred_list_def progress_deferred fresh_def)
  next
    case 3
    have rq: "rq_ok l rq" "fresh l rq" using Cons.prems(2,3) 3(1) by (auto simp: queue_ok_def)
    note S = stage_progress [OF Cons.prems(1) rq disjI2 [OF 3(2)] st]
    have "deferred_list l1 = []" using S(1) Cons.prems(4) by (simp add: deferred_list_def log_same_def)
    moreover have "answer l1 q = None" if "q \<in> set queue" for q
      using S(2) [of q] Cons.prems(2,3) that by (auto simp: queue_ok_def image_iff)
    moreover have "answer l1 q = None" if "q \<in> set others" for q
      using S(2) [of q] Cons.prems(6) that by auto
    ultimately show ?thesis
      using S(1) S(5) [OF 3(4)] 3(5,6) by (intro exI [of _ "[rq]"]) (auto simp: log_same_def)
  next
    case 4
    have rq: "rq_ok l rq" "fresh l rq" using Cons.prems(2,3) 4(1) by (auto simp: queue_ok_def)
    note S = stage_progress [OF Cons.prems(1) rq disjI2 [OF 4(2)] st]
    have nf: "W_fault (L_writer l1) = None" using S(5) 4(3) by blast
    have ne: "RQ_id q \<noteq> RQ_id rq" if "q \<in> set queue" for q
      using Cons.prems(2) that by (auto simp: queue_ok_def image_iff)
    have fr: "\<forall>q \<in> set queue. fresh l1 q" using S(4) [OF nf] ne Cons.prems(3) by auto
    have q1: "queue_ok l1 queue"
      using Cons.prems(2) S(1) fr by (auto simp: queue_ok_def rq_ok_def log_same_def fresh_def)
    have d1: "W_deferred (L_writer l1) = None" using S(1) Cons.prems(4) by (simp add: log_same_def)
    have o1: "\<forall>q \<in> set others. fresh l1 q \<and> RQ_id q \<notin> RQ_id ` set queue" using S(4) [OF nf] Cons.prems(6) by auto
    from Cons.IH [OF S(3) [OF nf] q1 fr d1 4(4) o1]
    obtain took where t: "queue = took @ deferred_list l' @ queue'" "L_maxPayloadBytes l' = L_maxPayloadBytes l1"
      "L_nextRequest l' = L_nextRequest l1"
      "progress l' cs n ((taken @ [rq]) @ took) \<and> (\<forall>q \<in> set (others @ deferred_list l' @ queue'). fresh l' q) \<or>
       (\<exists>ps. broken l' cs n ((taken @ [rq]) @ took) ps) \<and> (\<forall>q \<in> set (others @ deferred_list l' @ queue'). answer l' q = None)" by blast
    show ?thesis
      using t S(1) by (intro exI [of _ "rq # took"]) (simp add: log_same_def)
  qed
qed

definition written_view :: "'c Log \<Rightarrow> 'c Log \<Rightarrow> bool" where
  \<comment> \<open>the parts of the state that the writer's bookkeeping leaves alone\<close>
  "written_view l l' \<longleftrightarrow> log_same l l' \<and> L_responses l' = L_responses l \<and> L_terminal l' = L_terminal l \<and>
     W_pending (L_writer l') = W_pending (L_writer l) \<and> W_waiters (L_writer l') = W_waiters (L_writer l) \<and>
     W_needSync (L_writer l') = W_needSync (L_writer l) \<and> W_fault (L_writer l') = W_fault (L_writer l) \<and>
     W_active (L_writer l') = W_active (L_writer l)"

lemma note_view:
  "L_registry (note_write l) = L_registry l" "written_view l (note_write l)"
  "L_registry (note_sync l) = L_registry l" "written_view l (note_sync l)" "written_view l (set_object i s l)"
  "written_view l l1 \<Longrightarrow> written_view l1 l2 \<Longrightarrow> written_view l l2"
  by (simp_all add: note_write_def note_sync_def Let_def written_view_def log_same_def)

lemma written_staged:
  assumes "written_view l l'"
  shows "staged_ok l' = staged_ok l" "handled l' rq = handled l rq" "fresh l' rq = fresh l rq"
  using assms answer_cong [of l' l]
  by (simp_all add: written_view_def staged_ok_def handled_def fresh_def Let_def)

lemma append_torn:
  assumes at: "active_at r act older s rs"
    and new: "placed act (64 + length (frames rs)) new" "64 + length (frames (rs @ new)) \<le> seg_limit (AS_header s)"
    and step: "appendEncoded env s (frames new) ex = (w, Some e, s')"
  shows "\<exists>k. reg_holds (r\<lparr>R_objs := (R_objs r)(act \<mapsto> s')\<rparr>) (older @ rs @ take k new) (reg_durable r)"
proof -
  have ok: "active_ok s rs" "SH_SegmentID (AS_header s) = act" "64 \<le> F_synced (AS_file s)" "reg_ok r act older"
    using at by (simp_all add: active_at_def)
  obtain k where s': "AS_header s' = AS_header s" "F_data (AS_file s') = F_data (AS_file s) @ take k (frames new)"
      "F_synced (AS_file s') = F_synced (AS_file s)"
    using appendEncoded_error [OF ok(1) step] by blast
  obtain hdr where hdr: "EncodeSegmentHeader (AS_header s) = Inr hdr" "F_data (AS_file s) = hdr @ frames rs"
    using ok(1) by (auto simp: active_ok_def)
  have "seg_state (AS_file s') (AS_header s') (rs @ new) (64 + length (frames rs) + k)"
  proof (rule seg_stateI)
    show "EncodeSegmentHeader (AS_header s') = Inr hdr" using hdr s' by simp
    show "F_data (AS_file s') = take (64 + length (frames rs) + k) (hdr @ frames (rs @ new) @ [])"
      using hdr s'(2) EncodeSegmentHeader_facts(1) [OF hdr(1)] by simp
    show "F_synced (AS_file s') \<le> length (F_data (AS_file s'))"
      using s'(2,3) ok(1) by (simp add: active_ok_def)
  qed (use new ok s' active_ok_placed [OF ok(1)] in simp_all)
  from torn_holds [OF at _ _ this, of "r\<lparr>R_objs := (R_objs r)(act \<mapsto> s')\<rparr>"]
  have "reg_holds (r\<lparr>R_objs := (R_objs r)(act \<mapsto> s')\<rparr>) (older @ rs @ complete k new) (reg_durable r)"
    using ok(4) s'(3) by simp
  then show ?thesis using complete_prefix [of k new] by metis
qed

lemma appendEncoded_fault:
  assumes "\<not> (hitSegmentFault env faultBeforeAppendWrite = None \<and> E_os env faultBeforeAppendWrite = None)" "ex \<noteq> []"
  shows "\<exists>w e s'. appendEncoded env s bs ex = (w, Some e, s')"
  using assms by (auto simp: appendEncoded_def writeFullAt_def Let_def split: option.splits sum.splits)

lemma active_at_step:
  assumes "active_at r act older s rs" "active_ok s' rs'" "AS_header s' = AS_header s" "F_synced (AS_file s) \<le> F_synced (AS_file s')"
  shows "active_at (r\<lparr>R_objs := (R_objs r)(act \<mapsto> s')\<rparr>) act older s' rs'"
  using assms by (simp add: active_at_def)

lemma durable_mono:
  assumes "active_at r act older s rs" "active_at r' act older s' (rs @ new)" "F_synced (AS_file s) \<le> F_synced (AS_file s')"
  shows "reg_durable r \<le> reg_durable r'"
proof -
  have "length (complete m rs) \<le> length (complete m (rs @ new))" for m
    by (induction m rs rule: complete.induct) auto
  then have "length (complete (F_synced (AS_file s) - 64) rs) \<le> length (complete (F_synced (AS_file s) - 64) (rs @ new))" .
  also have "\<dots> \<le> length (complete (F_synced (AS_file s') - 64) (rs @ new))"
    using assms(3) by (intro complete_mono) simp
  finally show ?thesis
    using active_at_holds(2) [OF assms(1)] active_at_holds(2) [OF assms(2)] by simp
qed

definition quiet :: "'c Log \<Rightarrow> bool" where
  "quiet l \<longleftrightarrow> W_pending (L_writer l) = []"

lemma reset_view:
  "L_registry (reset_buffer l) = L_registry l" "L_terminal (reset_buffer l) = L_terminal l" "answer (reset_buffer l) = answer l"
  "log_same l (reset_buffer l)" "quiet (reset_buffer l)" "W_fault (L_writer (reset_buffer l)) = W_fault (L_writer l)"
  by (simp_all add: reset_buffer_def log_same_def answer_def quiet_def fun_eq_iff)

lemma reset_buffered:
  assumes "active_at (L_registry l) act older s rs" "fits l s" "L_terminal l = None" "W_active (L_writer l) = act"
    "W_fault (L_writer l) = None"
  shows "buffered (reset_buffer l) act older s rs"
  using assms active_ok_placed [of s rs]
  by (simp add: buffered_def reset_buffer_def staged_ok_def Let_def active_at_def fits_def)

lemma writer_flush_view:
  assumes buf: "buffered l act older s rs" and ps: "W_pending (L_writer l) = ps" "ps \<noteq> []" and step: "writer_flush env l = (e, l')"
  shows "e = Some c \<Longrightarrow> written_view l l' \<and> (\<exists>k. reg_holds (L_registry l') (older @ rs @ take k (map pend_record ps)) (reg_durable (L_registry l)))"
    "e = None \<Longrightarrow> (\<exists>s'. buffered l' act older s' (rs @ map pend_record ps)) \<and> quiet l' \<and> log_same l l' \<and>
       reg_durable (L_registry l) \<le> reg_durable (L_registry l') \<and>
       (\<forall>rq. fresh l rq \<longrightarrow> answer l' rq = None) \<and>
       (\<forall>p \<in> set ps. answer l' (PD_request p) = Some (Inr (PD_result p))) \<and>
       (\<forall>rq. handled l rq \<longrightarrow> settled l' rq ps (reg_durable (L_registry l') = length (reg_contents (L_registry l'))))"
proof -
  let ?w = "L_writer l" and ?new = "map pend_record ps"
  have at: "active_at (L_registry l) act older s rs" and b: "W_active ?w = act" "active_object l = s"
    "map (\<lambda>p. \<lparr>RE_Result = PD_result p, RE_Size = PD_size p\<rparr>) ps = map extent ?new" "W_encoded ?w = frames ?new"
    "placed act (64 + length (frames rs)) ?new" "64 + length (frames (rs @ ?new)) \<le> seg_limit (AS_header s)" "active_ok s rs"
    "SH_SegmentID (AS_header s) = act" "L_terminal l = None" "W_fault ?w = None" "fits l s"
    using buf ps(1) by (simp_all add: buffered_def active_at_def active_object_def Let_def)
  note st = buffered_staged [OF buf]
  note fl = step [unfolded writer_flush_def Let_def b(1,2,4) ps(1) b(3)]
  define good where "good x k \<longleftrightarrow>
    (\<forall>c. x = Some c \<longrightarrow> written_view l k \<and> (\<exists>j. reg_holds (L_registry k) (older @ rs @ take j ?new) (reg_durable (L_registry l)))) \<and>
    (x = None \<longrightarrow> (\<exists>s'. buffered k act older s' (rs @ ?new)) \<and> quiet k \<and> log_same l k \<and>
       reg_durable (L_registry l) \<le> reg_durable (L_registry k) \<and>
       (\<forall>rq. fresh l rq \<longrightarrow> answer k rq = None) \<and>
       (\<forall>p \<in> set ps. answer k (PD_request p) = Some (Inr (PD_result p))) \<and>
       (\<forall>rq. handled l rq \<longrightarrow> settled k rq ps (reg_durable (L_registry k) = length (reg_contents (L_registry k)))))" for x :: "err option" and k :: "'a Log"
  have "good e l'"
  proof (cases "hitSegmentFault env faultBeforeAppendWrite = None \<and> E_os env faultBeforeAppendWrite = None")
    case False
    then obtain w e' s1 where ap: "appendEncoded env s (frames ?new) (map extent ?new) = (w, Some e', s1)"
      using appendEncoded_fault [OF False, of "map extent ?new"] ps(2) by fastforce
    have "e = errors_Join [Some e', Some recordlog_ErrCorrupt]" "l' = set_object act s1 l"
      using fl ps(2) by (simp_all add: ap del: map_map)
    then show ?thesis
      using append_torn [OF at b(5,6) ap] note_view(5) [of l act s1] by (simp add: good_def errors_Join_def List.map_filter_def)
  next
    case True
    obtain s1 where ap: "appendEncoded env s (frames ?new) (map extent ?new) = (length (frames ?new), None, s1)"
      and s1: "active_ok s1 (rs @ ?new)" "AS_header s1 = AS_header s" "F_synced (AS_file s1) = F_synced (AS_file s)"
      using appendEncoded_ok [of s rs ?new env] b ps(2) True by auto
    define l2 where "l2 = note_write (set_object act s1 l)"
    have l2: "L_registry l2 = (L_registry l)\<lparr>R_objs := (R_objs (L_registry l))(act \<mapsto> s1)\<rparr>" "written_view l l2"
      using note_view(6) [OF note_view(5) note_view(2), of l act s1] by (simp_all add: l2_def note_view)
    have at2: "active_at (L_registry l2) act older s1 (rs @ ?new)"
      unfolding l2(1) using active_at_step [OF at s1(1,2)] s1(3) by simp
    have eq: "(e, l') = (if \<not> W_needSync ?w then (None, reset_buffer l2)
        else (case fst (active_sync env s1) of Some e' \<Rightarrow> (Some e', set_object act (snd (active_sync env s1)) l2)
          | None \<Rightarrow> (None, reset_buffer (foldl (\<lambda>l waiter. writer_complete (PD_request waiter) (Inr (PD_result waiter)) l)
              (note_sync (set_object act (snd (active_sync env s1)) l2)) (W_waiters ?w)))))"
      unfolding l2_def using fl ps(2) by (auto simp: ap split: prod.splits option.splits simp del: map_map)
    show ?thesis
    proof (cases "W_needSync ?w")
      case False
      then have e: "e = None" "l' = reset_buffer l2" using eq by simp_all
      have wv: "W_active (L_writer l2) = act" "W_fault (L_writer l2) = None" "L_terminal l2 = None" "fits l2 s1"
        using l2(2) b s1(2) by (simp_all add: written_view_def log_same_def fits_def)
      have "buffered l' act older s1 (rs @ ?new)" unfolding e(2) by (rule reset_buffered [OF at2 wv(4,3,1,2)])
      moreover have "reg_durable (L_registry l) \<le> reg_durable (L_registry l')"
        using durable_mono [OF at at2] s1(3) by (simp add: e reset_view)
      moreover have "answer l' rq = answer l rq" for rq
        using l2(2) by (simp add: e reset_view answer_def written_view_def)
      moreover have nosync: "\<not> RQ_sync (PD_request p)" if "p \<in> set ps" for p
      proof -
        have "filter (\<lambda>p. RQ_sync (PD_request p)) ps = []"
          using False st ps(1) unfolding staged_ok_def Let_def by metis
        then show ?thesis using that by (simp add: filter_empty_conv)
      qed
      moreover have acks: "answer l' (PD_request p) = Some (Inr (PD_result p))" if "p \<in> set ps" for p
        using calculation(3) st nosync [OF that] that ps(1) by (auto simp: staged_ok_def Let_def)
      moreover have "settled l' rq ps c" if "handled l rq" for rq c
      proof -
        from that consider x where "answer l rq = Some (Inl x)" | p where "p \<in> set ps" "RQ_id (PD_request p) = RQ_id rq"
            "RQ_sync (PD_request p) = RQ_sync rq" "PD_payload p = RQ_payload rq"
          using ps(1) by (auto simp: handled_def)
        then show ?thesis
        proof cases
          case 1
          then show ?thesis using calculation(3) by (simp add: settled_def)
        next
          case 2
          have "answer l' rq = Some (Inr (PD_result p))" using acks [OF 2(1)] answer_id [OF 2(2), of l'] by simp
          then show ?thesis using 2 nosync [OF 2(1)] by (auto simp: settled_def)
        qed
      qed
      moreover have "log_same l l'" "quiet l'"
        using l2(2) by (simp_all add: e log_same_def written_view_def reset_buffer_def quiet_def)
      ultimately show ?thesis using e(1) by (auto simp: good_def fresh_def)
    next
      case sync: True
      obtain se s3 where sy: "active_sync env s1 = (se, s3)" by fastforce
      note S = active_sync_ok [OF s1(1) sy]
      define l3 where "l3 = set_object act s3 l2"
      have l3: "L_registry l3 = (L_registry l)\<lparr>R_objs := (R_objs (L_registry l))(act \<mapsto> s3)\<rparr>" "written_view l l3"
        using note_view(6) [OF l2(2) note_view(5)] by (simp_all add: l3_def l2)
      have at3: "active_at (L_registry l3) act older s3 (rs @ ?new)"
        unfolding l3(1) using active_at_step [OF at] S s1(2,3) by simp
      have d3: "reg_durable (L_registry l) \<le> reg_durable (L_registry l3)"
        using durable_mono [OF at at3] S s1(3) by simp
      show ?thesis
      proof (cases se)
        case (Some e')
        then have "e = Some e'" "l' = l3" using eq sync sy by (simp_all add: l3_def)
        moreover have "reg_holds (L_registry l3) (older @ rs @ take (length ?new) ?new) (reg_durable (L_registry l))"
          using active_at_holds [OF at3] d3 by (simp add: reg_holds_def)
        ultimately show ?thesis using l3(2) by (auto simp: good_def intro: exI [of _ "length ?new"])
      next
        case None
        define l4 where "l4 = note_sync l3"
        define l5 where "l5 = foldl (\<lambda>l waiter. writer_complete (PD_request waiter) (Inr (PD_result waiter)) l) l4 (W_waiters ?w)"
        have e: "e = None" "l' = reset_buffer l5" using eq sync sy None by (simp_all add: l3_def l4_def l5_def)
        have l4: "L_registry l4 = L_registry l3" "written_view l l4"
          using note_view(6) [OF l3(2) note_view(4)] by (simp_all add: l4_def note_view)
        note F = foldl_complete [where f = "\<lambda>p. Inr (PD_result p)" and l = l4 and ws = "W_waiters ?w", folded l5_def]
        have wv: "W_active (L_writer l5) = act" "W_fault (L_writer l5) = None" "L_terminal l5 = None" "fits l5 s3" "log_same l l5"
          using l4(2) b s1(2) S F by (simp_all add: written_view_def log_same_def fits_def)
        have at5: "active_at (L_registry l5) act older s3 (rs @ ?new)" using at3 F(1) l4(1) by simp
        have "buffered l' act older s3 (rs @ ?new)" unfolding e(2) by (rule reset_buffered [OF at5 wv(4,3,1,2)])
        moreover have all: "reg_durable (L_registry l') = length (reg_contents (L_registry l'))"
        proof -
          have "F_synced (AS_file s3) = length (F_data (AS_file s3))" using S None by simp
          moreover obtain hdr where "EncodeSegmentHeader (AS_header s3) = Inr hdr" "F_data (AS_file s3) = hdr @ frames (rs @ ?new)"
            using S by (auto simp: active_ok_def)
          ultimately have "F_synced (AS_file s3) - 64 = length (frames (rs @ ?new))"
            using EncodeSegmentHeader_facts(1) by fastforce
          then show ?thesis
            using active_at_holds [OF at5] by (simp add: e reset_view complete_all)
        qed
        moreover have "reg_durable (L_registry l) \<le> reg_durable (L_registry l')"
          using d3 F(1) l4(1) by (simp add: e reset_view)
        moreover have a: "answer l4 rq = answer l rq" "answer l' rq = answer l5 rq" for rq
          using l4(2) by (simp_all add: e reset_view answer_def written_view_def)
        have ws: "W_waiters ?w = filter (\<lambda>p. RQ_sync (PD_request p)) ps" "distinct (map (\<lambda>w. RQ_id (PD_request w)) (W_waiters ?w))"
            "\<And>w. w \<in> set (W_waiters ?w) \<Longrightarrow> answer l4 (PD_request w) = None"
          using st ps(1) by (auto simp: staged_ok_def Let_def distinct_map_filter a)
        moreover have "answer l' rq = None" if "fresh l rq" for rq
          using F(11) [of rq] that ws(1) ps(1) by (auto simp: a fresh_def)
        moreover have acks: "answer l' (PD_request p) = Some (Inr (PD_result p))" if "p \<in> set ps" for p
        proof (cases "RQ_sync (PD_request p)")
          case True
          then show ?thesis using F(13) [OF ws(2,3), of p] that by (simp add: a ws(1))
        next
          case False
          then have "answer l (PD_request p) = Some (Inr (PD_result p))"
            using st that ps(1) by (auto simp: staged_ok_def Let_def)
          then show ?thesis using F(12) [of "PD_request p"] by (simp add: a)
        qed
        moreover have "settled l' rq ps True" if "handled l rq" for rq
        proof -
          from that consider x where "answer l rq = Some (Inl x)" | p where "p \<in> set ps" "RQ_id (PD_request p) = RQ_id rq"
              "RQ_sync (PD_request p) = RQ_sync rq" "PD_payload p = RQ_payload rq"
            using ps(1) by (auto simp: handled_def)
          then show ?thesis
          proof cases
            case 1
            then show ?thesis using F(12) [of rq] by (simp add: settled_def a)
          next
            case 2
            have "answer l' rq = Some (Inr (PD_result p))" using acks [OF 2(1)] answer_id [OF 2(2), of l'] by simp
            then show ?thesis using 2 by (auto simp: settled_def)
          qed
        qed
        moreover have "log_same l l'" "quiet l'"
          using wv(5) by (simp_all add: e log_same_def reset_buffer_def quiet_def)
        ultimately show ?thesis using e(1) by (auto simp: good_def)
      qed
    qed
  qed
  then show "e = Some c \<Longrightarrow> written_view l l' \<and> (\<exists>k. reg_holds (L_registry l') (older @ rs @ take k (map pend_record ps)) (reg_durable (L_registry l)))"
    "e = None \<Longrightarrow> (\<exists>s'. buffered l' act older s' (rs @ map pend_record ps)) \<and> quiet l' \<and> log_same l l' \<and>
       reg_durable (L_registry l) \<le> reg_durable (L_registry l') \<and>
       (\<forall>rq. fresh l rq \<longrightarrow> answer l' rq = None) \<and>
       (\<forall>p \<in> set ps. answer l' (PD_request p) = Some (Inr (PD_result p))) \<and>
       (\<forall>rq. handled l rq \<longrightarrow> settled l' rq ps (reg_durable (L_registry l') = length (reg_contents (L_registry l'))))"
    unfolding good_def by blast+
qed

section \<open>One turn of the writer\<close>

definition live :: "'c Log \<Rightarrow> bool" where
  "live l \<longleftrightarrow> (\<exists>act older s rs. buffered l act older s rs) \<and> quiet l"

abbreviation log_contents :: "'c Log \<Rightarrow> log_record list" where
  "log_contents l \<equiv> reg_contents (L_registry l)"

abbreviation log_durable :: "'c Log \<Rightarrow> nat" where
  "log_durable l \<equiv> reg_durable (L_registry l)"

definition all_durable :: "'c Log \<Rightarrow> bool" where
  "all_durable l \<longleftrightarrow> L_terminal l = None \<and> log_durable l = length (log_contents l)"

definition turn_result :: "'c Log \<Rightarrow> 'c Log \<Rightarrow> appendRequest list \<Rightarrow> pendingRecord list \<Rightarrow> bool" where
  \<comment> \<open>what a turn that took the requests \<open>took\<close> and placed the records \<open>ps\<close> leaves behind\<close>
  "turn_result l l' took ps \<longleftrightarrow>
     good_records ps \<and> in_order ps took \<and> sorted_wrt (<) (map fst (log_contents l @ map pend_record ps)) \<and>
     (\<forall>rq \<in> set took. settled l' rq ps (all_durable l')) \<and>
     (live l' \<and> L_terminal l' = None \<and> log_contents l' = log_contents l @ map pend_record ps \<and> log_durable l \<le> log_durable l' \<and>
        (\<forall>p \<in> set ps. answer l' (PD_request p) = Some (Inr (PD_result p))) \<or>
      failed l' \<and> (\<exists>k. reg_holds (L_registry l') (log_contents l @ take k (map pend_record ps)) (log_durable l)))"

lemma settled_mono: "settled l rq ps False \<Longrightarrow> settled l rq ps ok"
  by (auto simp: settled_def)

lemma live_progress:
  assumes "live l"
  shows "progress l (log_contents l) (log_durable l) []" "W_pending (L_writer l) = []" "L_terminal l = None"
    "W_fault (L_writer l) = None" "fresh l rq \<longleftrightarrow> answer l rq = None"
proof -
  obtain act older s rs where b: "buffered l act older s rs" using assms by (auto simp: live_def)
  then have "active_at (L_registry l) act older s rs" by (simp add: buffered_def)
  then show "progress l (log_contents l) (log_durable l) []"
    using b active_at_holds(1) assms by (fastforce simp: progress_def live_def quiet_def in_order_simps)
  show "W_pending (L_writer l) = []" using assms by (simp add: live_def quiet_def)
  then show "L_terminal l = None" "W_fault (L_writer l) = None" "fresh l rq \<longleftrightarrow> answer l rq = None"
    using b by (simp_all add: buffered_def Let_def fresh_def)
qed

lemma flush_turn:
  assumes prog: "progress l1 (log_contents l) (log_durable l) took"
    and flush: "writer_flush env l1 = (e, l2)" and l': "l' = (case e of None \<Rightarrow> l2 | Some c \<Rightarrow> snd (writer_poison c l2))"
    and rest: "\<forall>q \<in> set rest. fresh l1 q"
  shows "\<exists>ps. turn_result l l' took ps" "log_same l1 l'" "\<forall>q \<in> set rest. answer l' q = None"
proof -
  obtain act older s rs where b: "buffered l1 act older s rs" "older @ rs = log_contents l"
    and n: "log_durable l \<le> log_durable l1" and h: "\<forall>q \<in> set took. handled l1 q"
    and o: "in_order (W_pending (L_writer l1)) took"
    using prog by (auto simp: progress_def)
  define ps where "ps = W_pending (L_writer l1)"
  note o = o [folded ps_def]
  note good = buffered_good [OF b(1), folded ps_def] and sorted = buffered_sorted [OF b(1), folded ps_def, unfolded b(2)]
  have c1: "log_contents l1 = log_contents l" using b active_at_holds(1) by (metis buffered_def)
  have t1: "L_terminal l1 = None" "W_fault (L_writer l1) = None" using b(1) by (simp_all add: buffered_def Let_def)
  have "turn_result l l' took ps \<and> log_same l1 l' \<and> (\<forall>q \<in> set rest. answer l' q = None)"
  proof (cases "ps = []")
    case True
    then have "e = None" "l' = l1" using flush l' by (simp_all add: writer_flush_def Let_def ps_def)
    moreover have "settled l1 q [] ok" if "q \<in> set took" for q ok
      using h that True by (auto simp: handled_def settled_def ps_def)
    ultimately show ?thesis
      using True b n rest good sorted c1 t1 o
      by (auto simp: turn_result_def live_def quiet_def ps_def log_same_def fresh_def)
  next
    case ne: False
    note F = writer_flush_view [OF b(1) ps_def [symmetric] ne flush]
    show ?thesis
    proof (cases e)
      case None
      then have l2: "l' = l2" using l' by simp
      obtain s' where s': "buffered l2 act older s' (rs @ map pend_record ps)" using F(2) [OF None] by blast
      have "active_at (L_registry l2) act older s' (rs @ map pend_record ps)" using s' by (simp add: buffered_def)
      then have "log_contents l2 = log_contents l @ map pend_record ps" using active_at_holds(1) b(2) by (metis append.assoc)
      moreover have "L_terminal l2 = None" using s' by (simp add: buffered_def)
      moreover have "live l2" using s' F(2) [OF None] by (auto simp: live_def)
      ultimately show ?thesis
        using F(2) [OF None] h rest good sorted n l2 o by (auto simp: turn_result_def all_durable_def)
    next
      case (Some c)
      obtain f l3 where p: "writer_poison c l2 = (f, l3)" by fastforce
      then have l3: "l' = l3" using l' Some by simp
      have w: "written_view l1 l2" using F(1) [OF Some] by simp
      have t2: "staged_ok l2" "L_terminal l2 = None" "W_fault (L_writer l2) = None" "W_pending (L_writer l2) = ps"
        using w written_staged(1) [OF w] buffered_staged [OF b(1)] t1 by (simp_all add: written_view_def ps_def)
      note P = writer_poison_view [OF t2(1-3) p]
      have "settled l3 q ps False" if "q \<in> set took" for q
        using poison_settles [OF t2(1-3) p, of q] written_staged(2) [OF w] h that t2(4) by simp
      moreover obtain k where "reg_holds (L_registry l2) (older @ rs @ take k (map pend_record ps)) (log_durable l1)"
        using F(1) [OF Some] by blast
      then have "reg_holds (L_registry l3) (log_contents l @ take k (map pend_record ps)) (log_durable l)"
        using P(1) b(2) n by (simp add: reg_holds_def flip: append.assoc)
      moreover have "answer l3 q = None" if "q \<in> set rest" for q
      proof -
        have "fresh l2 q" using rest that written_staged(3) [OF w] by simp
        then show ?thesis using P(8) [of q] by (simp add: fresh_def)
      qed
      moreover have "log_same l1 l3" using w P(4-6) by (simp add: written_view_def log_same_def)
      ultimately show ?thesis
        using good sorted P(2) l3 o by (auto simp: turn_result_def settled_mono)
    qed
  qed
  then show "\<exists>ps. turn_result l l' took ps" "log_same l1 l'" "\<forall>q \<in> set rest. answer l' q = None" by blast+
qed

lemma live_deferred: "live (l\<lparr>L_writer := (L_writer l)\<lparr>W_deferred := d\<rparr>\<rparr>) \<longleftrightarrow> live l"
  by (simp add: live_def buffered_def staged_ok_def Let_def fits_def quiet_def)

lemma broken_turn: "broken l' (log_contents l) (log_durable l) took ps \<Longrightarrow> turn_result l l' took ps"
  by (auto simp: turn_result_def broken_def settled_mono intro: exI [of _ 0])

lemma turn_head:
  assumes live: "live l" "W_deferred (L_writer l) = None" and q: "queue_ok l (rq # queue)" "\<not> RQ_stop rq"
    and stage: "writer_stage port env rq l = (staged, l2)"
    and l': "(if \<not> staged then (queue, l2)
      else let (queue2, l3) = writer_fill port env queue l2; (e, l4) = writer_flush env l3 in
        case e of None \<Rightarrow> (queue2, l4) | Some cause \<Rightarrow> (queue2, snd (writer_poison cause l4))) = (queue', l')"
    and others: "\<forall>q \<in> set others. answer l q = None \<and> RQ_id q \<notin> RQ_id ` set (rq # queue)"
  shows "\<exists>took ps. rq # queue = took @ deferred_list l' @ queue' \<and> took \<noteq> [] \<and> turn_result l l' took ps \<and>
    (\<forall>q \<in> set (others @ deferred_list l' @ queue'). answer l' q = None) \<and> L_maxPayloadBytes l' = L_maxPayloadBytes l \<and>
    L_nextRequest l' = L_nextRequest l"
proof -
  note L = live_progress [OF live(1)]
  have rq: "rq_ok l rq" "fresh l rq" using q L(5) by (auto simp: queue_ok_def)
  note S = stage_progress [OF L(1) rq disjI1 [OF L(2)] stage]
  have ne: "RQ_id q \<noteq> RQ_id rq" "fresh l q" if "q \<in> set queue" for q
    using q(1) that L(5) by (auto simp: queue_ok_def image_iff)
  have d2: "W_deferred (L_writer l2) = None" using S(1) live(2) by (simp add: log_same_def)
  have neo: "RQ_id q \<noteq> RQ_id rq" "fresh l q" if "q \<in> set others" for q
    using others that L(5) by auto
  have an2: "\<forall>q \<in> set (others @ queue). answer l2 q = None" using S(2) ne neo by auto
  show ?thesis
  proof (cases "W_fault (L_writer l2) = None")
    case False
    then have st: "\<not> staged" "broken l2 (log_contents l) (log_durable l) [rq] []" using S(5) L(2) by simp_all
    then have "l' = l2" "queue' = queue" using l' by simp_all
    then show ?thesis
      using broken_turn [OF st(2)] d2 an2 S(1) by (intro exI [of _ "[rq]"] exI [of _ "[]"]) (simp add: deferred_list_def log_same_def)
  next
    case nf: True
    have p2: "progress l2 (log_contents l) (log_durable l) [rq]" using S(3) [OF nf] by simp
    have fr: "\<forall>q \<in> set queue. fresh l2 q" using S(4) [OF nf] ne by blast
    have o2: "\<forall>q \<in> set others. fresh l2 q \<and> RQ_id q \<notin> RQ_id ` set queue" using S(4) [OF nf] neo others by auto
    show ?thesis
    proof (cases staged)
      case False
      then have e: "l' = l2" "queue' = queue" "writer_flush env l2 = (None, l2)"
        using l' S(6) L(2) nf by (simp_all add: writer_flush_def)
      from flush_turn(1) [OF p2 e(3) _ fr, of l2] obtain ps where "turn_result l l2 [rq] ps" by auto
      then show ?thesis
        using e d2 an2 S(1) by (intro exI [of _ "[rq]"] exI [of _ ps]) (simp add: deferred_list_def log_same_def)
    next
      case True
      obtain queue2 l3 where fill: "writer_fill port env queue l2 = (queue2, l3)" by fastforce
      obtain e l4 where flush: "writer_flush env l3 = (e, l4)" by fastforce
      have l'4: "l' = (case e of None \<Rightarrow> l4 | Some c \<Rightarrow> snd (writer_poison c l4))" "queue' = queue2"
        using l' True fill flush by (auto split: option.splits)
      have q2: "queue_ok l2 queue"
        using q(1) S(1) an2 by (auto simp: queue_ok_def rq_ok_def log_same_def)
      obtain took where t: "queue = took @ deferred_list l3 @ queue2" "L_maxPayloadBytes l3 = L_maxPayloadBytes l2"
          "L_nextRequest l3 = L_nextRequest l2"
        and c: "progress l3 (log_contents l) (log_durable l) ([rq] @ took) \<and> (\<forall>q \<in> set (others @ deferred_list l3 @ queue2). fresh l3 q) \<or>
          (\<exists>ps. broken l3 (log_contents l) (log_durable l) ([rq] @ took) ps) \<and> (\<forall>q \<in> set (others @ deferred_list l3 @ queue2). answer l3 q = None)"
        using writer_fill_view [OF p2 q2 fr d2 fill o2] by blast
      have "(\<exists>ps. turn_result l l' ([rq] @ took) ps) \<and> log_same l3 l' \<and> (\<forall>q \<in> set (others @ deferred_list l3 @ queue2). answer l' q = None)"
        using c
      proof (elim disjE conjE exE)
        assume a: "progress l3 (log_contents l) (log_durable l) ([rq] @ took)" "\<forall>q \<in> set (others @ deferred_list l3 @ queue2). fresh l3 q"
        show ?thesis using flush_turn [OF a(1) flush l'4(1) a(2)] by blast
      next
        fix ps assume a: "broken l3 (log_contents l) (log_durable l) ([rq] @ took) ps" "\<forall>q \<in> set (others @ deferred_list l3 @ queue2). answer l3 q = None"
        then have "writer_flush env l3 = (None, l3)" by (simp add: broken_def failed_def writer_flush_def Let_def)
        then have "l' = l3" using flush l'4 by simp
        then show ?thesis using broken_turn [OF a(1)] a(2) by (auto simp: log_same_def)
      qed
      then obtain ps where r: "turn_result l l' ([rq] @ took) ps" "log_same l3 l'" "\<forall>q \<in> set (others @ deferred_list l3 @ queue2). answer l' q = None"
        by blast
      have "deferred_list l' = deferred_list l3" using r(2) by (simp add: deferred_list_def log_same_def)
      then show ?thesis
        using r t l'4(2) S(1) by (intro exI [of _ "rq # took"] exI [of _ ps]) (simp add: log_same_def)
    qed
  qed
qed

lemma writer_turn_view:
  assumes live: "live l" and q: "queue_ok l (deferred_list l @ queue)" and step: "writer_turn port env queue l = (None, queue', l')"
    and others: "\<forall>q \<in> set others. answer l q = None \<and> RQ_id q \<notin> RQ_id ` set (deferred_list l @ queue)"
  shows "\<exists>took ps. deferred_list l @ queue = took @ deferred_list l' @ queue' \<and> (deferred_list l @ queue \<noteq> [] \<longrightarrow> took \<noteq> []) \<and>
    turn_result l l' took ps \<and>
    (\<forall>q \<in> set (others @ deferred_list l' @ queue'). answer l' q = None) \<and> L_maxPayloadBytes l' = L_maxPayloadBytes l \<and>
    L_nextRequest l' = L_nextRequest l"
proof (cases "deferred_list l @ queue")
  case Nil
  then have e: "l' = l" "queue' = queue" "deferred_list l = []" "queue = []"
    using step by (auto simp: writer_turn_def deferred_list_def split: option.splits)
  have "progress l (log_contents l) (log_durable l) []" "W_pending (L_writer l) = []" using live_progress [OF live] by simp_all
  then have "\<exists>ps. turn_result l l [] ps"
    using flush_turn(1) [of l l "[]" env None l l "[]"] by (simp add: writer_flush_def)
  then show ?thesis using e others by auto
next
  case (Cons rq rest)
  define l1 where "l1 = l\<lparr>L_writer := (L_writer l)\<lparr>W_deferred := None\<rparr>\<rparr>"
  have l1: "live l1" "W_deferred (L_writer l1) = None" "L_registry l1 = L_registry l" "L_maxPayloadBytes l1 = L_maxPayloadBytes l"
      "L_nextRequest l1 = L_nextRequest l" "W_fault (L_writer l1) = None"
    using live live_progress(4) [OF live] by (simp_all add: l1_def live_deferred)
  have l1_id: "l1 = l" if "W_deferred (L_writer l) = None" using that by (simp add: l1_def)
  have q1: "queue_ok l1 (rq # rest)" using q Cons by (simp add: queue_ok_def rq_ok_def l1_def)
  obtain staged l2 where stage: "writer_stage port env rq l1 = (staged, l2)" by fastforce
  have sel: "(case W_deferred (L_writer l) of
              Some rq \<Rightarrow> Some (rq, queue, l\<lparr>L_writer := (L_writer l)\<lparr>W_deferred := None\<rparr>\<rparr>)
            | None \<Rightarrow> (case queue of [] \<Rightarrow> None | rq # rest \<Rightarrow> Some (rq, rest, l))) = Some (rq, rest, l1)"
    using Cons l1_id by (auto simp: deferred_list_def l1_def split: option.splits)
  have ns: "\<not> RQ_stop rq"
    using step by (auto simp: writer_turn_def sel split: prod.splits)
  have "(if \<not> staged then (rest, l2)
      else let (queue2, l3) = writer_fill port env rest l2; (e, l4) = writer_flush env l3 in
        case e of None \<Rightarrow> (queue2, l4) | Some cause \<Rightarrow> (queue2, snd (writer_poison cause l4))) = (queue', l')"
    using step stage ns l1(6) by (auto simp: writer_turn_def sel split: prod.splits option.splits)
  from turn_head [OF l1(1,2) q1 ns stage this, of others] show ?thesis
    using Cons l1(3-5) others by (simp add: turn_result_def l1_def)
qed

end
