(* ===== verification/Record_Log.thy ===== *)
theory Record_Log
  imports Log_Turn Id_Allocator
begin

text \<open>
  The record log refines the interface of its clients. A client state is a log together with the
  faults and cancellations it will meet, one entry per call, so that a property of the interface
  holds for every fault schedule.
\<close>

section \<open>Appends\<close>

definition log_ok :: "'c Log \<Rightarrow> bool" where
  "log_ok l \<longleftrightarrow> W_deferred (L_writer l) = None \<and> (\<forall>x \<in> set (L_responses l). fst x < L_nextRequest l) \<and>
     sorted_wrt (<) (map fst (log_contents l)) \<and> log_durable l \<le> length (log_contents l) \<and> (live l \<or> failed l)"

definition log_poisoned :: "'c Log \<Rightarrow> bool" where
  "log_poisoned l \<longleftrightarrow> L_terminal l \<noteq> None"

lemma live_ok:
  assumes "live l" "W_deferred (L_writer l) = None" "\<forall>x \<in> set (L_responses l). fst x < L_nextRequest l"
  shows "log_ok l"
proof -
  obtain act older s rs where b: "buffered l act older s rs" using assms(1) by (auto simp: live_def)
  then have "active_at (L_registry l) act older s rs" by (simp add: buffered_def)
  note A = active_at_holds [OF this]
  show ?thesis
    using assms A buffered_sorted [OF b] live_progress(2) [OF assms(1)] by (simp add: log_ok_def reg_holds_def)
qed

lemma answer_below: "\<forall>x \<in> set (L_responses l). fst x < L_nextRequest l \<Longrightarrow> L_nextRequest l \<le> RQ_id rq \<Longrightarrow> answer l rq = None"
  by (force simp: answer_def map_of_eq_None_iff)

definition spent :: "'c Log \<Rightarrow> 'c Log \<Rightarrow> bool" where
  \<comment> \<open>only the budget and the request counter differ\<close>
  "spent l l' \<longleftrightarrow> l' = l\<lparr>L_budget := L_budget l', L_nextRequest := L_nextRequest l'\<rparr> \<and> L_nextRequest l \<le> L_nextRequest l'"

lemma spent_intros:
  "spent l l" "spent l (l\<lparr>L_nextRequest := Suc (L_nextRequest l), L_budget := b\<rparr>)"
  "spent l (l\<lparr>L_budget := b, L_nextRequest := Suc (L_nextRequest l)\<rparr>)"
  by (cases l; simp add: spent_def)+

lemma log_submit_view:
  assumes "log_submit ctx l p sync = (x, l')"
  shows "spent l l'"
    "x = Inr rq \<Longrightarrow> L_nextRequest l' = Suc (L_nextRequest l) \<and> RQ_id rq = L_nextRequest l \<and>
       RQ_payload rq = p \<and> RQ_sync rq = sync \<and> rq_ok l rq \<and> L_terminal l = None"
  using assms spent_intros [of l]
  by (auto simp: log_submit_def Let_def rq_ok_def not_less split: option.splits if_splits sum.splits prod.splits acquire_outcome.splits)

lemma spent_view:
  assumes "spent l l'"
  shows "live l' = live l" "failed l' = failed l" "log_contents l' = log_contents l" "log_durable l' = log_durable l"
    "L_terminal l' = L_terminal l" "answer l' = answer l" "L_responses l' = L_responses l" "deferred_list l' = deferred_list l"
    "rq_ok l' rq = rq_ok l rq" "L_nextRequest l \<le> L_nextRequest l'" "L_writer l' = L_writer l" "log_ok l \<Longrightarrow> log_ok l'"
proof -
  obtain b n where l': "l' = l\<lparr>L_budget := b, L_nextRequest := n\<rparr>" and n: "L_nextRequest l \<le> n"
    using assms unfolding spent_def by (metis Log.select_convs Log.surjective)
  have a: "answer l' = answer l" by (simp add: answer_def fun_eq_iff l')
  have "live l' = live l" using a by (simp add: live_def buffered_def staged_ok_def fits_def Let_def quiet_def) (simp add: l')
  then show "live l' = live l" "answer l' = answer l" "failed l' = failed l" "log_contents l' = log_contents l" "log_durable l' = log_durable l"
    "L_terminal l' = L_terminal l" "L_responses l' = L_responses l" "deferred_list l' = deferred_list l"
    "rq_ok l' rq = rq_ok l rq" "L_nextRequest l \<le> L_nextRequest l'" "L_writer l' = L_writer l" "log_ok l \<Longrightarrow> log_ok l'"
    using a n by (auto simp: l' failed_def deferred_list_def rq_ok_def log_ok_def)
qed

lemma writer_turn_goes_on:
  assumes "W_deferred (L_writer l) = None" "\<not> RQ_stop rq"
  shows "fst (writer_turn port env [rq] l) = None"
  using assms by (auto simp: writer_turn_def Let_def split: option.splits prod.splits)

lemma Log_Append_view:
  assumes ok: "log_ok l" and step: "Log_Append port env ctx l p sync = (x, l')"
  obtains (refused) e where "x = Inl e" "spent l l'"
    | (turned) rq ps where "live l" "turn_result l l' [rq] ps" "RQ_payload rq = p" "RQ_sync rq = sync" "answer l' rq = Some x" "log_ok l'"
proof (cases "log_submit ctx l p sync")
  case (Pair y l1)
  note S = log_submit_view [OF Pair]
  show thesis
  proof (cases y)
    case (Inl e)
    then have "x = Inl e" "l' = l1" using step Pair by (simp_all add: Log_Append_def)
    then show thesis using refused S(1) by blast
  next
    case (Inr rq)
    note R = S(2) [OF Inr] and V = spent_view [OF S(1)]
    have live: "live l" using ok R by (auto simp: log_ok_def failed_def)
    have d1: "W_deferred (L_writer l1) = None" "deferred_list l1 = []"
      using ok V(8,11) by (simp_all add: log_ok_def deferred_list_def)
    have below: "\<forall>x \<in> set (L_responses l). fst x < L_nextRequest l" using ok by (simp add: log_ok_def)
    have ns: "\<not> RQ_stop rq" using R by (simp add: rq_ok_def)
    have q: "queue_ok l1 (deferred_list l1 @ [rq])"
      using R V(6,9) d1 answer_below [OF below, of rq] by (simp add: queue_ok_def)
    obtain st queue' l2 where turn: "writer_turn port env [rq] l1 = (st, queue', l2)" by (metis prod_cases3)
    have "st = None" using writer_turn_goes_on [OF d1(1) ns, of port env] turn by simp
    note turn = turn [unfolded this]
    have l': "l' = l2" "x = the (answer l2 rq)"
      using step Pair Inr turn by (auto simp: Log_Append_def answer_def)
    have "\<exists>took ps. [rq] = took @ deferred_list l2 @ queue' \<and> took \<noteq> [] \<and> turn_result l1 l2 took ps \<and>
        (\<forall>q \<in> set (others @ deferred_list l2 @ queue'). answer l2 q = None) \<and> L_nextRequest l2 = L_nextRequest l1"
      if "\<forall>q \<in> set others. answer l1 q = None \<and> RQ_id q \<noteq> RQ_id rq" for others
      using writer_turn_view [OF _ q turn, of others] that live V(1) d1(2) by auto
    note W = this
    obtain took ps where w: "[rq] = took @ deferred_list l2 @ queue'" "took \<noteq> []" "turn_result l1 l2 took ps" "L_nextRequest l2 = L_nextRequest l1"
      using W [of "[]"] by auto
    have t: "took = [rq]" "deferred_list l2 = []" using w(1,2) by (auto simp: Cons_eq_append_conv)
    have tr: "turn_result l l' [rq] ps" using w(3) t V(3,4) l'(1) by (simp add: turn_result_def)
    have an: "answer l' rq = Some x"
      using tr l' by (auto simp: turn_result_def settled_def)
    have bound: "fst y < L_nextRequest l'" if y: "y \<in> set (L_responses l')" for y
    proof (rule ccontr)
      assume "\<not> fst y < L_nextRequest l'"
      then have ge: "Suc (L_nextRequest l) \<le> fst y" using w(4) R l'(1) by simp
      define z where "z = rq\<lparr>RQ_id := fst y\<rparr>"
      have "answer l1 z = None" "RQ_id z \<noteq> RQ_id rq"
        using answer_below [OF below, of z] V(6) ge R by (simp_all add: z_def)
      then have "answer l' z = None" using W [of "[z]"] l'(1) by auto
      then show False using y by (auto simp: answer_def map_of_eq_None_iff z_def)
    qed
    have "log_ok l'"
    proof (cases "live l'")
      case True
      show ?thesis by (rule live_ok [OF True]) (use t(2) l'(1) bound in \<open>auto simp: deferred_list_def split: option.splits\<close>)
    next
      case False
      then obtain k where f: "failed l'" "reg_holds (L_registry l') (log_contents l @ take k (map pend_record ps)) (log_durable l)"
        and so: "sorted_wrt (<) (map fst (log_contents l @ map pend_record ps))"
        using tr by (auto simp: turn_result_def)
      have "sorted_wrt (<) (take (length (log_contents l) + k) (map fst (log_contents l @ map pend_record ps)))"
        using so by (rule sorted_wrt_take)
      then have "sorted_wrt (<) (map fst (log_contents l @ take k (map pend_record ps)))" by (simp add: take_map)
      then show ?thesis
        using f t(2) l'(1) bound by (auto simp: log_ok_def reg_holds_def deferred_list_def split: option.splits)
    qed
    then show thesis using turned live tr R an by blast
  qed
qed

lemma turn_one:
  assumes "turn_result l l' [rq] ps"
  shows "ps = [] \<or> (\<exists>p. ps = [p] \<and> PD_payload p = RQ_payload rq \<and> RQ_id (PD_request p) = RQ_id rq)"
proof -
  have s: "subseq (map pend_key ps) [rq_key rq]" using assms by (simp add: turn_result_def in_order_def)
  then have "length ps \<le> 1" using list_emb_length [OF s] by simp
  then show ?thesis
    using s by (cases ps) (auto simp: pend_key_def rq_key_def split: if_splits)
qed

section \<open>The interface\<close>

record 'c log_client =
  LC_log :: "'c Log"
  LC_faults :: "nat \<Rightarrow> env"
  LC_contexts :: "nat \<Rightarrow> log_context"
  LC_tick :: nat

definition client_append :: "'c CatalogPort \<Rightarrow> 'c log_client append_fun" where
  "client_append port k p sync =
     (let (x, l) = Log_Append port (LC_faults k (LC_tick k)) (LC_contexts k (LC_tick k)) (LC_log k) p sync
      in (x, k\<lparr>LC_log := l, LC_tick := Suc (LC_tick k)\<rparr>))"

lemma append_facts:
  assumes ok: "log_ok l" and step: "Log_Append port env ctx l p sync = (x, l')"
  shows "log_ok l'" "log_durable l \<le> log_durable l'"
    "\<exists>a n. log_durable l \<le> n \<and> log_contents l' = take n (log_contents l @ [(a, p)])"
    "x = Inr r \<Longrightarrow> L_terminal l' = None \<Longrightarrow> log_contents l' = log_contents l @ [(AR_Addr r, p)]"
    "x = Inr r \<Longrightarrow> r = rec_result (AR_Addr r, p) \<and> EncodeRecord (AR_Addr r) p = Inr (frame (AR_Addr r, p))"
    "x = Inr r \<Longrightarrow> sync \<Longrightarrow> L_terminal l' = None \<and> log_durable l' = length (log_contents l')"
    "x = Inl e \<Longrightarrow> L_terminal l' = None \<Longrightarrow> log_contents l' = log_contents l"
    "L_terminal l \<noteq> None \<Longrightarrow> (\<exists>e. x = Inl e) \<and> log_contents l' = log_contents l \<and> log_durable l' = log_durable l \<and> L_terminal l' \<noteq> None"
proof -
  have le: "log_durable l \<le> length (log_contents l)" using ok by (simp add: log_ok_def)
  have keep: "\<exists>a n. log_durable l \<le> n \<and> log_contents l = take n (log_contents l @ [(a, p)])"
    using le by (intro exI [of _ 0] exI [of _ "length (log_contents l)"]) simp
  define good where "good \<longleftrightarrow> log_ok l' \<and> log_durable l \<le> log_durable l' \<and>
    (\<exists>a n. log_durable l \<le> n \<and> log_contents l' = take n (log_contents l @ [(a, p)])) \<and>
    (\<forall>r. x = Inr r \<longrightarrow> (L_terminal l' = None \<longrightarrow> log_contents l' = log_contents l @ [(AR_Addr r, p)]) \<and>
       r = rec_result (AR_Addr r, p) \<and> EncodeRecord (AR_Addr r) p = Inr (frame (AR_Addr r, p)) \<and>
       (sync \<longrightarrow> L_terminal l' = None \<and> log_durable l' = length (log_contents l'))) \<and>
    (\<forall>e. x = Inl e \<longrightarrow> L_terminal l' = None \<longrightarrow> log_contents l' = log_contents l) \<and>
    (L_terminal l \<noteq> None \<longrightarrow> (\<exists>e. x = Inl e) \<and> log_contents l' = log_contents l \<and> log_durable l' = log_durable l \<and> L_terminal l' \<noteq> None)"
  have good
    using ok step
  proof (cases rule: Log_Append_view)
    case (refused e)
    note V = spent_view [OF refused(2)]
    show ?thesis using V(3-5) V(12) ok refused(1) keep unfolding good_def by simp
  next
    case (turned rq ps)
    note T = turned(2) [unfolded turn_result_def]
    have nt: "L_terminal l = None" using live_progress(3) [OF turned(1)] .
    consider "ps = []" | q where "ps = [q]" "PD_payload q = p" "RQ_id (PD_request q) = RQ_id rq" using turn_one [OF turned(2)] turned(3) by auto
    then show ?thesis
    proof cases
      case 1
      have x: "\<exists>e. x = Inl e" using T turned(5) 1 by (cases x) (auto simp: settled_def)
      have c: "log_contents l' = log_contents l" "log_durable l \<le> log_durable l'" using T 1 by (auto simp: reg_holds_def)
      show ?thesis using x c turned(6) nt keep unfolding good_def by auto
    next
      case 2
      define r0 where "r0 = (AR_Addr (PD_result q), p)"
      have r0: "pend_record q = r0" "PD_result q = rec_result r0" "EncodeRecord (fst r0) p = Inr (frame r0)"
        using T 2 by (auto simp: pend_record_def r0_def good_records_def)
      have xq: "r = PD_result q" if "x = Inr r" for r using T turned(5) 2 that by (auto simp: settled_def)
      have xr: "r = rec_result (AR_Addr r, p)" "(AR_Addr r, p) = r0" if "x = Inr r" for r
        using xq [OF that] r0(2) unfolding r0_def by blast+
      have xs: "all_durable l'" if "x = Inr r" "sync" for r
        using T turned(4,5) that by (auto simp: settled_def)
      have pre: "\<exists>a n. log_durable l \<le> n \<and> log_contents l' = take n (log_contents l @ [(a, p)])" "log_durable l \<le> log_durable l'"
      proof -
        have "[r0] = take 1 [r0]" by simp
        then obtain k where k: "log_contents l' = log_contents l @ take k [r0]" "log_durable l \<le> log_durable l'"
          using T 2(1) r0(1) unfolding reg_holds_def by (metis list.map)
        then show "log_durable l \<le> log_durable l'" by simp
        have "log_contents l' = take (length (log_contents l) + k) (log_contents l @ [(fst r0, p)])" using k by (simp add: r0_def)
        then show "\<exists>a n. log_durable l \<le> n \<and> log_contents l' = take n (log_contents l @ [(a, p)])" using le by (meson trans_le_add1)
      qed
      have none: "log_contents l' = log_contents l @ [r0]" if "L_terminal l' = None"
        using T that 2 r0(1) by (auto simp: failed_def)
      have inl: "L_terminal l' \<noteq> None" if "x = Inl e" for e
        using T that turned(5) 2 answer_id [OF 2(3), of l'] by (auto simp: failed_def)
      have "x = Inr r \<longrightarrow> (L_terminal l' = None \<longrightarrow> log_contents l' = log_contents l @ [(AR_Addr r, p)]) \<and>
          r = rec_result (AR_Addr r, p) \<and> EncodeRecord (AR_Addr r) p = Inr (frame (AR_Addr r, p)) \<and>
          (sync \<longrightarrow> L_terminal l' = None \<and> log_durable l' = length (log_contents l'))" for r
        using xr [of r] xs [of r] none r0(3) unfolding all_durable_def by (metis fst_conv)
      then show ?thesis
        unfolding good_def using pre inl turned(6) nt by blast
    qed
  qed
  then show "log_ok l'" "log_durable l \<le> log_durable l'"
    "\<exists>a n. log_durable l \<le> n \<and> log_contents l' = take n (log_contents l @ [(a, p)])"
    "x = Inr r \<Longrightarrow> L_terminal l' = None \<Longrightarrow> log_contents l' = log_contents l @ [(AR_Addr r, p)]"
    "x = Inr r \<Longrightarrow> r = rec_result (AR_Addr r, p) \<and> EncodeRecord (AR_Addr r) p = Inr (frame (AR_Addr r, p))"
    "x = Inr r \<Longrightarrow> sync \<Longrightarrow> L_terminal l' = None \<and> log_durable l' = length (log_contents l')"
    "x = Inl e \<Longrightarrow> L_terminal l' = None \<Longrightarrow> log_contents l' = log_contents l"
    "L_terminal l \<noteq> None \<Longrightarrow> (\<exists>e. x = Inl e) \<and> log_contents l' = log_contents l \<and> log_durable l' = log_durable l \<and> L_terminal l' \<noteq> None"
    unfolding good_def by blast+
qed

interpretation wal: append_log "client_append port" "\<lambda>k. log_contents (LC_log k)" "\<lambda>k. log_durable (LC_log k)"
  "\<lambda>k. log_poisoned (LC_log k)" "\<lambda>k. log_ok (LC_log k)" for port :: "'c CatalogPort"
proof
  fix k k' :: "'c log_client" and p x sync r e
  assume ok: "log_ok (LC_log k)"
  show "log_durable (LC_log k) \<le> length (log_contents (LC_log k))" "sorted_wrt (<) (map fst (log_contents (LC_log k)))"
    using ok by (simp_all add: log_ok_def)
  { fix x sync assume "client_append port k p sync = (x, k')"
    then have "Log_Append port (LC_faults k (LC_tick k)) (LC_contexts k (LC_tick k)) (LC_log k) p sync = (x, LC_log k')"
      by (auto simp: client_append_def split: prod.splits)
    note A = append_facts [OF ok this]
    note this = A }
  note A = this
  show "log_ok (LC_log k')" if "client_append port k p sync = (x, k')" using A(1) [OF that] .
  show "log_durable (LC_log k) \<le> log_durable (LC_log k')" if "client_append port k p sync = (x, k')" using A(2) [OF that] .
  show "\<exists>a n. log_durable (LC_log k) \<le> n \<and> log_contents (LC_log k') = take n (log_contents (LC_log k) @ [(a, p)])"
    if "client_append port k p sync = (x, k')" using A(3) [OF that] .
  show "log_contents (LC_log k') = log_contents (LC_log k) @ [(AR_Addr r, p)]"
    if "client_append port k p sync = (Inr r, k')" "\<not> log_poisoned (LC_log k')"
    using A(4) [OF that(1)] that(2) by (simp add: log_poisoned_def)
  show "r = rec_result (AR_Addr r, p) \<and> EncodeRecord (AR_Addr r) p = Inr (frame (AR_Addr r, p))"
    if "client_append port k p sync = (Inr r, k')" using A(5) [OF that] by simp
  show "\<not> log_poisoned (LC_log k') \<and> log_durable (LC_log k') = length (log_contents (LC_log k'))"
    if "client_append port k p True = (Inr r, k')" using A(6) [OF that] by (simp add: log_poisoned_def)
  show "log_contents (LC_log k') = log_contents (LC_log k)"
    if "client_append port k p sync = (Inl e, k')" "\<not> log_poisoned (LC_log k')"
    using A(7) [OF that(1)] that(2) by (simp add: log_poisoned_def)
  show "(\<exists>e. x = Inl e) \<and> log_contents (LC_log k') = log_contents (LC_log k) \<and> log_durable (LC_log k') = log_durable (LC_log k) \<and>
      log_poisoned (LC_log k')"
    if "log_poisoned (LC_log k)" "client_append port k p sync = (x, k')" using A(8) [OF that(2)] that(1) by (simp add: log_poisoned_def)
qed

section \<open>A log that has just been opened\<close>

abbreviation sealed_id :: "sealedSegment \<Rightarrow> SegmentID" where
  "sealed_id s \<equiv> SH_SegmentID (SG_header s)"

lemma update_absent: "k \<notin> fst ` set al \<Longrightarrow> AList.update k v al = al @ [(k, v)]"
  by (induction al) auto

lemma register_sealed_view:
  "register_sealed r sealed = Inr r' \<Longrightarrow> distinct (map fst (R_entries r)) \<Longrightarrow>
   R_entries r' = R_entries r @ map (\<lambda>s. (sealed_id s, sealed_entry s)) sealed \<and> R_active r' = R_active r \<and>
   R_closed r' = R_closed r \<and> R_objs r' = R_objs r \<and> distinct (map fst (R_entries r'))"
proof (induction sealed arbitrary: r)
  case (Cons s sealed)
  let ?r = "set_entry r (sealed_id s) (sealed_entry s)"
  have reg: "register_sealed ?r sealed = Inr r'" and absent: "entry_of r (sealed_id s) = None"
    using Cons.prems(1) by (auto simp: Let_def split: if_splits)
  have k: "sealed_id s \<notin> fst ` set (R_entries r)" using absent by (simp add: entry_of_def map_of_eq_None_iff)
  have e: "R_entries ?r = R_entries r @ [(sealed_id s, sealed_entry s)]" by (simp add: set_entry_def update_absent [OF k])
  have "distinct (map fst (R_entries ?r))" using Cons.prems(2) k by (simp add: e)
  from Cons.IH [OF reg this] show ?case unfolding e by (elim conjE, intro conjI) simp_all
qed simp

lemma concat_sorted:
  assumes "sorted_wrt (<) (map f ss)" "\<And>s. s \<in> set ss \<Longrightarrow> placed (f s) 64 (g s)"
  shows "sorted_wrt (<) (map fst (concat (map g ss))) \<and> (\<forall>x \<in> set (concat (map g ss)). \<exists>s \<in> set ss. VAddr_SegmentID (fst x) = f s)"
  using assms
proof (induction ss)
  case (Cons s ss)
  note P = placed_sorted [OF Cons.prems(2) [of s]]
  have IH: "sorted_wrt (<) (map fst (concat (map g ss)))" "\<forall>x \<in> set (concat (map g ss)). \<exists>s \<in> set ss. VAddr_SegmentID (fst x) = f s"
    using Cons by auto
  have "fst x < fst y" if "x \<in> set (g s)" "y \<in> set (concat (map g ss))" for x y
  proof (rule VAddr_less_segment)
    obtain t where t: "t \<in> set ss" "VAddr_SegmentID (fst y) = f t" using IH(2) \<open>y \<in> _\<close> by blast
    have "VAddr_SegmentID (fst x) = f s" using P that(1) by simp
    moreover have "f s < f t" using Cons.prems(1) t(1) by simp
    ultimately show "VAddr_SegmentID (fst x) < VAddr_SegmentID (fst y)" using t by simp
  qed
  then have "sorted_wrt (<) (map fst (g s @ concat (map g ss)))"
    using P IH(1) by (intro sorted_fst_append) simp_all
  then show ?case using P IH(2) by auto
qed simp

definition opened_ok :: "activeSegment \<Rightarrow> log_record list \<Rightarrow> sealedSegment list \<Rightarrow> bool" where
  \<comment> \<open>the segments of a valid catalog: the regular ones are older than the active segment\<close>
  "opened_ok active rs sealed \<longleftrightarrow>
     active_ok active rs \<and> 64 \<le> F_synced (AS_file active) \<and> \<not> IsCompactionSegment (SH_SegmentID (AS_header active)) \<and>
     sorted_wrt (<) (map sealed_id sealed) \<and>
     (\<forall>s \<in> set sealed. \<not> IsCompactionSegment (sealed_id s) \<longrightarrow>
        sealed_id s < SH_SegmentID (AS_header active) \<and> (\<exists>xs. sealed_ok s xs))"

definition sealed_records :: "sealedSegment list \<Rightarrow> log_record list" where
  "sealed_records sealed = concat (map (\<lambda>s. seg_records (F_data (SG_file s)) (SG_header s))
     (filter (\<lambda>s. \<not> IsCompactionSegment (sealed_id s)) sealed))"

lemma newSegmentRegistry_active_at:
  assumes ok: "opened_ok active rs sealed" and reg: "newSegmentRegistry active sealed = Inr r"
  shows "active_at r (SH_SegmentID (AS_header active)) (sealed_records sealed) active rs"
proof -
  let ?act = "SH_SegmentID (AS_header active)" and ?regular = "filter (\<lambda>s. \<not> IsCompactionSegment (sealed_id s)) sealed"
  have "register_sealed \<lparr>R_entries = [(?act, active_entry)], R_active = ?act, R_closed = False, R_objs = [?act \<mapsto> active]\<rparr> sealed = Inr r"
    using reg by (auto simp: newSegmentRegistry_def Let_def split: if_splits)
  note V = register_sealed_view [OF this]
  have r4: "distinct (map fst (R_entries r))" by (rule V [THEN conjunct2, THEN conjunct2, THEN conjunct2, THEN conjunct2]) simp
  have r: "R_entries r = (?act, active_entry) # map (\<lambda>s. (sealed_id s, sealed_entry s)) sealed" "R_active r = ?act"
      "R_objs r = [?act \<mapsto> active]" using V by simp_all
  note r = r r4
  have o: "active_ok active rs" "\<not> IsCompactionSegment ?act" "sorted_wrt (<) (map sealed_id sealed)"
      "\<And>s. s \<in> set sealed \<Longrightarrow> \<not> IsCompactionSegment (sealed_id s) \<Longrightarrow> sealed_id s < ?act \<and> (\<exists>xs. sealed_ok s xs)"
    using ok by (auto simp: opened_ok_def)
  have sealed_of: "entry_of r (sealed_id s) = Some (sealed_entry s)" if "s \<in> set sealed" for s
  proof -
    have "(sealed_id s, sealed_entry s) \<in> set (R_entries r)" using r(1) that by auto
    then show ?thesis using r(4) by (simp add: entry_of_def)
  qed
  have srt: "sorted_wrt (<) (map sealed_id ?regular)"
    using o(3) sorted_wrt_filter [of "(<)" "map sealed_id sealed" "\<lambda>i. \<not> IsCompactionSegment i"] by (simp add: filter_map o_def)
  have ids: "regular_ids r = map sealed_id ?regular @ [?act]"
  proof (rule sorted_distinct_set_unique)
    show "sorted (regular_ids r)" "distinct (regular_ids r)" using regular_ids_sorted [OF r(4)] by simp_all
    show "sorted (map sealed_id ?regular @ [?act])"
      using srt o(4) by (auto simp: sorted_append strict_sorted_iff intro: order.strict_implies_order)
    show "distinct (map sealed_id ?regular @ [?act])"
      using srt o(4) by (force simp: strict_sorted_iff)
    show "set (regular_ids r) = set (map sealed_id ?regular @ [?act])"
      using r(1) o(2) by (auto simp: regular_ids_def set_insort_key)
  qed
  have "sealed_id s \<noteq> ?act" if "s \<in> set ?regular" for s using o(4) [of s] that by auto
  then have older: "filter (\<lambda>i. i \<noteq> ?act) (regular_ids r) = map sealed_id ?regular"
    unfolding ids by (simp add: filter_id_conv)
  have cont: "seg_contents r (sealed_id s) = seg_records (F_data (SG_file s)) (SG_header s)" if "s \<in> set sealed" for s
    using sealed_of [OF that] by (simp add: seg_contents_def seg_file_def sealed_entry_def)
  then have sr: "concat (map (seg_contents r) (map sealed_id ?regular)) = sealed_records sealed"
    unfolding sealed_records_def map_map by (intro arg_cong [of _ _ concat] map_cong) auto
  have "placed (sealed_id s) 64 (seg_records (F_data (SG_file s)) (SG_header s))" if s: "s \<in> set ?regular" for s
  proof -
    obtain xs where xs: "sealed_ok s xs" using o(4) [of s] s by auto
    then have "seg_records (F_data (SG_file s)) (SG_header s) = xs"
      using seg_state_records(1) [OF sealed_ok_state(1) [OF xs]] by (simp add: complete_all)
    then show ?thesis using xs by (simp add: sealed_ok_def)
  qed
  note C = concat_sorted [OF srt this, folded sealed_records_def]
  have so: "sorted_wrt (<) (map fst (sealed_records sealed))" "\<forall>x \<in> set (sealed_records sealed). VAddr_SegmentID (fst x) < ?act"
  proof -
    show "sorted_wrt (<) (map fst (sealed_records sealed))" using C by blast
    show "\<forall>x \<in> set (sealed_records sealed). VAddr_SegmentID (fst x) < ?act"
    proof
      fix x assume "x \<in> set (sealed_records sealed)"
      then obtain s where "s \<in> set ?regular" "VAddr_SegmentID (fst x) = sealed_id s" using C by blast
      then show "VAddr_SegmentID (fst x) < ?act" using o(4) [of s] by simp
    qed
  qed
  have "i < ?act \<and> \<not> RG_active e \<and> (\<exists>sg rs. RG_sealed e = Some sg \<and> sealed_ok sg rs)"
    if e: "entry_of r i = Some e" "i \<noteq> ?act" "\<not> IsCompactionSegment i" for i e
  proof -
    have "(i, e) \<in> set (R_entries r)" using e(1) r(4) by (simp add: entry_of_def)
    then obtain s where "s \<in> set sealed" "i = sealed_id s" "e = sealed_entry s" using r(1) e(2) by auto
    then show ?thesis using o(4) [of s] e(3) by (auto simp: sealed_entry_def)
  qed
  moreover have "entry_of r ?act = Some active_entry" using r(1) by (simp add: entry_of_def)
  ultimately have "reg_ok r ?act (sealed_records sealed)"
    unfolding reg_ok_def using r(2,4) o(2) older sr so by (simp add: active_entry_def)
  then show ?thesis using ok r(3) by (simp add: active_at_def opened_ok_def)
qed

lemma newLog_ok:
  assumes ok: "opened_ok active rs sealed" and reg: "newSegmentRegistry active sealed = Inr r"
    and new: "newLog cfg limit active r hook c = Inr l"
  shows "live l" "log_ok l" "log_contents l = sealed_records sealed @ rs" "\<not> log_poisoned l"
proof -
  let ?act = "SH_SegmentID (AS_header active)"
  note at = newSegmentRegistry_active_at [OF ok reg]
  have l: "L_registry l = r" "L_terminal l = None" "L_maxPayloadBytes l = limit" "W_active (L_writer l) = ?act" "W_pending (L_writer l) = []"
      "W_fault (L_writer l) = None" "W_waiters (L_writer l) = []" "\<not> W_needSync (L_writer l)" "W_encoded (L_writer l) = []"
      "W_bytes (L_writer l) = 0" "W_deferred (L_writer l) = None" "L_responses l = []"
    and v: "LogConfig_validate cfg (SH_SegmentSize (AS_header active)) limit = None"
    using new by (auto simp: newLog_def Let_def split: if_splits)
  obtain hdr where "EncodeSegmentHeader (AS_header active) = Inr hdr" using ok by (auto simp: opened_ok_def active_ok_def)
  note H = EncodeSegmentHeader_facts [OF this]
  obtain m where m: "PhysicalRecordSize (unat limit) = Inr m" "m \<le> SH_SegmentSize (AS_header active) - SegmentHeaderSize - SegmentFooterSize"
      "\<not> SH_SegmentSize (AS_header active) \<le> SegmentHeaderSize + SegmentFooterSize"
    using v by (auto simp: LogConfig_validate_def not_less split: if_splits sum.splits)
  have "unat (SH_SegmentSize (AS_header active) - SegmentHeaderSize - SegmentFooterSize) = unat (SH_SegmentSize (AS_header active)) - 128"
    using m(3) by (simp add: word_le_nat_alt not_le unat_sub)
  then have fits: "fits l active" using m(1,2) m(3) H(2) l(3) by (auto simp: fits_def word_le_nat_alt not_le)
  have "buffered l ?act (sealed_records sealed) active rs"
    using at fits l ok by (simp add: buffered_def staged_ok_def Let_def opened_ok_def active_ok_def)
  then show live: "live l" using l(5) by (auto simp: live_def quiet_def)
  show "log_ok l" by (rule live_ok [OF live]) (simp_all add: l)
  show "log_contents l = sealed_records sealed @ rs" using active_at_holds(1) [OF at] l(1) by simp
  show "\<not> log_poisoned l" by (simp add: log_poisoned_def l)
qed

end
