(* ===== verification/Log_Properties.thy ===== *)
theory Log_Properties
  imports Record_Log
begin

text \<open>
  The byte budget of queued appends, and the progress of an append: every request the writer takes
  gives back exactly the bytes it acquired, so the budget is never released below zero, and an
  append that meets no fault succeeds.
\<close>

section \<open>Releases\<close>

definition used :: "'c Log \<Rightarrow> u64" where
  "used l = BB_used (L_budget l)"

lemma log_frame_back:
  "log_frame (l\<lparr>L_catalog := c, L_registry := r\<rparr>) l' \<Longrightarrow> log_frame l l'" "log_frame (set_object i s l) l' \<Longrightarrow> log_frame l l'"
  using log_frame_trans [of l "l\<lparr>L_catalog := c, L_registry := r\<rparr>" l'] log_frame_trans [of l "set_object i s l" l'] by auto

lemma rotate_publish_frame: "rotate_publish port env snap summary i sg s l = (x, l') \<Longrightarrow> log_frame l l'"
  by (auto simp: rotate_publish_def Let_def split: prod.splits sum.splits option.splits
      dest!: removeRotationJournal_frame dest: log_frame_back)

lemma log_rotate_frame:
  assumes "log_rotate port env l = (x, l')"
  shows "log_frame l l'"
proof -
  let ?snap = "SnapshotRecordLog port (L_catalog l)" and ?s = "active_object l" and ?i = "W_active (L_writer l)"
  obtain p s1 where p: "prepareSeal env ?s = (p, s1)" by fastforce
  obtain je l2 where j: "installRotationJournal env (rotation_journal ?snap (summaryLocked ?s)) (set_object ?i s1 l) = (je, l2)" by fastforce
  have f2: "log_frame l l2" using installRotationJournal_frame [OF j] log_frame_back(2) by blast
  have f3: "log_frame l (set_object ?i s2 l2)" for s2 using f2 by blast
  have f4: "log_frame l l'" if "rotate_publish port env ?snap (summaryLocked ?s) (SH_SegmentID (AS_header ?s)) sg new (set_object ?i s2 l2) = (x, l')" for sg new s2
    using rotate_publish_frame [OF that] f3 log_frame_trans by blast
  have f1: "log_frame l l" "log_frame l (set_object ?i s1 l)" by blast+
  show ?thesis
    using assms f1 f2 f3 f4 by (auto simp: log_rotate_def Let_def p j split: prod.splits sum.splits option.splits if_splits)
qed

lemma poison_used: "writer_poison cause l = (f, l') \<Longrightarrow> used l' = used l"
proof -
  assume a: "writer_poison cause l = (f, l')"
  obtain t l1 where t: "setTerminal cause l = (t, l1)" by fastforce
  have "used l1 = used l" using t by (auto simp: setTerminal_def Let_def used_def budget_close_def split: option.splits)
  then show ?thesis
    using a t foldl_complete(5) [where f = "\<lambda>_. Inl f" and l = l1 and ws = "W_waiters (L_writer l)"]
    by (auto simp: writer_poison_def Let_def used_def clear_pending_def split: option.splits)
qed

lemma reject_used:
  assumes "answer l rq = None" "\<not> RQ_reserved rq"
  shows "used (writer_reject rq e l) = used l - RQ_budget rq"
  using assms by (auto simp: writer_reject_def completed_answer used_def writer_complete_frame budget_release_def)

lemma poison_reject_used:
  assumes "staged_ok l" "L_terminal l = None" "W_fault (L_writer l) = None" "fresh l rq" "\<not> RQ_reserved rq"
  shows "used (poison_reject rq cause l) = used l - RQ_budget rq"
proof -
  obtain f l1 where p: "writer_poison cause l = (f, l1)" by fastforce
  have "answer l1 rq = None" using writer_poison_view(8) [OF assms(1-3) p, of rq] assms(4) by (simp add: fresh_def)
  then show ?thesis
    using reject_used [of l1 rq f] assms(5) poison_used [OF p] by (simp add: poison_reject_def p)
qed

lemma stage_used:
  assumes buf: "buffered l act older s rs" and rq: "rq_ok l rq" "fresh l rq" and room: "W_pending (L_writer l) = [] \<or> canStage l rq"
    and step: "writer_stage port env rq l = (ok, l')"
  shows "used l' = used l - RQ_budget rq"
proof -
  have nr: "\<not> RQ_reserved rq" using rq by (simp add: rq_ok_def)
  have an: "answer l rq = None" using rq by (simp add: fresh_def)
  obtain rotated l1 where rot: "stage_rotate port env rq l = (rotated, l1)" by fastforce
  note R = stage_rotate_view [OF buf rq room rot]
  have st: "staged_ok l" "L_terminal l = None" "W_fault (L_writer l) = None"
    using buf by (simp_all add: buffered_def Let_def)
  have used1: "used l1 = used l - (if rotated then 0 else RQ_budget rq)"
  proof -
    obtain x k where lr: "log_rotate port env l = (x, k)" by fastforce
    note D = log_frameD [OF log_rotate_frame [OF lr]]
    define k2 where "k2 = k\<lparr>L_status := (L_status k)\<lparr>LST_RotationCalls := LST_RotationCalls (L_status k) + 1\<rparr>\<rparr>"
    have a: "answer k2 q = answer l q" for q by (rule answer_cong) (simp add: k2_def D)
    have k2: "staged_ok k2" "L_terminal k2 = None" "W_fault (L_writer k2) = None" "fresh k2 rq" "used k2 = used l"
      using st rq(2) D a by (simp_all add: staged_ok_def fresh_def Let_def used_def) (simp_all add: k2_def D)
    have p: "used (poison_reject rq c k2) = used l - RQ_budget rq" for c
      using poison_reject_used [OF k2(1-4) nr] k2(5) by simp
    have w: "used (k2\<lparr>L_writer := w, L_status := t\<rparr>) = used l" for w t using k2(5) by (simp add: used_def)
    show ?thesis
      using rot p w unfolding k2_def
      by (auto simp: stage_rotate_def Let_def lr split: if_splits sum.splits)
  qed
  show ?thesis
  proof (cases "RQ_ctx rq")
    case (Some e)
    then show ?thesis using step reject_used [OF an nr] by (auto simp: writer_stage_def)
  next
    case None
    show ?thesis
    proof (cases rotated)
      case False
      then show ?thesis using step None rot used1 by (simp add: writer_stage_def)
    next
      case True
      obtain act' older' s' rs' where b1: "buffered l1 act' older' s' rs'" "L_responses l1 = L_responses l"
          "W_pending (L_writer l1) = W_pending (L_writer l)"
        using R(2) [OF True] by blast
      have f1: "fresh l1 rq" using rq(2) b1(3) answer_cong [OF b1(2)] by (simp add: fresh_def)
      have t1: "L_terminal l1 = None" "W_fault (L_writer l1) = None" using b1(1) by (simp_all add: buffered_def Let_def)
      have u: "used l1 = used l" using used1 True by simp
      have p: "used (poison_reject rq c l1) = used l - RQ_budget rq" for c
        using poison_reject_used [OF buffered_staged [OF b1(1)] t1 f1 nr] u by simp
      have r: "used (stage_record rq result encoded l1) = used l - RQ_budget rq" for result encoded
        using u by (simp add: stage_record_def Let_def used_def writer_complete_frame budget_release_def)
      show ?thesis
        using step None rot True p r by (auto simp: writer_stage_def Let_def split: sum.splits)
    qed
  qed
qed

lemma used_simps:
  "used (reset_buffer l) = used l" "used (note_write l) = used l" "used (note_sync l) = used l" "used (set_object i s l) = used l"
  "used (foldl (\<lambda>l (w :: pendingRecord). writer_complete (PD_request w) (Inr (PD_result w)) l) l ws) = used l"
  using foldl_complete(5) [where f = "\<lambda>w. Inr (PD_result w)" and l = l and ws = ws]
  by (simp_all add: used_def reset_buffer_def note_write_def note_sync_def Let_def)

lemma flush_used: "writer_flush env l = (e, l') \<Longrightarrow> used l' = used l"
  by (auto simp: writer_flush_def Let_def used_simps split: prod.splits if_splits option.splits)

lemma fill_used:
  assumes "progress l cs n taken" "queue_ok l queue" "\<forall>rq \<in> set queue. fresh l rq"
    "writer_fill port env queue l = (queue', l')" "W_deferred (L_writer l) = None"
  shows "\<exists>took. queue = took @ deferred_list l' @ queue' \<and> used l' = used l - sum_list (map RQ_budget took)"
  using assms
proof (induction queue arbitrary: l taken)
  case Nil
  then show ?case by (simp add: deferred_list_def)
next
  case (Cons rq queue)
  obtain ok l1 where st: "writer_stage port env rq l = (ok, l1)" by (metis surj_pair)
  have eq: "(if \<not> (int (length (W_pending (L_writer l))) < CF_BufferRecords (L_cfg l) \<and>
            W_bytes (L_writer l) < CF_BufferBytes (L_cfg l)) then (rq # queue, l)
      else if RQ_stop rq \<or> \<not> canStage l rq then (queue, l\<lparr>L_writer := (L_writer l)\<lparr>W_deferred := Some rq\<rparr>\<rparr>)
      else if \<not> ok \<and> W_fault (L_writer l1) \<noteq> None then (queue, l1) else writer_fill port env queue l1) = (queue', l')"
    using Cons.prems(4) unfolding writer_fill.simps st Let_def prod.case .
  consider "l' = l" "queue' = rq # queue"
    | "l' = l\<lparr>L_writer := (L_writer l)\<lparr>W_deferred := Some rq\<rparr>\<rparr>" "queue' = queue"
    | "\<not> RQ_stop rq" "canStage l rq" "\<not> ok" "W_fault (L_writer l1) \<noteq> None" "l' = l1" "queue' = queue"
    | "\<not> RQ_stop rq" "canStage l rq" "ok \<or> W_fault (L_writer l1) = None" "writer_fill port env queue l1 = (queue', l')"
    using eq by (metis prod.inject)
  then show ?case
  proof cases
    case 1
    then show ?thesis using Cons.prems(5) by (intro exI [of _ "[]"]) (simp add: deferred_list_def)
  next
    case 2
    then show ?thesis by (intro exI [of _ "[]"]) (simp add: deferred_list_def used_def)
  next
    case 3
    have rq: "rq_ok l rq" "fresh l rq" using Cons.prems(2,3) 3(1) by (auto simp: queue_ok_def)
    note S = stage_progress [OF Cons.prems(1) rq disjI2 [OF 3(2)] st]
    have "used l1 = used l - RQ_budget rq" using Cons.prems(1) stage_used [OF _ rq disjI2 [OF 3(2)] st] by (auto simp: progress_def)
    then show ?thesis
      using 3 S(1) Cons.prems(5) by (intro exI [of _ "[rq]"]) (simp add: deferred_list_def log_same_def)
  next
    case 4
    have rq: "rq_ok l rq" "fresh l rq" using Cons.prems(2,3) 4(1) by (auto simp: queue_ok_def)
    note S = stage_progress [OF Cons.prems(1) rq disjI2 [OF 4(2)] st]
    have nf: "W_fault (L_writer l1) = None" using S(5) 4(3) by blast
    have ne: "RQ_id q \<noteq> RQ_id rq" if "q \<in> set queue" for q
      using Cons.prems(2) that by (auto simp: queue_ok_def image_iff)
    have fr: "\<forall>q \<in> set queue. fresh l1 q" using S(4) [OF nf] ne Cons.prems(3) by auto
    have q1: "queue_ok l1 queue"
      using Cons.prems(2) S(1) fr by (auto simp: queue_ok_def rq_ok_def log_same_def fresh_def)
    have d1: "W_deferred (L_writer l1) = None" using S(1) Cons.prems(5) by (simp add: log_same_def)
    have "used l1 = used l - RQ_budget rq" using Cons.prems(1) stage_used [OF _ rq disjI2 [OF 4(2)] st] by (auto simp: progress_def)
    moreover obtain took where "queue = took @ deferred_list l' @ queue'" "used l' = used l1 - sum_list (map RQ_budget took)"
      using Cons.IH [OF S(3) [OF nf] q1 fr 4(4) d1] by blast
    ultimately show ?thesis by (intro exI [of _ "rq # took"]) (simp add: diff_diff_eq)
  qed
qed

lemma deferred_simps:
  "W_deferred (L_writer (reset_buffer l)) = W_deferred (L_writer l)" "W_deferred (L_writer (note_write l)) = W_deferred (L_writer l)"
  "W_deferred (L_writer (note_sync l)) = W_deferred (L_writer l)"
  "L_writer (foldl (\<lambda>l (w :: pendingRecord). writer_complete (PD_request w) (Inr (PD_result w)) l) l ws) = L_writer l"
  "L_writer (foldl (\<lambda>l (w :: pendingRecord). writer_complete (PD_request w) (Inl f) l) l ws) = L_writer l"
  using foldl_complete(2) [where f = "\<lambda>w. Inr (PD_result w)" and l = l and ws = ws]
    foldl_complete(2) [where f = "\<lambda>w. Inl f" and l = l and ws = ws]
  by (simp_all add: reset_buffer_def note_write_def note_sync_def Let_def)

lemma flush_deferred: "writer_flush env l = (e, l') \<Longrightarrow> W_deferred (L_writer l') = W_deferred (L_writer l)"
  by (auto simp: writer_flush_def Let_def deferred_simps split: prod.splits if_splits option.splits)

lemma poison_deferred: "writer_poison c l = (f, l') \<Longrightarrow> W_deferred (L_writer l') = W_deferred (L_writer l)"
  by (auto simp: writer_poison_def Let_def clear_pending_def setTerminal_def deferred_simps split: prod.splits option.splits)

lemma turn_used:
  assumes live: "live l" and q: "queue_ok l (deferred_list l @ queue)" and step: "writer_turn port env queue l = (None, queue', l')"
  shows "\<exists>took. deferred_list l @ queue = took @ deferred_list l' @ queue' \<and> used l' = used l - sum_list (map RQ_budget took)"
proof (cases "deferred_list l @ queue")
  case Nil
  then have "l' = l" "queue' = queue" using step by (auto simp: writer_turn_def deferred_list_def split: option.splits)
  then show ?thesis using Nil by simp
next
  case (Cons rq rest)
  define l1 where "l1 = l\<lparr>L_writer := (L_writer l)\<lparr>W_deferred := None\<rparr>\<rparr>"
  have l1: "live l1" "W_deferred (L_writer l1) = None" "used l1 = used l" "W_fault (L_writer l1) = None"
    using live live_progress(4) [OF live] by (simp_all add: l1_def live_deferred used_def)
  have l1_id: "l1 = l" if "W_deferred (L_writer l) = None" using that by (simp add: l1_def)
  have q1: "queue_ok l1 (rq # rest)" using q Cons by (simp add: queue_ok_def rq_ok_def l1_def)
  have sel: "(case W_deferred (L_writer l) of
              Some rq \<Rightarrow> Some (rq, queue, l\<lparr>L_writer := (L_writer l)\<lparr>W_deferred := None\<rparr>\<rparr>)
            | None \<Rightarrow> (case queue of [] \<Rightarrow> None | rq # rest \<Rightarrow> Some (rq, rest, l))) = Some (rq, rest, l1)"
    using Cons l1_id by (auto simp: deferred_list_def l1_def split: option.splits)
  have ns: "\<not> RQ_stop rq" using step by (auto simp: writer_turn_def sel split: prod.splits)
  note L = live_progress [OF l1(1)]
  obtain staged l2 where stage: "writer_stage port env rq l1 = (staged, l2)" by fastforce
  have rq: "rq_ok l1 rq" "fresh l1 rq" using q1 ns L(5) by (auto simp: queue_ok_def)
  note S = stage_progress [OF L(1) rq disjI1 [OF L(2)] stage]
  have u2: "used l2 = used l - RQ_budget rq"
    using L(1) stage_used [OF _ rq disjI1 [OF L(2)] stage] l1(3) by (auto simp: progress_def)
  have d2: "W_deferred (L_writer l2) = None" using S(1) l1(2) by (simp add: log_same_def)
  show ?thesis
  proof (cases staged)
    case False
    then have "l' = l2" "queue' = rest" using step stage ns l1(4) by (simp_all add: writer_turn_def sel)
    then show ?thesis using Cons u2 d2 by (intro exI [of _ "[rq]"]) (simp add: deferred_list_def)
  next
    case True
    have nf: "W_fault (L_writer l2) = None" using S(5) True by blast
    have ne: "RQ_id x \<noteq> RQ_id rq" "fresh l1 x" if "x \<in> set rest" for x
      using q1 that L(5) by (auto simp: queue_ok_def image_iff)
    have fr: "\<forall>x \<in> set rest. fresh l2 x" using S(4) [OF nf] ne by blast
    have q2: "queue_ok l2 rest"
      using q1 S(1) fr by (auto simp: queue_ok_def rq_ok_def log_same_def fresh_def)
    obtain queue2 l3 where fill: "writer_fill port env rest l2 = (queue2, l3)" by fastforce
    obtain e l4 where flush: "writer_flush env l3 = (e, l4)" by fastforce
    obtain took where t: "rest = took @ deferred_list l3 @ queue2" "used l3 = used l2 - sum_list (map RQ_budget took)"
      using fill_used [OF S(3) [OF nf] q2 fr fill d2] by auto
    have l': "queue' = queue2" "l' = (case e of None \<Rightarrow> l4 | Some c \<Rightarrow> snd (writer_poison c l4))"
      using step stage ns l1(4) True fill flush by (auto simp: writer_turn_def sel split: option.splits)
    have "used l' = used l3" using l'(2) flush_used [OF flush] by (cases e) (simp_all add: poison_used [OF surjective_pairing])
    moreover have "deferred_list l' = deferred_list l3"
      using l'(2) flush_deferred [OF flush] by (cases e) (simp_all add: deferred_list_def poison_deferred [OF surjective_pairing])
    ultimately show ?thesis
      using Cons t u2 l'(1) by (intro exI [of _ "rq # took"]) (simp add: diff_diff_eq)
  qed
qed

section \<open>Progress\<close>

definition calm :: "env \<Rightarrow> bool" where
  "calm env \<longleftrightarrow> (\<forall>p. hitSegmentFault env p = None \<and> E_os env p = None)"

definition patient :: "log_context \<Rightarrow> bool" where
  "patient ctx \<longleftrightarrow> X_entry ctx = None \<and> X_enqueue ctx = None \<and> X_stage ctx = None"

lemma sizeTag_physical: "PhysicalRecordSize n = Inr sz \<Longrightarrow> \<exists>tag. sizeTag sz = Inr tag"
  using PhysicalRecordSize_Inr(4,5) [of n sz] by (auto simp: sizeTag_eq not_less)

lemma stage_succeeds:
  assumes buf: "buffered l act older s rs" and rq: "rq_ok l rq" "RQ_ctx rq = None" "W_pending (L_writer l) = []"
    and room: "RQ_physical rq \<le> remainingLocked s"
  shows "\<exists>l'. writer_stage port env rq l = (True, l')"
proof -
  have b: "active_object l = s" "active_ok s rs" "SH_SegmentID (AS_header s) = act" "W_bytes (L_writer l) = 0"
    using buf rq(3) by (simp_all add: buffered_def active_at_def active_object_def Let_def)
  note E = active_ok_end [OF b(2)]
  obtain hdr where "EncodeSegmentHeader (AS_header s) = Inr hdr" using b(2) by (auto simp: active_ok_def)
  then have act: "act \<noteq> 0" using EncodeSegmentHeader_facts(3) b(3) by blast
  have ph: "PhysicalRecordSize (length (RQ_payload rq)) = Inr (RQ_physical rq)" using rq by (simp add: rq_ok_def)
  obtain tag where tag: "sizeTag (RQ_physical rq) = Inr tag" using sizeTag_physical [OF ph] by blast
  have "8 dvd unat (AS_end s)"
    using frames_aligned [OF active_ok_placed(1) [OF b(2)]] by (simp add: E(1) dvd_eq_mod_eq_0 mod_add_eq [symmetric])
  then have al: "AS_end s AND 7 = 0" by (simp add: aligned_iff)
  have "64 \<le> AS_end s" by (simp add: word_le_nat_alt E(1))
  then obtain addr where addr: "NewVAddr act (AS_end s) (RQ_physical rq) = Inr addr"
    using act al tag by (auto simp: NewVAddr_eq_Inr)
  note A = NewVAddr_fields [OF addr]
  obtain enc where enc: "EncodeRecordTo (unat (RQ_physical rq)) addr (RQ_payload rq) = Inr enc"
    using ph A(3,4) by (simp add: EncodeRecordTo_def Let_def)
  then have er: "EncodeRecord addr (RQ_payload rq) = Inr enc" using ph by (simp add: EncodeRecord_def)
  let ?r = "(addr, RQ_payload rq)"
  have f: "frame ?r = enc" using er by (simp add: frame_def)
  have len: "length enc = unat (RQ_physical rq)" using DecodeRecordHeader_Encode(2) [OF er ph] by simp
  have "unat (AS_end s) + unat (RQ_physical rq) \<le> MaxUint32"
    using room E(1,2) seg_limit_bound [of "AS_header s"] active_ok_placed(2) [OF b(2)] by (simp add: word_le_nat_alt)
  then have "NewAppendResult addr (RH_PhysicalSize (rec_header ?r)) = Inr (rec_result ?r)"
    using NewAppendResult_rec [of ?r] er f A(2) len by simp
  moreover have "RH_PhysicalSize (rec_header ?r) = RQ_physical rq" by (simp add: rec_header_def f len)
  ultimately have res: "NewAppendResult addr (RQ_physical rq) = Inr (rec_result ?r)" by simp
  have ve: "SS_ValidEnd (summaryLocked s) + W_bytes (L_writer l) = AS_end s" by (simp add: summaryLocked_def b(4))
  show ?thesis
    using rq(2) room b(1,3) ve addr res enc by (simp add: writer_stage_def stage_rotate_def Let_def)
qed

lemma flush_succeeds:
  assumes buf: "buffered l act older s rs" and "calm env"
  shows "fst (writer_flush env l) = None"
proof (rule ccontr)
  assume a: "fst (writer_flush env l) \<noteq> None"
  let ?ps = "W_pending (L_writer l)" and ?new = "map pend_record (W_pending (L_writer l))"
  have ne: "?ps \<noteq> []" using a by (auto simp: writer_flush_def Let_def)
  have b: "W_active (L_writer l) = act" "active_object l = s"
    "map (\<lambda>p. \<lparr>RE_Result = PD_result p, RE_Size = PD_size p\<rparr>) ?ps = map extent ?new" "W_encoded (L_writer l) = frames ?new"
    "placed act (64 + length (frames rs)) ?new" "64 + length (frames (rs @ ?new)) \<le> seg_limit (AS_header s)" "active_ok s rs"
    "SH_SegmentID (AS_header s) = act"
    using buf by (simp_all add: buffered_def active_at_def active_object_def Let_def)
  obtain s1 where ap: "appendEncoded env s (frames ?new) (map extent ?new) = (length (frames ?new), None, s1)" "active_ok s1 (rs @ ?new)"
    using appendEncoded_ok [of s rs ?new env] b ne assms(2) by (auto simp: calm_def)
  have sy: "fst (active_sync env s1) = None"
    using ap(2) assms(2) by (auto simp: active_sync_def active_ok_def calm_def file_Sync_def)
  note fl = a [unfolded writer_flush_def Let_def b(1,2,4) b(3)]
  show False using fl ne sy by (auto simp: ap(1) split: prod.splits option.splits if_splits simp del: map_map)
qed

lemma append_succeeds:
  assumes ok: "log_ok l" "live l" "\<not> L_closing l" and calm: "calm env" "patient ctx"
    and size: "length p \<le> unat (L_maxPayloadBytes l)" "PhysicalRecordSize (length p) = Inr physical"
    and budget: "\<not> BB_closed (L_budget l)" "ucast physical \<le> BB_limit (L_budget l)" "ucast physical \<le> BB_limit (L_budget l) - BB_used (L_budget l)"
    and room: "physical \<le> remainingLocked (active_object l)"
  shows "\<exists>r l'. Log_Append port env ctx l p sync = (Inr r, l') \<and> live l' \<and> log_contents l' = log_contents l @ [(AR_Addr r, p)]"
proof -
  note L = live_progress [OF ok(2)]
  define rq where "rq = \<lparr>RQ_id = L_nextRequest l, RQ_ctx = X_stage ctx, RQ_payload = p, RQ_physical = physical,
      RQ_sync = sync, RQ_budget = ucast physical, RQ_stop = False, RQ_reserved = False\<rparr>"
  define l1 where "l1 = l\<lparr>L_budget := (L_budget l)\<lparr>BB_used := BB_used (L_budget l) + ucast physical\<rparr>, L_nextRequest := Suc (L_nextRequest l)\<rparr>"
  have sub: "log_submit ctx l p sync = (Inr rq, l1)"
    using calm(2) size budget ok(3) L(3)
    by (simp add: log_submit_def patient_def Let_def budget_acquire_def rq_def l1_def not_less split: option.splits)
  have sp: "spent l l1" using spent_intros(3) [of l] by (simp add: l1_def)
  note V = spent_view [OF sp]
  obtain act older s rs where b: "buffered l1 act older s rs" using V(1) ok(2) by (auto simp: live_def)
  have obj: "active_object l1 = active_object l" by (simp add: active_object_def l1_def)
  have os: "active_object l1 = s" using b by (simp add: buffered_def active_at_def active_object_def Let_def)
  have d: "W_deferred (L_writer l1) = None" "W_pending (L_writer l1) = []" "W_fault (L_writer l1) = None"
    using ok(1) L(2,4) V(11) by (simp_all add: log_ok_def)
  have rq: "rq_ok l1 rq" "RQ_ctx rq = None" "\<not> RQ_stop rq"
    using size calm(2) by (simp_all add: rq_ok_def rq_def l1_def patient_def)
  obtain l2 where st: "writer_stage port env rq l1 = (True, l2)"
    using stage_succeeds [OF b rq(1,2) d(2)] room obj os by (auto simp: rq_def)
  have below: "\<forall>x \<in> set (L_responses l). fst x < L_nextRequest l" using ok(1) by (simp add: log_ok_def)
  have fr: "fresh l1 rq" using answer_below [OF below, of rq] V(6) d(2) by (simp add: fresh_def rq_def)
  obtain l3 e where fl: "writer_flush env l2 = (e, l3)" by fastforce
  note S = stage_progress [OF live_progress(1) [OF V(1) [THEN iffD2, OF ok(2)]] rq(1) fr disjI1 [OF d(2)] st]
  have "progress l2 (log_contents l1) (log_durable l1) ([] @ [rq])" using S(3) S(5) by blast
  then obtain act' older' s' rs' where b2: "buffered l2 act' older' s' rs'" by (auto simp: progress_def)
  have none: "e = None" using flush_succeeds [OF b2 calm(1)] fl by simp
  then have turn: "writer_turn port env [rq] l1 = (None, [], l3)"
    using d st fl rq(3) by (simp add: writer_turn_def)
  have b3: "live l3"
  proof (cases "W_pending (L_writer l2) = []")
    case True
    then show ?thesis using fl b2 by (auto simp: writer_flush_def live_def quiet_def)
  next
    case False
    then show ?thesis using writer_flush_view(2) [OF b2 refl False fl none] by (auto simp: live_def)
  qed
  have app: "Log_Append port env ctx l p sync = (the (answer l3 rq), l3)"
    by (simp add: Log_Append_def sub turn answer_def)
  note F = append_facts [OF ok(1) app]
  have t3: "L_terminal l3 = None" using live_progress(3) [OF b3] .
  show ?thesis
  proof (cases "the (answer l3 rq)")
    case (Inr r)
    then show ?thesis using app F(4) [OF Inr t3] b3 by auto
  next
    case (Inl x)
    obtain q where q: "W_pending (L_writer l2) = [q]" "RQ_id (PD_request q) = RQ_id rq"
      using b rq(1) fr disjI1 [OF d(2)] st by (cases rule: writer_stage_view) (use d(2) in auto)
    have "answer l3 (PD_request q) = Some (Inr (PD_result q))"
      using writer_flush_view(2) [OF b2 q(1) _ fl none] by simp
    then show ?thesis using Inl answer_id [OF q(2), of l3] by simp
  qed
qed

section \<open>Properties of the record log\<close>

definition example_config :: LogConfig where
  "example_config = \<lparr>CF_MaxQueuedBytes = 4096, CF_QueueCapacity = 8, CF_BufferBytes = 1024, CF_BufferRecords = 4\<rparr>"

definition example_context :: log_context where
  "example_context = \<lparr>X_entry = None, X_wait = ErrContext, X_enqueue = None, X_stage = None\<rparr>"

lemma example_log:
  "\<exists>l :: unit Log. log_ok l \<and> live l \<and> log_contents l = [] \<and> \<not> L_closing l \<and> L_maxPayloadBytes l = 64 \<and>
    L_budget l = newByteBudget 4096 \<and> L_nextRequest l = 0 \<and> L_responses l = [] \<and> W_deferred (L_writer l) = None \<and>
    remainingLocked (active_object l) = 3968"
proof -
  obtain r where r: "newSegmentRegistry example_segment [] = Inr r"
    by (simp add: newSegmentRegistry_def example_segment_def example_header_def)
  have rr: "r = \<lparr>R_entries = [(1, active_entry)], R_active = 1, R_closed = False, R_objs = [1 \<mapsto> example_segment]\<rparr>"
    using r by (simp add: newSegmentRegistry_def example_segment_def example_header_def)
  have "PhysicalRecordSize (unat (64 :: u32)) = Inr 96" by (simp add: PhysicalRecordSize_def)
  then have "\<exists>l :: unit Log. newLog example_config 64 example_segment r False () = Inr l"
    by (simp add: newLog_def Let_def LogConfig_validate_def example_config_def rr entry_of_def active_entry_def example_segment_def example_header_def)
  then obtain l :: "unit Log" where l: "newLog example_config 64 example_segment r False () = Inr l" ..
  have "opened_ok example_segment [] []"
    using example_segment_ok
    by (simp add: opened_ok_def) (simp add: example_segment_def example_header_def IsCompactionSegment_def CompactionSegmentBase_def word_le_nat_alt)
  note N = newLog_ok [OF this r l]
  have "log_contents l = []" using N(3) by (simp add: sealed_records_def)
  moreover have "\<not> L_closing l \<and> L_maxPayloadBytes l = 64 \<and> L_budget l = newByteBudget 4096 \<and> L_nextRequest l = 0 \<and> L_responses l = [] \<and>
      W_deferred (L_writer l) = None \<and> active_object l = example_segment"
    using l by (auto simp: newLog_def Let_def example_config_def active_object_def rr example_segment_def example_header_def split: if_splits)
  moreover have "remainingLocked example_segment = 3968"
    by (simp add: remainingLocked_def example_segment_def example_header_def)
  ultimately show ?thesis using N(1,2) by auto
qed

lemma no_faults_calm: "calm no_faults"
  by (simp add: calm_def no_faults_def hitSegmentFault_def)

lemma example_append:
  assumes "length p \<le> 32"
  shows "\<exists>l r l'. log_ok (l :: unit Log) \<and> live l \<and> log_contents l = [] \<and>
    Log_Append port no_faults example_context l p sync = (Inr r, l') \<and> log_contents l' = [(AR_Addr r, p)]"
proof -
  obtain l :: "unit Log" where l: "log_ok l" "live l" "log_contents l = []" "\<not> L_closing l" "L_maxPayloadBytes l = 64"
      "L_budget l = newByteBudget 4096" "remainingLocked (active_object l) = 3968"
    using example_log by blast
  obtain ph where ph: "PhysicalRecordSize (length p) = Inr ph" using PhysicalRecordSize_total [of "length p"] assms by auto
  have b: "unat ph < 72" using PhysicalRecordSize_Inr(3) [OF ph] assms by simp
  then have "unat (ucast ph :: u64) < 72" by (simp add: unat_ucast)
  then have "(ucast ph :: u64) \<le> 4096" "ph \<le> 3968" using b by (simp_all add: word_le_nat_alt)
  then show ?thesis
    using append_succeeds [OF l(1,2,4) no_faults_calm, of example_context p ph port sync] l ph assms
    by (auto simp: patient_def example_context_def newByteBudget_def)
qed




definition example_request :: appendRequest where
  "example_request = \<lparr>RQ_id = 0, RQ_ctx = None, RQ_payload = [7], RQ_physical = 40, RQ_sync = True, RQ_budget = 40,
     RQ_stop = False, RQ_reserved = False\<rparr>"

lemma example_turn:
  "\<exists>l queue' l'. live (l :: unit Log) \<and> queue_ok l (deferred_list l @ [example_request]) \<and> deferred_list l = [] \<and>
    BB_used (L_budget l) = 40 \<and> writer_turn port no_faults [example_request] l = (None, queue', l')"
proof -
  obtain l :: "unit Log" where l: "live l" "L_maxPayloadBytes l = 64" "L_responses l = []" "W_deferred (L_writer l) = None" "L_nextRequest l = 0"
    using example_log by blast
  define k where "k = l\<lparr>L_budget := \<lparr>BB_limit = 4096, BB_used = 40, BB_closed = False\<rparr>, L_nextRequest := Suc (L_nextRequest l)\<rparr>"
  note V = spent_view [OF spent_intros(3) [of l "\<lparr>BB_limit = 4096, BB_used = 40, BB_closed = False\<rparr>"], folded k_def]
  have d: "deferred_list k = []" "W_deferred (L_writer k) = None" using l(4) V(8,11) by (simp_all add: deferred_list_def)
  have "queue_ok k [example_request]"
    using l(2,3) by (simp add: queue_ok_def rq_ok_def example_request_def answer_def k_def PhysicalRecordSize_def)
  moreover obtain e q' k' where "writer_turn port no_faults [example_request] k = (e, q', k')" by (metis prod_cases3)
  moreover from this have "e = None" using writer_turn_goes_on [OF d(2), of example_request port no_faults] by (simp add: example_request_def)
  ultimately show ?thesis
    using V(1) l(1) d(1) by (intro exI [of _ k] exI [of _ q'] exI [of _ k']) (simp add: k_def)
qed






text \<open>
  C22: ids are never issued twice. From an empty log, over any sequence of allocations that succeed
  or fail, appends of other components and restarts that keep at least the durable records, the ids
  an allocator on the record log has issued are strictly increasing.
\<close>

theorem ids_unique_across_crashes:
  assumes "log_ok (LC_log k)" "log_contents (LC_log k) = []" "idalloc_New kind sz h0 = Inr a"
    "(id_step (client_append port) (\<lambda>k. log_contents (LC_log k)) (\<lambda>k. log_durable (LC_log k)) (\<lambda>k. log_poisoned (LC_log k))
       (\<lambda>k. log_ok (LC_log k)) kind sz h0)\<^sup>*\<^sup>* (a, k, []) (a', k', is)"
  shows "sorted_wrt (<) is"
  by (rule wal.ids_never_reissued(2) [OF wal.id_inv_init [OF assms(1-3)] assms(4)])

theorem ids_unique_across_crashes_witness:
  "\<forall>port :: unit CatalogPort. \<exists>a (k :: unit log_client) a' k' i. idalloc_New KindRecordID 16 1 = Inr a \<and> log_ok (LC_log k) \<and>
    (id_step (client_append port) (\<lambda>k. log_contents (LC_log k)) (\<lambda>k. log_durable (LC_log k)) (\<lambda>k. log_poisoned (LC_log k))
       (\<lambda>k. log_ok (LC_log k)) KindRecordID 16 1)\<^sup>*\<^sup>* (a, k, []) (a', k', [i]) \<and> sorted_wrt (<) [i]"
    (is "\<forall>port. ?P port")
proof (rule allI)
  fix port :: "unit CatalogPort"
  define a where "a = \<lparr>AL_kind = KindRecordID, AL_reserve = 16, AL_next = 1, AL_high = (1 :: u64)\<rparr>"
  have a: "idalloc_New KindRecordID 16 1 = Inr a" by (simp add: idalloc_New_def validKind_def a_def)
  obtain p where p: "EncodeReserve (kind_recordType KindRecordID) \<lparr>RR_HighExclusive = 17\<rparr> = Inr p" "length p = 32"
    by (auto simp: EncodeReserve_def kind_recordType_def)
  obtain l :: "unit Log" and r l' where l: "log_ok l" "log_contents l = []" "Log_Append port no_faults example_context l p True = (Inr r, l')"
    using example_append [of p port True] p(2) by auto
  define k where "k = \<lparr>LC_log = l, LC_faults = \<lambda>_. no_faults, LC_contexts = \<lambda>_. example_context, LC_tick = 0\<rparr>"
  obtain k' where k': "client_append port k p True = (Inr r, k')" using l(3) by (simp add: client_append_def k_def)
  have al: "Allocate (client_append port) None a k = (Inr 1, a\<lparr>AL_next := 2, AL_high := 17\<rparr>, k')"
    using p(1) k' by (simp add: Allocate_def reserveRange_def a_def)
  have run: "(id_step (client_append port) (\<lambda>k. log_contents (LC_log k)) (\<lambda>k. log_durable (LC_log k)) (\<lambda>k. log_poisoned (LC_log k))
       (\<lambda>k. log_ok (LC_log k)) KindRecordID 16 1)\<^sup>*\<^sup>* (a, k, []) (a\<lparr>AL_next := 2, AL_high := 17\<rparr>, k', [] @ [1])"
    by (rule r_into_rtranclp, rule id_step.issued [OF al])
  have ok: "log_ok (LC_log k)" "log_contents (LC_log k) = []" using l by (simp_all add: k_def)
  show "?P port" using ids_unique_across_crashes [OF ok a run] a ok(1) run by auto
qed

end
