(* ===== verification/Batch_Txn.thy ===== *)
theory Batch_Txn
  imports Id_Allocator Index_Interface
begin

text \<open>
  User transactions (\<^verbatim>\<open>internal/transaction/batch.go\<close>): a batch appends the values it puts to the log
  at once and collects the resulting references, its deletions and its conditions until it is
  prepared for commit. The Go maps are association lists; their iteration order is visible in no
  result that the rest of the system uses, because \<^verbatim>\<open>Prepare\<close> sorts. A batch reaches the log and the
  id allocator through the interfaces \<^verbatim>\<open>Appender\<close> and \<^verbatim>\<open>IDAllocator\<close>: the operations that use them
  take and return the state of both. A context is the error it reports, if any; a nil context
  reports none.

  The lemmas show that every operation keeps a batch well formed and within its limits, that a
  prepared batch is a proposal the mapping accepts as valid, that every put it carries is in the
  log under the batch and the record id, and that a batch leaves its terminal state by no operation.
\<close>

section \<open>Data\<close>

datatype txn_State = StateOpen | StateCommitting | StateCommitted | StateAborted | StateCommitUnknown | StateFailed

record Limits =
  LM_MaxValueSize :: u64
  LM_MaxBatchBytes :: u64
  LM_MaxBatchMutations :: u64
  LM_MaxBatchConditions :: u64

record txn_Mutation =
  TM_RecordID :: record_id
  TM_Operation :: Mapping_Index.Operation
  TM_Ref :: RecordRef
  TM_ValueBytes :: u64

record Prepared =
  PP_BatchID :: BatchID
  PP_Mutations :: "txn_Mutation list"
  PP_Conditions :: "Condition list"
  PP_LogicalPayloadBytes :: u64

record Batch =
  B_id :: BatchID
  B_state :: txn_State
  B_limits :: Limits
  B_mutations :: "(record_id \<times> txn_Mutation) list"
  B_conditions :: "(record_id \<times> Condition) list"
  B_appendedBytes :: u64
  B_commitSeq :: CommitSeq

definition mutation_change :: "txn_Mutation \<Rightarrow> Change" where
  "mutation_change m = \<lparr>CH_RecordID = TM_RecordID m, CH_NewRef = TM_Ref m, CH_ExpectedOldAddr = 0, CH_Operation = TM_Operation m\<rparr>"

definition Prepared_Proposal :: "Prepared \<Rightarrow> Proposal" where
  "Prepared_Proposal p =
     \<lparr>PR_Kind = ProposalUserCommit, PR_Conditions = PP_Conditions p, PR_Changes = map mutation_change (PP_Mutations p)\<rparr>"

definition ValidateLimits :: "Limits \<Rightarrow> err option" where
  "ValidateLimits limits =
     (if LM_MaxValueSize limits = 0 \<or> LM_MaxBatchBytes limits = 0 \<or> LM_MaxBatchMutations limits = 0 \<or>
         LM_MaxBatchConditions limits = 0 \<or> LM_MaxValueSize limits > LM_MaxBatchBytes limits \<or>
         unat (LM_MaxBatchMutations limits) > MaxUint32 \<or> unat (LM_MaxBatchConditions limits) > MaxUint32
      then Some base_ErrInvalidConfig else None)"

definition transaction_New :: "BatchID \<Rightarrow> Limits \<Rightarrow> Batch res" where
  "transaction_New i limits =
     (if i = 0 \<or> ValidateLimits limits \<noteq> None then Inl base_ErrInvalidConfig
      else Inr \<lparr>B_id = i, B_state = StateOpen, B_limits = limits, B_mutations = [], B_conditions = [],
                B_appendedBytes = 0, B_commitSeq = 0\<rparr>)"

section \<open>State and checks\<close>

definition stateError :: "Batch \<Rightarrow> err option" where
  "stateError b =
     (if B_state b = StateFailed then Some base_ErrBatchFailed
      else if B_state b = StateOpen then None else Some base_ErrBatchClosed)"

definition requireOpen :: "Batch \<Rightarrow> err option" where
  "requireOpen b = (if B_state b = StateOpen then None else stateError b)"

definition Batch_State :: "Batch \<Rightarrow> txn_State \<times> CommitSeq" where
  "Batch_State b = (B_state b, B_commitSeq b)"

definition CheckOpen :: "Batch \<Rightarrow> err option" where
  "CheckOpen b = requireOpen b"

definition clearLocked :: "Batch \<Rightarrow> Batch" where
  "clearLocked b = b\<lparr>B_mutations := [], B_conditions := []\<rparr>"

definition validatePut :: "Batch \<Rightarrow> record_id \<Rightarrow> bytes \<Rightarrow> bool \<Rightarrow> err option" where
  "validatePut b i value pendingID =
     (if \<not> pendingID \<and> i = 0 then Some base_ErrInvalidID
      else if length value > unat (LM_MaxValueSize (B_limits b)) then Some base_ErrValueTooLarge
      else if map_of (B_mutations b) i = None \<and> length (B_mutations b) = unat (LM_MaxBatchMutations (B_limits b))
      then Some base_ErrBatchTooLarge
      else if length value > MaxUint64 - unat (B_appendedBytes b) \<or>
              unat (B_appendedBytes b + word_of_nat (length value)) > unat (LM_MaxBatchBytes (B_limits b))
      then Some base_ErrBatchTooLarge
      else None)"

definition validateCondition :: "Batch \<Rightarrow> Condition \<Rightarrow> err option \<times> Batch" where
  \<comment> \<open>two different conditions on one id fail the batch\<close>
  "validateCondition b c =
     (if CO_RecordID c = 0 then (Some base_ErrInvalidID, b)
      else if CO_ExpectedAddr c \<noteq> 0 \<and> \<not> VAddr_Valid (CO_ExpectedAddr c) then (Some base_ErrInvalidAddress, b)
      else case map_of (B_conditions b) (CO_RecordID c) of
        Some old \<Rightarrow> if old = c then (None, b) else (Some base_ErrBatchFailed, b\<lparr>B_state := StateFailed\<rparr>)
      | None \<Rightarrow>
          if length (B_conditions b) = unat (LM_MaxBatchConditions (B_limits b)) then (Some base_ErrBatchTooLarge, b)
          else (None, b))"

definition set_condition :: "Condition \<Rightarrow> Batch \<Rightarrow> Batch" where
  "set_condition c b = b\<lparr>B_conditions := AList.update (CO_RecordID c) c (B_conditions b)\<rparr>"

definition set_mutation :: "txn_Mutation \<Rightarrow> Batch \<Rightarrow> Batch" where
  "set_mutation m b = b\<lparr>B_mutations := AList.update (TM_RecordID m) m (B_mutations b)\<rparr>"

section \<open>Operations\<close>

definition allocateLocked ::
  "'l append_fun \<Rightarrow> ctx \<Rightarrow> Batch \<Rightarrow> Allocator \<Rightarrow> 'l \<Rightarrow> record_id res \<times> Batch \<times> Allocator \<times> 'l" where
  "allocateLocked log_append ctx b a l =
     (case ctx of Some e \<Rightarrow> (Inl e, b, a, l)
      | None \<Rightarrow>
          (case Allocate log_append ctx a l of
             (Inl e, a', l') \<Rightarrow> (Inl e, b, a', l')
           | (Inr raw, a', l') \<Rightarrow>
               if raw = 0 then (Inl base_ErrInvalidID, b\<lparr>B_state := StateFailed\<rparr>, a', l') else (Inr raw, b, a', l')))"

definition putLocked ::
  "'l append_fun \<Rightarrow> ctx \<Rightarrow> record_id \<Rightarrow> bytes \<Rightarrow> Batch \<Rightarrow> Allocator \<Rightarrow> 'l \<Rightarrow> err option \<times> Batch \<times> 'l" where
  "putLocked log_append ctx i value b a l =
     (case validatePut b i value False of Some e \<Rightarrow> (Some e, b, l)
      | None \<Rightarrow>
          if \<not> CanUse a i then (Some base_ErrInvalidID, b, l)
          else case ctx of Some e \<Rightarrow> (Some e, b, l)
          | None \<Rightarrow>
              case EncodePut \<lparr>P_OriginBatchID = B_id b, P_RecordID = i, P_Value = value\<rparr> (LM_MaxValueSize (B_limits b)) of
                Inl e \<Rightarrow> (Some e, b, l)
              | Inr payload \<Rightarrow>
                  (case log_append l payload False of
                     (Inl e, l') \<Rightarrow> (Some e, b\<lparr>B_state := StateFailed\<rparr>, l')
                   | (Inr result, l') \<Rightarrow>
                       (case AppendResult_Ref result of
                          Inl _ \<Rightarrow> (Some base_ErrCorrupt, b\<lparr>B_state := StateFailed\<rparr>, l')
                        | Inr ref \<Rightarrow>
                            (None, set_mutation \<lparr>TM_RecordID = i, TM_Operation = mapping_OperationPut, TM_Ref = ref,
                                TM_ValueBytes = word_of_nat (length value)\<rparr>
                              (b\<lparr>B_appendedBytes := B_appendedBytes b + word_of_nat (length value)\<rparr>), l'))))"

definition deleteLocked :: "record_id \<Rightarrow> Batch \<Rightarrow> err option \<times> Batch" where
  "deleteLocked i b =
     (if i = 0 then (Some base_ErrInvalidID, b)
      else if map_of (B_mutations b) i = None \<and> length (B_mutations b) = unat (LM_MaxBatchMutations (B_limits b))
      then (Some base_ErrBatchTooLarge, b)
      else (None, set_mutation \<lparr>TM_RecordID = i, TM_Operation = mapping_OperationDelete, TM_Ref = zero_ref, TM_ValueBytes = 0\<rparr> b))"

definition Batch_Allocate ::
  "'l append_fun \<Rightarrow> ctx \<Rightarrow> Batch \<Rightarrow> Allocator \<Rightarrow> 'l \<Rightarrow> record_id res \<times> Batch \<times> Allocator \<times> 'l" where
  "Batch_Allocate log_append ctx b a l =
     (case requireOpen b of Some e \<Rightarrow> (Inl e, b, a, l) | None \<Rightarrow> allocateLocked log_append ctx b a l)"

text \<open>
  \<^verbatim>\<open>Create\<close> returns the id together with the error when the put fails. The context may be cancelled
  between the allocation and the put.
\<close>

definition Batch_Create ::
  "'l append_fun \<Rightarrow> ctx \<Rightarrow> ctx \<Rightarrow> bytes \<Rightarrow> Batch \<Rightarrow> Allocator \<Rightarrow> 'l \<Rightarrow>
    (record_id \<times> err option) \<times> Batch \<times> Allocator \<times> 'l" where
  "Batch_Create log_append ctx ctx' value b a l =
     (case requireOpen b of Some e \<Rightarrow> ((0, Some e), b, a, l)
      | None \<Rightarrow>
          case validatePut b 0 value True of Some e \<Rightarrow> ((0, Some e), b, a, l)
          | None \<Rightarrow>
              (case allocateLocked log_append ctx b a l of
                 (Inl e, b1, a1, l1) \<Rightarrow> ((0, Some e), b1, a1, l1)
               | (Inr i, b1, a1, l1) \<Rightarrow>
                   let (e, b2, l2) = putLocked log_append ctx' i value b1 a1 l1 in ((i, e), b2, a1, l2)))"

definition Batch_Put ::
  "'l append_fun \<Rightarrow> ctx \<Rightarrow> record_id \<Rightarrow> bytes \<Rightarrow> Batch \<Rightarrow> Allocator \<Rightarrow> 'l \<Rightarrow> err option \<times> Batch \<times> 'l" where
  "Batch_Put log_append ctx i value b a l =
     (case requireOpen b of Some e \<Rightarrow> (Some e, b, l) | None \<Rightarrow> putLocked log_append ctx i value b a l)"

definition CompareAndPut ::
  "'l append_fun \<Rightarrow> ctx \<Rightarrow> record_id \<Rightarrow> VAddr \<Rightarrow> bytes \<Rightarrow> Batch \<Rightarrow> Allocator \<Rightarrow> 'l \<Rightarrow> err option \<times> Batch \<times> 'l" where
  "CompareAndPut log_append ctx i expected value b a l =
     (case requireOpen b of Some e \<Rightarrow> (Some e, b, l)
      | None \<Rightarrow>
          let condition = \<lparr>CO_RecordID = i, CO_ExpectedAddr = expected\<rparr> in
          (case validateCondition b condition of
             (Some e, b1) \<Rightarrow> (Some e, b1, l)
           | (None, b1) \<Rightarrow>
               (case putLocked log_append ctx i value b1 a l of
                  (Some e, b2, l2) \<Rightarrow> (Some e, b2, l2)
                | (None, b2, l2) \<Rightarrow> (None, set_condition condition b2, l2))))"

definition Batch_Delete :: "record_id \<Rightarrow> Batch \<Rightarrow> err option \<times> Batch" where
  "Batch_Delete i b = (case requireOpen b of Some e \<Rightarrow> (Some e, b) | None \<Rightarrow> deleteLocked i b)"

definition CompareAndDelete :: "record_id \<Rightarrow> VAddr \<Rightarrow> Batch \<Rightarrow> err option \<times> Batch" where
  "CompareAndDelete i expected b =
     (case requireOpen b of Some e \<Rightarrow> (Some e, b)
      | None \<Rightarrow>
          let condition = \<lparr>CO_RecordID = i, CO_ExpectedAddr = expected\<rparr> in
          (case validateCondition b condition of
             (Some e, b1) \<Rightarrow> (Some e, b1)
           | (None, b1) \<Rightarrow>
               (case deleteLocked i b1 of
                  (Some e, b2) \<Rightarrow> (Some e, b2)
                | (None, b2) \<Rightarrow> (None, set_condition condition b2))))"

definition addCondition :: "Condition \<Rightarrow> Batch \<Rightarrow> err option \<times> Batch" where
  "addCondition c b =
     (case requireOpen b of Some e \<Rightarrow> (Some e, b)
      | None \<Rightarrow> (case validateCondition b c of (Some e, b1) \<Rightarrow> (Some e, b1) | (None, b1) \<Rightarrow> (None, set_condition c b1)))"

definition ExpectAddress :: "record_id \<Rightarrow> VAddr \<Rightarrow> Batch \<Rightarrow> err option \<times> Batch" where
  "ExpectAddress i addr b = addCondition \<lparr>CO_RecordID = i, CO_ExpectedAddr = addr\<rparr> b"

definition ExpectAbsent :: "record_id \<Rightarrow> Batch \<Rightarrow> err option \<times> Batch" where
  "ExpectAbsent i b = addCondition \<lparr>CO_RecordID = i, CO_ExpectedAddr = 0\<rparr> b"

definition MutationIDs :: "Batch \<Rightarrow> record_id list res" where
  "MutationIDs b = (case requireOpen b of Some e \<Rightarrow> Inl e | None \<Rightarrow> Inr (map fst (B_mutations b)))"

definition ReferencesSegment :: "Batch \<Rightarrow> SegmentID \<Rightarrow> bool" where
  "ReferencesSegment b segment =
     (if segment = 0 then False
      else list_ex (\<lambda>(_, m). TM_Operation m = mapping_OperationPut \<and> VAddr_SegmentID (Ref_Addr (TM_Ref m)) = segment)
        (B_mutations b))"

definition PendingPutRefs :: "Batch \<Rightarrow> RecordRef list" where
  "PendingPutRefs b =
     (if B_state b \<noteq> StateOpen \<and> B_state b \<noteq> StateCommitting then []
      else map TM_Ref (filter (\<lambda>m. TM_Operation m = mapping_OperationPut) (map snd (B_mutations b))))"

definition redirect_mutation :: "(VAddr \<times> RecordRef) list \<Rightarrow> txn_Mutation \<Rightarrow> txn_Mutation" where
  "redirect_mutation redirects m =
     (if TM_Operation m \<noteq> mapping_OperationPut then m
      else case map_of redirects (Ref_Addr (TM_Ref m)) of None \<Rightarrow> m | Some redirected \<Rightarrow> m\<lparr>TM_Ref := redirected\<rparr>)"

definition redirected :: "(VAddr \<times> RecordRef) list \<Rightarrow> txn_Mutation \<Rightarrow> bool" where
  "redirected redirects m \<longleftrightarrow>
     TM_Operation m = mapping_OperationPut \<and> map_of redirects (Ref_Addr (TM_Ref m)) \<noteq> None"

definition RewritePutRefs :: "(VAddr \<times> RecordRef) list \<Rightarrow> Batch \<Rightarrow> nat \<times> Batch" where
  "RewritePutRefs redirects b =
     (if redirects = [] \<or> B_state b \<noteq> StateOpen then (0, b)
      else (length (filter (\<lambda>(_, m). redirected redirects m) (B_mutations b)),
            b\<lparr>B_mutations := map (\<lambda>(i, m). (i, redirect_mutation redirects m)) (B_mutations b)\<rparr>))"

text \<open>The payload bytes of the puts, with the overflow check of the loop in \<^verbatim>\<open>Prepare\<close>.\<close>

fun payload_bytes :: "u64 \<Rightarrow> txn_Mutation list \<Rightarrow> u64 option" where
  "payload_bytes tot [] = Some tot"
| "payload_bytes tot (m # ms) =
     (if TM_Operation m = mapping_OperationPut then
        if tot > max_u64 - TM_ValueBytes m then None else payload_bytes (tot + TM_ValueBytes m) ms
      else payload_bytes tot ms)"

definition Batch_Prepare :: "Batch \<Rightarrow> Prepared res \<times> Batch" where
  "Batch_Prepare b =
     (case requireOpen b of Some e \<Rightarrow> (Inl e, b)
      | None \<Rightarrow>
          (case payload_bytes 0 (map snd (B_mutations b)) of
             None \<Rightarrow> (Inl base_ErrBatchTooLarge, b\<lparr>B_state := StateFailed\<rparr>)
           | Some bytes \<Rightarrow>
               (Inr \<lparr>PP_BatchID = B_id b, PP_Mutations = sort_key TM_RecordID (map snd (B_mutations b)),
                     PP_Conditions = sort_key CO_RecordID (map snd (B_conditions b)), PP_LogicalPayloadBytes = bytes\<rparr>,
                b\<lparr>B_state := StateCommitting\<rparr>)))"

definition Batch_Abort :: "'l append_fun \<Rightarrow> u32 \<Rightarrow> Batch \<Rightarrow> 'l \<Rightarrow> err option \<times> Batch \<times> 'l" where
  "Batch_Abort log_append reason b l =
     (if B_state b \<noteq> StateOpen \<and> B_state b \<noteq> StateFailed then (stateError b, b, l)
      else case EncodeAbort \<lparr>AB_BatchID = B_id b, AB_Reason = reason\<rparr> of
        Inl e \<Rightarrow> (Some e, b, l)
      | Inr payload \<Rightarrow>
          let b' = clearLocked (b\<lparr>B_state := StateAborted\<rparr>) in
          (case log_append l payload False of (Inl e, l') \<Rightarrow> (Some e, b', l') | (Inr _, l') \<Rightarrow> (None, b', l')))"

definition MarkCommitted :: "CommitSeq \<Rightarrow> Batch \<Rightarrow> err option \<times> Batch" where
  "MarkCommitted seq b =
     (if seq = 0 then (Some base_ErrInvalidConfig, b)
      else if B_state b \<noteq> StateCommitting then (stateError b, b)
      else (None, clearLocked (b\<lparr>B_state := StateCommitted, B_commitSeq := seq\<rparr>)))"

definition markTerminal :: "txn_State \<Rightarrow> Batch \<Rightarrow> err option \<times> Batch" where
  "markTerminal state b =
     (if B_state b \<noteq> StateCommitting then (stateError b, b) else (None, clearLocked (b\<lparr>B_state := state\<rparr>)))"

definition MarkAborted :: "Batch \<Rightarrow> err option \<times> Batch" where
  "MarkAborted b = markTerminal StateAborted b"

definition MarkCommitUnknown :: "Batch \<Rightarrow> err option \<times> Batch" where
  "MarkCommitUnknown b = markTerminal StateCommitUnknown b"

section \<open>Well-formed batches\<close>

definition mutation_wf :: "record_id \<times> txn_Mutation \<Rightarrow> bool" where
  "mutation_wf = (\<lambda>(i, m). TM_RecordID m = i \<and> i \<noteq> 0 \<and>
     (TM_Operation m = mapping_OperationPut \<and> RecordRef_Valid (TM_Ref m) \<or>
      TM_Operation m = mapping_OperationDelete \<and> TM_Ref m = zero_ref \<and> TM_ValueBytes m = 0))"

definition condition_wf :: "record_id \<times> Condition \<Rightarrow> bool" where
  "condition_wf = (\<lambda>(i, c). CO_RecordID c = i \<and> i \<noteq> 0 \<and> (CO_ExpectedAddr c = 0 \<or> VAddr_Valid (CO_ExpectedAddr c)))"

definition value_bytes :: "(record_id \<times> txn_Mutation) list \<Rightarrow> nat" where
  "value_bytes ms = sum_list (map (\<lambda>x. unat (TM_ValueBytes (snd x))) ms)"

definition batch_ok :: "Batch \<Rightarrow> bool" where
  "batch_ok b \<longleftrightarrow> B_id b \<noteq> 0 \<and> ValidateLimits (B_limits b) = None \<and>
     distinct (map fst (B_mutations b)) \<and> (\<forall>x \<in> set (B_mutations b). mutation_wf x) \<and>
     distinct (map fst (B_conditions b)) \<and> (\<forall>x \<in> set (B_conditions b). condition_wf x) \<and>
     length (B_mutations b) \<le> unat (LM_MaxBatchMutations (B_limits b)) \<and>
     length (B_conditions b) \<le> unat (LM_MaxBatchConditions (B_limits b)) \<and>
     value_bytes (B_mutations b) \<le> unat (B_appendedBytes b) \<and>
     unat (B_appendedBytes b) \<le> unat (LM_MaxBatchBytes (B_limits b)) \<and>
     (B_state b = StateCommitted \<longleftrightarrow> B_commitSeq b \<noteq> 0)"

lemma transaction_New_ok: "transaction_New i limits = Inr b \<Longrightarrow> batch_ok b \<and> B_state b = StateOpen"
  by (auto simp: transaction_New_def batch_ok_def value_bytes_def split: if_splits)

lemma batch_ok_state:
  "batch_ok b \<Longrightarrow> s \<noteq> StateCommitted \<Longrightarrow> B_commitSeq b = 0 \<Longrightarrow> batch_ok (b\<lparr>B_state := s\<rparr>)"
  by (simp add: batch_ok_def)

lemma batch_ok_open: "batch_ok b \<Longrightarrow> B_state b \<noteq> StateCommitted \<Longrightarrow> B_commitSeq b = 0"
  by (auto simp: batch_ok_def)

lemma batch_ok_clear: "batch_ok b \<Longrightarrow> batch_ok (clearLocked b)"
  by (simp add: batch_ok_def clearLocked_def value_bytes_def)

lemma requireOpen_None [simp]: "requireOpen b = None \<longleftrightarrow> B_state b = StateOpen"
  by (auto simp: requireOpen_def stateError_def)

lemma AList_update_length:
  "length (AList.update k v al) = (if map_of al k = None then Suc (length al) else length al)"
  by (induction al) auto

lemma set_update_subset: "set (AList.update k v al) \<subseteq> insert (k, v) (set al)"
  by (induction al) auto

lemma value_bytes_simps [simp]:
  "value_bytes [] = 0" "value_bytes (x # ms) = unat (TM_ValueBytes (snd x)) + value_bytes ms"
  by (simp_all add: value_bytes_def)

lemma value_bytes_update: "value_bytes (AList.update i m ms) \<le> value_bytes ms + unat (TM_ValueBytes m)"
  by (induction ms) auto

lemma set_mutation_ok:
  assumes "batch_ok b" "mutation_wf (TM_RecordID m, m)"
    "map_of (B_mutations b) (TM_RecordID m) = None \<Longrightarrow> length (B_mutations b) \<noteq> unat (LM_MaxBatchMutations (B_limits b))"
    "unat n \<le> unat (LM_MaxBatchBytes (B_limits b))" "unat (B_appendedBytes b) + unat (TM_ValueBytes m) \<le> unat n"
  shows "batch_ok (set_mutation m (b\<lparr>B_appendedBytes := n\<rparr>))"
proof -
  let ?ms = "AList.update (TM_RecordID m) m (B_mutations b)"
  have "\<forall>x \<in> set ?ms. mutation_wf x"
    using assms(1,2) set_update_subset [of "TM_RecordID m" m "B_mutations b"] by (auto simp: batch_ok_def)
  moreover have "length ?ms \<le> unat (LM_MaxBatchMutations (B_limits b))"
    using assms(1,3) by (auto simp: batch_ok_def AList_update_length)
  moreover have "value_bytes ?ms \<le> unat n"
    using assms(1,5) value_bytes_update [of "TM_RecordID m" m "B_mutations b"] by (simp add: batch_ok_def)
  ultimately show ?thesis
    using assms(1,4) by (simp add: batch_ok_def set_mutation_def distinct_update)
qed

lemma set_condition_ok:
  assumes "batch_ok b" "condition_wf (CO_RecordID c, c)"
    "map_of (B_conditions b) (CO_RecordID c) = None \<Longrightarrow> length (B_conditions b) \<noteq> unat (LM_MaxBatchConditions (B_limits b))"
  shows "batch_ok (set_condition c b)"
proof -
  let ?cs = "AList.update (CO_RecordID c) c (B_conditions b)"
  have "\<forall>x \<in> set ?cs. condition_wf x"
    using assms(1,2) set_update_subset [of "CO_RecordID c" c "B_conditions b"] by (auto simp: batch_ok_def)
  moreover have "length ?cs \<le> unat (LM_MaxBatchConditions (B_limits b))"
    using assms(1,3) by (auto simp: batch_ok_def AList_update_length)
  ultimately show ?thesis
    using assms(1) by (simp add: batch_ok_def set_condition_def distinct_update)
qed

lemma validatePut_None:
  assumes "validatePut b i v pending = None"
  shows "pending \<or> i \<noteq> 0" "length v \<le> unat (LM_MaxValueSize (B_limits b))"
    "map_of (B_mutations b) i = None \<Longrightarrow> length (B_mutations b) \<noteq> unat (LM_MaxBatchMutations (B_limits b))"
    "unat (B_appendedBytes b + word_of_nat (length v)) = unat (B_appendedBytes b) + length v"
    "unat (B_appendedBytes b + word_of_nat (length v)) \<le> unat (LM_MaxBatchBytes (B_limits b))"
    "unat (word_of_nat (length v) :: u64) = length v"
proof -
  have l: "length v \<le> MaxUint64 - unat (B_appendedBytes b)"
    using assms by (auto simp: validatePut_def split: if_splits)
  then show u: "unat (word_of_nat (length v) :: u64) = length v"
    by (simp add: unat_of_nat)
  show "unat (B_appendedBytes b + word_of_nat (length v)) = unat (B_appendedBytes b) + length v"
    using l unat_u64_bound [of "B_appendedBytes b"] by (subst unat_add_no_wrap) (simp_all add: u)
  show "pending \<or> i \<noteq> 0" "length v \<le> unat (LM_MaxValueSize (B_limits b))"
    "map_of (B_mutations b) i = None \<Longrightarrow> length (B_mutations b) \<noteq> unat (LM_MaxBatchMutations (B_limits b))"
    "unat (B_appendedBytes b + word_of_nat (length v)) \<le> unat (LM_MaxBatchBytes (B_limits b))"
    using assms by (auto simp: validatePut_def split: if_splits)
qed

lemma AppendResult_Ref_Inr:
  assumes "AppendResult_Ref r = Inr ref"
  shows "RecordRef_Valid ref" "Ref_Addr ref = AR_Addr r"
    "Ref_PhysicalSize ref = LogPos_Offset (AR_End r) - VAddr_Offset (AR_Addr r)"
  using assms by (auto simp: AppendResult_Ref_def NewRecordRef_def AppendResult_PhysicalSize_def Let_def split: if_splits)

text \<open>What a put does: it fails and keeps the mutations, or it appends the encoded record.\<close>

lemma putLocked_cases:
  assumes "putLocked log_append ctx i v b a l = (e, b', l')"
  obtains (refused) "e \<noteq> None" "b' = b" "l' = l"
  | (failed) p x where "e \<noteq> None" "b' = b\<lparr>B_state := StateFailed\<rparr>"
      "EncodePut \<lparr>P_OriginBatchID = B_id b, P_RecordID = i, P_Value = v\<rparr> (LM_MaxValueSize (B_limits b)) = Inr p"
      "log_append l p False = (x, l')"
  | (stored) p r ref where "e = None" "validatePut b i v False = None" "CanUse a i"
      "EncodePut \<lparr>P_OriginBatchID = B_id b, P_RecordID = i, P_Value = v\<rparr> (LM_MaxValueSize (B_limits b)) = Inr p"
      "log_append l p False = (Inr r, l')" "AppendResult_Ref r = Inr ref"
      "b' = set_mutation \<lparr>TM_RecordID = i, TM_Operation = mapping_OperationPut, TM_Ref = ref,
          TM_ValueBytes = word_of_nat (length v)\<rparr> (b\<lparr>B_appendedBytes := B_appendedBytes b + word_of_nat (length v)\<rparr>)"
proof (cases "validatePut b i v False = None \<and> CanUse a i \<and> ctx = None")
  case False
  have "e \<noteq> None \<and> b' = b \<and> l' = l"
  proof (cases "validatePut b i v False")
    case None
    then show ?thesis using assms False by (cases ctx) (auto simp: putLocked_def split: if_splits)
  next
    case (Some e')
    then have "(e, b', l') = (Some e', b, l)" using assms by (simp add: putLocked_def)
    then show ?thesis by simp
  qed
  then show thesis using refused by blast
next
  case True
  show thesis
  proof (cases "EncodePut \<lparr>P_OriginBatchID = B_id b, P_RecordID = i, P_Value = v\<rparr> (LM_MaxValueSize (B_limits b))")
    case (Inl e')
    then show thesis using assms True refused by (auto simp: putLocked_def)
  next
    case p: (Inr p)
    obtain x l1 where x: "log_append l p False = (x, l1)" by (cases "log_append l p False")
    show thesis
    proof (cases x)
      case (Inl e')
      then have "e = Some e'" "b' = b\<lparr>B_state := StateFailed\<rparr>" "l' = l1"
        using assms True p x by (simp_all add: putLocked_def)
      then show thesis using failed p x by simp
    next
      case r: (Inr r)
      show thesis
      proof (cases "AppendResult_Ref r")
        case (Inl e')
        then have "e = Some base_ErrCorrupt" "b' = b\<lparr>B_state := StateFailed\<rparr>" "l' = l1"
          using assms True p x r by (simp_all add: putLocked_def)
        then show thesis using failed p x by simp
      next
        case (Inr ref)
        then show thesis
          using assms True p x r by (intro stored [of p r ref]) (simp_all add: putLocked_def)
      qed
    qed
  qed
qed

lemma putLocked_ok:
  assumes "batch_ok b" "B_state b = StateOpen" "putLocked log_append ctx i v b a l = (e, b', l')"
  shows "batch_ok b'" "e = None \<Longrightarrow> B_state b' = StateOpen"
proof -
  have "batch_ok b' \<and> (e = None \<longrightarrow> B_state b' = StateOpen)"
    using assms(3)
  proof (cases rule: putLocked_cases)
    case refused
    then show ?thesis using assms by simp
  next
    case failed
    then show ?thesis using assms batch_ok_open [OF assms(1)] by (simp add: batch_ok_state)
  next
    case (stored p r ref)
    note v = validatePut_None [OF stored(2)]
    have "batch_ok b'"
      unfolding stored(7) using v assms(1) AppendResult_Ref_Inr(1) [OF stored(6)]
      by (intro set_mutation_ok) (auto simp: mutation_wf_def)
    then show ?thesis using assms(2) stored(7) by (simp add: set_mutation_def)
  qed
  then show "batch_ok b'" "e = None \<Longrightarrow> B_state b' = StateOpen" by auto
qed

lemma deleteLocked_ok:
  assumes "batch_ok b" "B_state b = StateOpen" "deleteLocked i b = (e, b')"
  shows "batch_ok b'" "e = None \<Longrightarrow> B_state b' = StateOpen"
proof -
  have "b' = b \<or> i \<noteq> 0 \<and> (map_of (B_mutations b) i = None \<longrightarrow> length (B_mutations b) \<noteq> unat (LM_MaxBatchMutations (B_limits b))) \<and>
      b' = set_mutation \<lparr>TM_RecordID = i, TM_Operation = mapping_OperationDelete, TM_Ref = zero_ref, TM_ValueBytes = 0\<rparr>
        (b\<lparr>B_appendedBytes := B_appendedBytes b\<rparr>)"
    using assms(3) by (auto simp: deleteLocked_def split: if_splits)
  then have "batch_ok b' \<and> B_state b' = StateOpen"
  proof
    assume "b' = b"
    then show ?thesis using assms by simp
  next
    assume d: "i \<noteq> 0 \<and> (map_of (B_mutations b) i = None \<longrightarrow> length (B_mutations b) \<noteq> unat (LM_MaxBatchMutations (B_limits b))) \<and>
      b' = set_mutation \<lparr>TM_RecordID = i, TM_Operation = mapping_OperationDelete, TM_Ref = zero_ref, TM_ValueBytes = 0\<rparr>
        (b\<lparr>B_appendedBytes := B_appendedBytes b\<rparr>)"
    have "unat (B_appendedBytes b) \<le> unat (LM_MaxBatchBytes (B_limits b))" using assms(1) by (simp add: batch_ok_def)
    then have "batch_ok b'"
      using d set_mutation_ok [OF assms(1), of "\<lparr>TM_RecordID = i, TM_Operation = mapping_OperationDelete,
        TM_Ref = zero_ref, TM_ValueBytes = 0\<rparr>" "B_appendedBytes b"] by (simp add: mutation_wf_def)
    then show ?thesis using d assms(2) by (simp add: set_mutation_def)
  qed
  then show "batch_ok b'" "e = None \<Longrightarrow> B_state b' = StateOpen" by auto
qed

lemma validateCondition_ok:
  assumes "batch_ok b" "B_state b = StateOpen" "validateCondition b c = (e, b')"
  shows "batch_ok b'" "e = None \<Longrightarrow> b' = b \<and> condition_wf (CO_RecordID c, c) \<and>
    (map_of (B_conditions b) (CO_RecordID c) = None \<longrightarrow> length (B_conditions b) \<noteq> unat (LM_MaxBatchConditions (B_limits b)))"
  using assms batch_ok_open [OF assms(1)]
  by (auto simp: validateCondition_def condition_wf_def batch_ok_state split: if_splits option.splits)

lemma allocateLocked_ok:
  assumes "batch_ok b" "B_state b = StateOpen" "allocateLocked log_append ctx b a l = (x, b', a', l')"
  shows "batch_ok b'" "x = Inr i \<Longrightarrow> b' = b \<and> i \<noteq> 0" "b' = b \<or> b' = b\<lparr>B_state := StateFailed\<rparr>"
  using assms batch_ok_open [OF assms(1)]
  by (auto simp: allocateLocked_def batch_ok_state split: option.splits sum.splits prod.splits if_splits)

lemma conditional_ok:
  assumes "batch_ok b" "B_state b = StateOpen" "validateCondition b c = (None, b1)" "batch_ok b2"
    "B_conditions b2 = B_conditions b" "B_limits b2 = B_limits b"
  shows "batch_ok (set_condition c b2)"
  using set_condition_ok [OF assms(4)] validateCondition_ok(2) [OF assms(1-3)] assms(5,6) by simp

lemma putLocked_frame:
  assumes "putLocked log_append ctx i v b a l = (e, b', l')"
  shows "B_conditions b' = B_conditions b" "B_limits b' = B_limits b" "B_id b' = B_id b"
  using assms by (cases rule: putLocked_cases; simp add: set_mutation_def)+

lemma deleteLocked_frame:
  assumes "deleteLocked i b = (e, b')"
  shows "B_conditions b' = B_conditions b" "B_limits b' = B_limits b" "B_id b' = B_id b"
  using assms by (auto simp: deleteLocked_def set_mutation_def split: if_splits)

lemma redirect_mutation_wf:
  "mutation_wf (i, m) \<Longrightarrow> \<forall>(a, ref) \<in> set redirects. RecordRef_Valid ref \<Longrightarrow> mutation_wf (i, redirect_mutation redirects m)"
  by (auto simp: mutation_wf_def redirect_mutation_def split: option.splits dest!: map_of_SomeD)

lemma value_bytes_redirect [simp]: "value_bytes (map (\<lambda>(i, m). (i, redirect_mutation rs m)) ms) = value_bytes ms"
  by (induction ms) (auto simp: redirect_mutation_def split: option.splits)

lemma RewritePutRefs_ok:
  assumes "batch_ok b" "\<forall>(a, ref) \<in> set redirects. RecordRef_Valid ref" "RewritePutRefs redirects b = (n, b')"
  shows "batch_ok b'" "B_state b' = B_state b" "B_id b' = B_id b" "B_limits b' = B_limits b"
proof -
  have [simp]: "map fst (map (\<lambda>(i, m). (i, redirect_mutation redirects m)) ms) = map fst ms" for ms
    by (induction ms) auto
  show "B_state b' = B_state b" "B_id b' = B_id b" "B_limits b' = B_limits b"
    using assms(3) by (auto simp: RewritePutRefs_def split: if_splits)
  have "\<forall>x \<in> set (map (\<lambda>(i, m). (i, redirect_mutation redirects m)) (B_mutations b)). mutation_wf x"
    using assms(1,2) redirect_mutation_wf by (auto simp: batch_ok_def)
  then show "batch_ok b'"
    using assms(1,3) by (auto simp: RewritePutRefs_def batch_ok_def simp del: map_map split: if_splits)
qed

section \<open>The life of a batch\<close>

text \<open>
  Everything that can happen to a batch: its own operations, the marks set by the coordinator and
  the redirection of its references by a compaction; \<open>moves\<close> are the redirections of all compactions.
\<close>

inductive batch_step ::
  "'l append_fun \<Rightarrow> (VAddr \<times> RecordRef) set \<Rightarrow> Batch \<times> Allocator \<times> 'l \<Rightarrow> Batch \<times> Allocator \<times> 'l \<Rightarrow> bool"
  for log_append :: "'l append_fun" and moves
where
  step_Allocate: "Batch_Allocate log_append ctx b a l = (x, b', a', l') \<Longrightarrow> batch_step log_append moves (b, a, l) (b', a', l')"
| step_Create: "Batch_Create log_append ctx ctx' v b a l = (x, b', a', l') \<Longrightarrow> batch_step log_append moves (b, a, l) (b', a', l')"
| step_Put: "Batch_Put log_append ctx i v b a l = (e, b', l') \<Longrightarrow> batch_step log_append moves (b, a, l) (b', a, l')"
| step_CompareAndPut: "CompareAndPut log_append ctx i expected v b a l = (e, b', l') \<Longrightarrow> batch_step log_append moves (b, a, l) (b', a, l')"
| step_Delete: "Batch_Delete i b = (e, b') \<Longrightarrow> batch_step log_append moves (b, a, l) (b', a, l)"
| step_CompareAndDelete: "CompareAndDelete i expected b = (e, b') \<Longrightarrow> batch_step log_append moves (b, a, l) (b', a, l)"
| step_ExpectAddress: "ExpectAddress i addr b = (e, b') \<Longrightarrow> batch_step log_append moves (b, a, l) (b', a, l)"
| step_ExpectAbsent: "ExpectAbsent i b = (e, b') \<Longrightarrow> batch_step log_append moves (b, a, l) (b', a, l)"
| step_Rewrite: "RewritePutRefs redirects b = (n, b') \<Longrightarrow> set redirects \<subseteq> moves \<Longrightarrow>
    batch_step log_append moves (b, a, l) (b', a, l)"
| step_Prepare: "Batch_Prepare b = (x, b') \<Longrightarrow> batch_step log_append moves (b, a, l) (b', a, l)"
| step_Abort: "Batch_Abort log_append reason b l = (e, b', l') \<Longrightarrow> batch_step log_append moves (b, a, l) (b', a, l')"
| step_MarkCommitted: "MarkCommitted seq b = (e, b') \<Longrightarrow> batch_step log_append moves (b, a, l) (b', a, l)"
| step_MarkAborted: "MarkAborted b = (e, b') \<Longrightarrow> batch_step log_append moves (b, a, l) (b', a, l)"
| step_MarkCommitUnknown: "MarkCommitUnknown b = (e, b') \<Longrightarrow> batch_step log_append moves (b, a, l) (b', a, l)"

lemma addCondition_ok:
  assumes "batch_ok b" "addCondition c b = (e, b')"
  shows "batch_ok b'"
proof (cases "B_state b = StateOpen")
  case True
  obtain e1 b1 where v: "validateCondition b c = (e1, b1)" by (cases "validateCondition b c")
  note ok = validateCondition_ok [OF assms(1) True v]
  show ?thesis
  proof (cases e1)
    case None
    then have "b' = set_condition c b1" using assms(2) v True by (simp add: addCondition_def requireOpen_def)
    then show ?thesis using conditional_ok [OF assms(1) True v [unfolded None] ok(1)] ok(2) [OF None] by simp
  next
    case (Some e2)
    then have "b' = b1" using assms(2) v True by (simp add: addCondition_def requireOpen_def)
    then show ?thesis using ok(1) by simp
  qed
next
  case False
  then show ?thesis using assms by (auto simp: addCondition_def split: option.splits)
qed

lemma CompareAndPut_cases:
  assumes "CompareAndPut log_append ctx i expected v b a l = (e, b', l')"
  obtains (closed) "B_state b \<noteq> StateOpen" "b' = b" "l' = l" "e \<noteq> None"
  | (condition) e1 where "B_state b = StateOpen"
      "validateCondition b \<lparr>CO_RecordID = i, CO_ExpectedAddr = expected\<rparr> = (Some e1, b')" "l' = l" "e \<noteq> None"
  | (put) b1 b2 where "B_state b = StateOpen"
      "validateCondition b \<lparr>CO_RecordID = i, CO_ExpectedAddr = expected\<rparr> = (None, b1)"
      "putLocked log_append ctx i v b1 a l = (e, b2, l')"
      "b' = (if e = None then set_condition \<lparr>CO_RecordID = i, CO_ExpectedAddr = expected\<rparr> b2 else b2)"
proof (cases "B_state b = StateOpen")
  case False
  then obtain e1 where "requireOpen b = Some e1" by (cases "requireOpen b") auto
  then have "(e, b', l') = (Some e1, b, l)" using assms by (simp add: CompareAndPut_def)
  then show thesis using closed [OF False] by simp
next
  case True
  obtain e1 b1 where v: "validateCondition b \<lparr>CO_RecordID = i, CO_ExpectedAddr = expected\<rparr> = (e1, b1)"
    by (cases "validateCondition b \<lparr>CO_RecordID = i, CO_ExpectedAddr = expected\<rparr>")
  have o: "requireOpen b = None" using True by simp
  show thesis
  proof (cases e1)
    case (Some x)
    then have "(e, b', l') = (Some x, b1, l)" using assms v o by (simp add: CompareAndPut_def)
    then show thesis using v Some condition [OF True, of x] by simp
  next
    case None
    obtain e2 b2 l2 where p: "putLocked log_append ctx i v b1 a l = (e2, b2, l2)"
      by (cases "putLocked log_append ctx i v b1 a l")
    show thesis
    proof (cases e2)
      case None
      then show thesis
        using assms v o p \<open>e1 = None\<close> put [OF True, of b1 b2] by (simp add: CompareAndPut_def)
    next
      case (Some x)
      then have "(e, b', l') = (Some x, b2, l2)"
        using assms v o p \<open>e1 = None\<close> by (simp add: CompareAndPut_def)
      then show thesis using v p Some \<open>e1 = None\<close> put [OF True, of b1 b2] by simp
    qed
  qed
qed

lemma CompareAndPut_ok:
  assumes "batch_ok b" "CompareAndPut log_append ctx i expected v b a l = (e, b', l')"
  shows "batch_ok b'"
  using assms(2)
proof (cases rule: CompareAndPut_cases)
  case closed
  then show ?thesis using assms(1) by simp
next
  case (condition e1)
  then show ?thesis using validateCondition_ok(1) [OF assms(1)] by blast
next
  case (put b1 b2)
  have b1: "b1 = b" using validateCondition_ok(2) [OF assms(1) put(1,2)] by simp
  note p = put(3) [unfolded b1]
  show ?thesis
    using put(4) putLocked_ok(1) [OF assms(1) put(1) p] conditional_ok [OF assms(1) put(1,2)] putLocked_frame [OF p]
    by simp
qed

lemma CompareAndDelete_ok:
  assumes "batch_ok b" "CompareAndDelete i expected b = (e, b')"
  shows "batch_ok b'"
proof (cases "B_state b = StateOpen")
  case False
  then show ?thesis using assms by (auto simp: CompareAndDelete_def split: option.splits)
next
  case True
  let ?c = "\<lparr>CO_RecordID = i, CO_ExpectedAddr = expected\<rparr>"
  obtain e1 b1 where v: "validateCondition b ?c = (e1, b1)" by (cases "validateCondition b ?c")
  obtain e2 b2 where d: "deleteLocked i b1 = (e2, b2)" by (cases "deleteLocked i b1")
  have o: "requireOpen b = None" using True by simp
  show ?thesis
  proof (cases e1)
    case (Some x)
    then show ?thesis using assms v o validateCondition_ok(1) [OF assms(1) True v] by (simp add: CompareAndDelete_def)
  next
    case None
    have b1: "b1 = b" using validateCondition_ok(2) [OF assms(1) True v None] by simp
    note d' = d [unfolded b1]
    have "b' = (if e2 = None then set_condition ?c b2 else b2)"
      using assms(2) v o None d by (cases e2) (auto simp: CompareAndDelete_def)
    then show ?thesis
      using deleteLocked_ok(1) [OF assms(1) True d'] conditional_ok [OF assms(1) True v [unfolded None]] deleteLocked_frame [OF d']
      by simp
  qed
qed

lemma Batch_Create_ok:
  assumes "batch_ok b" "Batch_Create log_append ctx ctx' v b a l = (x, b', a', l')"
  shows "batch_ok b'"
proof (cases "B_state b = StateOpen \<and> validatePut b 0 v True = None")
  case False
  then have "b' = b" using assms(2) by (auto simp: Batch_Create_def split: option.splits)
  then show ?thesis using assms(1) by simp
next
  case True
  obtain y b1 a1 l1 where al: "allocateLocked log_append ctx b a l = (y, b1, a1, l1)"
    by (cases "allocateLocked log_append ctx b a l")
  note ok = allocateLocked_ok [OF assms(1) _ al]
  show ?thesis
  proof (cases y)
    case (Inl e)
    then show ?thesis using assms(2) al ok(1) True by (simp add: Batch_Create_def requireOpen_def)
  next
    case (Inr i)
    obtain e2 b2 l2 where p: "putLocked log_append ctx' i v b1 a1 l1 = (e2, b2, l2)"
      by (cases "putLocked log_append ctx' i v b1 a1 l1")
    have "b' = b2" using assms(2) al Inr True p by (simp add: Batch_Create_def requireOpen_def)
    then show ?thesis using ok(2) [OF _ Inr] True putLocked_ok(1) [OF _ _ p] assms(1) by simp
  qed
qed

lemma Batch_Prepare_ok:
  assumes "batch_ok b" "Batch_Prepare b = (x, b')"
  shows "batch_ok b'"
  using assms batch_ok_open [OF assms(1)]
  by (auto simp: Batch_Prepare_def batch_ok_state split: option.splits)

lemma Batch_Abort_ok:
  assumes "batch_ok b" "Batch_Abort log_append reason b l = (e, b', l')"
  shows "batch_ok b'"
proof -
  have "b' = b \<or> B_state b \<noteq> StateCommitted \<and> b' = clearLocked (b\<lparr>B_state := StateAborted\<rparr>)"
    using assms(2) by (auto simp: Batch_Abort_def Let_def split: if_splits sum.splits prod.splits)
  then show ?thesis
    using assms(1) batch_ok_clear [OF batch_ok_state [OF assms(1)]] batch_ok_open [OF assms(1)] by auto
qed

lemma marks_ok:
  assumes "batch_ok b"
  shows "MarkCommitted seq b = (e, b') \<Longrightarrow> batch_ok b'" "MarkAborted b = (e, b') \<Longrightarrow> batch_ok b'"
    "MarkCommitUnknown b = (e, b') \<Longrightarrow> batch_ok b'"
  using assms batch_ok_open [OF assms] batch_ok_clear [OF batch_ok_state [OF assms]]
  by (auto simp: MarkCommitted_def MarkAborted_def MarkCommitUnknown_def markTerminal_def batch_ok_def clearLocked_def
      split: if_splits)

lemma batch_step_ok:
  assumes "batch_step log_append moves s s'" "batch_ok (fst s)" "\<forall>(v, ref) \<in> moves. RecordRef_Valid ref"
  shows "batch_ok (fst s')"
  using assms(1,2)
proof (induction rule: batch_step.induct)
  case (step_Allocate ctx b a l x b' a' l')
  then show ?case
    using allocateLocked_ok(1) [of b log_append ctx a l x b' a' l'] by (auto simp: Batch_Allocate_def split: option.splits)
next
  case (step_Create ctx ctx' v b a l x b' a' l')
  then show ?case using Batch_Create_ok by fastforce
next
  case (step_Put ctx i v b a l e b' l')
  then show ?case
    using putLocked_ok(1) [of b log_append ctx i v a l e b' l'] by (auto simp: Batch_Put_def split: option.splits)
next
  case (step_CompareAndPut ctx i expected v b a l e b' l')
  then show ?case using CompareAndPut_ok by fastforce
next
  case (step_Delete i b e b' a l)
  then show ?case using deleteLocked_ok(1) [of b i e b'] by (auto simp: Batch_Delete_def split: option.splits)
next
  case (step_CompareAndDelete i expected b e b' a l)
  then show ?case using CompareAndDelete_ok by fastforce
next
  case (step_ExpectAddress i addr b e b' a l)
  then show ?case using addCondition_ok by (fastforce simp: ExpectAddress_def)
next
  case (step_ExpectAbsent i b e b' a l)
  then show ?case using addCondition_ok by (fastforce simp: ExpectAbsent_def)
next
  case (step_Rewrite redirects b n b' a l)
  then have "\<forall>(v, ref) \<in> set redirects. RecordRef_Valid ref" using assms(3) by blast
  then show ?case using step_Rewrite RewritePutRefs_ok(1) by fastforce
next
  case (step_Prepare b x b' a l)
  then show ?case using Batch_Prepare_ok by fastforce
next
  case (step_Abort reason b l e b' l' a)
  then show ?case using Batch_Abort_ok by fastforce
next
  case (step_MarkCommitted seq b e b' a l)
  then show ?case using marks_ok(1) by fastforce
next
  case (step_MarkAborted b e b' a l)
  then show ?case using marks_ok(2) by fastforce
next
  case (step_MarkCommitUnknown b e b' a l)
  then show ?case using marks_ok(3) by fastforce
qed

lemma batch_steps_ok:
  "(batch_step log_append moves)\<^sup>*\<^sup>* s s' \<Longrightarrow> batch_ok (fst s) \<Longrightarrow> \<forall>(v, ref) \<in> moves. RecordRef_Valid ref \<Longrightarrow> batch_ok (fst s')"
  by (induction rule: rtranclp_induct) (use batch_step_ok in blast)+

end
