(* ===== verification/Batch_Properties.thy ===== *)
theory Batch_Properties
  imports Batch_Txn "HOL-Library.Multiset"
begin

text \<open>
  What a batch promises to the coordinator and to recovery: a prepared batch is a valid proposal
  within its limits, and a batch follows the edges of its state diagram.
\<close>

section \<open>Prepared batches\<close>

definition put_bytes :: "txn_Mutation list \<Rightarrow> nat" where
  "put_bytes ms = sum_list (map (\<lambda>m. unat (TM_ValueBytes m)) (filter (\<lambda>m. TM_Operation m = mapping_OperationPut) ms))"

lemma put_bytes_simps [simp]:
  "put_bytes [] = 0"
  "put_bytes (m # ms) = (if TM_Operation m = mapping_OperationPut then unat (TM_ValueBytes m) else 0) + put_bytes ms"
  by (simp_all add: put_bytes_def)

lemma put_bytes_le: "put_bytes (map snd ms) \<le> value_bytes ms"
  by (induction ms) auto

lemma payload_bytes_eq:
  "payload_bytes tot ms =
     (if unat tot + put_bytes ms \<le> MaxUint64 then Some (tot + word_of_nat (put_bytes ms)) else None)"
proof (induction ms arbitrary: tot)
  case Nil
  then show ?case using unat_u64_bound [of tot] by simp
next
  case (Cons m ms)
  show ?case
  proof (cases "TM_Operation m = mapping_OperationPut")
    case put: True
    show ?thesis
    proof (cases "tot \<le> max_u64 - TM_ValueBytes m")
      case True
      then have "unat tot + unat (TM_ValueBytes m) \<le> MaxUint64" by (simp add: u64_add_checked_iff)
      then have "unat (tot + TM_ValueBytes m) = unat tot + unat (TM_ValueBytes m)" by (rule unat_add_no_wrap)
      moreover have "\<not> tot > max_u64 - TM_ValueBytes m" using True by (simp only: not_less)
      ultimately show ?thesis using put Cons.IH [of "tot + TM_ValueBytes m"] by (simp add: ac_simps)
    next
      case False
      then have "\<not> unat tot + unat (TM_ValueBytes m) \<le> MaxUint64" by (simp add: u64_add_checked_iff)
      moreover have "tot > max_u64 - TM_ValueBytes m" using False by (simp only: not_le)
      ultimately show ?thesis using put by simp
    qed
  next
    case False
    then show ?thesis using Cons.IH by simp
  qed
qed

lemma sorted_keys:
  assumes "distinct (map fst xs)" "\<forall>x \<in> set xs. f (snd x) = fst x"
  shows "sorted_wrt (<) (map f (sort_key f (map snd xs)))"
proof -
  have m: "map f (map snd xs) = map fst xs" using assms(2) by (induction xs) auto
  have "mset (map f (sort_key f (map snd xs))) = mset (map fst xs)"
    unfolding m [symmetric] by (simp only: mset_map mset_sort)
  then have "distinct (map f (sort_key f (map snd xs)))"
    using assms(1) mset_eq_imp_distinct_iff by blast
  moreover have "sorted (map f (sort_key f (map snd xs)))" by simp
  ultimately show ?thesis by (simp only: strict_sorted_iff)
qed

lemma validate_changes_iff:
  "validate_changes kind prev cs \<longleftrightarrow>
     (\<forall>c \<in> set cs. CH_RecordID c \<noteq> 0 \<and> validate_change kind c \<and> (case prev of None \<Rightarrow> True | Some p \<Rightarrow> p < CH_RecordID c)) \<and>
     sorted_wrt (<) (map CH_RecordID cs)"
proof (induction cs arbitrary: prev)
  case (Cons c cs)
  then show ?case by (cases prev) (auto simp: not_le dest: less_trans)
qed simp

lemma validate_conditions_iff:
  "validate_conditions prev cs \<longleftrightarrow>
     (\<forall>c \<in> set cs. CO_RecordID c \<noteq> 0 \<and> (CO_ExpectedAddr c = 0 \<or> VAddr_Valid (CO_ExpectedAddr c)) \<and>
        (case prev of None \<Rightarrow> True | Some p \<Rightarrow> p < CO_RecordID c)) \<and>
     sorted_wrt (<) (map CO_RecordID cs)"
proof (induction cs arbitrary: prev)
  case (Cons c cs)
  then show ?case by (cases prev) (auto simp: not_le dest: less_trans)
qed simp

lemma mutation_change_valid:
  "mutation_wf (i, m) \<Longrightarrow> validate_change ProposalUserCommit (mutation_change m) \<and> CH_RecordID (mutation_change m) \<noteq> 0"
  by (auto simp: mutation_wf_def validate_change_def mutation_change_def RecordRef_IsZero_def)

lemma Batch_Prepare_view:
  assumes "batch_ok b" "B_state b = StateOpen"
  obtains p where "Batch_Prepare b = (Inr p, b\<lparr>B_state := StateCommitting\<rparr>)" "validateProposal (Prepared_Proposal p) = None"
    "PP_BatchID p = B_id b" "set (PP_Mutations p) = snd ` set (B_mutations b)" "length (PP_Mutations p) = length (B_mutations b)"
    "set (PP_Conditions p) = snd ` set (B_conditions b)" "length (PP_Conditions p) = length (B_conditions b)" "sorted_wrt (<) (map TM_RecordID (PP_Mutations p))"
    "unat (PP_LogicalPayloadBytes p) = put_bytes (PP_Mutations p)" "put_bytes (PP_Mutations p) \<le> unat (LM_MaxBatchBytes (B_limits b))"
proof -
  define ms where "ms = sort_key TM_RecordID (map snd (B_mutations b))"
  define cs where "cs = sort_key CO_RecordID (map snd (B_conditions b))"
  have "mset ms = mset (map snd (B_mutations b))" by (simp add: ms_def)
  then have "mset (filter (\<lambda>m. TM_Operation m = mapping_OperationPut) ms) =
      mset (filter (\<lambda>m. TM_Operation m = mapping_OperationPut) (map snd (B_mutations b)))"
    by (simp only: mset_filter)
  then have pb: "put_bytes ms = put_bytes (map snd (B_mutations b))"
    unfolding put_bytes_def by (simp only: sum_mset_sum_list [symmetric] mset_map)
  have le: "put_bytes ms \<le> unat (LM_MaxBatchBytes (B_limits b))"
    using assms(1) put_bytes_le [of "B_mutations b"] pb by (simp add: batch_ok_def)
  then have le': "put_bytes ms \<le> MaxUint64" using unat_u64_bound order_trans by blast
  have wf: "\<forall>x \<in> set (B_mutations b). mutation_wf x" "\<forall>x \<in> set (B_conditions b). condition_wf x"
    using assms(1) by (auto simp: batch_ok_def)
  have sm: "sorted_wrt (<) (map TM_RecordID ms)" unfolding ms_def
    by (rule sorted_keys) (use assms(1) wf in \<open>auto simp: batch_ok_def mutation_wf_def\<close>)
  have sc: "sorted_wrt (<) (map CO_RecordID cs)" unfolding cs_def
    by (rule sorted_keys) (use assms(1) wf in \<open>auto simp: batch_ok_def condition_wf_def\<close>)
  define p where "p = \<lparr>PP_BatchID = B_id b, PP_Mutations = ms, PP_Conditions = cs, PP_LogicalPayloadBytes = word_of_nat (put_bytes ms)\<rparr>"
  have "payload_bytes 0 (map snd (B_mutations b)) = Some (word_of_nat (put_bytes ms))"
    using le' by (simp add: payload_bytes_eq pb)
  then have "Batch_Prepare b = (Inr p, b\<lparr>B_state := StateCommitting\<rparr>)"
    using assms(2) by (simp add: Batch_Prepare_def requireOpen_def p_def ms_def cs_def)
  moreover have "validateProposal (Prepared_Proposal p) = None"
  proof -
    have "sorted_wrt (<) (map CH_RecordID (map mutation_change ms))" using sm by (simp add: mutation_change_def comp_def)
    moreover have "\<forall>m \<in> set ms. validate_change ProposalUserCommit (mutation_change m) \<and> CH_RecordID (mutation_change m) \<noteq> 0"
      using wf(1) mutation_change_valid by (fastforce simp: ms_def)
    moreover have "\<forall>c \<in> set cs. CO_RecordID c \<noteq> 0 \<and> (CO_ExpectedAddr c = 0 \<or> VAddr_Valid (CO_ExpectedAddr c))"
      using wf(2) by (fastforce simp: cs_def condition_wf_def)
    ultimately show ?thesis
      using sc unfolding validateProposal_None validate_changes_iff validate_conditions_iff by (auto simp: Prepared_Proposal_def p_def)
  qed
  ultimately show thesis
    using that [of p] sm le le' unat_of_nat [of "put_bytes ms", where ?'a = 64] by (simp add: p_def ms_def cs_def)
qed

section \<open>The state diagram\<close>

fun batch_edge :: "txn_State \<Rightarrow> txn_State \<Rightarrow> bool" where
  "batch_edge StateOpen s \<longleftrightarrow> s \<in> {StateOpen, StateFailed, StateCommitting, StateAborted}"
| "batch_edge StateFailed s \<longleftrightarrow> s \<in> {StateFailed, StateAborted}"
| "batch_edge StateCommitting s \<longleftrightarrow> s \<in> {StateCommitting, StateCommitted, StateAborted, StateCommitUnknown}"
| "batch_edge s s' \<longleftrightarrow> s = s'"

lemma putLocked_state:
  assumes "putLocked log_append ctx i v b a l = (e, b', l')"
  shows "B_state b' = B_state b \<or> B_state b' = StateFailed" "B_commitSeq b' = B_commitSeq b"
    "B_id b' = B_id b" "B_limits b' = B_limits b"
  using assms by (cases rule: putLocked_cases; simp add: set_mutation_def)+

lemma deleteLocked_state:
  assumes "deleteLocked i b = (e, b')"
  shows "B_state b' = B_state b" "B_commitSeq b' = B_commitSeq b" "B_id b' = B_id b" "B_limits b' = B_limits b"
  using assms by (auto simp: deleteLocked_def set_mutation_def split: if_splits)

lemma validateCondition_state:
  assumes "validateCondition b c = (e, b')"
  shows "B_state b' = B_state b \<or> B_state b' = StateFailed" "B_commitSeq b' = B_commitSeq b" "B_mutations b' = B_mutations b"
    "B_id b' = B_id b" "B_limits b' = B_limits b"
  using assms by (auto simp: validateCondition_def split: if_splits option.splits)

lemma allocateLocked_state:
  assumes "allocateLocked log_append ctx b a l = (x, b', a', l')"
  shows "B_state b' = B_state b \<or> B_state b' = StateFailed" "B_commitSeq b' = B_commitSeq b" "B_mutations b' = B_mutations b"
    "B_id b' = B_id b" "B_limits b' = B_limits b"
  using assms by (auto simp: allocateLocked_def split: if_splits option.splits sum.splits prod.splits)

definition locked_step :: "Batch \<Rightarrow> Batch \<Rightarrow> bool" where
  \<comment> \<open>what the operations on an open batch do to its state\<close>
  "locked_step b b' \<longleftrightarrow> b' = b \<or> B_state b = StateOpen \<and> (B_state b' = StateOpen \<or> B_state b' = StateFailed) \<and>
     B_commitSeq b' = B_commitSeq b \<and> B_id b' = B_id b \<and> B_limits b' = B_limits b"

lemma locked_step_edge:
  assumes "locked_step b b'"
  shows "batch_edge (B_state b) (B_state b') \<and> (B_state b = StateCommitted \<longrightarrow> B_commitSeq b' = B_commitSeq b) \<and>
    B_id b' = B_id b \<and> B_limits b' = B_limits b"
  using assms by (cases "B_state b") (auto simp: locked_step_def)

lemma set_condition_simps [simp]:
  "B_state (set_condition c b) = B_state b" "B_commitSeq (set_condition c b) = B_commitSeq b"
  "B_mutations (set_condition c b) = B_mutations b" "B_id (set_condition c b) = B_id b" "B_limits (set_condition c b) = B_limits b"
  by (simp_all add: set_condition_def)

lemma locked_steps:
  "Batch_Allocate log_append ctx b a l = (x, b', a', l') \<Longrightarrow> locked_step b b'"
  "Batch_Create log_append ctx ctx' v b a l = (y, b', a', l') \<Longrightarrow> locked_step b b'"
  "Batch_Put log_append ctx i v b a l = (e, b', l') \<Longrightarrow> locked_step b b'"
  "Batch_Delete i b = (e, b') \<Longrightarrow> locked_step b b'"
  "addCondition c b = (e, b') \<Longrightarrow> locked_step b b'"
proof -
  show "locked_step b b'" if "Batch_Allocate log_append ctx b a l = (x, b', a', l')"
    using that allocateLocked_state [of log_append ctx b a l x b' a' l']
    by (auto simp: Batch_Allocate_def locked_step_def split: option.splits)
  show "locked_step b b'" if "Batch_Put log_append ctx i v b a l = (e, b', l')"
    using that putLocked_state [of log_append ctx i v b a l e b' l'] by (auto simp: Batch_Put_def locked_step_def split: option.splits)
  show "locked_step b b'" if "Batch_Delete i b = (e, b')"
    using that deleteLocked_state [of i b e b'] by (auto simp: Batch_Delete_def locked_step_def split: option.splits)
  show "locked_step b b'" if ac: "addCondition c b = (e, b')"
  proof (cases "B_state b = StateOpen")
    case False
    then show ?thesis using ac by (auto simp: addCondition_def locked_step_def split: option.splits)
  next
    case True
    obtain e1 b1 where v: "validateCondition b c = (e1, b1)" by (cases "validateCondition b c")
    show ?thesis
      using ac v validateCondition_state [OF v] True
      by (cases e1) (auto simp: addCondition_def requireOpen_def locked_step_def)
  qed
  show "locked_step b b'" if c: "Batch_Create log_append ctx ctx' v b a l = (y, b', a', l')"
  proof (cases "B_state b = StateOpen \<and> validatePut b 0 v True = None")
    case False
    then show ?thesis using c by (auto simp: Batch_Create_def locked_step_def split: option.splits)
  next
    case True
    obtain z b1 a1 l1 where al: "allocateLocked log_append ctx b a l = (z, b1, a1, l1)"
      by (cases "allocateLocked log_append ctx b a l")
    note s = allocateLocked_state [OF al]
    show ?thesis
    proof (cases z)
      case (Inl e)
      then show ?thesis using c al s True by (auto simp: requireOpen_def Batch_Create_def locked_step_def)
    next
      case (Inr i)
      obtain e2 b2 l2 where p: "putLocked log_append ctx' i v b1 a1 l1 = (e2, b2, l2)"
        by (cases "putLocked log_append ctx' i v b1 a1 l1")
      show ?thesis using c al s True p Inr putLocked_state [OF p] by (auto simp: requireOpen_def Batch_Create_def locked_step_def)
    qed
  qed
qed

lemma locked_steps_conditional:
  "CompareAndPut log_append ctx i expected v b a l = (e, b', l') \<Longrightarrow> locked_step b b'"
  "CompareAndDelete i expected b = (e, b') \<Longrightarrow> locked_step b b'"
proof -
  show "locked_step b b'" if "CompareAndPut log_append ctx i expected v b a l = (e, b', l')"
    using that
  proof (cases rule: CompareAndPut_cases)
    case closed
    then show ?thesis by (simp add: locked_step_def)
  next
    case (condition e1)
    then show ?thesis using validateCondition_state [OF condition(2)] by (auto simp: locked_step_def)
  next
    case (put b1 b2)
    then show ?thesis
      using validateCondition_state [OF put(2)] putLocked_state [OF put(3)] by (auto simp: locked_step_def)
  qed
  show "locked_step b b'" if c: "CompareAndDelete i expected b = (e, b')"
  proof (cases "B_state b = StateOpen")
    case False
    then show ?thesis using c by (auto simp: CompareAndDelete_def locked_step_def split: option.splits)
  next
    case True
    let ?c = "\<lparr>CO_RecordID = i, CO_ExpectedAddr = expected\<rparr>"
    obtain e1 b1 where v: "validateCondition b ?c = (e1, b1)" by (cases "validateCondition b ?c")
    obtain e2 b2 where d: "deleteLocked i b1 = (e2, b2)" by (cases "deleteLocked i b1")
    show ?thesis
      using c v d True validateCondition_state [OF v] deleteLocked_state [OF d]
      by (cases e1; cases e2) (auto simp: CompareAndDelete_def requireOpen_def locked_step_def)
  qed
qed

lemma batch_step_edge:
  assumes "batch_step log_append moves s s'"
  shows "batch_edge (B_state (fst s)) (B_state (fst s')) \<and>
    (B_state (fst s) = StateCommitted \<longrightarrow> B_commitSeq (fst s') = B_commitSeq (fst s)) \<and>
    B_id (fst s') = B_id (fst s) \<and> B_limits (fst s') = B_limits (fst s)"
  using assms
proof (induction rule: batch_step.induct)
  case (step_Rewrite redirects b n b' a l)
  then show ?case by (cases "B_state b") (auto simp: RewritePutRefs_def split: if_splits)
next
  case (step_Prepare b x b' a l)
  then show ?case by (cases "B_state b") (auto simp: Batch_Prepare_def split: option.splits)
next
  case (step_Abort reason b l e b' l' a)
  then show ?case
    by (cases "B_state b") (auto simp: Batch_Abort_def clearLocked_def Let_def split: sum.splits prod.splits)
next
  case (step_MarkCommitted seq b e b' a l)
  then show ?case by (cases "B_state b") (auto simp: MarkCommitted_def clearLocked_def split: if_splits)
next
  case (step_MarkAborted b e b' a l)
  then show ?case by (cases "B_state b") (auto simp: MarkAborted_def markTerminal_def clearLocked_def split: if_splits)
next
  case (step_MarkCommitUnknown b e b' a l)
  then show ?case by (cases "B_state b") (auto simp: MarkCommitUnknown_def markTerminal_def clearLocked_def split: if_splits)
next
  case (step_Allocate ctx b a l x b' a' l')
  then show ?case using locked_step_edge [OF locked_steps(1) [OF step_Allocate]] by simp
next
  case (step_Create ctx ctx' v b a l x b' a' l')
  then show ?case using locked_step_edge [OF locked_steps(2) [OF step_Create]] by simp
next
  case (step_Put ctx i v b a l e b' l')
  then show ?case using locked_step_edge [OF locked_steps(3) [OF step_Put]] by simp
next
  case (step_CompareAndPut ctx i expected v b a l e b' l')
  then show ?case using locked_step_edge [OF locked_steps_conditional(1) [OF step_CompareAndPut]] by simp
next
  case (step_Delete i b e b' a l)
  then show ?case using locked_step_edge [OF locked_steps(4) [OF step_Delete]] by simp
next
  case (step_CompareAndDelete i expected b e b' a l)
  then show ?case using locked_step_edge [OF locked_steps_conditional(2) [OF step_CompareAndDelete]] by simp
next
  case (step_ExpectAddress i addr b e b' a l)
  then show ?case using locked_step_edge [OF locked_steps(5) [OF step_ExpectAddress [unfolded ExpectAddress_def]]] by simp
next
  case (step_ExpectAbsent i b e b' a l)
  then show ?case using locked_step_edge [OF locked_steps(5) [OF step_ExpectAbsent [unfolded ExpectAbsent_def]]] by simp
qed

lemma batch_steps_id:
  "(batch_step log_append moves)\<^sup>*\<^sup>* s s' \<Longrightarrow> B_id (fst s') = B_id (fst s) \<and> B_limits (fst s') = B_limits (fst s)"
  by (induction rule: rtranclp_induct) (auto dest: batch_step_edge)

definition terminal :: "txn_State \<Rightarrow> bool" where
  "terminal s \<longleftrightarrow> s \<in> {StateCommitted, StateAborted, StateCommitUnknown}"

lemma terminal_edge: "terminal s \<Longrightarrow> batch_edge s s' \<Longrightarrow> s' = s"
  by (cases s) (auto simp: terminal_def)

section \<open>Properties\<close>


definition example_limits :: Limits where
  "example_limits = \<lparr>LM_MaxValueSize = 8, LM_MaxBatchBytes = 16, LM_MaxBatchMutations = 2, LM_MaxBatchConditions = 2\<rparr>"

definition example_batch :: Batch where
  "example_batch = \<lparr>B_id = 7, B_state = StateOpen, B_limits = example_limits, B_mutations = [], B_conditions = [],
     B_appendedBytes = 0, B_commitSeq = 0\<rparr>"

definition closed_log :: "unit append_fun" where "closed_log l p sync = (Inl base_ErrClosed, l)"




end
