(* ===== verification/Commit_Coordinator.thy ===== *)
theory Commit_Coordinator
  imports Batch_Txn Log_Writer
begin

text \<open>
  The commit coordinator (\<^verbatim>\<open>internal/coordinator/coordinator.go\<close>): it admits prepared batches and
  relocations, forms groups, resolves each group against the mapping, appends one durable commit
  record for it, publishes the plan and answers every request. Checkpoint barriers and redirect
  tables are ordered with the commits.

  The interfaces \<^verbatim>\<open>Appender\<close> and \<^verbatim>\<open>mapping.Index\<close> are records of operations on a log state of type \<open>'l\<close>
  and a mapping state of type \<open>'m\<close>. Batches are objects that clients and requests share: they live in
  the store \<open>CO_batches\<close> under a handle. The response channel of a request is a number; the answers
  sent so far are \<open>CO_answers\<close>. The request channel is \<open>CO_requests\<close>, whose capacity only delays a
  sender. What the goroutine of \<^verbatim>\<open>run\<close> receives is a list of events: a request, nothing before the
  deadline, or the closed channel. The admission lock is \<open>CO_fenced\<close>; an operation that must wait for
  it is \<open>None\<close>. Metrics and durations are not modelled.
\<close>

section \<open>Data\<close>

record 'l Appender =
  ap_Append :: "'l append_fun"
  ap_Poisoned :: "'l \<Rightarrow> bool"  \<comment> \<open>\<^verbatim>\<open>Status().Poisoned\<close>\<close>

record 'm Index =
  ix_ReserveDelta :: "'m \<Rightarrow> record_id list \<Rightarrow> (DeltaReservation res \<times> u64) \<times> 'm"
  ix_Release :: "'m \<Rightarrow> DeltaReservation \<Rightarrow> 'm"  \<comment> \<open>\<^verbatim>\<open>DeltaReservation.Release\<close>\<close>
  ix_ResolveGroup :: "'m \<Rightarrow> Proposal list \<Rightarrow> GroupPlan res"
  ix_PublishGroup :: "CommitSeq \<Rightarrow> GroupPlan \<Rightarrow> DeltaReservation option list \<Rightarrow> 'm \<Rightarrow> PublishResult res \<times> 'm"
  ix_CoveredCommitSeq :: "'m \<Rightarrow> CommitSeq"

record coordinator_Config =
  CC_QueueCapacity :: int
  CC_MaxGroupBatches :: int
  CC_MaxGroupPayload :: u64
  CC_GroupCommitDelay :: int

record commit_Result =
  CR_BatchID :: BatchID
  CR_CommitSeq :: CommitSeq

record Relocation =
  RL_BatchID :: BatchID
  RL_Changes :: "Change list"
  RL_LogicalPayloadBytes :: u64

record RelocationResult =
  RX_BatchID :: BatchID
  RX_CommitSeq :: CommitSeq
  RX_Applied :: u32
  RX_Skipped :: u32
  RX_deltaPressureGeneration :: u64

record CheckpointCut =
  CK_CoveredCommitSeq :: CommitSeq
  CK_ReplayStart :: LogPos

type_synonym redirects = "(VAddr \<times> RecordRef) list"

record redirectRequest =
  RD_install :: redirects
  RD_release :: u64

record request =
  CQ_chan :: nat
  CQ_batch :: nat
  CQ_prepared :: Prepared
  CQ_relocation :: "Relocation option"
  CQ_reserve :: DeltaReservation
  CQ_deltaPressureGeneration :: u64
  CQ_barrier :: bool
  CQ_redirect :: "redirectRequest option"

datatype answer =
    CommitAnswer "commit_Result res"
  | RelocationAnswer "RelocationResult res"
  | CheckpointAnswer "CheckpointCut res"
  | RedirectAnswer "u64 res"

record CommitRedirects =
  CX_generation :: u64
  CX_released :: bool

record ('l, 'm) Coordinator =
  CO_log :: 'l
  CO_mapping :: 'm
  CO_config :: coordinator_Config
  CO_next :: CommitSeq
  CO_fault :: "err option"
  CO_fenced :: bool
  CO_closed :: bool
  CO_requests :: "request list"
  CO_redirects :: redirects
  CO_redirectGen :: u64
  CO_batches :: "nat \<Rightarrow> Batch"
  CO_answers :: "(nat \<times> answer) list"
  CO_chans :: nat  \<comment> \<open>the identity of the next response channel\<close>

section \<open>Creation\<close>

definition ValidateConfig :: "coordinator_Config \<Rightarrow> err option" where
  "ValidateConfig config =
     (if CC_QueueCapacity config \<le> 0 \<or> CC_MaxGroupBatches config \<le> 0 \<or>
         CC_MaxGroupPayload config < ucast (CommitGroupHeadSize + DescriptorHeadSize) \<or> CC_GroupCommitDelay config < 0
      then Some base_ErrInvalidConfig else None)"

definition coordinator_New ::
  "'m Index \<Rightarrow> CommitSeq \<Rightarrow> 'l \<Rightarrow> 'm \<Rightarrow> coordinator_Config \<Rightarrow> (nat \<Rightarrow> Batch) \<Rightarrow> ('l, 'm) Coordinator res" where
  "coordinator_New ix nxt l current config batches =
     (if nxt = 0 \<or> ValidateConfig config \<noteq> None \<or> ix_CoveredCommitSeq ix current = max_u64 \<or>
         nxt \<noteq> ix_CoveredCommitSeq ix current + 1
      then Inl base_ErrInvalidConfig
      else Inr \<lparr>CO_log = l, CO_mapping = current, CO_config = config, CO_next = nxt, CO_fault = None, CO_fenced = False,
        CO_closed = False, CO_requests = [], CO_redirects = [], CO_redirectGen = 0, CO_batches = batches, CO_answers = [],
        CO_chans = 0\<rparr>)"

section \<open>Requests\<close>

definition relocationProposal :: "Relocation \<Rightarrow> Proposal" where
  "relocationProposal r = \<lparr>PR_Kind = ProposalRelocation, PR_Conditions = [], PR_Changes = RL_Changes r\<rparr>"

definition requestProposal :: "request \<Rightarrow> Proposal" where
  "requestProposal rq =
     (case CQ_relocation rq of Some r \<Rightarrow> relocationProposal r | None \<Rightarrow> Prepared_Proposal (CQ_prepared rq))"

definition requestDescriptorSize :: "request \<Rightarrow> nat res" where
  "requestDescriptorSize rq =
     (let mutations = (case CQ_relocation rq of None \<Rightarrow> length (PP_Mutations (CQ_prepared rq)) | Some r \<Rightarrow> length (RL_Changes r))
      in res_bind (DescriptorSize mutations) (\<lambda>size. Inr (unat size)))"

definition codec_mutation :: "txn_Mutation \<Rightarrow> Mutation" where
  "codec_mutation m =
     \<lparr>M_RecordID = TM_RecordID m, M_NewAddr = Ref_Addr (TM_Ref m), M_ExpectedOldAddr = 0,
      M_Operation = (if TM_Operation m = mapping_OperationPut then OperationPut else OperationDelete),
      M_PhysicalSize = Ref_PhysicalSize (TM_Ref m)\<rparr>"

definition coordinator_descriptor :: "Prepared \<Rightarrow> CommitSeq \<Rightarrow> Descriptor" where
  "coordinator_descriptor p seq =
     \<lparr>D_Kind = DescriptorUserCommit, D_BatchID = PP_BatchID p, D_CommitSeq = seq,
      D_LogicalPayloadBytes = PP_LogicalPayloadBytes p, D_Mutations = map codec_mutation (PP_Mutations p)\<rparr>"

definition relocation_mutation :: "Change \<Rightarrow> Mutation" where
  "relocation_mutation c =
     \<lparr>M_RecordID = CH_RecordID c, M_NewAddr = Ref_Addr (CH_NewRef c), M_ExpectedOldAddr = CH_ExpectedOldAddr c,
      M_Operation = OperationRelocate, M_PhysicalSize = Ref_PhysicalSize (CH_NewRef c)\<rparr>"

definition requestDescriptor :: "request \<Rightarrow> CommitSeq \<Rightarrow> Descriptor" where
  "requestDescriptor rq seq =
     (case CQ_relocation rq of None \<Rightarrow> coordinator_descriptor (CQ_prepared rq) seq
      | Some r \<Rightarrow> \<lparr>D_Kind = DescriptorRelocation, D_BatchID = RL_BatchID r, D_CommitSeq = seq,
          D_LogicalPayloadBytes = RL_LogicalPayloadBytes r, D_Mutations = map relocation_mutation (RL_Changes r)\<rparr>)"

definition orderUserBeforeRelocation :: "request list \<Rightarrow> request list" where
  "orderUserBeforeRelocation reqs =
     filter (\<lambda>rq. CQ_relocation rq = None) reqs @ filter (\<lambda>rq. CQ_relocation rq \<noteq> None) reqs"

definition applyCommitRedirects :: "redirects \<Rightarrow> request \<Rightarrow> request" where
  "applyCommitRedirects table rq =
     (if CQ_relocation rq \<noteq> None \<or> table = [] then rq
      else rq\<lparr>CQ_prepared := (CQ_prepared rq)\<lparr>PP_Mutations := map (redirect_mutation table) (PP_Mutations (CQ_prepared rq))\<rparr>\<rparr>)"

section \<open>Answers\<close>

definition answer_to :: "request \<Rightarrow> answer \<Rightarrow> ('l, 'm) Coordinator \<Rightarrow> ('l, 'm) Coordinator" where
  "answer_to rq x c = c\<lparr>CO_answers := CO_answers c @ [(CQ_chan rq, x)]\<rparr>"

definition coord_fail :: "err \<Rightarrow> ('l, 'm) Coordinator \<Rightarrow> ('l, 'm) Coordinator" where
  "coord_fail e c = (if CO_fault c = None then c\<lparr>CO_fault := Some e\<rparr> else c)"

definition update_batch :: "nat \<Rightarrow> (Batch \<Rightarrow> Batch) \<Rightarrow> ('l, 'm) Coordinator \<Rightarrow> ('l, 'm) Coordinator" where
  "update_batch h f c = c\<lparr>CO_batches := (CO_batches c)(h := f (CO_batches c h))\<rparr>"

definition release_reserve :: "'m Index \<Rightarrow> DeltaReservation \<Rightarrow> ('l, 'm) Coordinator \<Rightarrow> ('l, 'm) Coordinator" where
  "release_reserve ix r c = c\<lparr>CO_mapping := ix_Release ix (CO_mapping c) r\<rparr>"

definition completeFailure ::
  "'m Index \<Rightarrow> request \<Rightarrow> err \<Rightarrow> bool \<Rightarrow> bool \<Rightarrow> ('l, 'm) Coordinator \<Rightarrow> ('l, 'm) Coordinator" where
  "completeFailure ix rq cause unknown accepted c =
     (let c1 = release_reserve ix (CQ_reserve rq) c;
          cause' = (if unknown \<and> accepted then Join base_ErrCommitUnknown cause else cause)
      in case CQ_relocation rq of
           Some _ \<Rightarrow> answer_to rq (RelocationAnswer (Inl cause')) c1
         | None \<Rightarrow>
             answer_to rq (CommitAnswer (Inl cause'))
               (update_batch (CQ_batch rq) (\<lambda>b. snd (if unknown \<and> accepted then MarkCommitUnknown b else MarkAborted b)) c1))"

definition completeSuccess ::
  "request \<Rightarrow> CommitSeq \<Rightarrow> ResolvedProposal \<Rightarrow> ('l, 'm) Coordinator \<Rightarrow> err option \<times> ('l, 'm) Coordinator" where
  "completeSuccess rq seq resolved c =
     (case CQ_relocation rq of
        Some r \<Rightarrow>
          (None, answer_to rq (RelocationAnswer (Inr
            \<lparr>RX_BatchID = RL_BatchID r, RX_CommitSeq = seq,
             RX_Applied = word_of_nat (length (filter RC_Apply (RP_Changes resolved))),
             RX_Skipped = word_of_nat (length (filter (\<lambda>x. \<not> RC_Apply x) (RP_Changes resolved))),
             RX_deltaPressureGeneration = CQ_deltaPressureGeneration rq\<rparr>)) c)
      | None \<Rightarrow>
          (case MarkCommitted seq (CO_batches c (CQ_batch rq)) of
             (Some e, b) \<Rightarrow>
               (Some e, answer_to rq (CommitAnswer (Inl (Join base_ErrCommitUnknown e)))
                  (update_batch (CQ_batch rq) (\<lambda>_. snd (MarkCommitUnknown b)) c))
           | (None, b) \<Rightarrow>
               (None, answer_to rq (CommitAnswer (Inr \<lparr>CR_BatchID = PP_BatchID (CQ_prepared rq), CR_CommitSeq = seq\<rparr>))
                  (update_batch (CQ_batch rq) (\<lambda>_. b) c))))"

definition rejectGroup :: "'m Index \<Rightarrow> request list \<Rightarrow> err \<Rightarrow> ('l, 'm) Coordinator \<Rightarrow> ('l, 'm) Coordinator" where
  "rejectGroup ix reqs e c = foldl (\<lambda>c rq. completeFailure ix rq e False False c) c reqs"

definition rejectInvalid :: "'m Index \<Rightarrow> request \<Rightarrow> err \<Rightarrow> ('l, 'm) Coordinator \<Rightarrow> ('l, 'm) Coordinator" where
  "rejectInvalid ix rq e c = completeFailure ix rq e False False c"

section \<open>One group\<close>

text \<open>
  The loop of \<^verbatim>\<open>process\<close> that numbers the accepted proposals; \<open>None\<close> when the sequence is exhausted. The
  result lists the sequence of each request (0 for a rejected one), the descriptors and the next
  sequence.
\<close>

fun assign_sequences ::
  "CommitSeq \<Rightarrow> (request \<times> ResolvedProposal) list \<Rightarrow> (CommitSeq list \<times> Descriptor list \<times> CommitSeq) option" where
  "assign_sequences nxt [] = Some ([], [], nxt)"
| "assign_sequences nxt ((rq, resolved) # rest) =
     (if \<not> RP_Accepted resolved then
        (case assign_sequences nxt rest of None \<Rightarrow> None | Some (qs, ds, n) \<Rightarrow> Some (0 # qs, ds, n))
      else if nxt = max_u64 then None
      else (case assign_sequences (nxt + 1) rest of None \<Rightarrow> None
            | Some (qs, ds, n) \<Rightarrow> Some (nxt # qs, requestDescriptor rq nxt # ds, n)))"

definition complete_failures ::
  "'m Index \<Rightarrow> err \<Rightarrow> bool \<Rightarrow> (request \<times> ResolvedProposal) list \<Rightarrow> ('l, 'm) Coordinator \<Rightarrow> ('l, 'm) Coordinator" where
  \<comment> \<open>rejected proposals are conflicts, accepted ones fail with the error\<close>
  "complete_failures ix e unknown items c =
     foldl (\<lambda>c (rq, resolved).
       if \<not> RP_Accepted resolved then completeFailure ix rq base_ErrConflict False False c
       else completeFailure ix rq e unknown True c) c items"

definition complete_successes ::
  "'m Index \<Rightarrow> ((request \<times> ResolvedProposal) \<times> CommitSeq) list \<Rightarrow> ('l, 'm) Coordinator \<Rightarrow> ('l, 'm) Coordinator" where
  "complete_successes ix items c =
     foldl (\<lambda>c ((rq, resolved), seq).
       if \<not> RP_Accepted resolved then completeFailure ix rq base_ErrConflict False False c
       else case completeSuccess rq seq resolved c of (Some e, c') \<Rightarrow> coord_fail e c' | (None, c') \<Rightarrow> c') c items"

definition publish_checked ::
  "'m Index \<Rightarrow> Descriptor list \<Rightarrow> GroupPlan \<Rightarrow> DeltaReservation option list \<Rightarrow> 'm \<Rightarrow> err option \<times> 'm" where
  \<comment> \<open>publication and the comparison of its counts with the plan\<close>
  "publish_checked ix descriptors plan reservations m =
     (case ix_PublishGroup ix (D_CommitSeq (hd descriptors)) plan reservations m of
        (Inl e, m') \<Rightarrow> (Some e, m')
      | (Inr published, m') \<Rightarrow>
          (if PU_Committed published \<noteq> word_of_nat (length descriptors) \<or>
              (ucast (PU_Applied published) :: u64) \<noteq> word_of_nat (length (applied (GP_Proposals plan))) \<or>
              (ucast (PU_Skipped published) :: u64) \<noteq> word_of_nat (length (skipped (GP_Proposals plan)))
           then Some base_ErrCorrupt else None, m'))"

text \<open>The part of \<^verbatim>\<open>process\<close> from the durable append on.\<close>

definition commit_group ::
  "'l Appender \<Rightarrow> 'm Index \<Rightarrow> request list \<Rightarrow> GroupPlan \<Rightarrow> CommitSeq list \<Rightarrow> Descriptor list \<Rightarrow> CommitSeq \<Rightarrow> bytes \<Rightarrow>
    ('l, 'm) Coordinator \<Rightarrow> ('l, 'm) Coordinator" where
  "commit_group ap ix active plan sequences descriptors nxt payload c =
     (let items = zip active (GP_Proposals plan) in
      case ap_Append ap (CO_log c) payload True of
        (Inl e, l) \<Rightarrow>
          complete_failures ix e (ap_Poisoned ap l) items (coord_fail e (c\<lparr>CO_log := l\<rparr>))
      | (Inr _, l) \<Rightarrow>
          let (pe, m) = publish_checked ix descriptors plan (map (\<lambda>rq. Some (CQ_reserve rq)) active) (CO_mapping c);
              c1 = c\<lparr>CO_log := l, CO_mapping := m\<rparr>
          in case pe of
               Some e \<Rightarrow> complete_failures ix e True items (coord_fail e c1)
             | None \<Rightarrow> complete_successes ix (zip items sequences) (c1\<lparr>CO_next := nxt\<rparr>))"

definition coord_process ::
  "'l Appender \<Rightarrow> 'm Index \<Rightarrow> request list \<Rightarrow> ('l, 'm) Coordinator \<Rightarrow> ('l, 'm) Coordinator" where
  "coord_process ap ix reqs c =
     (case CO_fault c of Some fault \<Rightarrow> rejectGroup ix reqs (Join base_ErrReadOnly fault) c
      | None \<Rightarrow>
          let active = map (applyCommitRedirects (CO_redirects c)) (orderUserBeforeRelocation reqs) in
          if active = [] then c
          else case ix_ResolveGroup ix (CO_mapping c) (map requestProposal active) of
            Inl e \<Rightarrow> rejectGroup ix active e (coord_fail e c)
          | Inr plan \<Rightarrow>
              (case assign_sequences (CO_next c) (zip active (GP_Proposals plan)) of
                 None \<Rightarrow> rejectGroup ix active base_ErrGenerationExhausted c
               | Some (sequences, descriptors, nxt) \<Rightarrow>
                   if descriptors = [] then rejectGroup ix active base_ErrConflict c
                   else case EncodeCommitGroup \<lparr>G_Descriptors = descriptors\<rparr> (CC_MaxGroupPayload (CO_config c)) of
                     Inl e \<Rightarrow> rejectGroup ix active e (coord_fail e c)
                   | Inr payload \<Rightarrow> commit_group ap ix active plan sequences descriptors nxt payload c))"

section \<open>Barriers and redirects\<close>

definition processCheckpoint ::
  "'l Appender \<Rightarrow> 'm Index \<Rightarrow> request \<Rightarrow> ('l, 'm) Coordinator \<Rightarrow> ('l, 'm) Coordinator" where
  "processCheckpoint ap ix rq c =
     (case CO_fault c of Some fault \<Rightarrow> answer_to rq (CheckpointAnswer (Inl (Join base_ErrReadOnly fault))) c
      | None \<Rightarrow>
          let covered = ix_CoveredCommitSeq ix (CO_mapping c) in
          if CO_next c = 0 \<or> covered = max_u64 \<or> CO_next c \<noteq> covered + 1
          then answer_to rq (CheckpointAnswer (Inl base_ErrCorrupt)) (coord_fail base_ErrCorrupt c)
          else case ap_Append ap (CO_log c) (EncodeCheckpoint \<lparr>CM_CoveredCommitSeq = covered\<rparr>) True of
            (Inl e, l) \<Rightarrow> answer_to rq (CheckpointAnswer (Inl e)) (coord_fail e (c\<lparr>CO_log := l\<rparr>))
          | (Inr physical, l) \<Rightarrow>
              answer_to rq (CheckpointAnswer (Inr \<lparr>CK_CoveredCommitSeq = covered, CK_ReplayStart = AR_End physical\<rparr>))
                (c\<lparr>CO_log := l\<rparr>))"

definition processRedirect :: "request \<Rightarrow> redirectRequest \<Rightarrow> ('l, 'm) Coordinator \<Rightarrow> ('l, 'm) Coordinator" where
  "processRedirect rq command c =
     (case CO_fault c of Some fault \<Rightarrow> answer_to rq (RedirectAnswer (Inl (Join base_ErrReadOnly fault))) c
      | None \<Rightarrow>
          if RD_install command \<noteq> [] then
            if CO_redirects c \<noteq> [] \<or> CO_redirectGen c = max_u64 then answer_to rq (RedirectAnswer (Inl base_ErrConflict)) c
            else answer_to rq (RedirectAnswer (Inr (CO_redirectGen c + 1)))
                   (c\<lparr>CO_redirectGen := CO_redirectGen c + 1, CO_redirects := RD_install command\<rparr>)
          else if RD_release command = 0 \<or> RD_release command \<noteq> CO_redirectGen c \<or> CO_redirects c = []
          then answer_to rq (RedirectAnswer (Inl base_ErrConflict)) c
          else answer_to rq (RedirectAnswer (Inr (RD_release command))) (c\<lparr>CO_redirects := []\<rparr>))"

section \<open>The goroutine\<close>

datatype receive = Received request | Unavailable | ChannelClosed

definition is_control :: "request \<Rightarrow> bool" where
  "is_control rq \<longleftrightarrow> CQ_redirect rq \<noteq> None \<or> CQ_barrier rq"

definition process_control ::
  "'l Appender \<Rightarrow> 'm Index \<Rightarrow> request \<Rightarrow> ('l, 'm) Coordinator \<Rightarrow> ('l, 'm) Coordinator" where
  "process_control ap ix rq c =
     (case CQ_redirect rq of Some command \<Rightarrow> processRedirect rq command c | None \<Rightarrow> processCheckpoint ap ix rq c)"

definition group_room :: "('l, 'm) Coordinator \<Rightarrow> request \<Rightarrow> nat res" where
  \<comment> \<open>the descriptor size of a request that fits a group of its own\<close>
  "group_room c rq =
     (case requestDescriptorSize rq of Inl e \<Rightarrow> Inl (Join base_ErrBatchTooLarge e)
      | Inr n \<Rightarrow> if unat CommitGroupHeadSize + n > unat (CC_MaxGroupPayload (CO_config c)) then Inl base_ErrBatchTooLarge else Inr n)"

text \<open>
  The inner loop of \<^verbatim>\<open>run\<close>: it collects a group from what is received and returns the events that are
  left and whether the channel was closed. An empty list is a channel on which nothing arrives.
\<close>

fun collect_group ::
  "'l Appender \<Rightarrow> 'm Index \<Rightarrow> receive list \<Rightarrow> request list \<Rightarrow> nat \<Rightarrow> ('l, 'm) Coordinator \<Rightarrow>
    bool \<times> receive list \<times> ('l, 'm) Coordinator" where
  "collect_group ap ix [] reqs bytes c = (False, [], coord_process ap ix reqs c)"
| "collect_group ap ix (event # events) reqs bytes c =
     (if \<not> int (length reqs) < CC_MaxGroupBatches (CO_config c)
      then (False, event # events, coord_process ap ix reqs c)
      else case event of
        Unavailable \<Rightarrow> (False, events, coord_process ap ix reqs c)
      | ChannelClosed \<Rightarrow> (True, events, coord_process ap ix reqs c)
      | Received nxt \<Rightarrow>
          if is_control nxt then (False, events, process_control ap ix nxt (coord_process ap ix reqs c))
          else case group_room c nxt of
            Inl e \<Rightarrow> collect_group ap ix events reqs bytes (rejectInvalid ix nxt e c)
          | Inr nextBytes \<Rightarrow>
              if bytes > unat (CC_MaxGroupPayload (CO_config c)) - nextBytes
              then collect_group ap ix events [nxt] (unat CommitGroupHeadSize + nextBytes) (coord_process ap ix reqs c)
              else collect_group ap ix events (reqs @ [nxt]) (bytes + nextBytes) c)"

definition run_turn ::
  "'l Appender \<Rightarrow> 'm Index \<Rightarrow> receive list \<Rightarrow> ('l, 'm) Coordinator \<Rightarrow> bool \<times> receive list \<times> ('l, 'm) Coordinator" where
  \<comment> \<open>one turn of the outer loop of \<^verbatim>\<open>run\<close>, whose receive blocks while nothing is available\<close>
  "run_turn ap ix events c =
     (case events of
        [] \<Rightarrow> (False, [], c)
      | Unavailable # rest \<Rightarrow> (False, rest, c)
      | ChannelClosed # rest \<Rightarrow> (True, rest, c)
      | Received first # rest \<Rightarrow>
          if is_control first then (False, rest, process_control ap ix first c)
          else case group_room c first of
            Inl e \<Rightarrow> (False, rest, rejectInvalid ix first e c)
          | Inr bytes \<Rightarrow> collect_group ap ix rest [first] (unat CommitGroupHeadSize + bytes) c)"

lemma collect_group_left: "collect_group ap ix events reqs bytes c = (closed, left, c') \<Longrightarrow> length left \<le> length events"
proof (induction events arbitrary: reqs bytes c)
  case (Cons event events)
  show ?case
  proof (cases event)
    case (Received rq)
    then show ?thesis
      using Cons.prems Cons.IH by (fastforce split: if_splits sum.splits intro: le_SucI)
  qed (use Cons.prems in \<open>auto split: if_splits\<close>)
qed simp

lemma run_turn_left: "run_turn ap ix events c = (closed, left, c') \<Longrightarrow> events \<noteq> [] \<Longrightarrow> length left < length events"
  by (auto simp: run_turn_def less_Suc_eq_le split: list.splits receive.splits if_splits sum.splits dest: collect_group_left)

text \<open>The goroutine: turns until the channel is closed or nothing more arrives.\<close>

function coord_run ::
  "'l Appender \<Rightarrow> 'm Index \<Rightarrow> receive list \<Rightarrow> ('l, 'm) Coordinator \<Rightarrow> bool \<times> receive list \<times> ('l, 'm) Coordinator" where
  "coord_run ap ix events c =
     (if events = [] then (False, [], c)
      else let (closed, left, c') = run_turn ap ix events c in
        if closed then (True, left, c') else coord_run ap ix left c')"
  by pat_completeness auto
termination
  by (relation "measure (\<lambda>(ap, ix, events, c). length events)") (auto dest: run_turn_left [OF sym])

declare coord_run.simps [simp del]

section \<open>Admission\<close>

definition new_request :: "('l, 'm) Coordinator \<Rightarrow> request" where
  "new_request c = \<lparr>CQ_chan = CO_chans c, CQ_batch = 0,
     CQ_prepared = \<lparr>PP_BatchID = 0, PP_Mutations = [], PP_Conditions = [], PP_LogicalPayloadBytes = 0\<rparr>,
     CQ_relocation = None, CQ_reserve = unlimitedReservation, CQ_deltaPressureGeneration = 0, CQ_barrier = False,
     CQ_redirect = None\<rparr>"

definition enqueue :: "request \<Rightarrow> ('l, 'm) Coordinator \<Rightarrow> ('l, 'm) Coordinator" where
  "enqueue rq c = c\<lparr>CO_requests := CO_requests c @ [rq], CO_chans := Suc (CO_chans c)\<rparr>"

record Receipt =
  RE_chan :: nat
  RE_deltaPressureGeneration :: u64

text \<open>
  A context is consulted on entry, after \<^verbatim>\<open>Prepare\<close> and while the request waits for room in the
  channel: the three arguments. The error of \<^verbatim>\<open>ReserveDelta\<close> is returned with the pressure generation.
\<close>

definition Submit ::
  "'m Index \<Rightarrow> err option \<Rightarrow> err option \<Rightarrow> err option \<Rightarrow> nat \<Rightarrow> ('l, 'm) Coordinator \<Rightarrow>
    ((err \<times> u64 + Receipt) \<times> ('l, 'm) Coordinator) option" where
  "Submit ix ctx ctx' queued h c =
     (case ctx of Some e \<Rightarrow> Some (Inl (e, 0), c)
      | None \<Rightarrow>
          case CO_fault c of Some fault \<Rightarrow> Some (Inl (Join base_ErrReadOnly fault, 0), c)
          | None \<Rightarrow>
              if CO_fenced c then None
              else case MutationIDs (CO_batches c h) of Inl e \<Rightarrow> Some (Inl (e, 0), c)
              | Inr ids \<Rightarrow>
                  (case ix_ReserveDelta ix (CO_mapping c) ids of
                     ((Inl e, pressure), m) \<Rightarrow> Some (Inl (e, pressure), c\<lparr>CO_mapping := m\<rparr>)
                   | ((Inr reservation, pressure), m) \<Rightarrow>
                       let c1 = c\<lparr>CO_mapping := m\<rparr>; (p, b) = Batch_Prepare (CO_batches c h); c2 = update_batch h (\<lambda>_. b) c1;
                           release = release_reserve ix reservation;
                           abort = (\<lambda>c. update_batch h (\<lambda>b. snd (MarkAborted b)) (release c))
                       in case p of Inl e \<Rightarrow> Some (Inl (e, 0), release c2)
                          | Inr prepared \<Rightarrow>
                              case ctx' of Some e \<Rightarrow> Some (Inl (e, 0), abort c2)
                              | None \<Rightarrow>
                                  if CO_closed c then Some (Inl (base_ErrClosed, 0), abort c2)
                                  else case queued of Some e \<Rightarrow> Some (Inl (e, 0), abort c2)
                                  | None \<Rightarrow>
                                      let rq = (new_request c)\<lparr>CQ_batch := h, CQ_prepared := prepared, CQ_reserve := reservation\<rparr>
                                      in Some (Inr \<lparr>RE_chan = CQ_chan rq, RE_deltaPressureGeneration = pressure\<rparr>,
                                               enqueue rq c2)))"

definition Receipt_Wait :: "Receipt \<Rightarrow> ('l, 'm) Coordinator \<Rightarrow> commit_Result res option" where
  \<comment> \<open>\<open>None\<close> while there is no answer\<close>
  "Receipt_Wait r c = (case map_of (CO_answers c) (RE_chan r) of Some (CommitAnswer x) \<Rightarrow> Some x | _ \<Rightarrow> None)"

definition Relocate ::
  "'m Index \<Rightarrow> err option \<Rightarrow> err option \<Rightarrow> Relocation \<Rightarrow> ('l, 'm) Coordinator \<Rightarrow>
    ((err \<times> u64 + nat) \<times> ('l, 'm) Coordinator) option" where
  \<comment> \<open>up to the wait for the answer, whose channel is returned\<close>
  "Relocate ix ctx queued r c =
     (case ctx of Some e \<Rightarrow> Some (Inl (e, 0), c)
      | None \<Rightarrow>
          case CO_fault c of Some fault \<Rightarrow> Some (Inl (Join base_ErrReadOnly fault, 0), c)
          | None \<Rightarrow>
              if CO_fenced c then None
              else if RL_BatchID r = 0 \<or> validateProposal (relocationProposal r) \<noteq> None
              then Some (Inl (base_ErrInvalidConfig, 0), c)
              else (case ix_ReserveDelta ix (CO_mapping c) (map CH_RecordID (RL_Changes r)) of
                 ((Inl e, pressure), m) \<Rightarrow> Some (Inl (e, pressure), c\<lparr>CO_mapping := m\<rparr>)
               | ((Inr reservation, pressure), m) \<Rightarrow>
                   let c1 = c\<lparr>CO_mapping := m\<rparr>; release = release_reserve ix reservation in
                   if CO_closed c then Some (Inl (base_ErrClosed, 0), release c1)
                   else case queued of Some e \<Rightarrow> Some (Inl (e, 0), release c1)
                   | None \<Rightarrow>
                       let rq = (new_request c)\<lparr>CQ_relocation := Some r, CQ_reserve := reservation,
                             CQ_deltaPressureGeneration := pressure\<rparr>
                       in Some (Inr (CQ_chan rq), enqueue rq c1)))"

definition acquireCheckpointFence ::
  "err option \<Rightarrow> err option \<Rightarrow> ('l, 'm) Coordinator \<Rightarrow> (nat res \<times> ('l, 'm) Coordinator) option" where
  \<comment> \<open>up to the wait for the answer; the admission lock is taken\<close>
  "acquireCheckpointFence ctx queued c =
     (case ctx of Some e \<Rightarrow> Some (Inl e, c)
      | None \<Rightarrow>
          case CO_fault c of Some fault \<Rightarrow> Some (Inl (Join base_ErrReadOnly fault), c)
          | None \<Rightarrow>
              if CO_fenced c then None
              else if CO_closed c then Some (Inl base_ErrClosed, c)
              else case queued of Some e \<Rightarrow> Some (Inl e, c)
              | None \<Rightarrow> let rq = (new_request c)\<lparr>CQ_barrier := True\<rparr> in
                  Some (Inr (CQ_chan rq), (enqueue rq c)\<lparr>CO_fenced := True\<rparr>))"

definition fence_answer :: "nat \<Rightarrow> ('l, 'm) Coordinator \<Rightarrow> (CheckpointCut res \<times> ('l, 'm) Coordinator) option" where
  \<comment> \<open>the rest of \<^verbatim>\<open>acquireCheckpointFence\<close>: an error gives the lock back\<close>
  "fence_answer chan c =
     (case map_of (CO_answers c) chan of
        Some (CheckpointAnswer (Inl e)) \<Rightarrow> Some (Inl e, c\<lparr>CO_fenced := False\<rparr>)
      | Some (CheckpointAnswer (Inr found)) \<Rightarrow> Some (Inr found, c)
      | _ \<Rightarrow> None)"

definition fence_Release :: "('l, 'm) Coordinator \<Rightarrow> ('l, 'm) Coordinator" where
  "fence_Release c = c\<lparr>CO_fenced := False\<rparr>"

definition submitRedirect ::
  "err option \<Rightarrow> err option \<Rightarrow> redirectRequest \<Rightarrow> bool \<Rightarrow> ('l, 'm) Coordinator \<Rightarrow> (nat res \<times> ('l, 'm) Coordinator) option" where
  "submitRedirect ctx queued command fenceAdmission c =
     (case ctx of Some e \<Rightarrow> Some (Inl e, c)
      | None \<Rightarrow>
          case CO_fault c of Some fault \<Rightarrow> Some (Inl (Join base_ErrReadOnly fault), c)
          | None \<Rightarrow>
              if fenceAdmission \<and> CO_fenced c then None
              else if CO_closed c then Some (Inl base_ErrClosed, c)
              else case queued of Some e \<Rightarrow> Some (Inl e, c)
              | None \<Rightarrow> let rq = (new_request c)\<lparr>CQ_redirect := Some command\<rparr> in Some (Inr (CQ_chan rq), enqueue rq c))"

definition valid_redirect :: "VAddr \<times> RecordRef \<Rightarrow> bool" where
  "valid_redirect = (\<lambda>(old, replacement).
     VAddr_Valid old \<and> RecordRef_Valid replacement \<and> old \<noteq> Ref_Addr replacement \<and>
     IsCompactionSegment (VAddr_SegmentID (Ref_Addr replacement)))"

definition InstallCommitRedirects ::
  "err option \<Rightarrow> err option \<Rightarrow> redirects \<Rightarrow> ('l, 'm) Coordinator \<Rightarrow> (nat res \<times> ('l, 'm) Coordinator) option" where
  "InstallCommitRedirects ctx queued table c =
     (case ctx of Some e \<Rightarrow> Some (Inl e, c)
      | None \<Rightarrow>
          if table = [] \<or> \<not> list_all valid_redirect table then Some (Inl base_ErrInvalidConfig, c)
          else submitRedirect ctx queued \<lparr>RD_install = table, RD_release = 0\<rparr> False c)"

definition CommitRedirects_Release ::
  "err option \<Rightarrow> err option \<Rightarrow> CommitRedirects \<Rightarrow> ('l, 'm) Coordinator \<Rightarrow>
    ((nat res \<times> CommitRedirects) \<times> ('l, 'm) Coordinator) option" where
  "CommitRedirects_Release ctx queued r c =
     (if CX_released r then Some ((Inl base_ErrConflict, r), c)
      else case submitRedirect ctx queued \<lparr>RD_install = [], RD_release = CX_generation r\<rparr> True c of
        None \<Rightarrow> None
      | Some (Inl e, c') \<Rightarrow> Some ((Inl e, r), c')
      | Some (Inr chan, c') \<Rightarrow> Some ((Inr chan, r\<lparr>CX_released := True\<rparr>), c'))"

definition coordinator_Close :: "('l, 'm) Coordinator \<Rightarrow> (err option \<times> ('l, 'm) Coordinator) option" where
  \<comment> \<open>up to the wait for the goroutine, which drains the channel\<close>
  "coordinator_Close c =
     (if CO_fenced c then None
      else if CO_closed c then Some (Some base_ErrClosed, c) else Some (None, c\<lparr>CO_closed := True\<rparr>))"

end
