(* ===== verification/Wal_Replay.thy ===== *)
theory Wal_Replay
  imports Commit_Coordinator
begin

text \<open>
  Replay of the log after a restart (\<^verbatim>\<open>internal/replay/replay.go\<close>): starting from the mapping and the
  counters of a checkpoint, every record behind the checkpoint is decoded and checked, commit groups
  are published again and the terminal states of batches are collected.

  The log is a pair of functions: \<open>scan\<close> folds a visitor over the records from a position on, \<open>read\<close>
  returns the payload at an address. The Go maps of statuses and of seen batch ids are an association
  list and a list. The mapping is threaded through the result; when recovery fails the caller drops
  it, so the release of reservations on an error path has nothing to act on. The texts of anonymous
  errors are not modelled.
\<close>

section \<open>Data\<close>

record replay_Config =
  RF_MaxValueSize :: u64
  RF_MaxRecordPayload :: u64
  RF_MaxGroupDescriptors :: u64
  RF_MaxGroupMutations :: u64
  RF_IDReserveSize :: u64
  RF_BatchIDReserveSize :: u64
  RF_StatusCapacity :: u64

record 'm Checkpoint =
  CP_Mapping :: 'm
  CP_ReplayStart :: LogPos
  CP_ReservedIDHigh :: u64
  CP_ReservedBatchIDHigh :: u64
  CP_OpenBatchIDs :: "BatchID list"

datatype BatchState = BatchAborted | BatchCommitted

record BatchStatus =
  BS_State :: BatchState
  BS_CommitSeq :: CommitSeq

record 'm replay_Result =
  RV_Mapping :: 'm
  RV_NextCommitSeq :: CommitSeq
  RV_ReservedIDHigh :: u64
  RV_ReservedBatchIDHigh :: u64
  RV_Statuses :: "(BatchID \<times> BatchStatus) list"
  RV_StatusOrder :: "BatchID list"
  RV_TerminalCount :: u64

type_synonym 'm replay_state = "'m replay_Result \<times> BatchID list"  \<comment> \<open>with \<^verbatim>\<open>seenTerminal\<close>\<close>

definition corrupt :: "err option \<Rightarrow> err" where
  "corrupt cause = (case cause of None \<Rightarrow> base_ErrCorrupt | Some e \<Rightarrow> Join base_ErrCorrupt e)"

section \<open>One descriptor\<close>

definition before :: "VAddr \<Rightarrow> VAddr \<Rightarrow> bool" where
  "before addr limit =
     (if \<not> VAddr_Valid addr \<or> \<not> VAddr_Valid limit then False
      else VAddr_SegmentID addr < VAddr_SegmentID limit \<or>
           VAddr_SegmentID addr = VAddr_SegmentID limit \<and> VAddr_Offset addr < VAddr_Offset limit)"

definition availableBeforeCommit :: "VAddr \<Rightarrow> VAddr \<Rightarrow> bool" where
  "availableBeforeCommit addr commit \<longleftrightarrow> IsCompactionSegment (VAddr_SegmentID addr) \<or> before addr commit"

definition readPut :: "(VAddr \<Rightarrow> bytes res) \<Rightarrow> VAddr \<Rightarrow> u64 \<Rightarrow> PutRecord res" where
  "readPut read addr maxValue = res_bind (read addr) (\<lambda>payload. DecodePut payload maxValue)"

definition mutation_proposal_change :: "Mutation \<Rightarrow> Operation \<Rightarrow> Change" where
  "mutation_proposal_change m operation =
     \<lparr>CH_RecordID = M_RecordID m, CH_NewRef = \<lparr>Ref_Addr = M_NewAddr m, Ref_PhysicalSize = M_PhysicalSize m\<rparr>,
      CH_ExpectedOldAddr = M_ExpectedOldAddr m, CH_Operation = operation\<rparr>"

text \<open>The body of the loop of \<^verbatim>\<open>descriptorProposal\<close>: the logical bytes so far and the changes so far.\<close>

definition descriptor_change ::
  "(VAddr \<Rightarrow> bytes res) \<Rightarrow> BatchID \<Rightarrow> VAddr \<Rightarrow> u64 \<Rightarrow> u64 \<Rightarrow> u64 \<times> Change list \<Rightarrow> Mutation \<Rightarrow> (u64 \<times> Change list) res" where
  "descriptor_change read batchID commitAddr reservedIDHigh maxValue = (\<lambda>(logical, changes) mutation.
     if M_RecordID mutation \<ge> reservedIDHigh then Inl (corrupt None)
     else if M_Operation mutation = OperationDelete
     then Inr (logical, changes @ [mutation_proposal_change mutation mapping_OperationDelete])
     else if M_Operation mutation = OperationPut \<or> M_Operation mutation = OperationRelocate then
       if \<not> availableBeforeCommit (M_NewAddr mutation) commitAddr \<or>
          M_Operation mutation = OperationRelocate \<and> \<not> availableBeforeCommit (M_ExpectedOldAddr mutation) commitAddr
       then Inl (corrupt None)
       else case readPut read (M_NewAddr mutation) maxValue of Inl e \<Rightarrow> Inl (corrupt (Some e))
       | Inr put \<Rightarrow>
         (case PhysicalRecordSize (unat PutHeaderSize + length (P_Value put)) of Inl e \<Rightarrow> Inl (corrupt (Some e))
          | Inr physicalSize \<Rightarrow>
            if P_RecordID put \<noteq> M_RecordID mutation \<or> physicalSize \<noteq> M_PhysicalSize mutation then Inl (corrupt None)
            else if logical > max_u64 - word_of_nat (length (P_Value put)) then Inl (corrupt None)
            else let logical' = logical + word_of_nat (length (P_Value put)) in
              if M_Operation mutation = OperationPut then
                if P_OriginBatchID put \<noteq> batchID then Inl (corrupt None)
                else Inr (logical', changes @ [mutation_proposal_change mutation mapping_OperationPut])
              else (case readPut read (M_ExpectedOldAddr mutation) maxValue of Inl e \<Rightarrow> Inl (corrupt (Some e))
                | Inr old \<Rightarrow>
                    if P_RecordID old \<noteq> P_RecordID put \<or> P_OriginBatchID old \<noteq> P_OriginBatchID put \<or>
                       P_Value old \<noteq> P_Value put
                    then Inl (corrupt None)
                    else Inr (logical', changes @ [mutation_proposal_change mutation mapping_OperationRelocate])))
     else Inl (corrupt None))"

definition descriptorProposal ::
  "(VAddr \<Rightarrow> bytes res) \<Rightarrow> Descriptor \<Rightarrow> VAddr \<Rightarrow> u64 \<Rightarrow> u64 \<Rightarrow> Proposal res" where
  "descriptorProposal read d commitAddr reservedIDHigh maxValue =
     res_bind (res_fold (descriptor_change read (D_BatchID d) commitAddr reservedIDHigh maxValue) (0, []) (D_Mutations d))
       (\<lambda>(logical, changes).
          if logical \<noteq> D_LogicalPayloadBytes d then Inl (corrupt None)
          else Inr \<lparr>PR_Kind = (if D_Kind d = DescriptorRelocation then ProposalRelocation else ProposalUserCommit),
                    PR_Conditions = [], PR_Changes = changes\<rparr>)"

section \<open>One commit group\<close>

text \<open>
  The first loop of \<^verbatim>\<open>replayGroup\<close>: bounds of the batch ids and the seen terminal batches. The counter
  of new statuses is a length.
\<close>

definition note_descriptor ::
  "u64 \<Rightarrow> (BatchID \<times> BatchStatus) list \<Rightarrow> BatchID list \<times> nat \<Rightarrow> Descriptor \<Rightarrow> (BatchID list \<times> nat) res" where
  "note_descriptor high statuses = (\<lambda>(seen, newStatuses) d.
     if D_BatchID d \<ge> high then Inl (corrupt None)
     else if D_Kind d \<noteq> DescriptorUserCommit then Inr (seen, newStatuses)
     else if D_BatchID d \<in> set seen then Inl (corrupt None)
     else Inr (D_BatchID d # seen,
               if map_of statuses (D_BatchID d) = None then Suc newStatuses else newStatuses))"

text \<open>The second loop: the proposals and the reservations.\<close>

definition propose_descriptor ::
  "'m Index \<Rightarrow> (VAddr \<Rightarrow> bytes res) \<Rightarrow> VAddr \<Rightarrow> u64 \<Rightarrow> u64 \<Rightarrow> Proposal list \<times> DeltaReservation option list \<times> 'm \<Rightarrow>
    Descriptor \<Rightarrow> (Proposal list \<times> DeltaReservation option list \<times> 'm) res" where
  "propose_descriptor ix read commitAddr reservedIDHigh maxValue = (\<lambda>(proposals, reservations, m) d.
     res_bind (descriptorProposal read d commitAddr reservedIDHigh maxValue) (\<lambda>proposal.
       case ix_ReserveDelta ix m (map M_RecordID (D_Mutations d)) of
         ((Inl e, _), m') \<Rightarrow> Inl (Join base_ErrInvalidConfig e)
       | ((Inr reservation, _), m') \<Rightarrow> Inr (proposals @ [proposal], reservations @ [Some reservation], m')))"

definition note_status :: "'m replay_Result \<Rightarrow> Descriptor \<Rightarrow> 'm replay_Result" where
  "note_status result d =
     (if D_Kind d = DescriptorUserCommit
      then result\<lparr>RV_Statuses := AList.update (D_BatchID d) \<lparr>BS_State = BatchCommitted, BS_CommitSeq = D_CommitSeq d\<rparr> (RV_Statuses result),
                  RV_StatusOrder := RV_StatusOrder result @ [D_BatchID d]\<rparr>
      else result)"

definition replayGroup ::
  "'m Index \<Rightarrow> (VAddr \<Rightarrow> bytes res) \<Rightarrow> replay_Config \<Rightarrow> 'm replay_state \<Rightarrow> AppendResult \<Rightarrow> bytes \<Rightarrow> 'm replay_state res" where
  "replayGroup ix read config = (\<lambda>(result, seenTerminal) physical payload.
     case DecodeCommitGroup payload (RF_MaxRecordPayload config) (RF_MaxGroupDescriptors config) (RF_MaxGroupMutations config) of
       Inl e \<Rightarrow> Inl (corrupt (Some e))
     | Inr g \<Rightarrow>
         let ds = G_Descriptors g in
         if D_CommitSeq (hd ds) \<noteq> RV_NextCommitSeq result then Inl (corrupt None)
         else
         res_bind (res_fold (note_descriptor (RV_ReservedBatchIDHigh result) (RV_Statuses result)) (seenTerminal, 0) ds)
           (\<lambda>(seen, newStatuses).
         if newStatuses > unat (RF_StatusCapacity config) \<or>
            length (RV_Statuses result) > unat (RF_StatusCapacity config) - newStatuses
         then Inl base_ErrStatusCapacity
         else
         res_bind (res_fold (propose_descriptor ix read (AR_Addr physical) (RV_ReservedIDHigh result) (RF_MaxValueSize config))
             ([], [], RV_Mapping result) ds) (\<lambda>(proposals, reservations, m).
         case ix_ResolveGroup ix m proposals of Inl e \<Rightarrow> Inl (corrupt (Some e))
         | Inr plan \<Rightarrow>
             if \<not> list_all RP_Accepted (GP_Proposals plan) then Inl (corrupt None)
             else let result1 = foldl note_status result ds in
               (case ix_PublishGroup ix (RV_NextCommitSeq result) plan reservations m of
                  (Inl e, _) \<Rightarrow> Inl (corrupt (Some e))
                | (Inr _, m') \<Rightarrow>
                    if D_CommitSeq (last ds) = max_u64 then Inl (corrupt None)
                    else Inr (result1\<lparr>RV_Mapping := m', RV_NextCommitSeq := D_CommitSeq (last ds) + 1\<rparr>, seen)))))"

section \<open>One record\<close>

definition retainStatus :: "'m replay_Result \<Rightarrow> BatchID \<Rightarrow> BatchStatus \<Rightarrow> u64 \<Rightarrow> 'm replay_Result res" where
  "retainStatus result i status capacity =
     (if map_of (RV_Statuses result) i = None \<and> length (RV_Statuses result) \<ge> unat capacity then Inl base_ErrStatusCapacity
      else Inr (result\<lparr>RV_Statuses := AList.update i status (RV_Statuses result), RV_StatusOrder := RV_StatusOrder result @ [i]\<rparr>))"

definition replay_put :: "replay_Config \<Rightarrow> 'm replay_state \<Rightarrow> bytes \<Rightarrow> 'm replay_state res" where
  "replay_put config = (\<lambda>(result, seen) payload.
     case DecodePut payload (RF_MaxValueSize config) of Inl e \<Rightarrow> Inl (corrupt (Some e))
     | Inr put \<Rightarrow>
         if P_RecordID put \<ge> RV_ReservedIDHigh result \<or> P_OriginBatchID put \<ge> RV_ReservedBatchIDHigh result
         then Inl (corrupt None) else Inr (result, seen))"

definition replay_abort :: "replay_Config \<Rightarrow> 'm replay_state \<Rightarrow> bytes \<Rightarrow> 'm replay_state res" where
  "replay_abort config = (\<lambda>(result, seen) payload.
     case DecodeAbort payload of Inl e \<Rightarrow> Inl (corrupt (Some e))
     | Inr abort \<Rightarrow>
         if AB_BatchID abort \<ge> RV_ReservedBatchIDHigh result then Inl (corrupt None)
         else if AB_BatchID abort \<in> set seen then Inl (corrupt None)
         else res_bind (retainStatus result (AB_BatchID abort) \<lparr>BS_State = BatchAborted, BS_CommitSeq = 0\<rparr> (RF_StatusCapacity config))
           (\<lambda>result'. Inr (result', AB_BatchID abort # seen)))"

definition replay_reserve :: "replay_Config \<Rightarrow> RecordType \<Rightarrow> 'm replay_state \<Rightarrow> bytes \<Rightarrow> 'm replay_state res" where
  "replay_reserve config typ = (\<lambda>(result, seen) payload.
     case DecodeReserve payload typ of Inl e \<Rightarrow> Inl (corrupt (Some e))
     | Inr r \<Rightarrow>
         if typ = RecordTypeIDReserve then
           (case AdvanceRecovered KindRecordID (RF_IDReserveSize config) (RV_ReservedIDHigh result) r of
              Inl e \<Rightarrow> Inl (corrupt (Some e)) | Inr h \<Rightarrow> Inr (result\<lparr>RV_ReservedIDHigh := h\<rparr>, seen))
         else
           (case AdvanceRecovered KindBatchID (RF_BatchIDReserveSize config) (RV_ReservedBatchIDHigh result) r of
              Inl e \<Rightarrow> Inl (corrupt (Some e)) | Inr h \<Rightarrow> Inr (result\<lparr>RV_ReservedBatchIDHigh := h\<rparr>, seen)))"

definition replay_checkpoint :: "'m Index \<Rightarrow> 'm replay_state \<Rightarrow> bytes \<Rightarrow> 'm replay_state res" where
  "replay_checkpoint ix = (\<lambda>(result, seen) payload.
     case DecodeCheckpoint payload of Inl e \<Rightarrow> Inl (corrupt (Some e))
     | Inr marker \<Rightarrow>
         if CM_CoveredCommitSeq marker > ix_CoveredCommitSeq ix (RV_Mapping result) then Inl (corrupt None)
         else Inr (result, seen))"

text \<open>The visitor of \<^verbatim>\<open>Recover\<close>.\<close>

definition replay_record ::
  "'m Index \<Rightarrow> (VAddr \<Rightarrow> bytes res) \<Rightarrow> replay_Config \<Rightarrow> 'm replay_state visitor" where
  "replay_record ix read config st physical payload =
     (case TypeOf payload of Inl e \<Rightarrow> Inl (corrupt (Some e))
      | Inr typ \<Rightarrow>
          if typ = RecordTypePut then replay_put config st payload
          else if typ = RecordTypeCommitGroup then replayGroup ix read config st physical payload
          else if typ = RecordTypeAbort then replay_abort config st payload
          else if typ = RecordTypeIDReserve \<or> typ = RecordTypeBatchIDReserve then replay_reserve config typ st payload
          else if typ = RecordTypeCheckpoint then replay_checkpoint ix st payload
          else Inl (corrupt None))"

section \<open>Recovery\<close>

definition note_open ::
  "u64 \<Rightarrow> (BatchID \<times> BatchStatus) list \<Rightarrow> BatchID \<Rightarrow> (BatchID \<times> BatchStatus) list res" where
  "note_open high statuses i =
     (if i = 0 \<or> i \<ge> high then Inl (corrupt None)
      else if map_of statuses i \<noteq> None then Inl (corrupt None)
      else Inr (AList.update i \<lparr>BS_State = BatchAborted, BS_CommitSeq = 0\<rparr> statuses))"

definition replay_Config_ok :: "replay_Config \<Rightarrow> bool" where
  "replay_Config_ok config \<longleftrightarrow> RF_MaxValueSize config \<noteq> 0 \<and> RF_MaxRecordPayload config \<noteq> 0 \<and>
     RF_MaxGroupDescriptors config \<noteq> 0 \<and> RF_MaxGroupMutations config \<noteq> 0 \<and> RF_IDReserveSize config \<noteq> 0 \<and>
     RF_BatchIDReserveSize config \<noteq> 0 \<and> RF_StatusCapacity config \<noteq> 0"

definition replay_init :: "'m Index \<Rightarrow> 'm Checkpoint \<Rightarrow> (BatchID \<times> BatchStatus) list \<Rightarrow> 'm replay_Result" where
  "replay_init ix checkpoint statuses =
     \<lparr>RV_Mapping = CP_Mapping checkpoint, RV_NextCommitSeq = ix_CoveredCommitSeq ix (CP_Mapping checkpoint) + 1,
      RV_ReservedIDHigh = CP_ReservedIDHigh checkpoint, RV_ReservedBatchIDHigh = CP_ReservedBatchIDHigh checkpoint,
      RV_Statuses = statuses, RV_StatusOrder = [], RV_TerminalCount = 0\<rparr>"

definition replay_Recover ::
  "'m Index \<Rightarrow> (LogPos \<Rightarrow> 'm replay_state visitor \<Rightarrow> 'm replay_state \<Rightarrow> 'm replay_state res) \<Rightarrow> (VAddr \<Rightarrow> bytes res) \<Rightarrow>
    'm Checkpoint \<Rightarrow> replay_Config \<Rightarrow> 'm replay_Result res" where
  "replay_Recover ix scan read checkpoint config =
     (if \<not> LogPos_Valid (CP_ReplayStart checkpoint) \<or> CP_ReservedIDHigh checkpoint = 0 \<or> CP_ReservedBatchIDHigh checkpoint = 0 \<or>
         \<not> replay_Config_ok config \<or> length (CP_OpenBatchIDs checkpoint) > unat (RF_StatusCapacity config) \<or>
         ix_CoveredCommitSeq ix (CP_Mapping checkpoint) = max_u64
      then Inl base_ErrInvalidConfig
      else
      res_bind (res_fold (note_open (CP_ReservedBatchIDHigh checkpoint)) [] (CP_OpenBatchIDs checkpoint)) (\<lambda>statuses.
      res_bind (scan (CP_ReplayStart checkpoint) (replay_record ix read config) (replay_init ix checkpoint statuses, []))
        (\<lambda>(result, seen).
           Inr (result\<lparr>RV_StatusOrder := RV_StatusOrder result @ filter (\<lambda>i. i \<notin> set seen) (CP_OpenBatchIDs checkpoint),
                       RV_TerminalCount := word_of_nat (length (RV_Statuses result))\<rparr>))))"

end
