(* ===== verification/Commit_History.thy ===== *)
theory Commit_History
  imports Wal_Replay Batch_Properties Mapping_Publish Record_Log
begin

text \<open>
  The history that a log records: the descriptors of its commit groups, the terminal states of its
  batches and the mapping entries they lead to. Replay of a log computes exactly its history, for
  every implementation of the mapping that keeps the contract of \<open>mapping_index\<close>.
\<close>

section \<open>The history of a log\<close>

definition commits_of :: "bytes \<Rightarrow> Descriptor list" where
  "commits_of p = (case DecodeCommitGroup p max_u64 max_u64 max_u64 of Inl _ \<Rightarrow> [] | Inr g \<Rightarrow> G_Descriptors g)"

definition committed :: "log_record list \<Rightarrow> Descriptor list" where
  "committed rs = concat (map (\<lambda>r. commits_of (snd r)) rs)"

definition descriptor_spec :: "Descriptor \<Rightarrow> Proposal" where
  "descriptor_spec d =
     \<lparr>PR_Kind = (if D_Kind d = DescriptorRelocation then ProposalRelocation else ProposalUserCommit), PR_Conditions = [],
      PR_Changes = map (\<lambda>m. mutation_proposal_change m (M_Operation m)) (D_Mutations d)\<rparr>"

definition replay_entries :: "entries \<Rightarrow> Descriptor list \<Rightarrow> entries" where
  "replay_entries es ds = spec_group es (map descriptor_spec ds)"

definition user_commits :: "Descriptor list \<Rightarrow> (BatchID \<times> BatchStatus) list" where
  "user_commits ds =
     map (\<lambda>d. (D_BatchID d, \<lparr>BS_State = BatchCommitted, BS_CommitSeq = D_CommitSeq d\<rparr>)) (filter (\<lambda>d. D_Kind d = DescriptorUserCommit) ds)"

definition terminals_of :: "bytes \<Rightarrow> (BatchID \<times> BatchStatus) list" where
  "terminals_of p =
     (case DecodeAbort p of Inr a \<Rightarrow> [(AB_BatchID a, \<lparr>BS_State = BatchAborted, BS_CommitSeq = 0\<rparr>)]
      | Inl _ \<Rightarrow> user_commits (commits_of p))"

definition terminals :: "log_record list \<Rightarrow> (BatchID \<times> BatchStatus) list" where
  "terminals rs = concat (map (\<lambda>r. terminals_of (snd r)) rs)"

lemma history_simps [simp]:
  "committed [] = []" "committed (r # rs) = commits_of (snd r) @ committed rs" "committed (rs @ rs') = committed rs @ committed rs'"
  "terminals [] = []" "terminals (r # rs) = terminals_of (snd r) @ terminals rs" "terminals (rs @ rs') = terminals rs @ terminals rs'"
  "replay_entries es [] = es" "replay_entries es (ds @ ds') = replay_entries (replay_entries es ds) ds'"
  "user_commits [] = []" "user_commits (ds @ ds') = user_commits ds @ user_commits ds'"
  by (simp_all add: committed_def terminals_def replay_entries_def spec_group_append user_commits_def)

lemma user_commits_Cons:
  "user_commits (d # ds) =
     (if D_Kind d = DescriptorUserCommit then [(D_BatchID d, \<lparr>BS_State = BatchCommitted, BS_CommitSeq = D_CommitSeq d\<rparr>)] else []) @
     user_commits ds"
  by (simp add: user_commits_def)

lemma committed_take: "committed (take n rs) @ committed (drop n rs) = committed rs"
  by (metis append_take_drop_id history_simps(3))

section \<open>Types of records\<close>

lemma decodeHeader_type: "decodeHeader src typ hs = Inr h \<Longrightarrow> src ! 6 = typ"
  by (auto simp: decodeHeader_def Let_def split: if_splits)

lemma TypeOf_type: "TypeOf p = Inr t \<Longrightarrow> p ! 6 = t"
  by (auto simp: TypeOf_def Let_def split: if_splits)

lemma DecodeCommitGroup_type: "DecodeCommitGroup p a b c = Inr g \<Longrightarrow> p ! 6 = RecordTypeCommitGroup"
  by (auto simp: DecodeCommitGroup_def dest: decodeHeader_type split: if_splits)

lemma DecodeAbort_type: "DecodeAbort p = Inr a \<Longrightarrow> p ! 6 = RecordTypeAbort"
  by (auto simp: DecodeAbort_def dest: decodeHeader_type)

lemma commits_of_other: "p ! 6 \<noteq> RecordTypeCommitGroup \<Longrightarrow> commits_of p = []"
  by (auto simp: commits_of_def dest: DecodeCommitGroup_type split: sum.splits)

lemma terminals_of_other: "p ! 6 \<noteq> RecordTypeAbort \<Longrightarrow> terminals_of p = user_commits (commits_of p)"
  by (auto simp: terminals_of_def dest: DecodeAbort_type split: sum.splits)

lemma commits_of_group:
  assumes "DecodeCommitGroup p a b c = Inr g"
  shows "commits_of p = G_Descriptors g"
proof -
  have "EncodeCommitGroup g a = Inr p" "length (G_Descriptors g) \<le> unat b" "total_mutations (G_Descriptors g) \<le> unat c"
    using DecodeCommitGroup_Inr [OF assms] by auto
  then have "EncodeCommitGroup g max_u64 = Inr p" by (auto simp: EncodeCommitGroup_Inr)
  moreover have "length (G_Descriptors g) \<le> unat (max_u64 :: u64)" "total_mutations (G_Descriptors g) \<le> unat (max_u64 :: u64)"
    using \<open>length _ \<le> unat b\<close> \<open>total_mutations _ \<le> unat c\<close> unat_u64_bound [of b] unat_u64_bound [of c] by auto
  ultimately have "DecodeCommitGroup p max_u64 max_u64 max_u64 = Inr g" by (rule DecodeCommitGroup_encode)
  then show ?thesis by (simp add: commits_of_def)
qed

lemma commits_of_encode:
  assumes "EncodeCommitGroup \<lparr>G_Descriptors = ds\<rparr> n = Inr p"
  shows "commits_of p = ds" "validateDescriptors ds = None" "p ! 6 = RecordTypeCommitGroup"
proof -
  have "length ds \<le> MaxUint32 \<and> total_mutations ds \<le> MaxUint32"
    using assms by (simp add: EncodeCommitGroup_Inr descriptors_bytes_eq)
  then have d: "DecodeCommitGroup p n max_u64 max_u64 = Inr \<lparr>G_Descriptors = ds\<rparr>"
    using DecodeCommitGroup_encode [OF assms, of max_u64 max_u64] by simp
  show "commits_of p = ds" using commits_of_group [OF d] by simp
  show "p ! 6 = RecordTypeCommitGroup" by (rule DecodeCommitGroup_type [OF d])
  show "validateDescriptors ds = None" using assms by (simp add: EncodeCommitGroup_Inr)
qed

section \<open>Ports\<close>

text \<open>The contracts of the mapping and of the log, for the records of operations that their clients hold.\<close>

locale index_port = mapping_index "ix_ReserveDelta ix" "ix_Release ix" "ix_ResolveGroup ix" "ix_PublishGroup ix" entries_of
  "ix_CoveredCommitSeq ix" ok
  for ix :: "'m Index" and entries_of :: "'m \<Rightarrow> entries" and ok :: "'m \<Rightarrow> bool"

locale log_port = append_log "ap_Append ap" contents durable "ap_Poisoned ap" log_ok
  for ap :: "'l Appender" and contents :: "'l \<Rightarrow> log_record list" and durable :: "'l \<Rightarrow> nat" and log_ok :: "'l \<Rightarrow> bool"

definition memory_port :: "(Mapping \<times> deltaBudget) Index" where
  "memory_port = \<lparr>ix_ReserveDelta = index_ReserveDelta, ix_Release = index_Release, ix_ResolveGroup = index_ResolveGroup,
     ix_PublishGroup = mapping_PublishGroup, ix_CoveredCommitSeq = index_covered\<rparr>"

lemma memory_port_simps [simp]:
  "ix_ReserveDelta memory_port = index_ReserveDelta" "ix_Release memory_port = index_Release"
  "ix_ResolveGroup memory_port = index_ResolveGroup" "ix_PublishGroup memory_port = mapping_PublishGroup"
  "ix_CoveredCommitSeq memory_port = index_covered"
  by (simp_all add: memory_port_def)

interpretation memory_index: index_port memory_port index_entries index_ok
  unfolding index_port_def memory_port_simps by (rule memory.mapping_index_axioms)

definition wal_port :: "'c CatalogPort \<Rightarrow> 'c log_client Appender" where
  "wal_port port = \<lparr>ap_Append = client_append port, ap_Poisoned = (\<lambda>k. log_poisoned (LC_log k))\<rparr>"

lemma wal_port_simps [simp]:
  "ap_Append (wal_port port) = client_append port" "ap_Poisoned (wal_port port) = (\<lambda>k. log_poisoned (LC_log k))"
  by (simp_all add: wal_port_def)

interpretation wal_appender: log_port "wal_port port" "\<lambda>k. log_contents (LC_log k)" "\<lambda>k. log_durable (LC_log k)"
  "\<lambda>k. log_ok (LC_log k)" for port :: "'c CatalogPort"
  unfolding log_port_def wal_port_simps by (rule wal.append_log_axioms)

section \<open>Replay computes the history\<close>

lemma descriptor_changes_fold:
  assumes "res_fold (descriptor_change read b commitAddr high maxv) (logical, cs) ms = Inr (logical', cs')"
  shows "cs' = cs @ map (\<lambda>m. mutation_proposal_change m (M_Operation m)) ms \<and> (\<forall>m \<in> set ms. M_RecordID m < high)"
  using assms
proof (induction ms arbitrary: logical cs)
  case Nil
  then show ?case by simp
next
  case (Cons m ms)
  then obtain l1 cs1 where s: "descriptor_change read b commitAddr high maxv (logical, cs) m = Inr (l1, cs1)"
    and rest: "res_fold (descriptor_change read b commitAddr high maxv) (l1, cs1) ms = Inr (logical', cs')" by auto
  have "cs1 = cs @ [mutation_proposal_change m (M_Operation m)] \<and> M_RecordID m < high"
    using s by (auto simp: descriptor_change_def Let_def not_le split: if_splits sum.splits)
  then show ?case using Cons.IH [OF rest] by auto
qed

lemma descriptorProposal_spec:
  "descriptorProposal read d commitAddr high maxv = Inr p \<Longrightarrow> p = descriptor_spec d"
  by (auto simp: descriptorProposal_def descriptor_spec_def dest!: descriptor_changes_fold split: if_splits)

lemma note_descriptors_fold:
  assumes "res_fold (note_descriptor high statuses) (seen, n) ds = Inr (seen', n')"
  shows "distinct (map fst (user_commits ds)) \<and> fst ` set (user_commits ds) \<inter> set seen = {} \<and>
    set seen' = set seen \<union> fst ` set (user_commits ds) \<and> (\<forall>d \<in> set ds. D_BatchID d < high)"
  using assms
proof (induction ds arbitrary: seen n)
  case Nil
  then show ?case by simp
next
  case (Cons d ds)
  then obtain seen1 n1 where s: "note_descriptor high statuses (seen, n) d = Inr (seen1, n1)"
    and rest: "res_fold (note_descriptor high statuses) (seen1, n1) ds = Inr (seen', n')" by auto
  show ?case
    using s Cons.IH [OF rest] by (auto simp: note_descriptor_def user_commits_Cons not_le split: if_splits)
qed

lemma note_status_simps [simp]:
  "RV_Mapping (note_status r d) = RV_Mapping r" "RV_NextCommitSeq (note_status r d) = RV_NextCommitSeq r"
  "RV_ReservedIDHigh (note_status r d) = RV_ReservedIDHigh r" "RV_ReservedBatchIDHigh (note_status r d) = RV_ReservedBatchIDHigh r"
  by (simp_all add: note_status_def)

lemma note_statuses_simps [simp]:
  "RV_Mapping (foldl note_status r ds) = RV_Mapping r" "RV_NextCommitSeq (foldl note_status r ds) = RV_NextCommitSeq r"
  "RV_ReservedIDHigh (foldl note_status r ds) = RV_ReservedIDHigh r"
  "RV_ReservedBatchIDHigh (foldl note_status r ds) = RV_ReservedBatchIDHigh r"
  by (induction ds arbitrary: r) auto

lemma note_statuses:
  "RV_StatusOrder (foldl note_status r ds) = RV_StatusOrder r @ map fst (user_commits ds) \<and>
   (distinct (map fst (user_commits ds)) \<longrightarrow> map_of (RV_Statuses (foldl note_status r ds)) = map_of (RV_Statuses r) ++ map_of (user_commits ds))"
proof (induction ds arbitrary: r)
  case (Cons d ds)
  show ?case
  proof (cases "D_Kind d = DescriptorUserCommit")
    case True
    then have u: "user_commits (d # ds) = (D_BatchID d, \<lparr>BS_State = BatchCommitted, BS_CommitSeq = D_CommitSeq d\<rparr>) # user_commits ds"
      by (simp add: user_commits_Cons)
    have r1: "map_of (RV_Statuses (note_status r d)) = (map_of (RV_Statuses r))(D_BatchID d \<mapsto> \<lparr>BS_State = BatchCommitted, BS_CommitSeq = D_CommitSeq d\<rparr>)"
      "RV_StatusOrder (note_status r d) = RV_StatusOrder r @ [D_BatchID d]"
      using True by (simp_all add: note_status_def update_conv')
    have "map_of (RV_Statuses (note_status r d)) ++ map_of (user_commits ds) = map_of (RV_Statuses r) ++ map_of (user_commits (d # ds))"
      if "D_BatchID d \<notin> fst ` set (user_commits ds)"
      unfolding r1 u using that by (simp add: map_add_upd_left dom_map_of_conv_image_fst)
    moreover have "distinct (map fst (user_commits (d # ds))) \<longleftrightarrow>
        D_BatchID d \<notin> fst ` set (user_commits ds) \<and> distinct (map fst (user_commits ds))"
      "map fst (user_commits (d # ds)) = [D_BatchID d] @ map fst (user_commits ds)" by (simp_all add: u)
    ultimately show ?thesis using Cons.IH [of "note_status r d"] r1(2) by (metis append_assoc foldl_Cons)
  next
    case False
    then show ?thesis using Cons.IH [of "note_status r d"] by (simp add: note_status_def user_commits_Cons)
  qed
qed simp

text \<open>The mapping, the statuses and the reserved ranges after a replay, in terms of the history.\<close>

definition mapping_advanced ::
  "('m \<Rightarrow> entries) \<Rightarrow> ('m \<Rightarrow> CommitSeq) \<Rightarrow> 'm \<Rightarrow> Descriptor list \<Rightarrow> 'm \<Rightarrow> bool" where
  "mapping_advanced ents cov m ds m' \<longleftrightarrow>
     ents m' = replay_entries (ents m) ds \<and> unat (cov m') = unat (cov m) + length ds \<and>
     map (\<lambda>d. unat (D_CommitSeq d)) ds = [Suc (unat (cov m)) ..< Suc (unat (cov m'))]"

definition statuses_advanced ::
  "'m replay_state \<Rightarrow> (BatchID \<times> BatchStatus) list \<Rightarrow> 'm replay_state \<Rightarrow> bool" where
  "statuses_advanced st ts st' \<longleftrightarrow>
     RV_StatusOrder (fst st') = RV_StatusOrder (fst st) @ map fst ts \<and>
     map_of (RV_Statuses (fst st')) = map_of (RV_Statuses (fst st)) ++ map_of ts \<and>
     distinct (map fst ts) \<and> fst ` set ts \<inter> set (snd st) = {} \<and> set (snd st') = set (snd st) \<union> fst ` set ts"

definition ranges_advanced :: "replay_Config \<Rightarrow> 'm replay_state \<Rightarrow> log_record list \<Rightarrow> 'm replay_state \<Rightarrow> bool" where
  "ranges_advanced config st rs st' \<longleftrightarrow>
     recovered_high KindRecordID (RF_IDReserveSize config) (RV_ReservedIDHigh (fst st)) rs = Inr (RV_ReservedIDHigh (fst st')) \<and>
     recovered_high KindBatchID (RF_BatchIDReserveSize config) (RV_ReservedBatchIDHigh (fst st)) rs =
       Inr (RV_ReservedBatchIDHigh (fst st'))"

lemma mapping_advanced_refl: "mapping_advanced ents cov m [] m"
  by (simp add: mapping_advanced_def)

lemma statuses_advanced_refl: "statuses_advanced st [] st"
  by (simp add: statuses_advanced_def)

lemma ranges_advanced_refl: "ranges_advanced config st [] st"
  by (simp add: ranges_advanced_def recovered_high_def)

lemma mapping_advanced_append:
  assumes "mapping_advanced ents cov m ds m1" "mapping_advanced ents cov m1 ds' m2"
  shows "mapping_advanced ents cov m (ds @ ds') m2"
proof -
  have "[Suc (unat (cov m)) ..< Suc (unat (cov m2))] =
      [Suc (unat (cov m)) ..< Suc (unat (cov m1))] @ [Suc (unat (cov m1)) ..< Suc (unat (cov m2))]"
    using assms upt_add_eq_append [of "Suc (unat (cov m))" "Suc (unat (cov m1))" "unat (cov m2) - unat (cov m1)"]
    by (simp add: mapping_advanced_def del: upt_Suc)
  then show ?thesis using assms by (simp add: mapping_advanced_def del: upt_Suc)
qed

lemma statuses_advanced_append:
  assumes "statuses_advanced st ts st1" "statuses_advanced st1 ts' st2"
  shows "statuses_advanced st (ts @ ts') st2"
proof -
  have disj: "fst ` set ts \<inter> fst ` set ts' = {}" using assms by (auto simp: statuses_advanced_def)
  then have "map_of ts' ++ map_of ts = map_of ts ++ map_of ts'"
    by (intro map_add_comm) (auto simp: dom_map_of_conv_image_fst)
  then show ?thesis using assms disj by (auto simp: statuses_advanced_def)
qed

lemma ranges_advanced_append:
  "ranges_advanced config st rs st1 \<Longrightarrow> ranges_advanced config st1 rs' st2 \<Longrightarrow> ranges_advanced config st (rs @ rs') st2"
  by (simp add: ranges_advanced_def recovered_high_append)

lemma consecutive_upt:
  "consecutive qs \<Longrightarrow> qs \<noteq> [] \<Longrightarrow> map unat qs = [unat (hd qs) ..< unat (hd qs) + length qs]"
proof (induction qs rule: consecutive.induct)
  case (1 a b qs)
  then have "map unat (b # qs) = [Suc (unat a) ..< Suc (unat a) + length (b # qs)]" by simp
  then show ?case by (simp add: upt_conv_Cons del: upt_Suc)
qed auto

lemma ranges_other:
  assumes "TypeOf p = Inr t" "t \<noteq> RecordTypeIDReserve" "t \<noteq> RecordTypeBatchIDReserve"
    "RV_ReservedIDHigh (fst st') = RV_ReservedIDHigh (fst st)" "RV_ReservedBatchIDHigh (fst st') = RV_ReservedBatchIDHigh (fst st)"
  shows "ranges_advanced config st [(a, p)] st'"
  using assms by (simp add: ranges_advanced_def recovered_high_single recover_high_step_def kind_recordType_def)

lemma replay_put_advanced:
  assumes "TypeOf p = Inr RecordTypePut" "replay_put config st p = Inr st'"
  shows "st' = st" "commits_of p = []" "terminals_of p = []" "ranges_advanced config st [(a, p)] st'"
proof -
  show st: "st' = st" using assms(2) by (auto simp: replay_put_def split: sum.splits if_splits prod.splits)
  show "commits_of p = []" using TypeOf_type [OF assms(1)] by (simp add: commits_of_other)
  then show "terminals_of p = []" using TypeOf_type [OF assms(1)] by (simp add: terminals_of_other)
  show "ranges_advanced config st [(a, p)] st'" using st by (intro ranges_other [OF assms(1)]) simp_all
qed

lemma replay_checkpoint_advanced:
  assumes "TypeOf p = Inr RecordTypeCheckpoint" "replay_checkpoint ix st p = Inr st'"
  shows "st' = st" "commits_of p = []" "terminals_of p = []" "ranges_advanced config st [(a, p)] st'"
proof -
  show st: "st' = st" using assms(2) by (auto simp: replay_checkpoint_def split: sum.splits if_splits prod.splits)
  show "commits_of p = []" using TypeOf_type [OF assms(1)] by (simp add: commits_of_other)
  then show "terminals_of p = []" using TypeOf_type [OF assms(1)] by (simp add: terminals_of_other)
  show "ranges_advanced config st [(a, p)] st'" using st by (intro ranges_other [OF assms(1)]) simp_all
qed

lemma replay_abort_advanced:
  assumes "TypeOf p = Inr RecordTypeAbort" "replay_abort config st p = Inr st'"
  shows "RV_Mapping (fst st') = RV_Mapping (fst st)" "RV_NextCommitSeq (fst st') = RV_NextCommitSeq (fst st)" "commits_of p = []"
    "statuses_advanced st (terminals_of p) st'" "ranges_advanced config st [(a, p)] st'"
proof -
  obtain r seen where st: "st = (r, seen)" by (cases st)
  obtain ab where ab: "DecodeAbort p = Inr ab" "AB_BatchID ab \<notin> set seen"
    and st': "st' = (r\<lparr>RV_Statuses := AList.update (AB_BatchID ab) \<lparr>BS_State = BatchAborted, BS_CommitSeq = 0\<rparr> (RV_Statuses r),
      RV_StatusOrder := RV_StatusOrder r @ [AB_BatchID ab]\<rparr>, AB_BatchID ab # seen)"
    using assms(2) by (auto simp: st replay_abort_def retainStatus_def split: sum.splits if_splits)
  show "RV_Mapping (fst st') = RV_Mapping (fst st)" "RV_NextCommitSeq (fst st') = RV_NextCommitSeq (fst st)" by (simp_all add: st st')
  show "commits_of p = []" using TypeOf_type [OF assms(1)] by (simp add: commits_of_other)
  have "map_of (AList.update k v al) = map_of al ++ map_of [(k, v)]" for k and v :: BatchStatus and al
    by (simp add: update_conv')
  then show "statuses_advanced st (terminals_of p) st'"
    using ab by (simp add: statuses_advanced_def terminals_of_def st st')
  show "ranges_advanced config st [(a, p)] st'" by (rule ranges_other [OF assms(1)]) (simp_all add: st st')
qed

lemma replay_reserve_advanced:
  assumes "TypeOf p = Inr t" "t = RecordTypeIDReserve \<or> t = RecordTypeBatchIDReserve" "replay_reserve config t st p = Inr st'"
  shows "RV_Mapping (fst st') = RV_Mapping (fst st)" "RV_NextCommitSeq (fst st') = RV_NextCommitSeq (fst st)" "commits_of p = []"
    "statuses_advanced st (terminals_of p) st'" "ranges_advanced config st [(a, p)] st'"
proof -
  obtain r seen where st: "st = (r, seen)" by (cases st)
  have t: "p ! 6 = t" by (rule TypeOf_type [OF assms(1)])
  show c: "commits_of p = []" using t assms(2) by (auto simp: commits_of_other)
  have tp: "terminals_of p = []" using t assms(2) c by (auto simp: terminals_of_other)
  obtain rr where rr: "DecodeReserve p t = Inr rr" using assms(3) by (auto simp: st replay_reserve_def split: sum.splits)
  have "(t = RecordTypeIDReserve \<and> (\<exists>h. AdvanceRecovered KindRecordID (RF_IDReserveSize config) (RV_ReservedIDHigh r) rr = Inr h \<and>
        st' = (r\<lparr>RV_ReservedIDHigh := h\<rparr>, seen))) \<or>
      (t = RecordTypeBatchIDReserve \<and> (\<exists>h. AdvanceRecovered KindBatchID (RF_BatchIDReserveSize config) (RV_ReservedBatchIDHigh r) rr = Inr h \<and>
        st' = (r\<lparr>RV_ReservedBatchIDHigh := h\<rparr>, seen)))"
    using assms(2,3) rr by (auto simp: st replay_reserve_def split: sum.splits)
  then show "RV_Mapping (fst st') = RV_Mapping (fst st)" "RV_NextCommitSeq (fst st') = RV_NextCommitSeq (fst st)"
    "statuses_advanced st (terminals_of p) st'" "ranges_advanced config st [(a, p)] st'"
    using assms(1) rr
    by (auto simp: st tp statuses_advanced_def ranges_advanced_def recovered_high_single recover_high_step_def kind_recordType_def)
qed

context index_port
begin

lemma propose_fold:
  assumes "res_fold (propose_descriptor ix read ca hi mv) (ps, ress, m) ds = Inr (ps', ress', m')" "ok m"
  shows "ok m' \<and> entries_of m' = entries_of m \<and> ix_CoveredCommitSeq ix m' = ix_CoveredCommitSeq ix m \<and>
    ps' = ps @ map descriptor_spec ds"
  using assms
proof (induction ds arbitrary: ps ress m)
  case Nil
  then show ?case by simp
next
  case (Cons d ds)
  then obtain ps1 ress1 m1 where s: "propose_descriptor ix read ca hi mv (ps, ress, m) d = Inr (ps1, ress1, m1)"
    and rest: "res_fold (propose_descriptor ix read ca hi mv) (ps1, ress1, m1) ds = Inr (ps', ress', m')" by auto
  obtain p where p: "descriptorProposal read d ca hi mv = Inr p" using s by (auto simp: propose_descriptor_def)
  obtain x pg m2 where r: "ix_ReserveDelta ix m (map M_RecordID (D_Mutations d)) = ((x, pg), m2)" by (metis prod.exhaust)
  have "ps1 = ps @ [descriptor_spec d] \<and> m1 = m2"
    using s p r descriptorProposal_spec [OF p] by (auto simp: propose_descriptor_def split: sum.splits)
  then show ?case using Cons.IH [OF rest] reserve_keeps [OF Cons.prems(2) r] by auto
qed

lemma replayGroup_advanced:
  assumes "ok (RV_Mapping (fst st))" "unat (RV_NextCommitSeq (fst st)) = Suc (unat (ix_CoveredCommitSeq ix (RV_Mapping (fst st))))"
    and "TypeOf p = Inr RecordTypeCommitGroup" "replayGroup ix read config st physical p = Inr st'"
  shows "ok (RV_Mapping (fst st'))" "unat (RV_NextCommitSeq (fst st')) = Suc (unat (ix_CoveredCommitSeq ix (RV_Mapping (fst st'))))"
    "mapping_advanced entries_of (ix_CoveredCommitSeq ix) (RV_Mapping (fst st)) (commits_of p) (RV_Mapping (fst st'))"
    "statuses_advanced st (terminals_of p) st'" "ranges_advanced config st [(a, p)] st'"
proof -
  obtain r seen where st: "st = (r, seen)" by (cases st)
  define ds where "ds = commits_of p"
  obtain g where g: "DecodeCommitGroup p (RF_MaxRecordPayload config) (RF_MaxGroupDescriptors config) (RF_MaxGroupMutations config) = Inr g"
    using assms(4) by (auto simp: replayGroup_def st split: sum.splits)
  have ds: "G_Descriptors g = ds" using commits_of_group [OF g] by (simp add: ds_def)
  have v: "ds \<noteq> []" "consecutive (map D_CommitSeq ds)"
    using DecodeCommitGroup_Inr(1) [OF g] by (auto simp: EncodeCommitGroup_Inr validateDescriptors_None ds)
  have hd: "D_CommitSeq (hd ds) = RV_NextCommitSeq r"
    using assms(4) g by (auto simp: replayGroup_def st ds Let_def split: if_splits)
  obtain seen' n where seens: "res_fold (note_descriptor (RV_ReservedBatchIDHigh r) (RV_Statuses r)) (seen, 0) ds = Inr (seen', n)"
    using assms(4) g hd by (auto simp: replayGroup_def st ds Let_def)
  obtain ps ress m where props: "res_fold (propose_descriptor ix read (AR_Addr physical) (RV_ReservedIDHigh r) (RF_MaxValueSize config))
      ([], [], RV_Mapping r) ds = Inr (ps, ress, m)"
    using assms(4) g hd seens by (auto simp: replayGroup_def st ds Let_def split: if_splits)
  obtain plan where plan: "ix_ResolveGroup ix m ps = Inr plan" "list_all RP_Accepted (GP_Proposals plan)"
    using assms(4) g hd seens props by (auto simp: replayGroup_def st ds Let_def split: if_splits sum.splits)
  obtain pr m' where pub: "ix_PublishGroup ix (RV_NextCommitSeq r) plan ress m = (Inr pr, m')"
    and last: "D_CommitSeq (last ds) \<noteq> max_u64"
    and st': "st' = ((foldl note_status r ds)\<lparr>RV_Mapping := m', RV_NextCommitSeq := D_CommitSeq (last ds) + 1\<rparr>, seen')"
    using assms(4) g hd seens props plan by (auto simp: replayGroup_def st ds Let_def split: if_splits sum.splits prod.splits)
  have okr: "ok (RV_Mapping r)" using assms(1) by (simp add: st)
  note P = propose_fold [OF props okr]
  have okm: "ok m" and ps: "ps = map descriptor_spec ds" using P by auto
  note R = resolve_spec [OF okm plan(1)] and U = publish_Inr [OF okm plan(1) pub]
  have "length (GP_Proposals plan) = length ds"
    using R by (metis length_map length_spec_plan ps)
  then have cnt: "accepted_count plan = length ds" using plan(2) by (simp add: accepted_count_def list_all_iff filter_True)
  show "ok (RV_Mapping (fst st'))" using U by (simp add: st')
  have cov: "unat (ix_CoveredCommitSeq ix m') = unat (ix_CoveredCommitSeq ix (RV_Mapping r)) + length ds" using U P cnt by simp
  have seqs: "map (\<lambda>d. unat (D_CommitSeq d)) ds = [Suc (unat (ix_CoveredCommitSeq ix (RV_Mapping r))) ..< Suc (unat (ix_CoveredCommitSeq ix m'))]"
    using consecutive_upt [OF v(2)] v(1) hd assms(2) cov by (simp add: st hd_map comp_def del: upt_Suc)
  show "mapping_advanced entries_of (ix_CoveredCommitSeq ix) (RV_Mapping (fst st)) (commits_of p) (RV_Mapping (fst st'))"
    using U P cov seqs by (simp add: mapping_advanced_def st st' replay_entries_def ps flip: ds_def del: upt_Suc)
  have "last (map (\<lambda>d. unat (D_CommitSeq d)) ds) = unat (D_CommitSeq (last ds))" using v(1) by (simp add: last_map)
  then have "unat (D_CommitSeq (last ds)) = unat (ix_CoveredCommitSeq ix m')"
    unfolding seqs using cov v(1) by (simp add: Suc_le_eq)
  then show "unat (RV_NextCommitSeq (fst st')) = Suc (unat (ix_CoveredCommitSeq ix (RV_Mapping (fst st'))))"
    using last by (simp add: st' unat_succ_u64 u64_eq_max_iff)
  have tms: "terminals_of p = user_commits ds" using TypeOf_type [OF assms(3)] by (simp add: terminals_of_other ds_def)
  note N = note_descriptors_fold [OF seens]
  show "statuses_advanced st (terminals_of p) st'"
    using N note_statuses [of r ds] by (simp add: statuses_advanced_def st st' tms)
  show "ranges_advanced config st [(a, p)] st'" by (rule ranges_other [OF assms(3)]) (simp_all add: st st')
qed

lemma replay_record_advanced:
  assumes "ok (RV_Mapping (fst st))" "unat (RV_NextCommitSeq (fst st)) = Suc (unat (ix_CoveredCommitSeq ix (RV_Mapping (fst st))))"
    and "replay_record ix read config st physical p = Inr st'"
  shows "ok (RV_Mapping (fst st')) \<and> unat (RV_NextCommitSeq (fst st')) = Suc (unat (ix_CoveredCommitSeq ix (RV_Mapping (fst st')))) \<and>
    mapping_advanced entries_of (ix_CoveredCommitSeq ix) (RV_Mapping (fst st)) (commits_of p) (RV_Mapping (fst st')) \<and>
    statuses_advanced st (terminals_of p) st' \<and> ranges_advanced config st [(a, p)] st'"
proof -
  obtain t where t: "TypeOf p = Inr t" using assms(3) by (auto simp: replay_record_def split: sum.splits)
  consider "t = RecordTypePut" "replay_put config st p = Inr st'"
    | "t = RecordTypeCommitGroup" "replayGroup ix read config st physical p = Inr st'"
    | "t = RecordTypeAbort" "replay_abort config st p = Inr st'"
    | "t = RecordTypeIDReserve \<or> t = RecordTypeBatchIDReserve" "replay_reserve config t st p = Inr st'"
    | "t = RecordTypeCheckpoint" "replay_checkpoint ix st p = Inr st'"
    using assms(3) t by (auto simp: replay_record_def split: if_splits)
  then show ?thesis
  proof cases
    case 1
    then show ?thesis using replay_put_advanced [OF t [unfolded 1(1)] 1(2)] assms(1,2) by (simp add: mapping_advanced_refl statuses_advanced_refl)
  next
    case 2
    then show ?thesis using replayGroup_advanced [OF assms(1,2) t [unfolded 2(1)] 2(2)] by simp
  next
    case 3
    then show ?thesis using replay_abort_advanced [OF t [unfolded 3(1)] 3(2)] assms(1,2) by (simp add: mapping_advanced_refl)
  next
    case 4
    then show ?thesis using replay_reserve_advanced [OF t 4] assms(1,2) by (simp add: mapping_advanced_refl)
  next
    case 5
    then show ?thesis using replay_checkpoint_advanced [OF t [unfolded 5(1)] 5(2)] assms(1,2) by (simp add: mapping_advanced_refl statuses_advanced_refl)
  qed
qed

lemma replay_advanced:
  assumes "visits (Some (replay_record ix read config)) st rs = Inr st'"
    and "ok (RV_Mapping (fst st))" "unat (RV_NextCommitSeq (fst st)) = Suc (unat (ix_CoveredCommitSeq ix (RV_Mapping (fst st))))"
  shows "ok (RV_Mapping (fst st')) \<and> unat (RV_NextCommitSeq (fst st')) = Suc (unat (ix_CoveredCommitSeq ix (RV_Mapping (fst st')))) \<and>
    mapping_advanced entries_of (ix_CoveredCommitSeq ix) (RV_Mapping (fst st)) (committed rs) (RV_Mapping (fst st')) \<and>
    statuses_advanced st (terminals rs) st' \<and> ranges_advanced config st rs st'"
  using assms
proof (induction rs arbitrary: st)
  case Nil
  then show ?case by (simp add: mapping_advanced_refl statuses_advanced_refl ranges_advanced_refl)
next
  case (Cons r rs)
  obtain a p where r: "r = (a, p)" by (cases r)
  obtain st1 where s: "replay_record ix read config st (rec_result r) p = Inr st1"
    and rest: "visits (Some (replay_record ix read config)) st1 rs = Inr st'" using Cons.prems(1) by (auto simp: visits_def r)
  note A = replay_record_advanced [OF Cons.prems(2,3) s, of a]
  note B = Cons.IH [OF rest] A
  show ?case
    using B mapping_advanced_append [of entries_of _ _ "commits_of p" _ "committed rs"]
      statuses_advanced_append [of st "terminals_of p" st1 "terminals rs" st']
      ranges_advanced_append [of config st "[(a, p)]" st1 rs st'] by (auto simp: r)
qed

end

end
