(* ===== verification/Commit_Safety.thy ===== *)
theory Commit_Safety
  imports Commit_History
begin

text \<open>
  The coordinator keeps the mapping and the log in step: while it has no fault, the mapping holds
  exactly the history that the log records, every commit of that history is on stable storage, and
  every answer of success names a durable descriptor. The lemmas are proved for every log and every
  mapping that keep the contracts of \<open>append_log\<close> and \<open>mapping_index\<close>.
\<close>

section \<open>Sequence numbers and descriptors\<close>

lemma assign_sequences_facts:
  assumes "assign_sequences nxt items = Some (qs, ds, n)"
  shows "length qs = length items"
    and "ds = map (\<lambda>((rq, res), q). requestDescriptor rq q) (filter (\<lambda>((rq, res), q). RP_Accepted res) (zip items qs))"
    and "unat n = unat nxt + length ds"
    and "map (\<lambda>d. unat (D_CommitSeq d)) ds = [unat nxt ..< unat n]"
    and "length ds = length (filter (\<lambda>x. RP_Accepted (snd x)) items)"
proof -
  have "length qs = length items \<and>
    ds = map (\<lambda>((rq, res), q). requestDescriptor rq q) (filter (\<lambda>((rq, res), q). RP_Accepted res) (zip items qs)) \<and>
    unat n = unat nxt + length ds \<and> map (\<lambda>d. unat (D_CommitSeq d)) ds = [unat nxt ..< unat n] \<and>
    length ds = length (filter (\<lambda>x. RP_Accepted (snd x)) items)"
    using assms
  proof (induction nxt items arbitrary: qs ds n rule: assign_sequences.induct)
    case (1 nxt)
    then show ?case by simp
  next
    case (2 nxt rq res rest)
    have seq: "D_CommitSeq (requestDescriptor rq q) = q" for q
      by (simp add: requestDescriptor_def coordinator_descriptor_def split: option.split)
    show ?case
    proof (cases "RP_Accepted res")
      case False
      then obtain qs' where "assign_sequences nxt rest = Some (qs', ds, n)" "qs = 0 # qs'"
        using "2.prems" by (auto split: option.splits)
      then show ?thesis using "2.IH"(1) [OF False] False by auto
    next
      case True
      then obtain qs' ds' where r: "assign_sequences (nxt + 1) rest = Some (qs', ds', n)" "qs = nxt # qs'"
          "ds = requestDescriptor rq nxt # ds'" "nxt \<noteq> max_u64"
        using "2.prems" by (auto split: option.splits if_splits)
      have u: "unat (nxt + 1) = Suc (unat nxt)" using r(4) by (simp add: unat_succ_u64 u64_eq_max_iff)
      have IH: "length qs' = length rest" "unat n = unat (nxt + 1) + length ds'"
        "map (\<lambda>d. unat (D_CommitSeq d)) ds' = [unat (nxt + 1) ..< unat n]"
        "length ds' = length (filter (\<lambda>x. RP_Accepted (snd x)) rest)"
        "map (\<lambda>((rq, res), q). requestDescriptor rq q) (filter (\<lambda>((rq, res), q). RP_Accepted res) (zip rest qs')) = ds'"
        using "2.IH"(2) [OF _ r(4) r(1)] True by (blast, blast, blast, blast, metis)
      show ?thesis using True r(2,3) u seq IH by (simp add: upt_conv_Cons del: upt_Suc)
    qed
  qed
  then show "length qs = length items"
    "ds = map (\<lambda>((rq, res), q). requestDescriptor rq q) (filter (\<lambda>((rq, res), q). RP_Accepted res) (zip items qs))"
    "unat n = unat nxt + length ds" "map (\<lambda>d. unat (D_CommitSeq d)) ds = [unat nxt ..< unat n]"
    "length ds = length (filter (\<lambda>x. RP_Accepted (snd x)) items)" by blast+
qed

lemma descriptor_spec_request:
  assumes "validateProposal (requestProposal rq) = None"
  shows "PR_Kind (descriptor_spec (requestDescriptor rq q)) = PR_Kind (requestProposal rq)"
    "PR_Changes (descriptor_spec (requestDescriptor rq q)) = PR_Changes (requestProposal rq)"
    "PR_Conditions (descriptor_spec (requestDescriptor rq q)) = []"
proof -
  note v = validateProposal_changes [OF assms]
  show "PR_Kind (descriptor_spec (requestDescriptor rq q)) = PR_Kind (requestProposal rq)"
    by (simp add: descriptor_spec_def requestDescriptor_def coordinator_descriptor_def requestProposal_def relocationProposal_def
        Prepared_Proposal_def split: option.split)
  show "PR_Conditions (descriptor_spec (requestDescriptor rq q)) = []" by (simp add: descriptor_spec_def)
  have ch: "\<forall>c \<in> set (PR_Changes (requestProposal rq)). validate_change (PR_Kind (requestProposal rq)) c"
    using assms validate_changes_all unfolding validateProposal_None by blast
  show "PR_Changes (descriptor_spec (requestDescriptor rq q)) = PR_Changes (requestProposal rq)"
  proof (cases "CQ_relocation rq")
    case None
    have "mutation_proposal_change (codec_mutation m) (M_Operation (codec_mutation m)) = mutation_change m"
      if "m \<in> set (PP_Mutations (CQ_prepared rq))" for m
    proof -
      have "validate_change ProposalUserCommit (mutation_change m)"
        using ch that None by (simp add: requestProposal_def Prepared_Proposal_def)
      then have "TM_Operation m = mapping_OperationPut \<or> TM_Operation m = mapping_OperationDelete"
        by (auto simp: validate_change_def mutation_change_def split: if_splits)
      then show ?thesis by (auto simp: mutation_proposal_change_def codec_mutation_def mutation_change_def)
    qed
    then show ?thesis
      using None by (simp add: descriptor_spec_def requestDescriptor_def coordinator_descriptor_def requestProposal_def Prepared_Proposal_def)
  next
    case (Some r)
    have "mutation_proposal_change (relocation_mutation c) (M_Operation (relocation_mutation c)) = c"
      if "c \<in> set (RL_Changes r)" for c
    proof -
      have "validate_change ProposalRelocation c"
        using ch that Some by (simp add: requestProposal_def relocationProposal_def)
      then have "CH_Operation c = mapping_OperationRelocate" by (auto simp: validate_change_def split: if_splits)
      then show ?thesis by (simp add: mutation_proposal_change_def relocation_mutation_def)
    qed
    then show ?thesis
      using Some by (simp add: descriptor_spec_def requestDescriptor_def requestProposal_def relocationProposal_def map_idI)
  qed
qed

lemma spec_accepted:
  assumes "validateProposal (requestProposal rq) = None" "spec_accepts es (requestProposal rq)"
  shows "spec_proposal es (descriptor_spec (requestDescriptor rq q)) = spec_proposal es (requestProposal rq)"
  using descriptor_spec_request [OF assms(1), of q] assms(2) by (simp add: spec_proposal_def spec_accepts_def)

lemma accepted_history:
  assumes "assign_sequences nxt (zip active rps) = Some (qs, ds, n)"
    and "map strip rps = spec_plan es (map requestProposal active)"
    and "\<forall>rq \<in> set active. validateProposal (requestProposal rq) = None"
  shows "replay_entries es ds = spec_group es (map requestProposal active)"
  using assms
proof (induction active arbitrary: nxt rps qs ds es)
  case Nil
  then show ?case by simp
next
  case (Cons rq active)
  obtain res rps' where rps: "rps = res # rps'" using Cons.prems(2) by auto
  have acc: "RP_Accepted res \<longleftrightarrow> spec_accepts es (requestProposal rq)"
    using Cons.prems(2) by (auto simp: rps dest: arg_cong [where f = RP_Accepted])
  have tl: "map strip rps' = spec_plan (spec_proposal es (requestProposal rq)) (map requestProposal active)"
    using Cons.prems(2) by (simp add: rps)
  have v: "\<forall>rq \<in> set active. validateProposal (requestProposal rq) = None" "validateProposal (requestProposal rq) = None"
    using Cons.prems(3) by auto
  show ?case
  proof (cases "RP_Accepted res")
    case True
    then obtain qs' ds' where "assign_sequences (nxt + 1) (zip active rps') = Some (qs', ds', n)" "ds = requestDescriptor rq nxt # ds'"
      using Cons.prems(1) by (auto simp: rps split: option.splits if_splits)
    then show ?thesis
      using Cons.IH [OF _ tl v(1)] spec_accepted [OF v(2)] True acc by (auto simp: replay_entries_def)
  next
    case False
    then obtain qs' where "assign_sequences nxt (zip active rps') = Some (qs', ds, n)"
      using Cons.prems(1) by (auto simp: rps split: option.splits if_splits)
    then show ?thesis
      using Cons.IH [OF _ tl v(1)] False acc by (auto simp: spec_proposal_def)
  qed
qed

section \<open>The invariant\<close>

text \<open>
  The observations of a log and of a mapping. The mapping \<open>m0\<close> is the one the process started with; it
  covers the first \<open>k\<close> records of the log.
\<close>

record ('l, 'm) observer =
  ob_contents :: "'l \<Rightarrow> log_record list"
  ob_durable :: "'l \<Rightarrow> nat"
  ob_log_ok :: "'l \<Rightarrow> bool"
  ob_entries :: "'m \<Rightarrow> entries"
  ob_ok :: "'m \<Rightarrow> bool"

fun answer_key :: "answer \<Rightarrow> (DescriptorKind \<times> BatchID \<times> CommitSeq) option" where
  "answer_key (CommitAnswer (Inr r)) = Some (DescriptorUserCommit, CR_BatchID r, CR_CommitSeq r)"
| "answer_key (RelocationAnswer (Inr r)) = Some (DescriptorRelocation, RX_BatchID r, RX_CommitSeq r)"
| "answer_key _ = None"

definition descriptor_key :: "Descriptor \<Rightarrow> DescriptorKind \<times> BatchID \<times> CommitSeq" where
  "descriptor_key d = (D_Kind d, D_BatchID d, D_CommitSeq d)"

definition acknowledged :: "(nat \<times> answer) list \<Rightarrow> (DescriptorKind \<times> BatchID \<times> CommitSeq) set" where
  "acknowledged xs = {key. \<exists>x \<in> set xs. answer_key (snd x) = Some key}"

definition durable_keys :: "('l, 'm) observer \<Rightarrow> nat \<Rightarrow> 'l \<Rightarrow> (DescriptorKind \<times> BatchID \<times> CommitSeq) set" where
  "durable_keys ob k l = descriptor_key ` set (committed (drop k (take (ob_durable ob l) (ob_contents ob l))))"

definition in_step :: "'m Index \<Rightarrow> ('l, 'm) observer \<Rightarrow> nat \<Rightarrow> 'm \<Rightarrow> ('l, 'm) Coordinator \<Rightarrow> bool" where
  "in_step ix ob k m0 c \<longleftrightarrow>
     mapping_advanced (ob_entries ob) (ix_CoveredCommitSeq ix) m0 (committed (drop k (ob_contents ob (CO_log c)))) (CO_mapping c) \<and>
     unat (CO_next c) = Suc (unat (ix_CoveredCommitSeq ix (CO_mapping c))) \<and>
     committed (drop (ob_durable ob (CO_log c)) (ob_contents ob (CO_log c))) = []"

definition coord_inv :: "'m Index \<Rightarrow> ('l, 'm) observer \<Rightarrow> nat \<Rightarrow> 'm \<Rightarrow> ('l, 'm) Coordinator \<Rightarrow> bool" where
  "coord_inv ix ob k m0 c \<longleftrightarrow>
     ob_log_ok ob (CO_log c) \<and> ob_ok ob (CO_mapping c) \<and> k \<le> ob_durable ob (CO_log c) \<and>
     acknowledged (CO_answers c) \<subseteq> durable_keys ob k (CO_log c) \<and> (CO_fault c = None \<longrightarrow> in_step ix ob k m0 c)"

lemma acknowledged_simps [simp]:
  "acknowledged [] = {}" "acknowledged (xs @ ys) = acknowledged xs \<union> acknowledged ys"
  "acknowledged ((ch, x) # xs) = set_option (answer_key x) \<union> acknowledged xs"
  by (auto simp: acknowledged_def)

lemma committed_subset: "committed xs = [] \<Longrightarrow> set ys \<subseteq> set xs \<Longrightarrow> committed ys = []"
  by (auto simp: committed_def)

lemma committed_drop_take:
  assumes "committed (drop d xs) = []" "d \<le> e"
  shows "committed (drop e (take n xs)) = []"
proof (rule committed_subset [OF assms(1)])
  have "set (drop e (take n xs)) \<subseteq> set (drop e xs)" unfolding drop_take by (rule set_take_subset)
  also have "\<dots> \<subseteq> set (drop d xs)" by (rule set_drop_subset_set_drop [OF assms(2)])
  finally show "set (drop e (take n xs)) \<subseteq> set (drop d xs)" .
qed

lemma committed_split:
  assumes "k \<le> d"
  shows "committed (drop k xs) = committed (drop k (take d xs)) @ committed (drop d xs)"
proof -
  have "drop k (take d xs @ drop d xs) = drop k (take d xs) @ drop d xs"
    unfolding drop_append using assms by (cases "d \<le> length xs") simp_all
  then show ?thesis unfolding append_take_drop_id by simp
qed

lemma committed_keys_mono:
  assumes "n \<le> m"
  shows "descriptor_key ` set (committed (drop k (take n xs))) \<subseteq> descriptor_key ` set (committed (drop k (take m xs)))"
proof -
  have "set (drop k (take n xs)) \<subseteq> set (drop k (take m xs))"
    unfolding drop_take by (rule set_take_subset_set_take) (use assms in simp)
  then show ?thesis by (auto simp: committed_def)
qed

definition kept :: "'m Index \<Rightarrow> ('l, 'm) observer \<Rightarrow> ('l, 'm) Coordinator \<Rightarrow> ('l, 'm) Coordinator \<Rightarrow> bool" where
  \<comment> \<open>answers and batches aside, only reservations are given back\<close>
  "kept ix ob c c' \<longleftrightarrow>
     CO_log c' = CO_log c \<and> CO_next c' = CO_next c \<and> CO_config c' = CO_config c \<and> CO_requests c' = CO_requests c \<and>
     CO_chans c' = CO_chans c \<and> ob_ok ob (CO_mapping c') \<and> ob_entries ob (CO_mapping c') = ob_entries ob (CO_mapping c) \<and>
     ix_CoveredCommitSeq ix (CO_mapping c') = ix_CoveredCommitSeq ix (CO_mapping c) \<and> (CO_fault c' = None \<longrightarrow> CO_fault c = None)"

lemma kept_refl: "ob_ok ob (CO_mapping c) \<Longrightarrow> kept ix ob c c"
  by (simp add: kept_def)

lemma kept_trans: "kept ix ob c c1 \<Longrightarrow> kept ix ob c1 c2 \<Longrightarrow> kept ix ob c c2"
  by (simp add: kept_def)

lemma kept_fail: "ob_ok ob (CO_mapping c) \<Longrightarrow> kept ix ob c (coord_fail e c)"
  by (simp add: kept_def coord_fail_def)

lemma coord_fail_simps [simp]:
  "CO_log (coord_fail e c) = CO_log c" "CO_mapping (coord_fail e c) = CO_mapping c" "CO_answers (coord_fail e c) = CO_answers c"
  "CO_fault (coord_fail e c) \<noteq> None" "CO_config (coord_fail e c) = CO_config c" "CO_requests (coord_fail e c) = CO_requests c"
  "CO_chans (coord_fail e c) = CO_chans c" "CO_batches (coord_fail e c) = CO_batches c" "CO_next (coord_fail e c) = CO_next c"
  by (simp_all add: coord_fail_def)

lemma in_step_kept: "in_step ix ob k m0 c \<Longrightarrow> kept ix ob c c' \<Longrightarrow> in_step ix ob k m0 c'"
  by (simp add: in_step_def kept_def mapping_advanced_def)

lemma coord_inv_kept:
  assumes "coord_inv ix ob k m0 c" "kept ix ob c c'" "CO_answers c' = CO_answers c @ xs" "acknowledged xs \<subseteq> durable_keys ob k (CO_log c)"
  shows "coord_inv ix ob k m0 c'"
  using assms in_step_kept [OF _ assms(2), of k m0] by (auto simp: coord_inv_def kept_def)

lemma coord_inv_fault:
  assumes "coord_inv ix ob k m0 c" "ob_log_ok ob (CO_log c')" "k \<le> ob_durable ob (CO_log c')"
    "durable_keys ob k (CO_log c) \<subseteq> durable_keys ob k (CO_log c')" "ob_ok ob (CO_mapping c')" "CO_answers c' = CO_answers c"
    "CO_fault c' \<noteq> None"
  shows "coord_inv ix ob k m0 c'"
proof -
  have "acknowledged (CO_answers c) \<subseteq> durable_keys ob k (CO_log c)" using assms(1) unfolding coord_inv_def by blast
  then have "acknowledged (CO_answers c') \<subseteq> durable_keys ob k (CO_log c')" unfolding assms(6) using assms(4) by (rule order_trans)
  then show ?thesis unfolding coord_inv_def using assms(2,3,5,7) by blast
qed

section \<open>The system of log, mapping and coordinator\<close>

locale commit_system = index_port ix "ob_entries ob" "ob_ok ob" + log_port ap "ob_contents ob" "ob_durable ob" "ob_log_ok ob"
  for ix :: "'m Index" and ap :: "'l Appender" and ob :: "('l, 'm) observer"
begin

lemma append_history:
  assumes "ob_log_ok ob l" "ap_Append ap l p sync = (x, l')" "k \<le> ob_durable ob l"
  shows "ob_log_ok ob l'" "k \<le> ob_durable ob l'" "durable_keys ob k l \<subseteq> durable_keys ob k l'"
proof -
  note d = append_durable [OF assms(1,2)]
  show "ob_log_ok ob l'" by (rule append_ok [OF assms(1,2)])
  show "k \<le> ob_durable ob l'" using d assms(3) by simp
  show "durable_keys ob k l \<subseteq> durable_keys ob k l'"
    using committed_keys_mono [OF d, of k "ob_contents ob l'"] append_keeps_durable [OF assms(1,2)] by (simp add: durable_keys_def)
qed

lemma foreign_history:
  assumes "ob_log_ok ob l" "ap_Append ap l p sync = (x, l')" "k \<le> ob_durable ob l" "commits_of p = []"
    and "committed (drop (ob_durable ob l) (ob_contents ob l)) = []"
  shows "committed (drop k (ob_contents ob l')) = committed (drop k (ob_contents ob l))"
    "committed (drop (ob_durable ob l') (ob_contents ob l')) = []"
proof -
  let ?d = "ob_durable ob l"
  obtain a n where n: "?d \<le> n" "ob_contents ob l' = take n (ob_contents ob l @ [(a, p)])"
    using append_prefix [OF assms(1,2)] by blast
  let ?X = "ob_contents ob l @ [(a, p)]"
  have le: "?d \<le> length (ob_contents ob l)" by (rule durable_le [OF assms(1)])
  have X: "committed (drop ?d ?X) = []" using assms(4,5) le by simp
  show "committed (drop (ob_durable ob l') (ob_contents ob l')) = []"
    unfolding n(2) by (rule committed_drop_take [OF X append_durable [OF assms(1,2)]])
  have "committed (drop k (ob_contents ob l')) = committed (drop k (take ?d (ob_contents ob l'))) @ committed (drop ?d (ob_contents ob l'))"
    by (rule committed_split [OF assms(3)])
  moreover have "committed (drop ?d (ob_contents ob l')) = []"
    unfolding n(2) by (rule committed_drop_take [OF X order_refl])
  moreover have "committed (drop k (ob_contents ob l)) = committed (drop k (take ?d (ob_contents ob l)))"
    using committed_split [OF assms(3), of "ob_contents ob l"] assms(5) by simp
  ultimately show "committed (drop k (ob_contents ob l')) = committed (drop k (ob_contents ob l))"
    using append_keeps_durable [OF assms(1,2)] by simp
qed

lemma completeFailure_keeps:
  assumes "ob_ok ob (CO_mapping c)"
  shows "kept ix ob c (completeFailure ix rq e unknown accepted c)"
    "\<exists>x. CO_answers (completeFailure ix rq e unknown accepted c) = CO_answers c @ [(CQ_chan rq, x)] \<and> answer_key x = None"
  using release_keeps [OF assms, of "CQ_reserve rq"]
  by (auto simp: completeFailure_def Let_def answer_to_def release_reserve_def update_batch_def kept_def split: option.split)

lemma completeSuccess_keeps:
  assumes "ob_ok ob (CO_mapping c)" "completeSuccess rq q res c = (e, c')"
  shows "kept ix ob c c'"
    "\<exists>x. CO_answers c' = CO_answers c @ [(CQ_chan rq, x)] \<and> set_option (answer_key x) \<subseteq> {descriptor_key (requestDescriptor rq q)}"
  using assms
  by (auto simp: completeSuccess_def answer_to_def update_batch_def kept_def descriptor_key_def requestDescriptor_def coordinator_descriptor_def
      split: option.splits prod.splits)

lemma failures_keep:
  assumes "ob_ok ob (CO_mapping c)"
  shows "kept ix ob c (complete_failures ix e unknown items c) \<and>
    (\<exists>xs. CO_answers (complete_failures ix e unknown items c) = CO_answers c @ xs \<and>
      map fst xs = map (\<lambda>i. CQ_chan (fst i)) items \<and> acknowledged xs = {})"
  using assms
proof (induction items arbitrary: c)
  case Nil
  then show ?case by (simp add: complete_failures_def kept_refl)
next
  case (Cons i items)
  obtain rq res where i: "i = (rq, res)" by (cases i)
  define c1 where "c1 = (if \<not> RP_Accepted res then completeFailure ix rq base_ErrConflict False False c
    else completeFailure ix rq e unknown True c)"
  have s: "complete_failures ix e unknown (i # items) c = complete_failures ix e unknown items c1"
    by (simp add: complete_failures_def i c1_def)
  have k1: "kept ix ob c c1" "\<exists>x. CO_answers c1 = CO_answers c @ [(CQ_chan rq, x)] \<and> answer_key x = None"
    unfolding c1_def using completeFailure_keeps [OF Cons.prems] by simp_all
  then have "ob_ok ob (CO_mapping c1)" by (simp add: kept_def)
  from Cons.IH [OF this] obtain xs where IH: "kept ix ob c1 (complete_failures ix e unknown items c1)"
    "CO_answers (complete_failures ix e unknown items c1) = CO_answers c1 @ xs"
    "map fst xs = map (\<lambda>i. CQ_chan (fst i)) items" "acknowledged xs = {}" by blast
  obtain x where x: "CO_answers c1 = CO_answers c @ [(CQ_chan rq, x)]" "answer_key x = None" using k1(2) by blast
  show ?case
    unfolding s using kept_trans [OF k1(1) IH(1)] IH x by (auto simp: i intro!: exI [of _ "(CQ_chan rq, x) # xs"])
qed

lemma completeFailure_definite: "completeFailure ix rq e False True c = completeFailure ix rq e False False c"
  by (cases "CQ_relocation rq") (simp_all add: completeFailure_def)

lemma rejectGroup_failures:
  "rejectGroup ix reqs e c = complete_failures ix e False (map (\<lambda>rq. (rq, \<lparr>RP_Kind = 0, RP_Accepted = True, RP_DeltaEntries = 0, RP_Changes = []\<rparr>)) reqs) c"
  by (induction reqs arbitrary: c) (simp_all add: rejectGroup_def complete_failures_def completeFailure_definite)

lemma rejects_keep:
  assumes "ob_ok ob (CO_mapping c)"
  shows "kept ix ob c (rejectGroup ix reqs e c) \<and>
    (\<exists>xs. CO_answers (rejectGroup ix reqs e c) = CO_answers c @ xs \<and> map fst xs = map CQ_chan reqs \<and> acknowledged xs = {})"
  unfolding rejectGroup_failures
  using failures_keep [OF assms, of e False "map (\<lambda>rq. (rq, \<lparr>RP_Kind = 0, RP_Accepted = True, RP_DeltaEntries = 0, RP_Changes = []\<rparr>)) reqs"]
  by (simp add: comp_def)

lemma successes_keep:
  assumes "ob_ok ob (CO_mapping c)"
  shows "kept ix ob c (complete_successes ix items c) \<and>
    (\<exists>xs. CO_answers (complete_successes ix items c) = CO_answers c @ xs \<and>
      map fst xs = map (\<lambda>i. CQ_chan (fst (fst i))) items \<and>
      acknowledged xs \<subseteq> descriptor_key ` set (map (\<lambda>((rq, res), q). requestDescriptor rq q) (filter (\<lambda>((rq, res), q). RP_Accepted res) items)))"
  using assms
proof (induction items arbitrary: c)
  case Nil
  then show ?case by (simp add: complete_successes_def kept_refl)
next
  case (Cons i items)
  obtain rq res q where i: "i = ((rq, res), q)" by (metis prod.exhaust)
  obtain e c2 where c2: "completeSuccess rq q res c = (e, c2)" by (cases "completeSuccess rq q res c")
  define c1 where "c1 = (if \<not> RP_Accepted res then completeFailure ix rq base_ErrConflict False False c
    else case e of Some e' \<Rightarrow> coord_fail e' c2 | None \<Rightarrow> c2)"
  have s: "complete_successes ix (i # items) c = complete_successes ix items c1"
    by (simp add: complete_successes_def i c1_def c2 split: option.split)
  note K = completeSuccess_keeps [OF Cons.prems c2]
  have k1: "kept ix ob c c1 \<and> (\<exists>x. CO_answers c1 = CO_answers c @ [(CQ_chan rq, x)] \<and>
      set_option (answer_key x) \<subseteq> (if RP_Accepted res then {descriptor_key (requestDescriptor rq q)} else {}))"
  proof (cases "RP_Accepted res")
    case True
    have "kept ix ob c2 c1"
      using K(1) True unfolding c1_def by (cases e) (auto intro!: kept_fail kept_refl simp: kept_def [of ix ob c])
    moreover have "CO_answers c1 = CO_answers c2" using True unfolding c1_def by (cases e) auto
    ultimately show ?thesis using kept_trans [OF K(1)] K(2) True by auto
  next
    case False
    then show ?thesis using completeFailure_keeps [OF Cons.prems, of rq base_ErrConflict False False] by (auto simp: c1_def)
  qed
  then obtain x where x: "CO_answers c1 = CO_answers c @ [(CQ_chan rq, x)]"
    "set_option (answer_key x) \<subseteq> (if RP_Accepted res then {descriptor_key (requestDescriptor rq q)} else {})" by blast
  have "ob_ok ob (CO_mapping c1)" using k1 by (simp add: kept_def)
  from Cons.IH [OF this] obtain xs where IH: "kept ix ob c1 (complete_successes ix items c1)"
    "CO_answers (complete_successes ix items c1) = CO_answers c1 @ xs" "map fst xs = map (\<lambda>i. CQ_chan (fst (fst i))) items"
    "acknowledged xs \<subseteq> descriptor_key ` set (map (\<lambda>((rq, res), q). requestDescriptor rq q) (filter (\<lambda>((rq, res), q). RP_Accepted res) items))"
    by blast
  show ?case
    unfolding s using kept_trans [OF conjunct1 [OF k1] IH(1)] IH(2-4) x
    by (intro conjI exI [of _ "(CQ_chan rq, x) # xs"]) (auto simp: i split: if_splits)
qed

lemma publish_checked_keeps:
  assumes "ob_ok ob m" "ix_ResolveGroup ix m ps = Inr plan" "publish_checked ix ds plan ress m = (e, m')"
  shows "ob_ok ob m'"
    and "e = None \<Longrightarrow> ob_entries ob m' = spec_group (ob_entries ob m) ps \<and>
      unat (ix_CoveredCommitSeq ix m') = unat (ix_CoveredCommitSeq ix m) + accepted_count plan"
proof -
  obtain x m1 where p: "ix_PublishGroup ix (D_CommitSeq (hd ds)) plan ress m = (x, m1)"
    by (cases "ix_PublishGroup ix (D_CommitSeq (hd ds)) plan ress m")
  have m: "m' = m1" using assms(3) p by (auto simp: publish_checked_def split: sum.splits)
  show "ob_ok ob m'"
    using publish_Inl [OF assms(1,2)] publish_Inr [OF assms(1,2)] p m by (cases x) auto
  assume "e = None"
  then obtain r where "x = Inr r" using assms(3) p by (cases x) (auto simp: publish_checked_def)
  then show "ob_entries ob m' = spec_group (ob_entries ob m) ps \<and>
      unat (ix_CoveredCommitSeq ix m') = unat (ix_CoveredCommitSeq ix m) + accepted_count plan"
    using publish_Inr [OF assms(1,2)] p m by auto
qed

definition answered :: "nat \<Rightarrow> 'm \<Rightarrow> nat list \<Rightarrow> ('l, 'm) Coordinator \<Rightarrow> ('l, 'm) Coordinator \<Rightarrow> bool" where
  \<comment> \<open>the invariant holds again and the channels have one answer each\<close>
  "answered k m0 chans c c' \<longleftrightarrow> coord_inv ix ob k m0 c' \<and> CO_config c' = CO_config c \<and> CO_requests c' = CO_requests c \<and>
     CO_chans c' = CO_chans c \<and> (\<exists>xs. CO_answers c' = CO_answers c @ xs \<and> mset (map fst xs) = mset chans)"

lemma answered_kept:
  assumes "coord_inv ix ob k m0 c" "kept ix ob c c'" "CO_answers c' = CO_answers c @ xs" "map fst xs = chans"
    "acknowledged xs \<subseteq> durable_keys ob k (CO_log c)"
  shows "answered k m0 chans c c'"
  using coord_inv_kept [OF assms(1-3,5)] assms(2-4) by (auto simp: answered_def kept_def)

lemma rejects_answered:
  assumes "coord_inv ix ob k m0 c"
  shows "answered k m0 (map CQ_chan reqs) c (rejectGroup ix reqs e c)"
proof -
  have "ob_ok ob (CO_mapping c)" using assms by (simp add: coord_inv_def)
  from rejects_keep [OF this] obtain xs where "kept ix ob c (rejectGroup ix reqs e c)"
    "CO_answers (rejectGroup ix reqs e c) = CO_answers c @ xs" "map fst xs = map CQ_chan reqs" "acknowledged xs = {}" by blast
  then show ?thesis using answered_kept [OF assms] by simp
qed

lemma failures_answered:
  assumes "coord_inv ix ob k m0 c"
  shows "answered k m0 (map (\<lambda>i. CQ_chan (fst i)) items) c (complete_failures ix e unknown items c)"
proof -
  have "ob_ok ob (CO_mapping c)" using assms by (simp add: coord_inv_def)
  from failures_keep [OF this] obtain xs where "kept ix ob c (complete_failures ix e unknown items c)"
    "CO_answers (complete_failures ix e unknown items c) = CO_answers c @ xs"
    "map fst xs = map (\<lambda>i. CQ_chan (fst i)) items" "acknowledged xs = {}" by blast
  then show ?thesis using answered_kept [OF assms] by simp
qed

lemma coord_inv_fail: "coord_inv ix ob k m0 c \<Longrightarrow> coord_inv ix ob k m0 (coord_fail e c)"
  by (simp add: coord_inv_def)

lemma answered_from: "answered k m0 chans c1 c' \<Longrightarrow> CO_config c1 = CO_config c \<Longrightarrow> CO_requests c1 = CO_requests c \<Longrightarrow>
    CO_chans c1 = CO_chans c \<Longrightarrow> CO_answers c1 = CO_answers c \<Longrightarrow> answered k m0 chans c c'"
  by (simp add: answered_def)

lemma commit_published:
  assumes inv: "coord_inv ix ob k m0 c" "CO_fault c = None"
    and plan: "ix_ResolveGroup ix (CO_mapping c) (map requestProposal active) = Inr plan"
    and seqs: "assign_sequences (CO_next c) (zip active (GP_Proposals plan)) = Some (qs, ds, n)"
    and payload: "EncodeCommitGroup \<lparr>G_Descriptors = ds\<rparr> mx = Inr payload"
    and append: "ap_Append ap (CO_log c) payload True = (Inr r, l)"
    and publish: "publish_checked ix ds plan ress (CO_mapping c) = (None, m)"
  shows "coord_inv ix ob k m0 (c\<lparr>CO_log := l, CO_mapping := m, CO_next := n\<rparr>)"
    "descriptor_key ` set ds \<subseteq> durable_keys ob k l"
proof -
  have ok: "ob_ok ob (CO_mapping c)" "ob_log_ok ob (CO_log c)" "k \<le> ob_durable ob (CO_log c)" and step: "in_step ix ob k m0 c"
    using inv by (auto simp: coord_inv_def)
  note S = assign_sequences_facts [OF seqs] and R = resolve_spec [OF ok(1) plan]
  have v: "\<forall>rq \<in> set active. validateProposal (requestProposal rq) = None" using R by auto
  have len: "length (GP_Proposals plan) = length active" using R by (metis length_map length_spec_plan)
  have acc: "accepted_count plan = length ds"
  proof -
    have "map snd (filter (\<lambda>x. RP_Accepted (snd x)) (zip active (GP_Proposals plan))) = filter RP_Accepted (map snd (zip active (GP_Proposals plan)))"
      by (simp add: filter_map comp_def)
    then show ?thesis unfolding S(5) accepted_count_def using len by (metis length_map map_snd_zip)
  qed
  note P = publish_checked_keeps [OF ok(1) plan publish]
  have C: "ob_contents ob l = ob_contents ob (CO_log c) @ [(AR_Addr r, payload)]" "ob_durable ob l = Suc (length (ob_contents ob (CO_log c)))"
    using append_sync_contents [OF ok(2) append] by auto
  have com: "commits_of payload = ds" by (rule commits_of_encode(1) [OF payload])
  have kl: "k \<le> length (ob_contents ob (CO_log c))" using ok(3) durable_le [OF ok(2)] by simp
  have adv: "mapping_advanced (ob_entries ob) (ix_CoveredCommitSeq ix) (CO_mapping c) ds m"
    using P(2) acc accepted_history [OF seqs conjunct2 [OF conjunct2 [OF conjunct2 [OF R]]] v] S(3,4) step
    by (simp add: mapping_advanced_def in_step_def del: upt_Suc)
  have "in_step ix ob k m0 (c\<lparr>CO_log := l, CO_mapping := m, CO_next := n\<rparr>)"
    using step mapping_advanced_append [OF _ adv, of m0 "committed (drop k (ob_contents ob (CO_log c)))"] P(2) acc S(3) kl
    by (simp add: in_step_def C com)
  moreover have "acknowledged (CO_answers c) \<subseteq> durable_keys ob k l"
    using inv append_history(3) [OF ok(2) append ok(3)] by (auto simp: coord_inv_def)
  ultimately show "coord_inv ix ob k m0 (c\<lparr>CO_log := l, CO_mapping := m, CO_next := n\<rparr>)"
    using P(1) append_history(1,2) [OF ok(2) append ok(3)] by (simp add: coord_inv_def in_step_def)
  show "descriptor_key ` set ds \<subseteq> durable_keys ob k l"
    using kl by (simp add: durable_keys_def C com image_Un)
qed

lemma commit_group_answered:
  assumes inv: "coord_inv ix ob k m0 c" "CO_fault c = None"
    and plan: "ix_ResolveGroup ix (CO_mapping c) (map requestProposal active) = Inr plan"
    and seqs: "assign_sequences (CO_next c) (zip active (GP_Proposals plan)) = Some (qs, ds, n)"
    and payload: "EncodeCommitGroup \<lparr>G_Descriptors = ds\<rparr> mx = Inr payload"
  shows "answered k m0 (map CQ_chan active) c (commit_group ap ix active plan qs ds n payload c)"
proof -
  let ?items = "zip active (GP_Proposals plan)" and ?ress = "map (\<lambda>rq. Some (CQ_reserve rq)) active"
  have ok: "ob_ok ob (CO_mapping c)" "ob_log_ok ob (CO_log c)" "k \<le> ob_durable ob (CO_log c)" using inv by (auto simp: coord_inv_def)
  have len: "length (GP_Proposals plan) = length active" using resolve_spec [OF ok(1) plan] by (metis length_map length_spec_plan)
  have "map (\<lambda>i. CQ_chan (fst i)) ?items = map CQ_chan (map fst ?items)" by simp
  also have "map fst ?items = active" by (rule map_fst_zip [OF len [symmetric]])
  finally have chans: "map (\<lambda>i. CQ_chan (fst i)) ?items = map CQ_chan active" .
  obtain x l where a: "ap_Append ap (CO_log c) payload True = (x, l)" by (cases "ap_Append ap (CO_log c) payload True")
  note H = append_history [OF ok(2) a ok(3)]
  show ?thesis
  proof (cases x)
    case (Inl e)
    have "coord_inv ix ob k m0 (coord_fail e (c\<lparr>CO_log := l\<rparr>))"
      by (rule coord_inv_fault [OF inv(1)]) (use H ok in simp_all)
    note A = failures_answered [OF this, of ?items e "ap_Poisoned ap l", unfolded chans]
    have eq: "commit_group ap ix active plan qs ds n payload c =
        complete_failures ix e (ap_Poisoned ap l) ?items (coord_fail e (c\<lparr>CO_log := l\<rparr>))"
      using a Inl by (simp add: commit_group_def)
    show ?thesis unfolding eq by (rule answered_from [OF A]) simp_all
  next
    case (Inr r)
    obtain pe m where p: "publish_checked ix ds plan ?ress (CO_mapping c) = (pe, m)" by (cases "publish_checked ix ds plan ?ress (CO_mapping c)")
    note P = publish_checked_keeps [OF ok(1) plan p]
    show ?thesis
    proof (cases pe)
      case (Some e)
      have "coord_inv ix ob k m0 (coord_fail e (c\<lparr>CO_log := l, CO_mapping := m\<rparr>))"
        by (rule coord_inv_fault [OF inv(1)]) (use H ok P(1) in simp_all)
      note A = failures_answered [OF this, of ?items e True, unfolded chans]
      have eq: "commit_group ap ix active plan qs ds n payload c =
          complete_failures ix e True ?items (coord_fail e (c\<lparr>CO_log := l, CO_mapping := m\<rparr>))"
        using a Inr p Some by (simp add: commit_group_def)
      show ?thesis unfolding eq by (rule answered_from [OF A]) simp_all
    next
      case None
      let ?c = "c\<lparr>CO_log := l, CO_mapping := m, CO_next := n\<rparr>"
      note D = commit_published [OF inv plan seqs payload a [unfolded Inr] p [unfolded None]]
      note S = assign_sequences_facts [OF seqs]
      have okc: "ob_ok ob (CO_mapping ?c)" using P(1) by simp
      from successes_keep [OF okc, of "zip ?items qs"] obtain xs where
        K: "kept ix ob ?c (complete_successes ix (zip ?items qs) ?c)"
          "CO_answers (complete_successes ix (zip ?items qs) ?c) = CO_answers ?c @ xs"
          "map fst xs = map (\<lambda>i. CQ_chan (fst (fst i))) (zip ?items qs)"
          "acknowledged xs \<subseteq> descriptor_key ` set ds" unfolding S(2) [symmetric] by blast
      have "map (\<lambda>i. CQ_chan (fst (fst i))) (zip ?items qs) = map (\<lambda>i. CQ_chan (fst i)) (map fst (zip ?items qs))" by simp
      also have "\<dots> = map CQ_chan active" using S(1) chans by simp
      finally have ch: "map fst xs = map CQ_chan active" using K(3) by simp
      have "answered k m0 (map CQ_chan active) ?c (complete_successes ix (zip ?items qs) ?c)"
        using answered_kept [OF D(1) K(1,2) ch] K(4) D(2) by auto
      moreover have "commit_group ap ix active plan qs ds n payload c = complete_successes ix (zip ?items qs) ?c"
        using a Inr p None by (simp add: commit_group_def)
      ultimately show ?thesis by (simp add: answered_def)
    qed
  qed
qed

lemma applyCommitRedirects_chan [simp]: "CQ_chan (applyCommitRedirects t rq) = CQ_chan rq"
  by (simp add: applyCommitRedirects_def)

lemma mset_order: "mset (map CQ_chan (map (applyCommitRedirects t) (orderUserBeforeRelocation reqs))) = mset (map CQ_chan reqs)"
proof -
  have "mset (orderUserBeforeRelocation reqs) = mset reqs"
    by (simp add: orderUserBeforeRelocation_def multiset_partition [symmetric])
  then have "mset (map CQ_chan (orderUserBeforeRelocation reqs)) = mset (map CQ_chan reqs)" by (metis mset_map)
  then show ?thesis by (simp add: comp_def)
qed

lemma answered_mset: "answered k m0 chans c c' \<Longrightarrow> mset chans = mset chans' \<Longrightarrow> answered k m0 chans' c c'"
  by (simp add: answered_def)

lemma process_answered:
  assumes inv: "coord_inv ix ob k m0 c"
  shows "answered k m0 (map CQ_chan reqs) c (coord_process ap ix reqs c)"
proof (cases "CO_fault c")
  case (Some f)
  then show ?thesis using rejects_answered [OF inv] by (simp add: coord_process_def)
next
  case None
  define active where "active = map (applyCommitRedirects (CO_redirects c)) (orderUserBeforeRelocation reqs)"
  have mset: "mset (map CQ_chan active) = mset (map CQ_chan reqs)" unfolding active_def by (rule mset_order)
  have "answered k m0 (map CQ_chan active) c (coord_process ap ix reqs c)"
  proof (cases "active = []")
    case True
    then show ?thesis using inv None by (simp add: coord_process_def answered_def Let_def flip: active_def)
  next
    case False
    note rej = rejects_answered [OF coord_inv_fail [OF inv], of active]
    show ?thesis
    proof (cases "ix_ResolveGroup ix (CO_mapping c) (map requestProposal active)")
      case (Inl e)
      then have "coord_process ap ix reqs c = rejectGroup ix active e (coord_fail e c)"
        using None False by (simp add: coord_process_def Let_def flip: active_def)
      then show ?thesis using rej by (simp add: answered_def)
    next
      case (Inr plan)
      show ?thesis
      proof (cases "assign_sequences (CO_next c) (zip active (GP_Proposals plan))")
        case as: None
        then show ?thesis
          using rejects_answered [OF inv, of active] None False Inr by (simp add: coord_process_def Let_def flip: active_def)
      next
        case (Some x)
        then obtain qs ds n where as: "assign_sequences (CO_next c) (zip active (GP_Proposals plan)) = Some (qs, ds, n)" by (cases x) auto
        show ?thesis
        proof (cases "ds = []")
          case True
          then show ?thesis
            using rejects_answered [OF inv, of active] None False Inr as by (simp add: coord_process_def Let_def flip: active_def)
        next
          case ds: False
          show ?thesis
          proof (cases "EncodeCommitGroup \<lparr>G_Descriptors = ds\<rparr> (CC_MaxGroupPayload (CO_config c))")
            case (Inl e)
            then have "coord_process ap ix reqs c = rejectGroup ix active e (coord_fail e c)"
              using None False Inr as ds by (simp add: coord_process_def Let_def flip: active_def)
            then show ?thesis using rej by (simp add: answered_def)
          next
            case payload: (Inr payload)
            then have "coord_process ap ix reqs c = commit_group ap ix active plan qs ds n payload c"
              using None False Inr as ds by (simp add: coord_process_def Let_def flip: active_def)
            then show ?thesis using commit_group_answered [OF inv None Inr as payload] by simp
          qed
        qed
      qed
    qed
  qed
  then show ?thesis by (rule answered_mset) (rule mset)
qed

end

end
