(* ===== verification/Commit_Run.thy ===== *)
theory Commit_Run
  imports Commit_Safety
begin

text \<open>
  The goroutine of the coordinator and the operations that feed it: every turn of \<^verbatim>\<open>run\<close> keeps the
  invariant and answers exactly the requests it takes from the channel. The steps of the system are
  the operations of the coordinator, appends of other clients of the log and changes of batches by
  their owners, in any order.
\<close>

section \<open>Received requests\<close>

definition received :: "receive list \<Rightarrow> request list" where
  "received events = concat (map (\<lambda>e. case e of Received rq \<Rightarrow> [rq] | _ \<Rightarrow> []) events)"

lemma received_simps [simp]:
  "received [] = []" "received (Received rq # es) = rq # received es" "received (Unavailable # es) = received es"
  "received (ChannelClosed # es) = received es" "received (es @ es') = received es @ received es'"
  by (simp_all add: received_def)

lemma EncodeCheckpoint_commits: "commits_of (EncodeCheckpoint marker) = []"
proof -
  have "DecodeCheckpoint (EncodeCheckpoint marker) = Inr marker" using Checkpoint_codec [of "EncodeCheckpoint marker" marker] by simp
  then have "EncodeCheckpoint marker ! 6 = RecordTypeCheckpoint" by (auto simp: DecodeCheckpoint_def dest!: decodeHeader_type)
  then show ?thesis by (simp add: commits_of_other)
qed

section \<open>Turns of the goroutine\<close>

context commit_system
begin

lemma coord_inv_foreign:
  assumes "coord_inv ix ob k m0 c" "ap_Append ap (CO_log c) p sync = (x, l)" "commits_of p = []"
  shows "coord_inv ix ob k m0 (c\<lparr>CO_log := l\<rparr>)"
proof -
  have ok: "ob_log_ok ob (CO_log c)" "k \<le> ob_durable ob (CO_log c)" "ob_ok ob (CO_mapping c)"
    "acknowledged (CO_answers c) \<subseteq> durable_keys ob k (CO_log c)" using assms(1) unfolding coord_inv_def by blast+
  note H = append_history [OF ok(1) assms(2) ok(2)]
  have "in_step ix ob k m0 (c\<lparr>CO_log := l\<rparr>)" if "CO_fault c = None"
  proof -
    have "in_step ix ob k m0 c" using assms(1) that unfolding coord_inv_def by blast
    then show ?thesis using foreign_history [OF ok(1) assms(2) ok(2) assms(3)] by (simp add: in_step_def)
  qed
  then show ?thesis unfolding coord_inv_def using H ok order_trans [OF ok(4) H(3)] by simp
qed

lemma answered_trans:
  assumes "answered k m0 chans c c1" "answered k m0 chans' c1 c2"
  shows "answered k m0 (chans @ chans') c c2"
proof -
  obtain xs ys where "CO_answers c1 = CO_answers c @ xs" "mset (map fst xs) = mset chans"
    "CO_answers c2 = CO_answers c1 @ ys" "mset (map fst ys) = mset chans'" using assms unfolding answered_def by blast
  then have "CO_answers c2 = CO_answers c @ xs @ ys" "mset (map fst (xs @ ys)) = mset (chans @ chans')" by simp_all
  then show ?thesis using assms unfolding answered_def by metis
qed

lemma answered_one:
  assumes "coord_inv ix ob k m0 c" "answer_key x = None"
  shows "answered k m0 [CQ_chan rq] c (answer_to rq x c)"
proof -
  have "ob_ok ob (CO_mapping c)" using assms(1) by (simp add: coord_inv_def)
  then have "kept ix ob c (answer_to rq x c)" by (simp add: kept_def answer_to_def)
  then show ?thesis using answered_kept [OF assms(1), of "answer_to rq x c" "[(CQ_chan rq, x)]" "[CQ_chan rq]"] assms(2)
    by (simp add: answer_to_def)
qed

lemma answered_here:
  assumes "answered k m0 chans c1 c'" "CO_config c1 = CO_config c" "CO_requests c1 = CO_requests c" "CO_chans c1 = CO_chans c"
    "CO_answers c1 = CO_answers c" "c'' = c'"
  shows "answered k m0 chans c c''"
  using answered_from [OF assms(1-5)] assms(6) by simp

lemma checkpoint_answered:
  assumes "coord_inv ix ob k m0 c"
  shows "answered k m0 [CQ_chan rq] c (processCheckpoint ap ix rq c)"
proof (cases "CO_fault c")
  case (Some f)
  then show ?thesis using answered_one [OF assms] by (simp add: processCheckpoint_def)
next
  case None
  define p where "p = EncodeCheckpoint \<lparr>CM_CoveredCommitSeq = ix_CoveredCommitSeq ix (CO_mapping c)\<rparr>"
  obtain x l where a: "ap_Append ap (CO_log c) p True = (x, l)" by (cases "ap_Append ap (CO_log c) p True")
  have inv: "coord_inv ix ob k m0 (c\<lparr>CO_log := l\<rparr>)"
    by (rule coord_inv_foreign [OF assms a]) (simp add: p_def EncodeCheckpoint_commits)
  let ?bad = "CO_next c = 0 \<or> ix_CoveredCommitSeq ix (CO_mapping c) = max_u64 \<or> CO_next c \<noteq> ix_CoveredCommitSeq ix (CO_mapping c) + 1"
  show ?thesis
  proof (cases ?bad)
    case True
    then show ?thesis
      using None by (intro answered_here [OF answered_one [OF coord_inv_fail [OF assms], of _ _ base_ErrCorrupt]])
        (auto simp: processCheckpoint_def Let_def)
  next
    case False
    show ?thesis
    proof (cases x)
      case (Inl e)
      have "processCheckpoint ap ix rq c = answer_to rq (CheckpointAnswer (Inl e)) (coord_fail e (c\<lparr>CO_log := l\<rparr>))"
        using None a Inl by (simp add: processCheckpoint_def Let_def p_def if_not_P [OF False])
      then show ?thesis by (intro answered_here [OF answered_one [OF coord_inv_fail [OF inv], of _ _ e]]) simp_all
    next
      case (Inr r)
      have "processCheckpoint ap ix rq c = answer_to rq (CheckpointAnswer (Inr
          \<lparr>CK_CoveredCommitSeq = ix_CoveredCommitSeq ix (CO_mapping c), CK_ReplayStart = AR_End r\<rparr>)) (c\<lparr>CO_log := l\<rparr>)"
        using None a Inr by (simp add: processCheckpoint_def Let_def p_def if_not_P [OF False])
      then show ?thesis by (intro answered_here [OF answered_one [OF inv]]) simp_all
    qed
  qed
qed

lemma coord_inv_frame:
  assumes "coord_inv ix ob k m0 c" "CO_log c' = CO_log c" "CO_mapping c' = CO_mapping c" "CO_next c' = CO_next c"
    "CO_fault c' = CO_fault c" "CO_answers c' = CO_answers c"
  shows "coord_inv ix ob k m0 c'"
  using assms by (simp add: coord_inv_def in_step_def)

lemma redirect_answered:
  assumes "coord_inv ix ob k m0 c"
  shows "answered k m0 [CQ_chan rq] c (processRedirect rq command c)"
proof -
  have one: "answered k m0 [CQ_chan rq] c (answer_to rq (RedirectAnswer x) c1)"
    if "c1 = c \<or> (\<exists>g t. c1 = c\<lparr>CO_redirectGen := g, CO_redirects := t\<rparr>) \<or> (\<exists>t. c1 = c\<lparr>CO_redirects := t\<rparr>)" for x c1
  proof -
    have "coord_inv ix ob k m0 c1" by (rule coord_inv_frame [OF assms]) (use that in auto)
    then show ?thesis by (rule answered_here [OF answered_one]) (use that in auto)
  qed
  show ?thesis unfolding processRedirect_def by (auto split: option.split intro!: one)
qed

lemma control_answered:
  "coord_inv ix ob k m0 c \<Longrightarrow> answered k m0 [CQ_chan rq] c (process_control ap ix rq c)"
  by (simp add: process_control_def checkpoint_answered redirect_answered split: option.split)

lemma invalid_answered:
  "coord_inv ix ob k m0 c \<Longrightarrow> answered k m0 [CQ_chan rq] c (rejectInvalid ix rq e c)"
  using rejects_answered [of k m0 c "[rq]" e] by (simp add: rejectGroup_def rejectInvalid_def)

lemma answered_inv: "answered k m0 chans c c' \<Longrightarrow> coord_inv ix ob k m0 c'"
  by (simp add: answered_def)

lemma collect_answered:
  assumes "coord_inv ix ob k m0 c" "collect_group ap ix events reqs bytes c = (closed, left, c')"
  shows "\<exists>used. events = used @ left \<and> answered k m0 (map CQ_chan (reqs @ received used)) c c'"
  using assms
proof (induction events arbitrary: reqs bytes c)
  case Nil
  then show ?case using process_answered [of k m0 c reqs] by simp
next
  case (Cons event events)
  note P = process_answered [OF Cons.prems(1), of reqs]
  show ?case
  proof (cases "int (length reqs) < CC_MaxGroupBatches (CO_config c)")
    case False
    then show ?thesis using Cons.prems(2) P by auto
  next
    case room: True
    show ?thesis
    proof (cases event)
      case Unavailable
      then show ?thesis using Cons.prems(2) P room by (intro exI [of _ "[event]"]) auto
    next
      case ChannelClosed
      then show ?thesis using Cons.prems(2) P room by (intro exI [of _ "[event]"]) auto
    next
      case (Received rq)
      show ?thesis
      proof (cases "is_control rq")
        case True
        have "answered k m0 (map CQ_chan reqs @ [CQ_chan rq]) c (process_control ap ix rq (coord_process ap ix reqs c))"
          by (rule answered_trans [OF P control_answered [OF answered_inv [OF P]]])
        then show ?thesis using Cons.prems(2) True Received room by (intro exI [of _ "[event]"]) auto
      next
        case work: False
        show ?thesis
        proof (cases "group_room c rq")
          case (Inl e)
          note I = invalid_answered [OF Cons.prems(1), of rq e]
          have "collect_group ap ix events reqs bytes (rejectInvalid ix rq e c) = (closed, left, c')"
            using Cons.prems(2) room Received work Inl by simp
          from Cons.IH [OF answered_inv [OF I] this] obtain used where u: "events = used @ left"
              "answered k m0 (map CQ_chan (reqs @ received used)) (rejectInvalid ix rq e c) c'" by blast
          have "answered k m0 ([CQ_chan rq] @ map CQ_chan (reqs @ received used)) c c'" by (rule answered_trans [OF I u(2)])
          then have "answered k m0 (map CQ_chan (reqs @ received (event # used))) c c'"
            by (rule answered_mset) (simp add: Received)
          then show ?thesis using u(1) by (intro exI [of _ "event # used"]) simp
        next
          case (Inr nb)
          show ?thesis
          proof (cases "bytes > unat (CC_MaxGroupPayload (CO_config c)) - nb")
            case True
            have "collect_group ap ix events [rq] (unat CommitGroupHeadSize + nb) (coord_process ap ix reqs c) = (closed, left, c')"
              using Cons.prems(2) room Received work Inr True by simp
            from Cons.IH [OF answered_inv [OF P] this] obtain used where u: "events = used @ left"
                "answered k m0 (map CQ_chan ([rq] @ received used)) (coord_process ap ix reqs c) c'" by blast
            have "answered k m0 (map CQ_chan reqs @ map CQ_chan ([rq] @ received used)) c c'" by (rule answered_trans [OF P u(2)])
            then show ?thesis using u(1) Received by (intro exI [of _ "event # used"]) simp
          next
            case False
            have "collect_group ap ix events (reqs @ [rq]) (bytes + nb) c = (closed, left, c')"
              using Cons.prems(2) room Received work Inr False by simp
            from Cons.IH [OF Cons.prems(1) this] obtain used where u: "events = used @ left"
                "answered k m0 (map CQ_chan ((reqs @ [rq]) @ received used)) c c'" by blast
            then show ?thesis using Received by (intro exI [of _ "event # used"]) simp
          qed
        qed
      qed
    qed
  qed
qed

lemma run_turn_answered:
  assumes "coord_inv ix ob k m0 c" "run_turn ap ix events c = (closed, left, c')"
  shows "\<exists>used. events = used @ left \<and> answered k m0 (map CQ_chan (received used)) c c' \<and> (events \<noteq> [] \<longrightarrow> used \<noteq> [])"
proof (cases events)
  case Nil
  then show ?thesis using assms by (simp add: run_turn_def answered_def)
next
  case (Cons event rest)
  have here: "answered k m0 [] c c" using assms(1) by (simp add: answered_def)
  show ?thesis
  proof (cases event)
    case Unavailable
    then show ?thesis using assms(2) Cons here by (intro exI [of _ "[event]"]) (auto simp: run_turn_def)
  next
    case ChannelClosed
    then show ?thesis using assms(2) Cons here by (intro exI [of _ "[event]"]) (auto simp: run_turn_def)
  next
    case (Received rq)
    show ?thesis
    proof (cases "is_control rq")
      case True
      then show ?thesis
        using assms(2) Cons Received control_answered [OF assms(1), of rq] by (intro exI [of _ "[event]"]) (auto simp: run_turn_def)
    next
      case work: False
      show ?thesis
      proof (cases "group_room c rq")
        case (Inl e)
        then show ?thesis
          using assms(2) Cons Received work invalid_answered [OF assms(1), of rq e]
          by (intro exI [of _ "[event]"]) (auto simp: run_turn_def)
      next
        case (Inr b)
        then have "collect_group ap ix rest [rq] (unat CommitGroupHeadSize + b) c = (closed, left, c')"
          using assms(2) Cons Received work by (simp add: run_turn_def)
        from collect_answered [OF assms(1) this] obtain used where "rest = used @ left"
          "answered k m0 (map CQ_chan ([rq] @ received used)) c c'" by blast
        then show ?thesis using Cons Received by (intro exI [of _ "event # used"]) simp
      qed
    qed
  qed
qed

end

section \<open>Admission\<close>

definition waiting :: "('l, 'm) Coordinator \<Rightarrow> bool" where
  \<comment> \<open>every channel that was created has its one answer or its one request in the queue\<close>
  "waiting c \<longleftrightarrow> mset (map fst (CO_answers c)) + mset (map CQ_chan (CO_requests c)) = mset [0..<CO_chans c]"

definition admitted :: "('l, 'm) Coordinator \<Rightarrow> ('l, 'm) Coordinator \<Rightarrow> bool" where
  "admitted c c' \<longleftrightarrow> CO_answers c' = CO_answers c \<and>
     (CO_requests c' = CO_requests c \<and> CO_chans c' = CO_chans c \<or>
      (\<exists>rq. CQ_chan rq = CO_chans c \<and> CO_requests c' = CO_requests c @ [rq] \<and> CO_chans c' = Suc (CO_chans c)))"

lemma waiting_admitted: "waiting c \<Longrightarrow> admitted c c' \<Longrightarrow> waiting c'"
  by (auto simp: waiting_def admitted_def simp del: mset_upt)

lemma new_request_chan [simp]: "CQ_chan (new_request c) = CO_chans c"
  by (simp add: new_request_def)

lemma enqueue_simps [simp]:
  "CO_requests (enqueue rq c) = CO_requests c @ [rq]" "CO_chans (enqueue rq c) = Suc (CO_chans c)" "CO_log (enqueue rq c) = CO_log c"
  "CO_mapping (enqueue rq c) = CO_mapping c" "CO_next (enqueue rq c) = CO_next c" "CO_fault (enqueue rq c) = CO_fault c"
  "CO_answers (enqueue rq c) = CO_answers c"
  by (simp_all add: enqueue_def)

lemma release_reserve_simps [simp]:
  "CO_requests (release_reserve ix r c) = CO_requests c" "CO_chans (release_reserve ix r c) = CO_chans c"
  "CO_log (release_reserve ix r c) = CO_log c" "CO_mapping (release_reserve ix r c) = ix_Release ix (CO_mapping c) r"
  "CO_next (release_reserve ix r c) = CO_next c" "CO_fault (release_reserve ix r c) = CO_fault c"
  "CO_answers (release_reserve ix r c) = CO_answers c"
  by (simp_all add: release_reserve_def)

lemma update_batch_simps [simp]:
  "CO_requests (update_batch h f c) = CO_requests c" "CO_chans (update_batch h f c) = CO_chans c" "CO_log (update_batch h f c) = CO_log c"
  "CO_mapping (update_batch h f c) = CO_mapping c" "CO_next (update_batch h f c) = CO_next c" "CO_fault (update_batch h f c) = CO_fault c"
  "CO_answers (update_batch h f c) = CO_answers c"
  by (simp_all add: update_batch_def)

definition same_history :: "'m Index \<Rightarrow> ('l, 'm) observer \<Rightarrow> ('l, 'm) Coordinator \<Rightarrow> ('l, 'm) Coordinator \<Rightarrow> bool" where
  "same_history ix ob c c' \<longleftrightarrow>
     CO_log c' = CO_log c \<and> CO_next c' = CO_next c \<and> CO_fault c' = CO_fault c \<and> CO_answers c' = CO_answers c \<and>
     ob_ok ob (CO_mapping c') \<and> ob_entries ob (CO_mapping c') = ob_entries ob (CO_mapping c) \<and>
     ix_CoveredCommitSeq ix (CO_mapping c') = ix_CoveredCommitSeq ix (CO_mapping c)"

lemma coord_inv_same: "coord_inv ix ob k m0 c \<Longrightarrow> same_history ix ob c c' \<Longrightarrow> coord_inv ix ob k m0 c'"
  by (simp add: coord_inv_def same_history_def in_step_def mapping_advanced_def)

context commit_system
begin

lemma Submit_admits:
  assumes "ob_ok ob (CO_mapping c)" "Submit ix ctx ctx' queued h c = Some (x, c')"
  shows "same_history ix ob c c' \<and> admitted c c'"
proof (cases "ctx = None \<and> CO_fault c = None \<and> \<not> CO_fenced c \<and> (\<exists>ids. MutationIDs (CO_batches c h) = Inr ids)")
  case False
  then have "c' = c" using assms(2) by (auto simp: Submit_def split: option.splits if_splits sum.splits)
  then show ?thesis using assms(1) by (simp add: same_history_def admitted_def)
next
  case True
  then obtain ids where open_: "ctx = None" "CO_fault c = None" "\<not> CO_fenced c" "MutationIDs (CO_batches c h) = Inr ids" by blast
  obtain y pg m where r: "ix_ReserveDelta ix (CO_mapping c) ids = ((y, pg), m)" by (metis prod.exhaust)
  note R = reserve_keeps [OF assms(1) r]
  show ?thesis
  proof (cases y)
    case (Inl e)
    then have "c' = c\<lparr>CO_mapping := m\<rparr>" using assms(2) open_ r by (simp add: Submit_def)
    then show ?thesis using R by (simp add: same_history_def admitted_def)
  next
    case (Inr res)
    have okm: "ob_ok ob m" using R by simp
    obtain p b where p: "Batch_Prepare (CO_batches c h) = (p, b)" by (cases "Batch_Prepare (CO_batches c h)")
    let ?c2 = "update_batch h (\<lambda>_. b) (c\<lparr>CO_mapping := m\<rparr>)"
    have "c' = release_reserve ix res ?c2 \<or> c' = update_batch h (\<lambda>b. snd (MarkAborted b)) (release_reserve ix res ?c2) \<or>
        (\<exists>prep. p = Inr prep \<and> c' = enqueue ((new_request c)\<lparr>CQ_batch := h, CQ_prepared := prep, CQ_reserve := res\<rparr>) ?c2)"
      using assms(2) open_ r Inr p
      by (cases p; cases ctx'; cases "CO_closed c"; cases queued) (auto simp: Submit_def Let_def)
    then show ?thesis
      using R release_keeps [OF okm, of res] by (auto simp: same_history_def admitted_def)
  qed
qed

lemma Relocate_admits:
  assumes "ob_ok ob (CO_mapping c)" "Relocate ix ctx queued rl c = Some (x, c')"
  shows "same_history ix ob c c' \<and> admitted c c'"
proof (cases "ctx = None \<and> CO_fault c = None \<and> \<not> CO_fenced c \<and> \<not> (RL_BatchID rl = 0 \<or> validateProposal (relocationProposal rl) \<noteq> None)")
  case False
  then have "c' = c" using assms(2) by (auto simp: Relocate_def split: option.splits if_splits sum.splits)
  then show ?thesis using assms(1) by (simp add: same_history_def admitted_def)
next
  case True
  let ?ids = "map CH_RecordID (RL_Changes rl)"
  obtain y pg m where r: "ix_ReserveDelta ix (CO_mapping c) ?ids = ((y, pg), m)" by (metis prod.exhaust)
  note R = reserve_keeps [OF assms(1) r]
  show ?thesis
  proof (cases y)
    case (Inl e)
    then have "c' = c\<lparr>CO_mapping := m\<rparr>" using assms(2) True r by (simp add: Relocate_def)
    then show ?thesis using R by (simp add: same_history_def admitted_def)
  next
    case (Inr res)
    have okm: "ob_ok ob m" using R by simp
    have "c' = release_reserve ix res (c\<lparr>CO_mapping := m\<rparr>) \<or>
        c' = enqueue ((new_request c)\<lparr>CQ_relocation := Some rl, CQ_reserve := res, CQ_deltaPressureGeneration := pg\<rparr>) (c\<lparr>CO_mapping := m\<rparr>)"
      using assms(2) True r Inr by (cases "CO_closed c"; cases queued) (auto simp: Relocate_def Let_def)
    then show ?thesis using R release_keeps [OF okm, of res] by (auto simp: same_history_def admitted_def)
  qed
qed

lemma fence_admits:
  assumes "ob_ok ob (CO_mapping c)" "acquireCheckpointFence ctx queued c = Some (x, c')"
  shows "same_history ix ob c c' \<and> admitted c c'"
  using assms by (auto simp: acquireCheckpointFence_def same_history_def admitted_def Let_def split: option.splits if_splits)

lemma fence_answer_admits:
  assumes "ob_ok ob (CO_mapping c)" "fence_answer chan c = Some (x, c')"
  shows "same_history ix ob c c' \<and> admitted c c'"
  using assms by (auto simp: fence_answer_def same_history_def admitted_def split: option.splits answer.splits sum.splits)

lemma submitRedirect_admits:
  assumes "ob_ok ob (CO_mapping c)" "submitRedirect ctx queued command fenced c = Some (x, c')"
  shows "same_history ix ob c c' \<and> admitted c c'"
  using assms by (auto simp: submitRedirect_def same_history_def admitted_def Let_def split: option.splits if_splits)

lemma InstallCommitRedirects_admits:
  assumes "ob_ok ob (CO_mapping c)" "InstallCommitRedirects ctx queued table c = Some (x, c')"
  shows "same_history ix ob c c' \<and> admitted c c'"
proof (cases "ctx = None \<and> \<not> (table = [] \<or> \<not> list_all valid_redirect table)")
  case True
  then show ?thesis using assms submitRedirect_admits by (simp add: InstallCommitRedirects_def)
next
  case False
  then have "c' = c" using assms(2) by (auto simp: InstallCommitRedirects_def split: option.splits if_splits)
  then show ?thesis using assms(1) by (simp add: same_history_def admitted_def)
qed

lemma CommitRedirects_Release_admits:
  assumes "ob_ok ob (CO_mapping c)" "CommitRedirects_Release ctx queued r c = Some (x, c')"
  shows "same_history ix ob c c' \<and> admitted c c'"
proof (cases "CX_released r")
  case True
  then show ?thesis using assms by (auto simp: CommitRedirects_Release_def same_history_def admitted_def)
next
  case False
  then obtain y where "submitRedirect ctx queued \<lparr>RD_install = [], RD_release = CX_generation r\<rparr> True c = Some (y, c')"
    using assms(2) by (auto simp: CommitRedirects_Release_def split: option.splits sum.splits)
  then show ?thesis by (rule submitRedirect_admits [OF assms(1)])
qed

end

section \<open>Steps of the system\<close>

inductive coord_step :: "'l Appender \<Rightarrow> 'm Index \<Rightarrow> ('l, 'm) Coordinator \<Rightarrow> ('l, 'm) Coordinator \<Rightarrow> bool"
  for ap :: "'l Appender" and ix :: "'m Index"
where
  step_Submit: "Submit ix ctx ctx' queued h c = Some (x, c') \<Longrightarrow> coord_step ap ix c c'"
| step_Relocate: "Relocate ix ctx queued r c = Some (x, c') \<Longrightarrow> coord_step ap ix c c'"
| step_Fence: "acquireCheckpointFence ctx queued c = Some (x, c') \<Longrightarrow> coord_step ap ix c c'"
| step_FenceAnswer: "fence_answer chan c = Some (x, c') \<Longrightarrow> coord_step ap ix c c'"
| step_FenceRelease: "coord_step ap ix c (fence_Release c)"
| step_Install: "InstallCommitRedirects ctx queued table c = Some (x, c') \<Longrightarrow> coord_step ap ix c c'"
| step_RedirectRelease: "CommitRedirects_Release ctx queued r c = Some (x, c') \<Longrightarrow> coord_step ap ix c c'"
| step_Close: "coordinator_Close c = Some (e, c') \<Longrightarrow> coord_step ap ix c c'"
| step_Turn: "CO_requests c = received events @ rest \<Longrightarrow>
    run_turn ap ix events (c\<lparr>CO_requests := rest\<rparr>) = (closed, left, c') \<Longrightarrow>
    coord_step ap ix c (c'\<lparr>CO_requests := received left @ CO_requests c'\<rparr>)"
| step_Append: "ap_Append ap (CO_log c) p sync = (y, l) \<Longrightarrow> commits_of p = [] \<Longrightarrow> coord_step ap ix c (c\<lparr>CO_log := l\<rparr>)"
| step_Batches: "coord_step ap ix c (c\<lparr>CO_batches := bs\<rparr>)"

context commit_system
begin

lemma turn_waits:
  assumes "coord_inv ix ob k m0 c" "waiting c" "CO_requests c = received events @ rest"
    and "run_turn ap ix events (c\<lparr>CO_requests := rest\<rparr>) = (closed, left, c')"
  shows "coord_inv ix ob k m0 (c'\<lparr>CO_requests := received left @ CO_requests c'\<rparr>)"
    "waiting (c'\<lparr>CO_requests := received left @ CO_requests c'\<rparr>)"
proof -
  have "coord_inv ix ob k m0 (c\<lparr>CO_requests := rest\<rparr>)" by (rule coord_inv_frame [OF assms(1)]) simp_all
  from run_turn_answered [OF this assms(4)] obtain used where u: "events = used @ left"
    "answered k m0 (map CQ_chan (received used)) (c\<lparr>CO_requests := rest\<rparr>) c'" by blast
  have inv: "coord_inv ix ob k m0 c'" by (rule answered_inv [OF u(2)])
  show "coord_inv ix ob k m0 (c'\<lparr>CO_requests := received left @ CO_requests c'\<rparr>)"
    by (rule coord_inv_frame [OF inv]) simp_all
  obtain xs where "CO_answers c' = CO_answers c @ xs" "mset (map fst xs) = mset (map CQ_chan (received used))"
    "CO_requests c' = rest" "CO_chans c' = CO_chans c" using u(2) unfolding answered_def by auto
  then show "waiting (c'\<lparr>CO_requests := received left @ CO_requests c'\<rparr>)"
    using assms(2,3) u(1) by (simp add: waiting_def ac_simps)
qed

lemma coord_step_inv:
  assumes "coord_step ap ix c c'" "coord_inv ix ob k m0 c" "waiting c"
  shows "coord_inv ix ob k m0 c' \<and> waiting c'"
proof -
  have ok: "ob_ok ob (CO_mapping c)" using assms(2) by (simp add: coord_inv_def)
  have admits: "coord_inv ix ob k m0 c' \<and> waiting c'" if "same_history ix ob c c' \<and> admitted c c'"
    using that coord_inv_same [OF assms(2)] waiting_admitted [OF assms(3)] by blast
  show ?thesis
    using assms(1)
  proof cases
    case (step_Submit ctx ctx' queued h x)
    then show ?thesis using admits Submit_admits [OF ok] by blast
  next
    case (step_Relocate ctx queued r x)
    then show ?thesis using admits Relocate_admits [OF ok] by blast
  next
    case (step_Fence ctx queued x)
    then show ?thesis using admits fence_admits [OF ok] by blast
  next
    case (step_FenceAnswer chan x)
    then show ?thesis using admits fence_answer_admits [OF ok] by blast
  next
    case step_FenceRelease
    then show ?thesis using admits ok by (simp add: fence_Release_def same_history_def admitted_def)
  next
    case (step_Install ctx queued table x)
    then show ?thesis using admits InstallCommitRedirects_admits [OF ok] by blast
  next
    case (step_RedirectRelease ctx queued r x)
    then show ?thesis using admits CommitRedirects_Release_admits [OF ok] by blast
  next
    case (step_Close e)
    then have "same_history ix ob c c' \<and> admitted c c'"
      using ok by (auto simp: coordinator_Close_def same_history_def admitted_def split: if_splits)
    then show ?thesis by (rule admits)
  next
    case (step_Turn events rest closed left c'')
    then show ?thesis using turn_waits [OF assms(2,3) step_Turn(2,3)] by simp
  next
    case (step_Append p sync y l)
    then show ?thesis using coord_inv_foreign [OF assms(2) step_Append(2,3)] assms(3) by (simp add: waiting_def)
  next
    case (step_Batches bs)
    then show ?thesis using admits ok by (simp add: same_history_def admitted_def)
  qed
qed

lemma coord_steps_inv:
  "(coord_step ap ix)\<^sup>*\<^sup>* c c' \<Longrightarrow> coord_inv ix ob k m0 c \<and> waiting c \<Longrightarrow> coord_inv ix ob k m0 c' \<and> waiting c'"
  by (induction rule: rtranclp_induct) (use coord_step_inv in blast)+

lemma coordinator_New_inv:
  assumes "coordinator_New ix nxt l m config bs = Inr c" "ob_log_ok ob l" "ob_ok ob m"
    and "mapping_advanced (ob_entries ob) (ix_CoveredCommitSeq ix) m0 (committed (drop n (ob_contents ob l))) m"
    and "n \<le> ob_durable ob l" "committed (drop (ob_durable ob l) (ob_contents ob l)) = []"
  shows "coord_inv ix ob n m0 c \<and> waiting c"
proof -
  have "nxt = ix_CoveredCommitSeq ix m + 1" "ix_CoveredCommitSeq ix m \<noteq> max_u64"
    using assms(1) by (auto simp: coordinator_New_def split: if_splits)
  then have "unat nxt = Suc (unat (ix_CoveredCommitSeq ix m))" by (simp add: unat_succ_u64 u64_eq_max_iff)
  then show ?thesis
    using assms by (auto simp: coordinator_New_def coord_inv_def in_step_def waiting_def split: if_splits)
qed

end

end
