(* ===== verification/Commit_Properties.thy ===== *)
theory Commit_Properties
  imports Commit_Run Log_Properties
begin

text \<open>
  Properties of the commit path, for the record log with an arbitrary schedule of faults and the
  mapping in memory: an answer of success is durable, an answer that refuses a request leaves no
  trace of it in the log, every request has one answer, and the goroutine ends.
\<close>

section \<open>Refused requests\<close>

definition commit_unknown :: "err \<Rightarrow> bool" where
  "commit_unknown e = (case e of Join a b \<Rightarrow> a = base_ErrCommitUnknown | _ \<Rightarrow> False)"

fun refused :: "answer \<Rightarrow> bool" where
  "refused (CommitAnswer (Inl e)) \<longleftrightarrow> \<not> commit_unknown e"
| "refused (RelocationAnswer (Inl e)) \<longleftrightarrow> \<not> commit_unknown e"
| "refused _ \<longleftrightarrow> False"

definition unrefused :: "request list \<Rightarrow> (nat \<times> answer) list \<Rightarrow> Descriptor set" where
  \<comment> \<open>the descriptors of requests whose answer does not refuse them\<close>
  "unrefused reqs xs = {d. \<exists>rq q x. rq \<in> set reqs \<and> d = requestDescriptor rq q \<and> (CQ_chan rq, x) \<in> set xs \<and> \<not> refused x}"

lemma completeFailure_unknown:
  "\<exists>x. CO_answers (completeFailure ix rq e True True c) = CO_answers c @ [(CQ_chan rq, x)] \<and> \<not> refused x"
  by (auto simp: completeFailure_def Let_def answer_to_def release_reserve_def update_batch_def commit_unknown_def split: option.split)

lemma completeSuccess_unrefused:
  "\<exists>x. CO_answers (snd (completeSuccess rq q res c)) = CO_answers c @ [(CQ_chan rq, x)] \<and> \<not> refused x"
  by (auto simp: completeSuccess_def answer_to_def update_batch_def commit_unknown_def split: option.splits prod.splits)

lemma completeFailure_answers:
  "\<exists>x. CO_answers (completeFailure ix rq e u a c) = CO_answers c @ [(CQ_chan rq, x)]"
  by (auto simp: completeFailure_def Let_def answer_to_def release_reserve_def update_batch_def split: option.split)

lemma failures_unknown:
  "\<exists>xs. CO_answers (complete_failures ix e True items c) = CO_answers c @ xs \<and>
     (\<forall>(rq, res) \<in> set items. RP_Accepted res \<longrightarrow> (\<exists>x. (CQ_chan rq, x) \<in> set xs \<and> \<not> refused x))"
proof (induction items arbitrary: c)
  case Nil
  then show ?case by (simp add: complete_failures_def)
next
  case (Cons i items)
  obtain rq res where i: "i = (rq, res)" by (cases i)
  define c1 where "c1 = (if \<not> RP_Accepted res then completeFailure ix rq base_ErrConflict False False c else completeFailure ix rq e True True c)"
  obtain x where x: "CO_answers c1 = CO_answers c @ [(CQ_chan rq, x)]" "RP_Accepted res \<longrightarrow> \<not> refused x"
    using completeFailure_unknown [of ix rq e c] completeFailure_answers [of ix rq base_ErrConflict False False c]
    unfolding c1_def by (cases "RP_Accepted res") auto
  obtain xs where "CO_answers (complete_failures ix e True items c1) = CO_answers c1 @ xs"
    "\<forall>(rq, res) \<in> set items. RP_Accepted res \<longrightarrow> (\<exists>x. (CQ_chan rq, x) \<in> set xs \<and> \<not> refused x)" using Cons.IH [of c1] by blast
  moreover have "complete_failures ix e True (i # items) c = complete_failures ix e True items c1"
    by (simp add: complete_failures_def i c1_def)
  ultimately show ?case using x by (intro exI [of _ "(CQ_chan rq, x) # xs"]) (fastforce simp: i)
qed

lemma successes_unrefused:
  "\<exists>xs. CO_answers (complete_successes ix items c) = CO_answers c @ xs \<and>
     (\<forall>((rq, res), q) \<in> set items. RP_Accepted res \<longrightarrow> (\<exists>x. (CQ_chan rq, x) \<in> set xs \<and> \<not> refused x))"
proof (induction items arbitrary: c)
  case Nil
  then show ?case by (simp add: complete_successes_def)
next
  case (Cons i items)
  obtain rq res q where i: "i = ((rq, res), q)" by (metis prod.exhaust)
  obtain e c2 where c2: "completeSuccess rq q res c = (e, c2)" by (cases "completeSuccess rq q res c")
  define c1 where "c1 = (if \<not> RP_Accepted res then completeFailure ix rq base_ErrConflict False False c
    else case e of Some e' \<Rightarrow> coord_fail e' c2 | None \<Rightarrow> c2)"
  have "CO_answers (case e of Some e' \<Rightarrow> coord_fail e' c2 | None \<Rightarrow> c2) = CO_answers c2" by (cases e) auto
  then obtain x where x: "CO_answers c1 = CO_answers c @ [(CQ_chan rq, x)]" "RP_Accepted res \<longrightarrow> \<not> refused x"
    using completeSuccess_unrefused [of rq q res c] completeFailure_answers [of ix rq base_ErrConflict False False c] c2
    unfolding c1_def by (cases "RP_Accepted res") auto
  obtain xs where "CO_answers (complete_successes ix items c1) = CO_answers c1 @ xs"
    "\<forall>((rq, res), q) \<in> set items. RP_Accepted res \<longrightarrow> (\<exists>x. (CQ_chan rq, x) \<in> set xs \<and> \<not> refused x)" using Cons.IH [of c1] by blast
  moreover have "complete_successes ix (i # items) c = complete_successes ix items c1"
    by (simp add: complete_successes_def i c1_def c2 split: option.split)
  ultimately show ?case using x by (intro exI [of _ "(CQ_chan rq, x) # xs"]) (fastforce simp: i)
qed

lemma accepted_unrefused:
  assumes "assign_sequences nxt items = Some (qs, ds, n)"
    and "\<forall>(rq, res) \<in> set items. RP_Accepted res \<longrightarrow> (\<exists>x. (CQ_chan rq, x) \<in> set xs \<and> \<not> refused x)"
  shows "set ds \<subseteq> unrefused (map fst items) xs"
proof
  fix d assume "d \<in> set ds"
  then obtain rq res q where "((rq, res), q) \<in> set (zip items qs)" "RP_Accepted res" "d = requestDescriptor rq q"
    unfolding assign_sequences_facts(2) [OF assms(1)] by auto
  moreover from this have "(rq, res) \<in> set items" by (auto dest: set_zip_leftD)
  ultimately show "d \<in> unrefused (map fst items) xs" using assms(2) unfolding unrefused_def by force
qed

context commit_system
begin

definition traced :: "request list \<Rightarrow> ('l, 'm) Coordinator \<Rightarrow> ('l, 'm) Coordinator \<Rightarrow> bool" where
  "traced active c c' \<longleftrightarrow> (\<exists>xs. CO_answers c' = CO_answers c @ xs \<and>
     set (committed (ob_contents ob (CO_log c'))) \<subseteq> set (committed (ob_contents ob (CO_log c))) \<union> unrefused active xs)"

lemma rejects_traced:
  assumes "ob_ok ob (CO_mapping c1)" "CO_answers c1 = CO_answers c" "CO_log c1 = CO_log c"
  shows "traced active c (rejectGroup ix reqs e c1)"
  using rejects_keep [OF assms(1), of reqs e] assms(2,3) by (auto simp: traced_def kept_def)

lemma committed_append_bound:
  assumes "ob_log_ok ob l" "ap_Append ap l p sync = (x, l')"
  shows "set (committed (ob_contents ob l')) \<subseteq> set (committed (ob_contents ob l)) \<union> set (commits_of p)"
proof -
  obtain a n where "ob_contents ob l' = take n (ob_contents ob l @ [(a, p)])" using append_prefix [OF assms] by blast
  then have "set (ob_contents ob l') \<subseteq> set (ob_contents ob l @ [(a, p)])" by (metis set_take_subset)
  then have "set (committed (ob_contents ob l')) \<subseteq> set (committed (ob_contents ob l @ [(a, p)]))" by (auto simp: committed_def)
  then show ?thesis by simp
qed

lemma commit_group_traced:
  assumes inv: "coord_inv ix ob k m0 c" "CO_fault c = None"
    and plan: "ix_ResolveGroup ix (CO_mapping c) (map requestProposal active) = Inr plan"
    and seqs: "assign_sequences (CO_next c) (zip active (GP_Proposals plan)) = Some (qs, ds, n)"
    and payload: "EncodeCommitGroup \<lparr>G_Descriptors = ds\<rparr> mx = Inr payload"
  shows "traced active c (commit_group ap ix active plan qs ds n payload c)"
proof -
  let ?items = "zip active (GP_Proposals plan)" and ?ress = "map (\<lambda>rq. Some (CQ_reserve rq)) active"
  have ok: "ob_ok ob (CO_mapping c)" "ob_log_ok ob (CO_log c)" using inv by (auto simp: coord_inv_def)
  have "length (GP_Proposals plan) = length active" using resolve_spec [OF ok(1) plan] by (metis length_map length_spec_plan)
  then have act: "map fst ?items = active" by simp
  obtain x l where a: "ap_Append ap (CO_log c) payload True = (x, l)" by (cases "ap_Append ap (CO_log c) payload True")
  have com: "set (committed (ob_contents ob l)) \<subseteq> set (committed (ob_contents ob (CO_log c))) \<union> set ds"
    using committed_append_bound [OF ok(2) a] by (simp add: commits_of_encode(1) [OF payload])
  note un = accepted_unrefused [OF seqs, unfolded act]
  show ?thesis
  proof (cases x)
    case (Inl e)
    let ?c = "coord_fail e (c\<lparr>CO_log := l\<rparr>)"
    have eq: "commit_group ap ix active plan qs ds n payload c = complete_failures ix e (ap_Poisoned ap l) ?items ?c"
      using a Inl by (simp add: commit_group_def)
    have okc: "ob_ok ob (CO_mapping ?c)" using ok by simp
    note K = failures_keep [OF okc, of e "ap_Poisoned ap l" ?items]
    show ?thesis
    proof (cases "ap_Poisoned ap l")
      case True
      obtain xs where "CO_answers (complete_failures ix e True ?items ?c) = CO_answers ?c @ xs" "set ds \<subseteq> unrefused active xs"
        using failures_unknown [of ix e ?items ?c] un by blast
      then show ?thesis unfolding traced_def eq using K com True by (auto simp: kept_def)
    next
      case False
      then have "ob_contents ob l = ob_contents ob (CO_log c)" using append_Inl [OF ok(2)] a Inl by blast
      then show ?thesis unfolding traced_def eq using K by (auto simp: kept_def)
    qed
  next
    case (Inr r)
    obtain pe m where p: "publish_checked ix ds plan ?ress (CO_mapping c) = (pe, m)" by (cases "publish_checked ix ds plan ?ress (CO_mapping c)")
    note P = publish_checked_keeps(1) [OF ok(1) plan p]
    show ?thesis
    proof (cases pe)
      case (Some e)
      let ?c = "coord_fail e (c\<lparr>CO_log := l, CO_mapping := m\<rparr>)"
      have eq: "commit_group ap ix active plan qs ds n payload c = complete_failures ix e True ?items ?c"
        using a Inr p Some by (simp add: commit_group_def)
      have okc: "ob_ok ob (CO_mapping ?c)" using P by simp
      obtain xs where "CO_answers (complete_failures ix e True ?items ?c) = CO_answers ?c @ xs" "set ds \<subseteq> unrefused active xs"
        using failures_unknown [of ix e ?items ?c] un by blast
      then show ?thesis unfolding traced_def eq using failures_keep [OF okc, of e True ?items] com by (auto simp: kept_def)
    next
      case None
      let ?c = "c\<lparr>CO_log := l, CO_mapping := m, CO_next := n\<rparr>"
      have eq: "commit_group ap ix active plan qs ds n payload c = complete_successes ix (zip ?items qs) ?c"
        using a Inr p None by (simp add: commit_group_def)
      have okc: "ob_ok ob (CO_mapping ?c)" using P by simp
      obtain xs where xs: "CO_answers (complete_successes ix (zip ?items qs) ?c) = CO_answers ?c @ xs"
        "\<forall>((rq, res), q) \<in> set (zip ?items qs). RP_Accepted res \<longrightarrow> (\<exists>x. (CQ_chan rq, x) \<in> set xs \<and> \<not> refused x)"
        using successes_unrefused [of ix "zip ?items qs" ?c] by blast
      have "\<forall>(rq, res) \<in> set ?items. RP_Accepted res \<longrightarrow> (\<exists>x. (CQ_chan rq, x) \<in> set xs \<and> \<not> refused x)"
        using xs(2) assign_sequences_facts(1) [OF seqs] by (fastforce simp: set_zip in_set_conv_nth)
      then have "set ds \<subseteq> unrefused active xs" by (rule un)
      then show ?thesis unfolding traced_def eq using xs(1) successes_keep [OF okc, of "zip ?items qs"] com by (auto simp: kept_def)
    qed
  qed
qed

lemma process_traced:
  assumes inv: "coord_inv ix ob k m0 c"
  shows "traced (map (applyCommitRedirects (CO_redirects c)) (orderUserBeforeRelocation reqs)) c (coord_process ap ix reqs c)"
proof -
  define active where "active = map (applyCommitRedirects (CO_redirects c)) (orderUserBeforeRelocation reqs)"
  have ok: "ob_ok ob (CO_mapping c)" using inv by (simp add: coord_inv_def)
  note rej = rejects_traced [OF ok] and rejf = rejects_traced [of "coord_fail e c" for e]
  have here: "traced rqs c c" for rqs by (auto simp: traced_def)
  show ?thesis
    unfolding active_def [symmetric] coord_process_def Let_def
    using inv ok commit_group_traced [OF inv]
    by (auto intro!: rej rejf here split: option.split sum.split)
qed

lemma coord_run_answered:
  assumes "coord_inv ix ob k m0 c" "coord_run ap ix events c = (closed, left, c')"
  shows "(closed \<or> left = []) \<and> (\<exists>used. events = used @ left \<and> answered k m0 (map CQ_chan (received used)) c c')"
  using assms
proof (induction "length events" arbitrary: events c rule: less_induct)
  case less
  show ?case
  proof (cases "events = []")
    case True
    then show ?thesis using less.prems by (simp add: coord_run.simps [of ap ix "[]"] answered_def)
  next
    case False
    obtain cl lft c1 where t: "run_turn ap ix events c = (cl, lft, c1)" by (cases "run_turn ap ix events c")
    obtain used where u: "events = used @ lft" "answered k m0 (map CQ_chan (received used)) c c1"
      using run_turn_answered [OF less.prems(1) t] by blast
    show ?thesis
    proof (cases cl)
      case True
      then have "(closed, left, c') = (True, lft, c1)"
        using less.prems(2) t False by (simp add: coord_run.simps [of ap ix events])
      then show ?thesis using u by auto
    next
      case no: False
      have "length lft < length events" by (rule run_turn_left [OF t False])
      moreover have "coord_run ap ix lft c1 = (closed, left, c')"
        using less.prems(2) t False no by (simp add: coord_run.simps [of ap ix events])
      ultimately obtain used' where "closed \<or> left = []" "lft = used' @ left" "answered k m0 (map CQ_chan (received used')) c1 c'"
        using less.hyps answered_inv [OF u(2)] by blast
      then show ?thesis using answered_trans [OF u(2)] u(1) by (intro conjI exI [of _ "used @ used'"]) auto
    qed
  qed
qed

end

section \<open>The system of the record log and the mapping in memory\<close>

definition wal_observer :: "('c log_client, Mapping \<times> deltaBudget) observer" where
  "wal_observer = \<lparr>ob_contents = (\<lambda>k. log_contents (LC_log k)), ob_durable = (\<lambda>k. log_durable (LC_log k)),
     ob_log_ok = (\<lambda>k. log_ok (LC_log k)), ob_entries = index_entries, ob_ok = index_ok\<rparr>"

lemma wal_observer_simps [simp]:
  "ob_contents wal_observer = (\<lambda>k. log_contents (LC_log k))" "ob_durable wal_observer = (\<lambda>k. log_durable (LC_log k))"
  "ob_log_ok wal_observer = (\<lambda>k. log_ok (LC_log k))" "ob_entries wal_observer = index_entries" "ob_ok wal_observer = index_ok"
  by (simp_all add: wal_observer_def)

interpretation commits: commit_system memory_port "wal_port port" wal_observer for port :: "'c CatalogPort"
  unfolding commit_system_def wal_observer_simps
  by (intro conjI memory_index.index_port_axioms wal_appender.log_port_axioms)

text \<open>
  A coordinator as it is created: the log and the mapping are sound, and the mapping is the starting
  point \<open>m0\<close> advanced by the commits behind the first \<open>n\<close> records, all of them on stable storage.
\<close>

definition coordinator_started ::
  "nat \<Rightarrow> Mapping \<times> deltaBudget \<Rightarrow> ('c log_client, Mapping \<times> deltaBudget) Coordinator \<Rightarrow> bool" where
  "coordinator_started n m0 c \<longleftrightarrow> (\<exists>nxt l m config bs. coordinator_New memory_port nxt l m config bs = Inr c \<and> log_ok (LC_log l) \<and> index_ok m \<and>
     mapping_advanced index_entries index_covered m0 (committed (drop n (log_contents (LC_log l)))) m \<and>
     n \<le> log_durable (LC_log l) \<and> committed (drop (log_durable (LC_log l)) (log_contents (LC_log l))) = [])"

lemma started_inv:
  assumes "coordinator_started n m0 c0" "(coord_step (wal_port port) memory_port)\<^sup>*\<^sup>* c0 c"
  shows "coord_inv memory_port wal_observer n m0 c" "waiting c"
proof -
  obtain nxt l m config bs where s: "coordinator_New memory_port nxt l m config bs = Inr c0" "log_ok (LC_log l)" "index_ok m"
    "mapping_advanced index_entries index_covered m0 (committed (drop n (log_contents (LC_log l)))) m"
    "n \<le> log_durable (LC_log l)" "committed (drop (log_durable (LC_log l)) (log_contents (LC_log l))) = []"
    using assms(1) unfolding coordinator_started_def by blast
  have "coord_inv memory_port wal_observer n m0 c0 \<and> waiting c0"
    by (rule commits.coordinator_New_inv [OF s(1)]) (use s in simp_all)
  from commits.coord_steps_inv [OF assms(2) this] show "coord_inv memory_port wal_observer n m0 c" "waiting c" by auto
qed

section \<open>An example\<close>

text \<open>A fresh log and an empty mapping, and a batch without mutations that is submitted and committed.\<close>

lemma commit_log:
  "\<exists>l :: unit Log. log_ok l \<and> live l \<and> log_contents l = [] \<and> \<not> L_closing l \<and> L_maxPayloadBytes l = 128 \<and>
    L_budget l = newByteBudget 4096 \<and> remainingLocked (active_object l) = 3968"
proof -
  obtain r where r: "newSegmentRegistry example_segment [] = Inr r"
    by (simp add: newSegmentRegistry_def example_segment_def example_header_def)
  have rr: "r = \<lparr>R_entries = [(1, active_entry)], R_active = 1, R_closed = False, R_objs = [1 \<mapsto> example_segment]\<rparr>"
    using r by (simp add: newSegmentRegistry_def example_segment_def example_header_def)
  have "PhysicalRecordSize (unat (128 :: u32)) = Inr 160" by (simp add: PhysicalRecordSize_def)
  then have "\<exists>l :: unit Log. newLog example_config 128 example_segment r False () = Inr l"
    by (simp add: newLog_def Let_def LogConfig_validate_def example_config_def rr entry_of_def active_entry_def example_segment_def example_header_def)
  then obtain l :: "unit Log" where l: "newLog example_config 128 example_segment r False () = Inr l" ..
  have "opened_ok example_segment [] []"
    using example_segment_ok
    by (simp add: opened_ok_def) (simp add: example_segment_def example_header_def IsCompactionSegment_def CompactionSegmentBase_def word_le_nat_alt)
  note N = newLog_ok [OF this r l]
  have "log_contents l = []" using N(3) by (simp add: sealed_records_def)
  moreover have "\<not> L_closing l \<and> L_maxPayloadBytes l = 128 \<and> L_budget l = newByteBudget 4096 \<and> active_object l = example_segment"
    using l by (auto simp: newLog_def Let_def example_config_def active_object_def rr example_segment_def example_header_def split: if_splits)
  moreover have "remainingLocked example_segment = 3968"
    by (simp add: remainingLocked_def example_segment_def example_header_def)
  ultimately show ?thesis using N(1,2) by auto
qed

definition example_client :: "unit Log \<Rightarrow> unit log_client" where
  "example_client l = \<lparr>LC_log = l, LC_faults = (\<lambda>_. no_faults), LC_contexts = (\<lambda>_. example_context), LC_tick = 0\<rparr>"

definition example_coordinator :: "unit Log \<Rightarrow> (unit log_client, Mapping \<times> deltaBudget) Coordinator" where
  "example_coordinator l = \<lparr>CO_log = example_client l, CO_mapping = (NewEmpty, example_budget),
     CO_config = \<lparr>CC_QueueCapacity = 4, CC_MaxGroupBatches = 2, CC_MaxGroupPayload = 128, CC_GroupCommitDelay = 0\<rparr>, CO_next = 1,
     CO_fault = None, CO_fenced = False, CO_closed = False, CO_requests = [], CO_redirects = [], CO_redirectGen = 0,
     CO_batches = (\<lambda>_. example_batch), CO_answers = [], CO_chans = 0\<rparr>"

definition example_prepared :: Prepared where
  "example_prepared = \<lparr>PP_BatchID = 7, PP_Mutations = [], PP_Conditions = [], PP_LogicalPayloadBytes = 0\<rparr>"

definition example_commit_request :: request where
  "example_commit_request = \<lparr>CQ_chan = 0, CQ_batch = 0, CQ_prepared = example_prepared, CQ_relocation = None,
     CQ_reserve = unlimitedReservation, CQ_deltaPressureGeneration = 0, CQ_barrier = False, CQ_redirect = None\<rparr>"

lemma example_started: "log_ok l \<Longrightarrow> log_contents l = [] \<Longrightarrow> coordinator_started 0 (NewEmpty, example_budget) (example_coordinator l)"
  unfolding coordinator_started_def
  by (rule exI [of _ 1], rule exI [of _ "example_client l"], rule exI [of _ "(NewEmpty, example_budget)"],
      rule exI [of _ "CO_config (example_coordinator l)"], rule exI [of _ "\<lambda>_. example_batch"])
    (simp add: coordinator_New_def example_coordinator_def example_client_def ValidateConfig_def index_covered_def CoveredCommitSeq_def
      NewEmpty_def mapping_advanced_def index_ok_def NewEmpty_ok [unfolded NewEmpty_def])

definition example_submitted :: "unit Log \<Rightarrow> (unit log_client, Mapping \<times> deltaBudget) Coordinator" where
  "example_submitted l = (example_coordinator l)\<lparr>CO_requests := [example_commit_request], CO_chans := 1,
     CO_batches := (\<lambda>_. example_batch)(0 := example_batch\<lparr>B_state := StateCommitting\<rparr>)\<rparr>"

lemma example_submit:
  "Submit memory_port None None None 0 (example_coordinator l) =
     Some (Inr \<lparr>RE_chan = 0, RE_deltaPressureGeneration = 0\<rparr>, example_submitted l)"
  by (simp add: Submit_def example_coordinator_def example_submitted_def MutationIDs_def requireOpen_def example_batch_def
      index_ReserveDelta_def mapping_ReserveDelta_def Batch_Prepare_def Let_def new_request_def enqueue_def update_batch_def
      example_commit_request_def example_prepared_def)

definition example_descriptor :: Descriptor where
  "example_descriptor = \<lparr>D_Kind = DescriptorUserCommit, D_BatchID = 7, D_CommitSeq = 1, D_LogicalPayloadBytes = 0, D_Mutations = []\<rparr>"

lemma example_encode: "\<exists>p. EncodeCommitGroup \<lparr>G_Descriptors = [example_descriptor]\<rparr> 128 = Inr p \<and> length p = 72"
  by (simp add: EncodeCommitGroup_Inr validateDescriptors_None example_descriptor_def descriptor_ok_def mutations_ok_def descriptors_bytes_eq
      total_mutations_def encodeDescriptor_def)

lemma example_plan:
  obtains plan where "index_ResolveGroup (NewEmpty, example_budget) [requestProposal example_commit_request] = Inr plan"
    "GP_Proposals plan = [\<lparr>RP_Kind = ProposalUserCommit, RP_Accepted = True, RP_DeltaEntries = 0, RP_Changes = []\<rparr>]"
    "\<exists>m. publish_checked memory_port [example_descriptor] plan [Some unlimitedReservation] (NewEmpty, example_budget) = (None, m)"
proof -
  have prq: "requestProposal example_commit_request = \<lparr>PR_Kind = ProposalUserCommit, PR_Conditions = [], PR_Changes = []\<rparr>"
    by (simp add: requestProposal_def example_commit_request_def Prepared_Proposal_def example_prepared_def)
  have v: "validateProposal (requestProposal example_commit_request) = None" by (simp add: prq validateProposal_None)
  obtain plan where plan: "mapping_ResolveGroup NewEmpty [requestProposal example_commit_request] = Inr plan"
      "GP_Proposals plan = [\<lparr>RP_Kind = ProposalUserCommit, RP_Accepted = True, RP_DeltaEntries = 0, RP_Changes = []\<rparr>]"
    using v by (simp add: mapping_ResolveGroup_eq) (simp add: prq spec_accepts_def)
  have acc: "accepted_count plan = 1" by (simp add: accepted_count_def plan(2))
  have "\<exists>r m'. mapping_PublishGroup (MP_covered NewEmpty + 1) plan [Some unlimitedReservation] (NewEmpty, example_budget) = (Inr r, m', example_budget)"
    using plan acc settle_unlimited [of example_budget "GP_Proposals plan" 1]
    by (intro PublishGroup_succeeds [OF NewEmpty_ok plan(1)])
      (simp_all add: NewEmpty_def change_count_def prq spec_proposal_def spec_accepts_def)
  then obtain r m' where p: "mapping_PublishGroup 1 plan [Some unlimitedReservation] (NewEmpty, example_budget) = (Inr r, m', example_budget)"
    by (auto simp: NewEmpty_def)
  have "r = \<lparr>PU_Committed = 1, PU_Applied = 0, PU_Skipped = 0\<rparr>"
    using memory.publish_Inr [of "(NewEmpty, example_budget)" "[requestProposal example_commit_request]" plan, OF _ _ p] plan acc
    by (simp add: index_ok_def NewEmpty_ok index_ResolveGroup_def applied_def skipped_def)
  then have "publish_checked memory_port [example_descriptor] plan [Some unlimitedReservation] (NewEmpty, example_budget) = (None, m', example_budget)"
    using p by (simp add: publish_checked_def example_descriptor_def applied_def skipped_def plan(2))
  then show thesis using that [of plan] plan by (auto simp: index_ResolveGroup_def)
qed

lemma example_turn_commits:
  fixes l :: "unit Log"
  assumes l: "log_ok l" "live l" "\<not> L_closing l" "L_maxPayloadBytes l = 128" "L_budget l = newByteBudget 4096"
    "remainingLocked (active_object l) = 3968"
  obtains c where "run_turn (wal_port port) memory_port [Received example_commit_request] ((example_submitted l)\<lparr>CO_requests := []\<rparr>) = (False, [], c)"
    "CO_fault c = None" "CO_answers c = [(0, CommitAnswer (Inr \<lparr>CR_BatchID = 7, CR_CommitSeq = 1\<rparr>))]"
proof -
  let ?rq = example_commit_request
  define c1 where "c1 = (example_submitted l)\<lparr>CO_requests := []\<rparr>"
  obtain plan m where plan: "index_ResolveGroup (NewEmpty, example_budget) [requestProposal ?rq] = Inr plan"
    "GP_Proposals plan = [\<lparr>RP_Kind = ProposalUserCommit, RP_Accepted = True, RP_DeltaEntries = 0, RP_Changes = []\<rparr>]"
    "publish_checked memory_port [example_descriptor] plan [Some unlimitedReservation] (NewEmpty, example_budget) = (None, m)"
    by (rule example_plan) auto
  obtain p where p: "EncodeCommitGroup \<lparr>G_Descriptors = [example_descriptor]\<rparr> 128 = Inr p" "length p = 72" using example_encode by blast
  have "PhysicalRecordSize (length p) = Inr 104" by (simp add: p PhysicalRecordSize_def)
  then obtain r l' where "Log_Append port no_faults example_context l p True = (Inr r, l')"
    using append_succeeds [OF l(1-3) no_faults_calm, of example_context p 104 port True] l p
    by (auto simp: patient_def example_context_def newByteBudget_def)
  then obtain k where k: "client_append port (example_client l) p True = (Inr r, k)" by (simp add: client_append_def example_client_def)
  have rq: "requestDescriptor ?rq 1 = example_descriptor" "CQ_reserve ?rq = unlimitedReservation" "CQ_relocation ?rq = None"
    "applyCommitRedirects [] ?rq = ?rq" "orderUserBeforeRelocation [?rq] = [?rq]" "\<not> is_control ?rq"
    by (simp_all add: requestDescriptor_def coordinator_descriptor_def example_descriptor_def example_commit_request_def example_prepared_def
        applyCommitRedirects_def orderUserBeforeRelocation_def is_control_def)
  have c1: "CO_fault c1 = None" "CO_redirects c1 = []" "CO_mapping c1 = (NewEmpty, example_budget)" "CO_next c1 = 1" "CO_log c1 = example_client l"
    "CC_MaxGroupPayload (CO_config c1) = 128" "CO_answers c1 = []" "CO_batches c1 0 = example_batch\<lparr>B_state := StateCommitting\<rparr>"
    by (simp_all add: c1_def example_submitted_def example_coordinator_def)
  have room: "group_room c1 ?rq = Inr 40"
    by (simp add: group_room_def requestDescriptorSize_def rq(3)) (simp add: example_commit_request_def example_prepared_def DescriptorSize_def checkedMul_def checkedSize_def c1)
  have seqs: "assign_sequences 1 (zip [?rq] (GP_Proposals plan)) = Some ([1], [example_descriptor], 2)" by (simp add: plan(2) rq)
  have "coord_process (wal_port port) memory_port [?rq] c1 = commit_group (wal_port port) memory_port [?rq] plan [1] [example_descriptor] 2 p c1"
    using plan(1) seqs p(1) by (simp add: coord_process_def Let_def c1 rq)
  also have "\<dots> = complete_successes memory_port (zip (zip [?rq] (GP_Proposals plan)) [1]) (c1\<lparr>CO_log := k, CO_mapping := m, CO_next := 2\<rparr>)"
    using k plan(3) by (simp add: commit_group_def Let_def c1 rq)
  also have "\<dots> = answer_to ?rq (CommitAnswer (Inr \<lparr>CR_BatchID = 7, CR_CommitSeq = 1\<rparr>))
      (update_batch 0 (\<lambda>_. snd (MarkCommitted 1 (example_batch\<lparr>B_state := StateCommitting\<rparr>))) (c1\<lparr>CO_log := k, CO_mapping := m, CO_next := 2\<rparr>))"
    by (simp add: complete_successes_def plan(2) completeSuccess_def rq(3) MarkCommitted_def)
      (simp add: example_commit_request_def example_prepared_def c1)
  finally have "coord_process (wal_port port) memory_port [?rq] c1 = \<dots>" .
  moreover have "run_turn (wal_port port) memory_port [Received ?rq] c1 = (False, [], coord_process (wal_port port) memory_port [?rq] c1)"
    by (simp add: run_turn_def rq room)
  ultimately show thesis
    using that [of "coord_process (wal_port port) memory_port [?rq] c1"] c1
    by (simp add: c1_def answer_to_def update_batch_def) (simp add: example_commit_request_def)
qed

lemma example_commit:
  "\<exists>c0 c. coordinator_started 0 (NewEmpty, example_budget) c0 \<and> (coord_step (wal_port (port :: unit CatalogPort)) memory_port)\<^sup>*\<^sup>* c0 c \<and>
    CO_fault c = None \<and> CO_answers c = [(0, CommitAnswer (Inr \<lparr>CR_BatchID = 7, CR_CommitSeq = 1\<rparr>))]"
proof -
  obtain l :: "unit Log" where l: "log_ok l" "live l" "log_contents l = []" "\<not> L_closing l" "L_maxPayloadBytes l = 128"
    "L_budget l = newByteBudget 4096" "remainingLocked (active_object l) = 3968" using commit_log by blast
  let ?step = "coord_step (wal_port port) memory_port"
  obtain c where c: "run_turn (wal_port port) memory_port [Received example_commit_request] ((example_submitted l)\<lparr>CO_requests := []\<rparr>) = (False, [], c)"
    "CO_fault c = None" "CO_answers c = [(0, CommitAnswer (Inr \<lparr>CR_BatchID = 7, CR_CommitSeq = 1\<rparr>))]"
    by (rule example_turn_commits [OF l(1,2,4-7)])
  have "?step (example_coordinator l) (example_submitted l)" by (rule step_Submit [OF example_submit])
  moreover have "?step (example_submitted l) (c\<lparr>CO_requests := received [] @ CO_requests c\<rparr>)"
    by (rule step_Turn [where events = "[Received example_commit_request]" and rest = "[]", OF _ c(1)]) (simp add: example_submitted_def)
  ultimately have "?step\<^sup>*\<^sup>* (example_coordinator l) (c\<lparr>CO_requests := received [] @ CO_requests c\<rparr>)" by (meson converse_rtranclp_into_rtranclp r_into_rtranclp)
  then show ?thesis using example_started [OF l(1,3)] c(2,3) by (intro exI conjI) auto
qed

section \<open>Properties\<close>

text \<open>
  C25: While the coordinator has no fault, the mapping is exactly the history of the log: its entries
  are those of the starting point after the commit groups in the log, in log order; the commit
  sequences of that history are consecutive, the next one is the coordinator's, and every commit of
  the history is on stable storage. This holds after any interleaving of submissions, relocations,
  fences, redirects, turns of the goroutine, appends of other clients and changes of batches, under
  every schedule of faults of the log.
\<close>

theorem mapping_is_history:
  assumes "coordinator_started n m0 c0" "(coord_step (wal_port port) memory_port)\<^sup>*\<^sup>* c0 c" "CO_fault c = None"
  shows "index_entries (CO_mapping c) = replay_entries (index_entries m0) (committed (drop n (log_contents (LC_log (CO_log c))))) \<and>
    map (\<lambda>d. unat (D_CommitSeq d)) (committed (drop n (log_contents (LC_log (CO_log c))))) =
      [Suc (unat (index_covered m0)) ..< unat (CO_next c)] \<and>
    unat (CO_next c) = Suc (unat (index_covered (CO_mapping c))) \<and>
    committed (drop (log_durable (LC_log (CO_log c))) (log_contents (LC_log (CO_log c)))) = []"
  using started_inv(1) [OF assms(1,2)] assms(3) by (simp add: coord_inv_def in_step_def mapping_advanced_def del: upt_Suc)

theorem mapping_is_history_witness:
  "\<forall>port :: unit CatalogPort. \<exists>c0 c. coordinator_started 0 (NewEmpty, example_budget) c0 \<and>
    (coord_step (wal_port port) memory_port)\<^sup>*\<^sup>* c0 c \<and> CO_answers c = [(0, CommitAnswer (Inr \<lparr>CR_BatchID = 7, CR_CommitSeq = 1\<rparr>))] \<and>
    index_entries (CO_mapping c) = replay_entries Map.empty (committed (log_contents (LC_log (CO_log c)))) \<and>
    committed (drop (log_durable (LC_log (CO_log c))) (log_contents (LC_log (CO_log c)))) = []"
    (is "\<forall>port. ?P port")
proof (rule allI)
  fix port :: "unit CatalogPort"
  obtain c0 c where c: "coordinator_started 0 (NewEmpty, example_budget) c0" "(coord_step (wal_port port) memory_port)\<^sup>*\<^sup>* c0 c"
    "CO_fault c = None" "CO_answers c = [(0, CommitAnswer (Inr \<lparr>CR_BatchID = 7, CR_CommitSeq = 1\<rparr>))]"
    using example_commit [of port] by blast
  show "?P port" using mapping_is_history [OF c(1-3)] c by (auto simp: index_entries_def NewEmpty_def simp del: upt_Suc)
qed

text \<open>
  C26: An answer of success is a promise that survives a crash: every commit and every relocation that
  was ever answered with a sequence number has its descriptor, with that batch id and that
  sequence, among the records of the log that are on stable storage, even after the log or the
  coordinator has failed.
\<close>

theorem acknowledged_is_durable:
  assumes "coordinator_started n m0 c0" "(coord_step (wal_port port) memory_port)\<^sup>*\<^sup>* c0 c"
    and "(chan, x) \<in> set (CO_answers c)" "answer_key x = Some key"
  shows "\<exists>d \<in> set (committed (drop n (take (log_durable (LC_log (CO_log c))) (log_contents (LC_log (CO_log c)))))). descriptor_key d = key"
proof -
  have "key \<in> acknowledged (CO_answers c)" using assms(3,4) by (force simp: acknowledged_def)
  then have "key \<in> durable_keys wal_observer n (CO_log c)" using started_inv(1) [OF assms(1,2)] by (auto simp: coord_inv_def)
  then show ?thesis by (auto simp: durable_keys_def)
qed

theorem acknowledged_is_durable_witness:
  "\<forall>port :: unit CatalogPort. \<exists>c0 c. coordinator_started 0 (NewEmpty, example_budget) c0 \<and>
    (coord_step (wal_port port) memory_port)\<^sup>*\<^sup>* c0 c \<and> CO_answers c = [(0, CommitAnswer (Inr \<lparr>CR_BatchID = 7, CR_CommitSeq = 1\<rparr>))] \<and>
    (\<exists>d \<in> set (committed (take (log_durable (LC_log (CO_log c))) (log_contents (LC_log (CO_log c))))).
       descriptor_key d = (DescriptorUserCommit, 7, 1))"
    (is "\<forall>port. ?P port")
proof (rule allI)
  fix port :: "unit CatalogPort"
  obtain c0 c where c: "coordinator_started 0 (NewEmpty, example_budget) c0" "(coord_step (wal_port port) memory_port)\<^sup>*\<^sup>* c0 c"
    "CO_fault c = None" "CO_answers c = [(0, CommitAnswer (Inr \<lparr>CR_BatchID = 7, CR_CommitSeq = 1\<rparr>))]"
    using example_commit [of port] by blast
  show "?P port" using acknowledged_is_durable [OF c(1,2), of 0 "CommitAnswer (Inr \<lparr>CR_BatchID = 7, CR_CommitSeq = 1\<rparr>)"] c by auto
qed

text \<open>
  C27: Processing a group gives every request of it one answer, and an answer that refuses a request
  (an error other than \<^verbatim>\<open>ErrCommitUnknown\<close>) leaves no trace: every descriptor that the log has gained
  belongs to a request of the group whose answer is a success or \<^verbatim>\<open>ErrCommitUnknown\<close>.
\<close>

theorem refusal_leaves_no_trace:
  assumes "coordinator_started n m0 c0" "(coord_step (wal_port port) memory_port)\<^sup>*\<^sup>* c0 c"
  shows "\<exists>xs. CO_answers (coord_process (wal_port port) memory_port reqs c) = CO_answers c @ xs \<and>
    mset (map fst xs) = mset (map CQ_chan reqs) \<and>
    set (committed (log_contents (LC_log (CO_log (coord_process (wal_port port) memory_port reqs c))))) \<subseteq>
      set (committed (log_contents (LC_log (CO_log c)))) \<union>
      unrefused (map (applyCommitRedirects (CO_redirects c)) (orderUserBeforeRelocation reqs)) xs"
proof -
  note inv = started_inv(1) [OF assms]
  obtain xs where xs: "CO_answers (coord_process (wal_port port) memory_port reqs c) = CO_answers c @ xs"
    "set (committed (ob_contents wal_observer (CO_log (coord_process (wal_port port) memory_port reqs c)))) \<subseteq>
      set (committed (ob_contents wal_observer (CO_log c))) \<union>
      unrefused (map (applyCommitRedirects (CO_redirects c)) (orderUserBeforeRelocation reqs)) xs"
    using commits.process_traced [OF inv] unfolding commits.traced_def by blast
  then show ?thesis
    using commits.process_answered [OF inv, where reqs = reqs and port = port] unfolding commits.answered_def by auto
qed

theorem refusal_leaves_no_trace_witness:
  "\<forall>port :: unit CatalogPort. \<exists>c0 c. coordinator_started 0 (NewEmpty, example_budget) c0 \<and>
    (coord_step (wal_port port) memory_port)\<^sup>*\<^sup>* c0 c \<and> CO_answers c = [(0, CommitAnswer (Inr \<lparr>CR_BatchID = 7, CR_CommitSeq = 1\<rparr>))] \<and>
    (\<exists>xs. CO_answers (coord_process (wal_port port) memory_port [example_commit_request] c) = CO_answers c @ xs \<and> map fst xs = [0])"
    (is "\<forall>port. ?P port")
proof (rule allI)
  fix port :: "unit CatalogPort"
  obtain c0 c where c: "coordinator_started 0 (NewEmpty, example_budget) c0" "(coord_step (wal_port port) memory_port)\<^sup>*\<^sup>* c0 c"
    "CO_fault c = None" "CO_answers c = [(0, CommitAnswer (Inr \<lparr>CR_BatchID = 7, CR_CommitSeq = 1\<rparr>))]"
    using example_commit [of port] by blast
  obtain xs where xs: "CO_answers (coord_process (wal_port port) memory_port [example_commit_request] c) = CO_answers c @ xs"
    "mset (map fst xs) = mset (map CQ_chan [example_commit_request])"
    using refusal_leaves_no_trace [OF c(1,2), of "[example_commit_request]"] by blast
  moreover have "CQ_chan example_commit_request = 0" by (simp add: example_commit_request_def)
  ultimately have "mset (map fst xs) = {#0#}" by simp
  then have "map fst xs = [0]" by (simp only: mset_single_iff)
  then show "?P port"
    using c(1,2,4) xs(1) by (intro exI [of _ c0] exI [of _ c] conjI exI [of _ xs]) simp_all
qed

text \<open>
  C28: Every request has at most one answer, and a request without an answer is still in the queue:
  the channels created so far are exactly those answered and those waiting, each of them once.
\<close>

theorem one_answer_each:
  assumes "coordinator_started n m0 c0" "(coord_step (wal_port port) memory_port)\<^sup>*\<^sup>* c0 c"
  shows "distinct (map fst (CO_answers c) @ map CQ_chan (CO_requests c)) \<and>
    set (map fst (CO_answers c) @ map CQ_chan (CO_requests c)) = {..<CO_chans c}"
proof -
  have m: "mset (map fst (CO_answers c) @ map CQ_chan (CO_requests c)) = mset [0..<CO_chans c]"
    using started_inv(2) [OF assms] by (simp only: waiting_def mset_append)
  have "set (map fst (CO_answers c) @ map CQ_chan (CO_requests c)) = set [0..<CO_chans c]" by (rule mset_eq_setD [OF m])
  moreover have "distinct (map fst (CO_answers c) @ map CQ_chan (CO_requests c))"
    using mset_eq_imp_distinct_iff [OF m] by simp
  ultimately show ?thesis by auto
qed

theorem one_answer_each_witness:
  "\<forall>port :: unit CatalogPort. \<exists>c0 c. coordinator_started 0 (NewEmpty, example_budget) c0 \<and>
    (coord_step (wal_port port) memory_port)\<^sup>*\<^sup>* c0 c \<and> CO_answers c = [(0, CommitAnswer (Inr \<lparr>CR_BatchID = 7, CR_CommitSeq = 1\<rparr>))] \<and>
    set (0 # map CQ_chan (CO_requests c)) = {..<CO_chans c}"
    (is "\<forall>port. ?P port")
proof (rule allI)
  fix port :: "unit CatalogPort"
  obtain c0 c where c: "coordinator_started 0 (NewEmpty, example_budget) c0" "(coord_step (wal_port port) memory_port)\<^sup>*\<^sup>* c0 c"
    "CO_fault c = None" "CO_answers c = [(0, CommitAnswer (Inr \<lparr>CR_BatchID = 7, CR_CommitSeq = 1\<rparr>))]"
    using example_commit [of port] by blast
  show "?P port" using one_answer_each [OF c(1,2)] c by auto
qed



end
