(* ===== verification/Map_Node.thy ===== *)
theory Map_Node
  imports Record_Format
begin

text \<open>
  The nodes of the persistent mapping, \<^verbatim>\<open>internal/mapstore/node.go\<close>. A node has 512 slots; level 0
  holds record references, the levels above hold node addresses. A node with fewer than 504
  entries is written sparse, as a bitmap and the packed values, otherwise dense. The 512-element Go
  arrays are lists of length 512. The lemmas show that what a node is built from is what a reader of
  its encoding sees, through every access path: the point lookups, which count bits, and the
  expansions, which walk the bitmap.
\<close>

section \<open>Formats\<close>

abbreviation NodeHeaderSize :: u32 where "NodeHeaderSize \<equiv> 64"
abbreviation NodeSlots :: nat where "NodeSlots \<equiv> 512"
abbreviation SparseBitmapBytes :: u32 where "SparseBitmapBytes \<equiv> 64"
abbreviation DenseInternalNodeSize :: u32 where "DenseInternalNodeSize \<equiv> 4160"
abbreviation DenseLeafNodeSize :: u32 where "DenseLeafNodeSize \<equiv> 6208"
abbreviation SparseDenseBoundary :: nat where "SparseDenseBoundary \<equiv> 504"
abbreviation MaxLevel :: u8 where "MaxLevel \<equiv> 7"
abbreviation mapstore_FormatVersion :: u16 where "mapstore_FormatVersion \<equiv> 3"

definition nodeMagic :: bytes where
  "nodeMagic = [0x52, 0x49, 0x44, 0x4d, 0x41, 0x50, 0x4e, 0x32]"  \<comment> \<open>RIDMAPN2\<close>

lemma length_nodeMagic [simp]: "length nodeMagic = 8"
  by (simp add: nodeMagic_def)

abbreviation EncodingSparse :: u8 where "EncodingSparse \<equiv> 1"
abbreviation EncodingDense :: u8 where "EncodingDense \<equiv> 2"

record Node =
  N_Level :: u8
  N_Encoding :: u8
  N_NodeSeq :: u64
  N_Prefix :: u64
  N_CoveredCommitSeq :: CommitSeq
  N_EntryCount :: u16
  N_Bitmap :: "u64 list"
  N_Values :: "u64 list"
  N_Sizes :: "u32 list"

record NodeBuild =
  NB_Level :: u8
  NB_NodeSeq :: u64
  NB_Prefix :: u64
  NB_CoveredCommitSeq :: CommitSeq
  NB_Slots :: "u64 list"
  NB_Sizes :: "u32 list"

abbreviation mapstore_ErrInvalid :: err where "mapstore_ErrInvalid \<equiv> E_mapstore MS_Invalid"
abbreviation mapstore_ErrCorrupt :: err where "mapstore_ErrCorrupt \<equiv> E_mapstore MS_Corrupt"
abbreviation mapstore_ErrUnsupported :: err where "mapstore_ErrUnsupported \<equiv> E_mapstore MS_Unsupported"

declare upt_rec_numeral [simp del]

section \<open>Helpers\<close>

text \<open>\<^verbatim>\<open>bits.OnesCount64\<close> and \<^verbatim>\<open>bits.TrailingZeros64\<close> of the Go library.\<close>

definition OnesCount64 :: "u64 \<Rightarrow> nat" where
  "OnesCount64 w = length (filter (bit w) [0..<64])"

definition TrailingZeros64 :: "u64 \<Rightarrow> nat" where
  "TrailingZeros64 w = length (takeWhile (\<lambda>i. \<not> bit w i) [0..<64])"

definition alignNodeSize :: "u32 \<Rightarrow> u32" where
  "alignNodeSize sz = (sz + 7) AND NOT 7"

definition countValues :: "u64 list \<Rightarrow> nat" where
  "countValues values = length (filter (\<lambda>v. v \<noteq> 0) values)"

definition bitmapCount :: "u64 list \<Rightarrow> nat" where
  "bitmapCount bitmap = sum_list (map OnesCount64 bitmap)"

definition topSlotsEmpty :: "u64 list \<Rightarrow> bool" where
  "topSlotsEmpty values \<longleftrightarrow> list_all (\<lambda>v. v = 0) (drop 2 values)"

definition topBitmapEmpty :: "u64 list \<Rightarrow> bool" where
  "topBitmapEmpty bitmap \<longleftrightarrow> bitmap ! 0 AND NOT 3 = 0 \<and> list_all (\<lambda>w. w = 0) (drop 1 bitmap)"

definition headerChecksum :: "bytes \<Rightarrow> u32" where
  "headerChecksum header = crc32c (subslice 0 48 header @ replicate 4 0 @ subslice 52 64 header)"

definition validPrefix :: "u8 \<Rightarrow> u64 \<Rightarrow> bool" where
  "validPrefix level prefix =
     (if level > MaxLevel then False
      else if level = MaxLevel then prefix = 0
      else prefix < push_bit (64 - 9 * (unat level + 1)) 1)"

definition value_ok :: "u8 \<Rightarrow> u32 list \<Rightarrow> nat \<Rightarrow> u64 \<Rightarrow> bool" where
  "value_ok level sizes index value =
     (if value = 0 then \<not> (level = 0 \<and> sizes ! index \<noteq> 0)
      else if level = 0 then RecordRef_Valid \<lparr>Ref_Addr = value, Ref_PhysicalSize = sizes ! index\<rparr>
      else if sizes \<noteq> [] \<and> sizes ! index \<noteq> 0 then False
      else case ParseMapAddr value of Inl _ \<Rightarrow> False | Inr _ \<Rightarrow> True)"

definition validateValues :: "u8 \<Rightarrow> u64 list \<Rightarrow> u32 list \<Rightarrow> err option" where
  "validateValues level values sizes =
     (if level = 0 \<and> length sizes \<noteq> length values \<or>
         level \<noteq> 0 \<and> length sizes \<noteq> 0 \<and> length sizes \<noteq> length values then Some mapstore_ErrInvalid
      else if list_all (\<lambda>(index, value). value_ok level sizes index value) (enumerate 0 values) then None
      else Some mapstore_ErrInvalid)"

definition EncodedNodeSize :: "u8 \<Rightarrow> u16 \<Rightarrow> u32 res" where
  "EncodedNodeSize level entries =
     (if level > MaxLevel \<or> entries = 0 \<or> entries > 512 then Inl mapstore_ErrInvalid
      else if entries \<ge> 504 then Inr (if level = 0 then DenseLeafNodeSize else DenseInternalNodeSize)
      else Inr (alignNodeSize (NodeHeaderSize + SparseBitmapBytes + ucast entries * (if level = 0 then 12 else 8))))"

definition Node_PhysicalSize :: "Node \<Rightarrow> u32" where
  "Node_PhysicalSize n = (case EncodedNodeSize (N_Level n) (N_EntryCount n) of Inl _ \<Rightarrow> 0 | Inr sz \<Rightarrow> sz)"

section \<open>Encoding\<close>

definition slot_bytes :: "u8 \<Rightarrow> u64 \<Rightarrow> u32 \<Rightarrow> bytes" where
  \<comment> \<open>the value of a slot and, in a leaf, its size\<close>
  "slot_bytes level value sz = le64 value @ (if level = 0 then le32 sz else [])"

fun encode_slot :: "u8 \<Rightarrow> u32 list \<Rightarrow> u64 list \<times> bytes \<Rightarrow> nat \<times> u64 \<Rightarrow> u64 list \<times> bytes" where
  \<comment> \<open>one slot of a sparse node: its bit in the bitmap and its packed bytes\<close>
  "encode_slot level sizes (bitmap, out) (slot, value) =
     (if value = 0 then (bitmap, out)
      else (bitmap[slot div 64 := bitmap ! (slot div 64) OR push_bit (slot mod 64) 1],
            out @ slot_bytes level value (sizes ! slot)))"

definition encode_sparse :: "u8 \<Rightarrow> u64 list \<Rightarrow> u32 list \<Rightarrow> bytes" where
  "encode_sparse level slots sizes =
     (let (bitmap, out) = foldl (encode_slot level sizes) (replicate 8 0, []) (enumerate 0 slots)
      in concat (map le64 bitmap) @ out)"

definition encode_dense :: "u8 \<Rightarrow> u64 list \<Rightarrow> u32 list \<Rightarrow> bytes" where
  "encode_dense level slots sizes =
     concat (map (\<lambda>(slot, value). slot_bytes level value (sizes ! slot)) (enumerate 0 slots))"

definition node_head :: "u8 \<Rightarrow> u8 \<Rightarrow> u32 \<Rightarrow> u64 \<Rightarrow> u64 \<Rightarrow> CommitSeq \<Rightarrow> u16 \<Rightarrow> bytes \<Rightarrow> bytes" where
  \<comment> \<open>the bytes of the header before its checksum\<close>
  "node_head level encoding sz seq prefix covered count payload =
     nodeMagic @ le16 mapstore_FormatVersion @ [level] @ [encoding] @ le32 sz @ le64 seq @ le64 prefix @
     le64 covered @ le16 count @ replicate 2 0 @ le32 (crc32c payload)"

definition node_encoding :: "nat \<Rightarrow> u8" where
  "node_encoding count = (if count \<ge> SparseDenseBoundary then EncodingDense else EncodingSparse)"

definition node_size :: "u8 \<Rightarrow> nat \<Rightarrow> u32" where
  "node_size level count =
     (if count \<ge> SparseDenseBoundary then if level = 0 then DenseLeafNodeSize else DenseInternalNodeSize
      else alignNodeSize (NodeHeaderSize + SparseBitmapBytes + of_nat count * (if level = 0 then 12 else 8)))"

definition node_payload :: "NodeBuild \<Rightarrow> bytes" where
  "node_payload build =
     (let count = countValues (NB_Slots build);
          body = (if count \<ge> SparseDenseBoundary then encode_dense (NB_Level build) (NB_Slots build) (NB_Sizes build)
                  else encode_sparse (NB_Level build) (NB_Slots build) (NB_Sizes build))
      in body @ replicate (unat (node_size (NB_Level build) count) - 64 - length body) 0)"

definition EncodeNode :: "NodeBuild \<Rightarrow> bytes res" where
  "EncodeNode build =
     (if NB_NodeSeq build = 0 \<or> NB_CoveredCommitSeq build = 0 \<or> \<not> validPrefix (NB_Level build) (NB_Prefix build)
      then Inl mapstore_ErrInvalid
      else let count = countValues (NB_Slots build) in
        if count = 0 \<or> NB_Level build = MaxLevel \<and> \<not> topSlotsEmpty (NB_Slots build) then Inl mapstore_ErrInvalid
        else case validateValues (NB_Level build) (NB_Slots build) (NB_Sizes build) of Some e \<Rightarrow> Inl e
        | None \<Rightarrow>
          let head = node_head (NB_Level build) (node_encoding count) (node_size (NB_Level build) count) (NB_NodeSeq build)
                (NB_Prefix build) (NB_CoveredCommitSeq build) (of_nat count) (node_payload build);
              rest = replicate 12 0
          in Inr (head @ le32 (headerChecksum (head @ replicate 4 0 @ rest)) @ rest @ node_payload build))"

section \<open>Decoding\<close>

definition decodeNodeHeader :: "bytes \<Rightarrow> u32 \<Rightarrow> (Node \<times> u32) res" where
  "decodeNodeHeader src segmentRemaining =
     (if length src < 64 then Inl mapstore_ErrCorrupt
      else let header = subslice 0 64 src in
        if subslice 0 8 header \<noteq> nodeMagic \<or> get32 (subslice 48 52 header) \<noteq> headerChecksum header then Inl mapstore_ErrCorrupt
        else if get16 (subslice 8 10 header) \<noteq> mapstore_FormatVersion then Inl mapstore_ErrUnsupported
        else if get16 (subslice 42 44 header) \<noteq> 0 \<or> get32 (subslice 52 56 header) \<noteq> 0 \<or>
                get64 (subslice 56 64 header) \<noteq> 0 then Inl mapstore_ErrCorrupt
        else let size = get32 (subslice 12 16 header) in
          if size < NodeHeaderSize \<or> size AND 7 \<noteq> 0 \<or> size > segmentRemaining then Inl mapstore_ErrCorrupt
          else let node = \<lparr>N_Level = header ! 10, N_Encoding = header ! 11,
                 N_NodeSeq = get64 (subslice 16 24 header), N_Prefix = get64 (subslice 24 32 header),
                 N_CoveredCommitSeq = get64 (subslice 32 40 header), N_EntryCount = get16 (subslice 40 42 header),
                 N_Bitmap = replicate 8 0, N_Values = [], N_Sizes = []\<rparr> in
            if N_NodeSeq node = 0 \<or> N_CoveredCommitSeq node = 0 \<or> N_EntryCount node = 0 \<or> N_EntryCount node > 512 \<or>
               \<not> validPrefix (N_Level node) (N_Prefix node) then Inl mapstore_ErrCorrupt
            else if N_Encoding node = EncodingSparse then
              if size \<noteq> alignNodeSize (NodeHeaderSize + SparseBitmapBytes +
                   ucast (N_EntryCount node) * (if N_Level node = 0 then 12 else 8))
              then Inl mapstore_ErrCorrupt else Inr (node, size)
            else if N_Encoding node = EncodingDense then
              if size \<noteq> (if N_Level node = 0 then DenseLeafNodeSize else DenseInternalNodeSize)
              then Inl mapstore_ErrCorrupt else Inr (node, size)
            else Inl mapstore_ErrUnsupported)"

definition decode_values :: "u8 \<Rightarrow> nat \<Rightarrow> nat \<Rightarrow> bytes \<Rightarrow> u64 list \<times> u32 list" where
  \<comment> \<open>\<open>n\<close> slots from the offset \<open>at\<close> of the payload, with their sizes in a leaf\<close>
  "decode_values level n at payload =
     (let width = (if level = 0 then 12 else 8) in
      (map (\<lambda>i. get64 (subslice (at + i * width) (at + i * width + 8) payload)) [0..<n],
       if level = 0 then map (\<lambda>i. get32 (subslice (at + i * width + 8) (at + i * width + 12) payload)) [0..<n] else []))"

definition decode_body :: "Node \<Rightarrow> bytes \<Rightarrow> Node res" where
  \<comment> \<open>the switch on the encoding\<close>
  "decode_body node payload =
     (if N_Encoding node = EncodingSparse then
        let bitmap = map (\<lambda>i. get64 (subslice (i * 8) (i * 8 + 8) payload)) [0..<8] in
        if bitmapCount bitmap \<noteq> unat (N_EntryCount node) \<or> N_Level node = MaxLevel \<and> \<not> topBitmapEmpty bitmap
        then Inl mapstore_ErrCorrupt
        else let (values, sizes) = decode_values (N_Level node) (unat (N_EntryCount node)) 64 payload
             in Inr (node\<lparr>N_Bitmap := bitmap, N_Values := values, N_Sizes := sizes\<rparr>)
      else if N_Encoding node = EncodingDense then
        let (values, sizes) = decode_values (N_Level node) NodeSlots 0 payload in
        if countValues values \<noteq> unat (N_EntryCount node) \<or> N_Level node = MaxLevel \<and> \<not> topSlotsEmpty values
        then Inl mapstore_ErrCorrupt
        else Inr (node\<lparr>N_Values := values, N_Sizes := sizes\<rparr>)
      else Inr node)"

definition DecodeNode :: "bytes \<Rightarrow> u32 \<Rightarrow> (Node \<times> u32) res" where
  "DecodeNode src segmentRemaining =
     res_bind (decodeNodeHeader src segmentRemaining) (\<lambda>(node, size).
       if unat size > length src then Inl mapstore_ErrCorrupt
       else let payload = subslice 64 (unat size) src in
         if crc32c payload \<noteq> get32 (subslice 44 48 src) then Inl mapstore_ErrCorrupt
         else res_bind (decode_body node payload) (\<lambda>node'.
           case validateValues (N_Level node') (N_Values node') (N_Sizes node') of
             Some e \<Rightarrow> Inl (Join mapstore_ErrCorrupt e)
           | None \<Rightarrow> Inr (node', size)))"

section \<open>Access\<close>

definition packed_index :: "u64 list \<Rightarrow> nat \<Rightarrow> nat" where
  \<comment> \<open>the number of set bits before a slot\<close>
  "packed_index bitmap slot =
     sum_list (map OnesCount64 (take (slot div 64) bitmap)) +
     OnesCount64 (bitmap ! (slot div 64) AND (push_bit (slot mod 64) 1 - 1))"

definition node_Lookup :: "Node \<Rightarrow> nat \<Rightarrow> u64 \<times> bool" where
  "node_Lookup n slot =
     (if slot \<ge> NodeSlots then (0, False)
      else if N_Encoding n = EncodingDense then (N_Values n ! slot, N_Values n ! slot \<noteq> 0)
      else if N_Bitmap n ! (slot div 64) AND push_bit (slot mod 64) 1 = 0 then (0, False)
      else (N_Values n ! packed_index (N_Bitmap n) slot, True))"

definition node_LookupRef :: "Node \<Rightarrow> nat \<Rightarrow> RecordRef \<times> bool" where
  "node_LookupRef n slot =
     (if N_Level n \<noteq> 0 \<or> slot \<ge> NodeSlots then (zero_ref, False)
      else if N_Encoding n = EncodingDense then
        if N_Values n ! slot = 0 then (zero_ref, False)
        else (\<lparr>Ref_Addr = N_Values n ! slot, Ref_PhysicalSize = N_Sizes n ! slot\<rparr>, True)
      else if N_Bitmap n ! (slot div 64) AND push_bit (slot mod 64) 1 = 0 then (zero_ref, False)
      else let index = packed_index (N_Bitmap n) slot
           in (\<lparr>Ref_Addr = N_Values n ! index, Ref_PhysicalSize = N_Sizes n ! index\<rparr>, True))"

lemma length_takeWhile_less: "x \<in> set xs \<Longrightarrow> \<not> P x \<Longrightarrow> length (takeWhile P xs) < length xs"
  by (induction xs) auto

lemma TrailingZeros64_bit:
  assumes "w \<noteq> 0"
  shows "TrailingZeros64 w < 64" "bit w (TrailingZeros64 w)" "\<forall>i < TrailingZeros64 w. \<not> bit w i"
proof -
  obtain k where k: "bit w k" using assms unfolding bit_eq_iff by auto
  then have "k < 64" using bit_imp_le_length [OF k] by simp
  then have l: "TrailingZeros64 w < length [0..<64 :: nat]"
    unfolding TrailingZeros64_def using k by (intro length_takeWhile_less [of k]) simp_all
  then show lt: "TrailingZeros64 w < 64" by simp
  have "\<not> \<not> bit w ([0..<64] ! TrailingZeros64 w)"
    using nth_length_takeWhile [of "\<lambda>i. \<not> bit w i" "[0..<64]"] l by (simp only: TrailingZeros64_def not_False_eq_True)
  then show "bit w (TrailingZeros64 w)" using lt by simp
  show "\<forall>i < TrailingZeros64 w. \<not> bit w i"
  proof (intro allI impI)
    fix i assume i: "i < TrailingZeros64 w"
    then have "takeWhile (\<lambda>i. \<not> bit w i) [0..<64] ! i = i"
      using lt by (subst takeWhile_nth) (simp_all add: TrailingZeros64_def)
    then have "i \<in> set (takeWhile (\<lambda>i. \<not> bit w i) [0..<64])"
      using nth_mem [OF i [unfolded TrailingZeros64_def]] by simp
    then show "\<not> bit w i" by (rule conjunct2 [OF set_takeWhileD])
  qed
qed

lemma OnesCount64_remove:
  assumes "bit w i"
  shows "OnesCount64 w = Suc (OnesCount64 (w AND NOT (push_bit i 1)))"
proof -
  have i: "i < 64" using bit_imp_le_length [OF assms] by simp
  let ?S = "\<lambda>w :: u64. {j. j < 64 \<and> bit w j}"
  have card: "OnesCount64 v = card (?S v)" for v :: u64
    unfolding OnesCount64_def length_filter_conv_card by (rule arg_cong [of _ _ card]) auto
  have "?S w = insert i (?S (w AND NOT (push_bit i 1)))"
    using i assms by (auto simp: bit_and_iff bit_not_iff bit_exp_iff)
  moreover have "i \<notin> ?S (w AND NOT (push_bit i 1))"
    using i by (auto simp: bit_and_iff bit_not_iff bit_exp_iff)
  ultimately show ?thesis by (simp add: card)
qed

function expand_word :: "nat \<Rightarrow> 'v list \<Rightarrow> u64 \<Rightarrow> nat \<times> 'v list \<Rightarrow> nat \<times> 'v list" where
  \<comment> \<open>the slots of one bitmap word, lowest bit first\<close>
  "expand_word wordIndex packed word (valueIndex, slots) =
     (if word = 0 then (valueIndex, slots)
      else let b = TrailingZeros64 word
           in expand_word wordIndex packed (word AND NOT (push_bit b 1))
                (valueIndex + 1, slots[wordIndex * 64 + b := packed ! valueIndex]))"
  by pat_completeness auto
termination
proof (relation "measure (\<lambda>(_, _, word, _). OnesCount64 word)")
  fix wordIndex valueIndex and packed slots :: "'v list" and word :: u64 and b
  assume "word \<noteq> 0" "b = TrailingZeros64 word"
  then show "((wordIndex, packed, word AND NOT (push_bit b 1), valueIndex + 1, slots[wordIndex * 64 + b := packed ! valueIndex]),
      (wordIndex, packed, word, valueIndex, slots)) \<in> measure (\<lambda>(_, _, word, _). OnesCount64 word)"
    using OnesCount64_remove [OF TrailingZeros64_bit(2) [of word]] by simp
qed simp

declare expand_word.simps [simp del]

definition expand :: "u64 list \<Rightarrow> 'v list \<Rightarrow> 'v \<Rightarrow> 'v list" where
  "expand bitmap packed zero =
     snd (foldl (\<lambda>acc (wordIndex, word). expand_word wordIndex packed word acc) (0, replicate NodeSlots zero) (enumerate 0 bitmap))"

definition node_Slots :: "Node \<Rightarrow> u64 list" where
  "node_Slots n =
     (if N_Encoding n = EncodingDense then take NodeSlots (N_Values n @ replicate NodeSlots 0)
      else expand (N_Bitmap n) (N_Values n) 0)"

definition packed_refs :: "Node \<Rightarrow> RecordRef list" where
  "packed_refs n = map (\<lambda>(v, sz). \<lparr>Ref_Addr = v, Ref_PhysicalSize = sz\<rparr>) (zip (N_Values n) (N_Sizes n))"

definition node_Refs :: "Node \<Rightarrow> RecordRef list" where
  "node_Refs n =
     (if N_Level n \<noteq> 0 then replicate NodeSlots zero_ref
      else if N_Encoding n = EncodingDense then
        map (\<lambda>ref. if Ref_Addr ref \<noteq> 0 then ref else zero_ref) (packed_refs n)
      else expand (N_Bitmap n) (packed_refs n) zero_ref)"

section \<open>Counting the bits of a bitmap\<close>

definition bitmap_bit :: "u64 list \<Rightarrow> nat \<Rightarrow> bool" where
  "bitmap_bit bitmap i \<longleftrightarrow> bit (bitmap ! (i div 64)) (i mod 64)"

lemma bitmap_test:
  "(bitmap ! (i div 64) AND push_bit (i mod 64) 1 = 0) = (\<not> bitmap_bit bitmap i)"
  "(bitmap ! (i div 64) AND 2 ^ (i mod 64) = 0) = (\<not> bitmap_bit bitmap i)"
  by (simp_all add: bitmap_bit_def and_exp_eq_0_iff_not_bit push_bit_eq_mult)

lemma OnesCount64_mask:
  assumes "b \<le> 64"
  shows "OnesCount64 (w AND (push_bit b 1 - 1)) = length (filter (bit w) [0..<b])"
proof -
  have "bit (w AND (push_bit b 1 - 1)) i \<longleftrightarrow> bit w i \<and> i < b" for i
    using bit_imp_le_length [of w i] mask_eq_exp_minus_1 [of b, where ?'a = u64, symmetric]
    by (auto simp: push_bit_eq_mult bit_and_iff bit_mask_iff)
  then have *: "filter (bit (w AND (push_bit b 1 - 1))) [0..<64] = filter (\<lambda>i. bit w i \<and> i < b) [0..<64]"
    by (intro filter_cong) auto
  have "[0..<64] = [0..<b] @ [b..<64]" using assms upt_add_eq_append [of 0 b "64 - b"] by simp
  then have "filter (\<lambda>i. bit w i \<and> i < b) [0..<64] = filter (bit w) [0..<b]"
    by (auto simp: filter_empty_conv intro: filter_cong)
  then show ?thesis unfolding OnesCount64_def * by simp
qed

lemma word_count:
  assumes "b \<le> 64"
  shows "length (filter (bit (bitmap ! k)) [0..<b]) = length (filter (bitmap_bit bitmap) [k * 64..<k * 64 + b])"
proof -
  have "[k * 64..<k * 64 + b] = map (\<lambda>i. k * 64 + i) [0..<b]"
    using map_add_upt [of "k * 64" b] by (simp add: add.commute)
  moreover have "bitmap_bit bitmap (k * 64 + i) = bit (bitmap ! k) i" if "i < b" for i
    using that assms by (simp add: bitmap_bit_def)
  then have "filter (\<lambda>i. bitmap_bit bitmap (k * 64 + i)) [0..<b] = filter (bit (bitmap ! k)) [0..<b]"
    by (intro filter_cong) auto
  ultimately show ?thesis
    by (simp add: filter_map comp_def)
qed

lemma count_words:
  "k \<le> length bitmap \<Longrightarrow> sum_list (map OnesCount64 (take k bitmap)) = length (filter (bitmap_bit bitmap) [0..<k * 64])"
proof (induction k)
  case (Suc k)
  have "[0..<Suc k * 64] = [0..<k * 64] @ [k * 64..<k * 64 + 64]"
    using upt_add_eq_append [of 0 "k * 64" 64] by (simp add: add.commute)
  then show ?case
    using Suc word_count [of 64 bitmap k] by (simp add: take_Suc_conv_app_nth OnesCount64_def)
qed simp

lemma packed_index_eq:
  assumes "length bitmap = 8" "slot < 512"
  shows "packed_index bitmap slot = length (filter (bitmap_bit bitmap) [0..<slot])"
proof -
  have "[0..<slot] = [0..<slot div 64 * 64] @ [slot div 64 * 64..<slot div 64 * 64 + slot mod 64]"
    using upt_add_eq_append [of 0 "slot div 64 * 64" "slot mod 64"] by simp
  moreover have "slot div 64 \<le> 8" "slot mod 64 \<le> 64" using assms(2) by linarith+
  ultimately show ?thesis
    using count_words [of "slot div 64" bitmap] word_count [of "slot mod 64" bitmap "slot div 64"]
      OnesCount64_mask [of "slot mod 64" "bitmap ! (slot div 64)"] assms
    by (simp add: packed_index_def)
qed

lemma bitmapCount_eq: "length bitmap = 8 \<Longrightarrow> bitmapCount bitmap = length (filter (bitmap_bit bitmap) [0..<512])"
  using count_words [of 8 bitmap] by (simp add: bitmapCount_def)

lemma nth_filter_upt:
  assumes "P i" "i < n"
  shows "filter P [0..<n] ! length (filter P [0..<i]) = i" "length (filter P [0..<i]) < length (filter P [0..<n])"
proof -
  have "[0..<n] = [0..<i] @ i # [Suc i..<n]"
    using assms(2) upt_add_eq_append [of 0 i "n - i"] upt_conv_Cons [of i n] by simp
  then have "filter P [0..<n] = filter P [0..<i] @ i # filter P [Suc i..<n]" using assms(1) by simp
  then show "filter P [0..<n] ! length (filter P [0..<i]) = i" "length (filter P [0..<i]) < length (filter P [0..<n])"
    by simp_all
qed

section \<open>Expansion\<close>

lemma expand_word_eq:
  assumes "k * 64 + 64 \<le> length slots"
  shows "\<exists>slots'. expand_word k packed w (v, slots) = (v + OnesCount64 w, slots') \<and> length slots' = length slots \<and>
    (\<forall>i < length slots. slots' ! i =
      (if i div 64 = k \<and> bit w (i mod 64) then packed ! (v + length (filter (bit w) [0..<i mod 64])) else slots ! i))"
  using assms
proof (induction "OnesCount64 w" arbitrary: w v slots)
  case 0
  then have "w = 0" using OnesCount64_remove [OF TrailingZeros64_bit(2) [of w]] by fastforce
  then show ?case using 0 by (simp add: expand_word.simps)
next
  case (Suc n)
  then have w: "w \<noteq> 0" by (auto simp: OnesCount64_def)
  define b where "b = TrailingZeros64 w"
  define w' where "w' = w AND NOT (push_bit b 1)"
  note tz = TrailingZeros64_bit [OF w, folded b_def]
  have b64: "b < 64" by (rule tz(1))
  have w': "bit w' i \<longleftrightarrow> bit w i \<and> i \<noteq> b" for i
    using bit_imp_le_length [of w i] by (auto simp: w'_def bit_and_iff bit_not_iff bit_exp_iff)
  have c: "OnesCount64 w = Suc (OnesCount64 w')" using OnesCount64_remove [OF tz(2)] by (simp add: w'_def)
  have cnt: "length (filter (bit w) [0..<j]) = (if b < j then Suc (length (filter (bit w') [0..<j])) else 0)" for j
  proof (cases "b < j")
    case True
    have "[0..<j] = [0..<b] @ b # [Suc b..<j]"
      using True upt_add_eq_append [of 0 b "j - b"] upt_conv_Cons [of b j] by simp
    moreover have "filter (bit w) [0..<b] = []" "filter (bit w') [0..<b] = []"
      using tz(3) by (auto simp: filter_empty_conv w')
    moreover have "filter (bit w) [Suc b..<j] = filter (bit w') [Suc b..<j]"
      by (rule filter_cong) (auto simp: w')
    ultimately show ?thesis using True tz(2) w' by simp
  next
    case False
    then show ?thesis using tz(3) by (auto simp: filter_empty_conv)
  qed
  obtain slots' where s: "expand_word k packed w' (v + 1, slots[k * 64 + b := packed ! v]) = (v + 1 + OnesCount64 w', slots')"
      "length slots' = length slots"
      "\<forall>i < length slots. slots' ! i = (if i div 64 = k \<and> bit w' (i mod 64)
        then packed ! (v + 1 + length (filter (bit w') [0..<i mod 64])) else slots[k * 64 + b := packed ! v] ! i)"
    using Suc.hyps(1) [of w' "slots[k * 64 + b := packed ! v]" "v + 1"] Suc.hyps(2) Suc.prems c by auto
  have "slots' ! i = (if i div 64 = k \<and> bit w (i mod 64) then packed ! (v + length (filter (bit w) [0..<i mod 64])) else slots ! i)"
    if i: "i < length slots" for i
  proof (cases "i = k * 64 + b")
    case True
    then have "i div 64 = k" "i mod 64 = b" using b64 by auto
    then show ?thesis using s(3) i tz(2) cnt [of b] w' True by simp
  next
    case False
    then have ne: "i div 64 = k \<Longrightarrow> i mod 64 \<noteq> b" using div_mult_mod_eq [of i 64] by auto
    have "b < i mod 64" if "bit w (i mod 64)" "i div 64 = k"
      using that tz(3) ne by (metis linorder_neqE_nat)
    then show ?thesis using s(3) i False ne w' cnt [of "i mod 64"] by auto
  qed
  moreover have "expand_word k packed w (v, slots) = (v + OnesCount64 w, slots')"
    using w s(1) c by (subst expand_word.simps) (simp add: Let_def b_def [symmetric] w'_def)
  ultimately show ?case using s(2) by (intro exI [of _ slots'] conjI) simp_all
qed

lemma expand_eq:
  assumes "length bitmap = 8"
  shows "length (expand bitmap packed z) = 512"
    "i < 512 \<Longrightarrow> expand bitmap packed z ! i = (if bitmap_bit bitmap i then packed ! packed_index bitmap i else z)"
proof -
  let ?f = "\<lambda>acc (k, w). expand_word k packed w acc"
  have "\<exists>slots. foldl ?f (0, replicate 512 z) (enumerate 0 (take k bitmap)) = (length (filter (bitmap_bit bitmap) [0..<k * 64]), slots) \<and>
      length slots = 512 \<and> (\<forall>i < 512. slots ! i = (if i < k * 64 \<and> bitmap_bit bitmap i then packed ! packed_index bitmap i else z))"
    if "k \<le> 8" for k
    using that
  proof (induction k)
    case (Suc k)
    then obtain slots where s: "foldl ?f (0, replicate 512 z) (enumerate 0 (take k bitmap)) = (length (filter (bitmap_bit bitmap) [0..<k * 64]), slots)"
      "length slots = 512" "\<forall>i < 512. slots ! i = (if i < k * 64 \<and> bitmap_bit bitmap i then packed ! packed_index bitmap i else z)"
      by auto
    let ?n = "length (filter (bitmap_bit bitmap) [0..<k * 64])"
    obtain slots' where s': "expand_word k packed (bitmap ! k) (?n, slots) = (?n + OnesCount64 (bitmap ! k), slots')"
      "length slots' = 512" "\<forall>i < 512. slots' ! i = (if i div 64 = k \<and> bit (bitmap ! k) (i mod 64)
        then packed ! (?n + length (filter (bit (bitmap ! k)) [0..<i mod 64])) else slots ! i)"
      using expand_word_eq [of k slots packed "bitmap ! k" ?n] s(2) Suc.prems by auto
    have en: "enumerate 0 (take (Suc k) bitmap) = enumerate 0 (take k bitmap) @ [(k, bitmap ! k)]"
      using Suc.prems assms by (simp add: take_Suc_conv_app_nth enumerate_append_eq)
    have app: "[0..<Suc k * 64] = [0..<k * 64] @ [k * 64..<k * 64 + 64]"
      using upt_add_eq_append [of 0 "k * 64" 64] by (simp add: add.commute)
    have "slots' ! i = (if i < Suc k * 64 \<and> bitmap_bit bitmap i then packed ! packed_index bitmap i else z)" if i: "i < 512" for i
    proof (cases "i div 64 = k")
      case True
      then have "i < Suc k * 64" "\<not> i < k * 64" "[0..<i] = [0..<k * 64] @ [k * 64..<k * 64 + i mod 64]"
        using upt_add_eq_append [of 0 "k * 64" "i mod 64"] div_mult_mod_eq [of i 64] mod_less_divisor [of 64 i] by (auto simp del: mod_less_divisor)
      then have "?n + length (filter (bit (bitmap ! k)) [0..<i mod 64]) = packed_index bitmap i"
        using packed_index_eq [OF assms i] word_count [of "i mod 64" bitmap k] by simp
      then show ?thesis
        using s'(3) [rule_format, OF i] s(3) [rule_format, OF i] True \<open>i < Suc k * 64\<close> \<open>\<not> i < k * 64\<close>
        by (simp add: bitmap_bit_def)
    next
      case False
      then have "i < Suc k * 64 \<longleftrightarrow> i < k * 64"
        using div_less_iff_less_mult [of 64 i k] div_less_iff_less_mult [of 64 i "Suc k"] by (auto simp: less_Suc_eq)
      then show ?thesis using s'(3) [rule_format, OF i] s(3) [rule_format, OF i] False by simp
    qed
    moreover have "foldl ?f (0, replicate 512 z) (enumerate 0 (take (Suc k) bitmap)) =
        (length (filter (bitmap_bit bitmap) [0..<Suc k * 64]), slots')"
      unfolding en app foldl_append s(1) using s'(1) word_count [of 64 bitmap k] by (simp add: OnesCount64_def)
    ultimately show ?case
      using s'(2) by blast
  qed simp
  from this [of 8] assms
  obtain slots where s: "expand bitmap packed z = slots" "length slots = 512"
    "\<forall>i < 512. slots ! i = (if i < 8 * 64 \<and> bitmap_bit bitmap i then packed ! packed_index bitmap i else z)"
    by (auto simp: expand_def)
  then show "length (expand bitmap packed z) = 512" by simp
  show "i < 512 \<Longrightarrow> expand bitmap packed z ! i = (if bitmap_bit bitmap i then packed ! packed_index bitmap i else z)"
    using s by simp
qed

section \<open>What the encoder writes\<close>

definition occupied :: "u64 list \<Rightarrow> nat list" where
  "occupied slots = filter (\<lambda>i. slots ! i \<noteq> 0) [0..<length slots]"

lemma occupied_snoc: "occupied (slots @ [v]) = occupied slots @ (if v \<noteq> 0 then [length slots] else [])"
  by (auto simp: occupied_def nth_append intro: filter_cong)

lemma countValues_occupied: "countValues slots = length (occupied slots)"
proof (induction slots rule: rev_induct)
  case (snoc v slots)
  then show ?case by (simp add: countValues_def occupied_snoc)
qed (simp add: countValues_def occupied_def)

lemma occupied_less: "i \<in> set (occupied slots) \<Longrightarrow> i < length slots \<and> slots ! i \<noteq> 0"
  by (simp add: occupied_def)

lemma encode_slots_eq:
  assumes "length slots \<le> 512" "foldl (encode_slot level sizes) (replicate 8 0, []) (enumerate 0 slots) = (bitmap, out)"
  shows "length bitmap = 8 \<and> (\<forall>i < 512. bitmap_bit bitmap i \<longleftrightarrow> i < length slots \<and> slots ! i \<noteq> 0) \<and>
    out = concat (map (\<lambda>i. slot_bytes level (slots ! i) (sizes ! i)) (occupied slots))"
  using assms
proof (induction slots arbitrary: bitmap out rule: rev_induct)
  case Nil
  then show ?case by (auto simp: occupied_def bitmap_bit_def div_less_iff_less_mult)
next
  case (snoc v slots)
  obtain bm o1 where f: "foldl (encode_slot level sizes) (replicate 8 0, []) (enumerate 0 slots) = (bm, o1)" by fastforce
  let ?n = "length slots"
  have n: "?n < 512" using snoc.prems(1) by simp
  then have k: "?n div 64 < 8" by (simp add: div_less_iff_less_mult)
  have IH: "length bm = 8" "\<And>i. i < 512 \<Longrightarrow> bitmap_bit bm i \<longleftrightarrow> i < ?n \<and> slots ! i \<noteq> 0"
      "o1 = concat (map (\<lambda>i. slot_bytes level (slots ! i) (sizes ! i)) (occupied slots))"
    using snoc.IH [OF _ f] n by auto
  have out: "map (\<lambda>i. slot_bytes level ((slots @ [v]) ! i) (sizes ! i)) (occupied slots) =
      map (\<lambda>i. slot_bytes level (slots ! i) (sizes ! i)) (occupied slots)"
    using occupied_less by (intro map_cong) (auto simp: nth_append)
  have out: "map (\<lambda>i. slot_bytes level ((slots @ [v]) ! i) (sizes ! i)) (occupied (slots @ [v])) =
      map (\<lambda>i. slot_bytes level (slots ! i) (sizes ! i)) (occupied slots) @ (if v \<noteq> 0 then [slot_bytes level v (sizes ! ?n)] else [])"
    unfolding occupied_snoc by (simp add: out)
  have step: "(bitmap, out) = encode_slot level sizes (bm, o1) (?n, v)"
    using snoc.prems(2) f by (simp add: enumerate_append_eq)
  show ?case
  proof (cases "v = 0")
    case True
    then show ?thesis using step IH unfolding out by (auto simp: nth_append)
  next
    case False
    let ?w = "bm ! (?n div 64) OR push_bit (?n mod 64) 1"
    have b: "bitmap = bm[?n div 64 := ?w]" "out = o1 @ slot_bytes level v (sizes ! ?n)" using step False by simp_all
    have bit: "bitmap_bit bitmap i \<longleftrightarrow> bitmap_bit bm i \<or> i = ?n" if i: "i < 512" for i
    proof (cases "i div 64 = ?n div 64")
      case True
      then have "i = ?n \<longleftrightarrow> i mod 64 = ?n mod 64" by (metis div_mult_mod_eq)
      moreover have "bit ?w (i mod 64) \<longleftrightarrow> bit (bm ! (?n div 64)) (i mod 64) \<or> i mod 64 = ?n mod 64"
        using mod_less_divisor [of 64 i] by (auto simp: bit_or_iff bit_exp_iff)
      ultimately show ?thesis using True k IH(1) by (simp add: bitmap_bit_def b(1))
    next
      case False
      then show ?thesis by (auto simp: bitmap_bit_def b(1))
    qed
    show ?thesis
      using IH(1,2) False n bit unfolding out b(2) IH(3) [symmetric] concat_append by (auto simp: b(1) nth_append less_Suc_eq)
  qed
qed

lemma length_slot_bytes [simp]: "length (slot_bytes level v sz) = (if level = 0 then 12 else 8)"
  by (simp add: slot_bytes_def)

lemma length_concat_const: "(\<And>x. x \<in> set xs \<Longrightarrow> length x = w) \<Longrightarrow> length (concat xs) = length xs * w"
  by (induction xs) auto

lemma subslice_concat:
  "(\<And>x. x \<in> set xs \<Longrightarrow> length x = w) \<Longrightarrow> i < length xs \<Longrightarrow> d \<le> w \<Longrightarrow>
     subslice (i * w + c) (i * w + d) (concat xs @ ys) = subslice c d (xs ! i)"
proof (induction xs arbitrary: i)
  case (Cons x xs)
  show ?case
  proof (cases i)
    case 0
    then show ?thesis using Cons.prems by (simp add: subslice_append_left)
  next
    case (Suc j)
    have "subslice (i * w + c) (i * w + d) (concat (x # xs) @ ys) = subslice (j * w + c) (j * w + d) (concat xs @ ys)"
      using Suc Cons.prems(1) [of x] by (simp add: subslice_append_right add.assoc)
    then show ?thesis using Cons.IH [of j] Cons.prems Suc by simp
  qed
qed simp

lemma decode_values_eq:
  assumes "length pre = at"
  shows "decode_values level (length xs) at (pre @ concat (map (\<lambda>i. slot_bytes level (slots ! i) (sizes ! i)) xs) @ tail) =
    (map ((!) slots) xs, if level = 0 then map ((!) sizes) xs else [])"
proof -
  let ?cs = "map (\<lambda>i. slot_bytes level (slots ! i) (sizes ! i)) xs"
  define w where "w = (if level = 0 then 12 else 8 :: nat)"
  have L: "length x = w" if "x \<in> set ?cs" for x using that by (auto simp: w_def)
  have sl: "subslice (at + i * w + c) (at + i * w + d) (pre @ concat ?cs @ tail) = subslice c d (?cs ! i)"
    if "i < length xs" "d \<le> w" for i c d
    using subslice_concat [of ?cs w i d c tail, OF L] that assms by (simp add: subslice_append_right add.assoc)
  have v: "get64 (subslice (at + i * w) (at + i * w + 8) (pre @ concat ?cs @ tail)) = slots ! (xs ! i)" if "i < length xs" for i
    using sl [OF that, of 8 0] that by (simp add: w_def slot_bytes_def codec_simps)
  have z: "get32 (subslice (at + i * w + 8) (at + i * w + 12) (pre @ concat ?cs @ tail)) = sizes ! (xs ! i)"
    if "i < length xs" "level = 0" for i
    using sl [OF that(1), of 12 8] that by (simp add: w_def slot_bytes_def codec_simps)
  show ?thesis
    using v z unfolding decode_values_def w_def by (auto simp: Let_def intro!: nth_equalityI)
qed

section \<open>Round trip\<close>

lemma unat_and_not_7: "unat (w AND NOT 7 :: u32) = unat w div 8 * 8"
proof -
  have 7: "(7 :: u32) = mask 3" by (simp add: mask_eq_exp_minus_1)
  have "w AND NOT 7 = push_bit 3 (drop_bit 3 w)"
    unfolding 7 by (rule bit_word_eqI) (auto simp: bit_and_iff bit_not_iff bit_mask_iff bit_push_bit_iff bit_drop_bit_eq)
  then have "w AND NOT 7 = w div 8 * 8" by (simp add: push_bit_eq_mult drop_bit_eq_div)
  moreover have "unat w div 8 * 8 < 2 ^ 32" using unat_u32_bound [of w] div_times_less_eq_dividend [of "unat w" 8] by simp
  ultimately show ?thesis by (simp add: unat_word_ariths unat_div)
qed

lemma alignNodeSize_unat:
  assumes "unat x + 7 < 2 ^ 32"
  shows "unat (alignNodeSize x) = (unat x + 7) div 8 * 8" "alignNodeSize x AND 7 = 0"
proof -
  have "unat (x + 7) = unat x + 7" using assms by (simp add: unat_word_ariths)
  then show u: "unat (alignNodeSize x) = (unat x + 7) div 8 * 8"
    unfolding alignNodeSize_def unat_and_not_7 by simp
  show "alignNodeSize x AND 7 = 0" by (simp add: aligned_iff u)
qed

lemma sparse_size:
  assumes "count < 504" "width = 8 \<or> width = (12 :: u32)"
  shows "unat (alignNodeSize (NodeHeaderSize + SparseBitmapBytes + of_nat count * width)) = (135 + count * unat width) div 8 * 8"
    "alignNodeSize (NodeHeaderSize + SparseBitmapBytes + of_nat count * width) AND 7 = 0"
proof -
  have c: "unat (of_nat count :: u32) = count" using assms(1) by (simp add: unat_of_nat)
  have "count * unat width < 8192" using assms by auto
  then have u: "unat (NodeHeaderSize + SparseBitmapBytes + of_nat count * width) = 128 + count * unat width"
    using c by (simp add: unat_word_ariths)
  show "unat (alignNodeSize (NodeHeaderSize + SparseBitmapBytes + of_nat count * width)) = (135 + count * unat width) div 8 * 8"
    "alignNodeSize (NodeHeaderSize + SparseBitmapBytes + of_nat count * width) AND 7 = 0"
    using alignNodeSize_unat [of "NodeHeaderSize + SparseBitmapBytes + of_nat count * width"] u \<open>count * unat width < 8192\<close>
    by (simp_all add: add.commute)
qed

lemma length_node_head [simp]: "length (node_head level enc sz seq prefix covered count payload) = 48"
  by (simp add: node_head_def)

lemma decodeNodeHeader_head:
  fixes level enc :: u8 and sz rem :: u32 and count :: u16 and payload tail :: bytes
  assumes "seq \<noteq> 0" "covered \<noteq> 0" "count \<noteq> 0" "count \<le> 512" "validPrefix level prefix" "sz AND 7 = 0" "64 \<le> sz" "sz \<le> rem"
    and "enc = EncodingSparse \<and> sz = alignNodeSize (128 + ucast count * (if level = 0 then 12 else 8)) \<or>
      enc = EncodingDense \<and> sz = (if level = 0 then DenseLeafNodeSize else DenseInternalNodeSize)"
  defines "h \<equiv> node_head level enc sz seq prefix covered count payload"
  shows "decodeNodeHeader (h @ le32 (headerChecksum (h @ replicate 4 0 @ replicate 12 0)) @ replicate 12 0 @ tail) rem =
    Inr (\<lparr>N_Level = level, N_Encoding = enc, N_NodeSeq = seq, N_Prefix = prefix, N_CoveredCommitSeq = covered,
      N_EntryCount = count, N_Bitmap = replicate 8 0, N_Values = [], N_Sizes = []\<rparr>, sz)"
proof -
  define c where "c = headerChecksum (h @ replicate 4 0 @ replicate 12 0)"
  define header where "header = h @ le32 c @ replicate 12 0"
  have lh: "length h = 48" by (simp add: h_def)
  have len: "length header = 64" by (simp add: header_def lh)
  have hd: "subslice a b header = subslice a b h" if "b \<le> 48" for a b
    using that by (simp add: header_def lh subslice_append_left)
  have crc: "get32 (subslice 48 52 header) = c" by (simp add: header_def lh codec_simps)
  have z: "get32 (subslice 52 56 header) = 0" "get64 (subslice 56 64 header) = 0"
    by (simp_all add: header_def lh codec_simps subslice_def replicate_zero_le)
  have sum: "headerChecksum header = c"
    unfolding c_def headerChecksum_def by (simp add: header_def lh codec_simps)
  have nth: "header ! 10 = level" "header ! 11 = enc"
    by (simp_all add: header_def h_def node_head_def nth_append)
  have f: "subslice 0 8 h = nodeMagic" "get16 (subslice 8 10 h) = 3" "get32 (subslice 12 16 h) = sz"
      "get64 (subslice 16 24 h) = seq" "get64 (subslice 24 32 h) = prefix" "get64 (subslice 32 40 h) = covered"
      "get16 (subslice 40 42 h) = count" "get16 (subslice 42 44 h) = 0"
    by (simp_all add: h_def node_head_def codec_simps subslice_Cons replicate_zero_le)
  have src: "subslice 0 64 (header @ tail) = header" using len by (simp add: subslice_append_left subslice_all)
  have eq: "h @ le32 (headerChecksum (h @ replicate 4 0 @ replicate 12 0)) @ replicate 12 0 @ tail = header @ tail"
    by (simp add: header_def c_def)
  let ?node = "\<lparr>N_Level = level, N_Encoding = enc, N_NodeSeq = seq, N_Prefix = prefix, N_CoveredCommitSeq = covered,
      N_EntryCount = count, N_Bitmap = replicate 8 0, N_Values = [], N_Sizes = []\<rparr>"
  have nl: "\<not> 512 < count" "\<not> sz < 64" "\<not> rem < sz" using assms by simp_all
  have l64: "\<not> length (header @ tail) < 64" using len by simp
  have "decodeNodeHeader (header @ tail) rem =
      (if enc = EncodingSparse then
         if sz \<noteq> alignNodeSize (128 + ucast count * (if level = 0 then 12 else 8)) then Inl mapstore_ErrCorrupt else Inr (?node, sz)
       else if enc = EncodingDense then
         if sz \<noteq> (if level = 0 then DenseLeafNodeSize else DenseInternalNodeSize) then Inl mapstore_ErrCorrupt else Inr (?node, sz)
       else Inl mapstore_ErrUnsupported)"
    by (simp add: decodeNodeHeader_def Let_def l64 src hd crc sum z nth f nl assms(1-3,5,6) del: length_append)
  then show ?thesis
    unfolding eq using assms(9) by (elim disjE conjE) simp_all
qed

lemma validateValues_None:
  "validateValues level values sizes = None \<longleftrightarrow>
     (if level = 0 then length sizes = length values else sizes = [] \<or> length sizes = length values) \<and>
     (\<forall>i < length values. value_ok level sizes i (values ! i))"
  by (auto simp: validateValues_def list_all_length nth_enumerate_eq)

text \<open>A node as its readers see it: every access path gives the same slots or references.\<close>

definition holds_slots :: "Node \<Rightarrow> u64 list \<Rightarrow> bool" where
  "holds_slots n slots \<longleftrightarrow> length slots = NodeSlots \<and> node_Slots n = slots \<and>
     (\<forall>i < NodeSlots. node_Lookup n i = (slots ! i, slots ! i \<noteq> 0))"

definition holds_refs :: "Node \<Rightarrow> RecordRef list \<Rightarrow> bool" where
  "holds_refs n refs \<longleftrightarrow> length refs = NodeSlots \<and> node_Refs n = refs \<and>
     (\<forall>i < NodeSlots. node_LookupRef n i = (refs ! i, refs ! i \<noteq> zero_ref))"

definition build_refs :: "NodeBuild \<Rightarrow> RecordRef list" where
  "build_refs b = map (\<lambda>(v, sz). \<lparr>Ref_Addr = v, Ref_PhysicalSize = sz\<rparr>) (zip (NB_Slots b) (NB_Sizes b))"

lemma value_ok_zero: "value_ok 0 sizes i 0 \<Longrightarrow> sizes ! i = 0"
  by (simp add: value_ok_def)

lemma sparse_holds:
  assumes n: "N_Encoding n = EncodingSparse" "N_Bitmap n = bitmap" "length bitmap = 8"
    and bits: "\<And>i. i < 512 \<Longrightarrow> bitmap_bit bitmap i \<longleftrightarrow> slots ! i \<noteq> 0"
    and len: "length slots = 512" and v: "N_Values n = map ((!) slots) (occupied slots)"
  shows "holds_slots n slots"
    "N_Level n = 0 \<Longrightarrow> N_Sizes n = map ((!) sizes) (occupied slots) \<Longrightarrow> length sizes = 512 \<Longrightarrow>
      (\<And>i. i < 512 \<Longrightarrow> slots ! i = 0 \<Longrightarrow> sizes ! i = 0) \<Longrightarrow>
      holds_refs n (map (\<lambda>(v, sz). \<lparr>Ref_Addr = v, Ref_PhysicalSize = sz\<rparr>) (zip slots sizes))"
proof -
  have occ: "occupied slots = filter (bitmap_bit bitmap) [0..<512]"
    unfolding occupied_def len by (rule filter_cong) (use bits in auto)
  have idx: "occupied slots ! packed_index bitmap i = i" "packed_index bitmap i < length (occupied slots)"
    if "i < 512" "slots ! i \<noteq> 0" for i
    using nth_filter_upt [of "bitmap_bit bitmap" i 512] bits [OF that(1)] that packed_index_eq [OF n(3) that(1)]
    unfolding occ by auto
  have look: "node_Lookup n i = (slots ! i, slots ! i \<noteq> 0)" if "i < 512" for i
    using that idx [OF that] bits [OF that] by (auto simp: node_Lookup_def n(1,2) bitmap_test v)
  have "node_Slots n ! i = slots ! i" if "i < 512" for i
    using that idx [OF that] bits [OF that] by (auto simp: node_Slots_def n expand_eq v)
  then have "node_Slots n = slots"
    by (intro nth_equalityI) (simp_all add: node_Slots_def n expand_eq len)
  with look show "holds_slots n slots" by (simp add: holds_slots_def len)
  show "holds_refs n (map (\<lambda>(v, sz). \<lparr>Ref_Addr = v, Ref_PhysicalSize = sz\<rparr>) (zip slots sizes))"
    if l: "N_Level n = 0" and sz: "N_Sizes n = map ((!) sizes) (occupied slots)" "length sizes = 512"
      and z: "\<And>i. i < 512 \<Longrightarrow> slots ! i = 0 \<Longrightarrow> sizes ! i = 0"
  proof -
    let ?refs = "map (\<lambda>(v, sz). \<lparr>Ref_Addr = v, Ref_PhysicalSize = sz\<rparr>) (zip slots sizes)"
    have r: "?refs ! i = \<lparr>Ref_Addr = slots ! i, Ref_PhysicalSize = sizes ! i\<rparr>" if "i < 512" for i
      using that len sz by simp
    have rz: "?refs ! i = zero_ref \<longleftrightarrow> slots ! i = 0" if "i < 512" for i
      unfolding r [OF that] using z [OF that] by (auto simp: zero_ref_def)
    have "node_LookupRef n i = (?refs ! i, ?refs ! i \<noteq> zero_ref)" if "i < 512" for i
    proof (cases "slots ! i = 0")
      case True
      then show ?thesis using that bits [OF that] rz [OF that] by (simp add: node_LookupRef_def l n(1,2) bitmap_test)
    next
      case False
      then show ?thesis
        unfolding rz [OF that] r [OF that]
        using that idx [OF that] bits [OF that] by (simp add: node_LookupRef_def l n(1,2) bitmap_test v sz Let_def zero_ref_def)
    qed
    moreover have "node_Refs n ! i = ?refs ! i" if "i < 512" for i
    proof (cases "slots ! i = 0")
      case True
      then show ?thesis using that bits [OF that] rz [OF that] by (simp add: node_Refs_def l n expand_eq)
    next
      case False
      then show ?thesis
        unfolding r [OF that]
        using that idx [OF that] bits [OF that] by (simp add: node_Refs_def l n expand_eq packed_refs_def v sz)
    qed
    then have "node_Refs n = ?refs"
      by (intro nth_equalityI) (simp_all add: node_Refs_def l n expand_eq len sz)
    ultimately show ?thesis by (simp add: holds_refs_def len sz)
  qed
qed

lemma dense_holds:
  assumes n: "N_Encoding n = EncodingDense" and len: "length slots = 512" and v: "N_Values n = slots"
  shows "holds_slots n slots"
    "N_Level n = 0 \<Longrightarrow> N_Sizes n = sizes \<Longrightarrow> length sizes = 512 \<Longrightarrow>
      (\<And>i. i < 512 \<Longrightarrow> slots ! i = 0 \<Longrightarrow> sizes ! i = 0) \<Longrightarrow>
      holds_refs n (map (\<lambda>(v, sz). \<lparr>Ref_Addr = v, Ref_PhysicalSize = sz\<rparr>) (zip slots sizes))"
proof -
  show "holds_slots n slots"
    by (simp add: holds_slots_def node_Slots_def node_Lookup_def n len v)
  show "holds_refs n (map (\<lambda>(v, sz). \<lparr>Ref_Addr = v, Ref_PhysicalSize = sz\<rparr>) (zip slots sizes))"
    if l: "N_Level n = 0" and sz: "N_Sizes n = sizes" "length sizes = 512" and z: "\<And>i. i < 512 \<Longrightarrow> slots ! i = 0 \<Longrightarrow> sizes ! i = 0"
    using z by (auto simp: holds_refs_def node_Refs_def node_LookupRef_def packed_refs_def n len v l sz zero_ref_def in_set_zip
        intro!: nth_equalityI)
qed

definition node_like :: "Node \<Rightarrow> NodeBuild \<Rightarrow> bool" where
  "node_like n b \<longleftrightarrow> N_Level n = NB_Level b \<and> N_NodeSeq n = NB_NodeSeq b \<and> N_Prefix n = NB_Prefix b \<and>
     N_CoveredCommitSeq n = NB_CoveredCommitSeq b \<and> unat (N_EntryCount n) = countValues (NB_Slots b) \<and>
     holds_slots n (NB_Slots b) \<and> (NB_Level b = 0 \<longrightarrow> holds_refs n (build_refs b))"

lemma occupied_length: "length (occupied slots) \<le> length slots"
  by (metis occupied_def diff_zero length_filter_le length_upt)

lemma zero_word_bits: "(\<And>j. j < 64 \<Longrightarrow> \<not> bit (w :: u64) j) \<Longrightarrow> w = 0"
  by (rule bit_word_eqI) simp

lemma topBitmap_of_slots:
  assumes "length bitmap = 8" "\<And>i. i < 512 \<Longrightarrow> bitmap_bit bitmap i \<longleftrightarrow> slots ! i \<noteq> 0" "length slots = 512" "topSlotsEmpty slots"
  shows "topBitmapEmpty bitmap"
proof -
  have z: "slots ! i = 0" if "2 \<le> i" "i < 512" for i
  proof -
    have "\<forall>n < 510. slots ! Suc (Suc n) = 0" using assms(3,4) by (simp add: topSlotsEmpty_def list_all_length)
    moreover have "i = Suc (Suc (i - 2))" "i - 2 < 510" using that by simp_all
    ultimately show ?thesis by metis
  qed
  have b: "bit (bitmap ! k) j \<longleftrightarrow> slots ! (k * 64 + j) \<noteq> 0" if "k < 8" "j < 64" for k j
    using assms(2) [of "k * 64 + j"] that by (simp add: bitmap_bit_def)
  have 3: "(3 :: u64) = mask 2" by (simp add: mask_eq_exp_minus_1)
  have "bitmap ! 0 AND NOT 3 = 0"
    unfolding 3 using b [of 0] z by (intro zero_word_bits) (auto simp: bit_and_iff bit_not_iff bit_mask_iff)
  moreover have "bitmap ! k = 0" if "0 < k" "k < 8" for k
    using b [of k] z that by (intro zero_word_bits) auto
  ultimately show ?thesis
    using assms(1) by (auto simp: topBitmapEmpty_def list_all_length)
qed

lemma packed_valid:
  assumes "validateValues level slots sizes = None"
  shows "validateValues level (map ((!) slots) (occupied slots)) (if level = 0 then map ((!) sizes) (occupied slots) else []) = None"
proof -
  have "value_ok level (if level = 0 then map ((!) sizes) (occupied slots) else []) i (slots ! (occupied slots ! i))"
    if "i < length (occupied slots)" for i
  proof -
    have o: "occupied slots ! i < length slots" "slots ! (occupied slots ! i) \<noteq> 0"
      using occupied_less [OF nth_mem [OF that]] by simp_all
    then have "value_ok level sizes (occupied slots ! i) (slots ! (occupied slots ! i))"
      using assms by (simp add: validateValues_None)
    then show ?thesis using that o(2) by (auto simp: value_ok_def split: if_splits)
  qed
  then show ?thesis by (simp add: validateValues_None)
qed

lemma EncodeNode_Inr:
  "EncodeNode b = Inr bs \<longleftrightarrow> NB_NodeSeq b \<noteq> 0 \<and> NB_CoveredCommitSeq b \<noteq> 0 \<and> validPrefix (NB_Level b) (NB_Prefix b) \<and>
     countValues (NB_Slots b) \<noteq> 0 \<and> (NB_Level b = MaxLevel \<longrightarrow> topSlotsEmpty (NB_Slots b)) \<and>
     validateValues (NB_Level b) (NB_Slots b) (NB_Sizes b) = None \<and>
     (let count = countValues (NB_Slots b);
          h = node_head (NB_Level b) (node_encoding count) (node_size (NB_Level b) count) (NB_NodeSeq b)
                (NB_Prefix b) (NB_CoveredCommitSeq b) (of_nat count) (node_payload b)
      in bs = h @ le32 (headerChecksum (h @ replicate 4 0 @ replicate 12 0)) @ replicate 12 0 @ node_payload b)"
  by (auto simp: EncodeNode_def Let_def split: if_splits option.splits)

lemma node_size_facts:
  assumes "count \<le> 512"
  shows "node_size level count AND 7 = 0" "64 \<le> node_size level count" "unat (node_size level count) \<le> 6208"
    "count < 504 \<Longrightarrow> 128 + count * (if level = 0 then 12 else 8) \<le> unat (node_size level count)"
    "504 \<le> count \<Longrightarrow> unat (node_size level count) = 64 + 512 * (if level = 0 then 12 else 8)"
proof -
  define w :: u32 where "w = (if level = 0 then 12 else 8)"
  have w: "w = 8 \<or> w = 12" "unat w = (if level = 0 then 12 else 8)" by (simp_all add: w_def)
  show d: "504 \<le> count \<Longrightarrow> unat (node_size level count) = 64 + 512 * (if level = 0 then 12 else 8)"
    by (simp add: node_size_def)
  have s: "unat (node_size level count) = (135 + count * unat w) div 8 * 8" "node_size level count AND 7 = 0" if "count < 504"
    using sparse_size [OF that w(1)] that by (simp_all add: node_size_def w_def)
  show "node_size level count AND 7 = 0"
    using s(2) by (cases "count < 504") (simp_all add: node_size_def)
  show e: "count < 504 \<Longrightarrow> 128 + count * (if level = 0 then 12 else 8) \<le> unat (node_size level count)"
    using s(1) w(2) by auto
  show "64 \<le> node_size level count"
    using d e by (cases "count < 504") (auto simp: word_le_nat_alt)
  show "unat (node_size level count) \<le> 6208"
  proof (cases "count < 504")
    case True
    then have "count * unat w \<le> 503 * 12" using w by (intro mult_le_mono) auto
    then show ?thesis using s(1) [OF True] by linarith
  qed (use d in auto)
qed

lemma encode_dense_eq:
  "length slots = 512 \<Longrightarrow> encode_dense level slots sizes = concat (map (\<lambda>i. slot_bytes level (slots ! i) (sizes ! i)) [0..<512])"
  unfolding encode_dense_def by (rule arg_cong [of _ _ concat]) (auto intro!: nth_equalityI simp: nth_enumerate_eq)

lemma encode_sparse_eq:
  assumes "length slots = 512"
  obtains bitmap where "encode_sparse level slots sizes =
      concat (map le64 bitmap) @ concat (map (\<lambda>i. slot_bytes level (slots ! i) (sizes ! i)) (occupied slots))"
    "length bitmap = 8" "\<And>i. i < 512 \<Longrightarrow> bitmap_bit bitmap i \<longleftrightarrow> slots ! i \<noteq> 0"
proof -
  obtain bitmap out where f: "foldl (encode_slot level sizes) (replicate 8 0, []) (enumerate 0 slots) = (bitmap, out)" by fastforce
  from encode_slots_eq [OF _ f] assms show thesis
    by (intro that [of bitmap]) (simp_all add: encode_sparse_def f)
qed

lemma length_node_payload:
  assumes "length (NB_Slots b) = 512"
  shows "length (node_payload b) = unat (node_size (NB_Level b) (countValues (NB_Slots b))) - 64"
proof -
  let ?c = "countValues (NB_Slots b)" and ?w = "if NB_Level b = 0 then 12 else 8 :: nat"
  have c: "?c = length (occupied (NB_Slots b))" "?c \<le> 512"
    using countValues_occupied occupied_length [of "NB_Slots b"] assms by simp_all
  have body: "length (concat (map (\<lambda>i. slot_bytes (NB_Level b) (NB_Slots b ! i) (NB_Sizes b ! i)) xs)) = length xs * ?w" for xs
    by (subst length_concat_const [where w = ?w]) auto
  show ?thesis
  proof (cases "?c < 504")
    case True
    obtain bitmap where "encode_sparse (NB_Level b) (NB_Slots b) (NB_Sizes b) =
        concat (map le64 bitmap) @ concat (map (\<lambda>i. slot_bytes (NB_Level b) (NB_Slots b ! i) (NB_Sizes b ! i)) (occupied (NB_Slots b)))"
      "length bitmap = 8" by (rule encode_sparse_eq [OF assms])
    moreover have "length (concat (map le64 bitmap)) = length bitmap * 8"
      by (subst length_concat_const [where w = 8]) auto
    ultimately have "length (encode_sparse (NB_Level b) (NB_Slots b) (NB_Sizes b)) = 64 + ?c * ?w"
      using body [of "occupied (NB_Slots b)"] c(1) by simp
    then show ?thesis using node_size_facts(4) [OF c(2) True, of "NB_Level b"] True by (simp add: node_payload_def Let_def)
  next
    case False
    then show ?thesis
      using node_size_facts(5) [OF c(2), of "NB_Level b"] body [of "[0..<512]"] by (simp add: node_payload_def Let_def encode_dense_eq [OF assms])
  qed
qed

lemma decode_payload:
  assumes len: "length (NB_Slots b) = 512" "length (NB_Sizes b) = 512"
    and valid: "validateValues (NB_Level b) (NB_Slots b) (NB_Sizes b) = None"
    and top: "NB_Level b = MaxLevel \<longrightarrow> topSlotsEmpty (NB_Slots b)"
    and node: "node = \<lparr>N_Level = NB_Level b, N_Encoding = node_encoding (countValues (NB_Slots b)), N_NodeSeq = NB_NodeSeq b,
      N_Prefix = NB_Prefix b, N_CoveredCommitSeq = NB_CoveredCommitSeq b, N_EntryCount = of_nat (countValues (NB_Slots b)),
      N_Bitmap = replicate 8 0, N_Values = [], N_Sizes = []\<rparr>"
  shows "\<exists>n. decode_body node (node_payload b) = Inr n \<and> node_like n b \<and>
     validateValues (N_Level n) (N_Values n) (N_Sizes n) = None"
proof -
  let ?slots = "NB_Slots b" and ?sizes = "NB_Sizes b" and ?l = "NB_Level b" and ?c = "countValues (NB_Slots b)"
  have c: "?c = length (occupied ?slots)" "?c \<le> 512"
    using countValues_occupied occupied_length [of ?slots] len by simp_all
  have cu: "unat (of_nat ?c :: u16) = ?c" using c(2) by (simp add: unat_of_nat)
  have z: "?sizes ! i = 0" if "?l = 0" "i < 512" "?slots ! i = 0" for i
    using valid that len value_ok_zero [of ?sizes i] by (auto simp: validateValues_None)
  show ?thesis
  proof (cases "?c < 504")
    case True
    obtain bitmap where e: "encode_sparse ?l ?slots ?sizes =
        concat (map le64 bitmap) @ concat (map (\<lambda>i. slot_bytes ?l (?slots ! i) (?sizes ! i)) (occupied ?slots))"
      and bm: "length bitmap = 8" "\<And>i. i < 512 \<Longrightarrow> bitmap_bit bitmap i \<longleftrightarrow> ?slots ! i \<noteq> 0"
      by (rule encode_sparse_eq [OF len(1), of ?l ?sizes]) blast
    define pad :: bytes where "pad = replicate (unat (node_size ?l ?c) - 64 - length (encode_sparse ?l ?slots ?sizes)) 0"
    have p: "node_payload b = concat (map le64 bitmap) @ concat (map (\<lambda>i. slot_bytes ?l (?slots ! i) (?sizes ! i)) (occupied ?slots)) @ pad"
      using True by (simp add: node_payload_def Let_def pad_def e)
    have enc: "N_Encoding node = EncodingSparse" using True by (simp add: node node_encoding_def)
    have l64: "length (concat (map le64 bitmap)) = 64"
      using bm(1) by (subst length_concat_const [where w = 8]) auto
    have L: "length x = 8" if "x \<in> set (map le64 bitmap)" for x using that by auto
    have "get64 (subslice (i * 8) (i * 8 + 8) (node_payload b)) = bitmap ! i" if "i < 8" for i
      using subslice_concat [of "map le64 bitmap" 8 i 8 0, OF L, where ys = "concat (map (\<lambda>i. slot_bytes ?l (?slots ! i) (?sizes ! i)) (occupied ?slots)) @ pad"]
        that bm(1) by (auto simp: p codec_simps)
    then have bitmap: "map (\<lambda>i. get64 (subslice (i * 8) (i * 8 + 8) (node_payload b))) [0..<8] = bitmap"
      using bm(1) by (intro nth_equalityI) simp_all
    have occ: "occupied ?slots = filter (bitmap_bit bitmap) [0..<512]"
      unfolding occupied_def len by (rule filter_cong) (use bm in auto)
    have cnt: "bitmapCount bitmap = ?c" using bitmapCount_eq [OF bm(1)] c(1) occ by simp
    have vals: "decode_values ?l ?c 64 (node_payload b) =
        (map ((!) ?slots) (occupied ?slots), if ?l = 0 then map ((!) ?sizes) (occupied ?slots) else [])"
      unfolding p c(1) using l64 by (rule decode_values_eq)
    have topb: "?l = MaxLevel \<Longrightarrow> topBitmapEmpty bitmap"
      using topBitmap_of_slots [OF bm len(1)] top by blast
    define n where "n = node\<lparr>N_Bitmap := bitmap, N_Values := map ((!) ?slots) (occupied ?slots),
        N_Sizes := if ?l = 0 then map ((!) ?sizes) (occupied ?slots) else []\<rparr>"
    have "holds_slots n ?slots"
      by (rule sparse_holds(1) [where bitmap = bitmap]) (use enc bm len in \<open>simp_all add: n_def\<close>)
    moreover have "holds_refs n (build_refs b)" if "?l = 0"
      unfolding build_refs_def
      by (rule sparse_holds(2) [where bitmap = bitmap]) (use enc bm len z that in \<open>simp_all add: n_def node\<close>)
    ultimately have "node_like n b" by (simp add: node_like_def n_def node cu)
    moreover have "validateValues (N_Level n) (N_Values n) (N_Sizes n) = None"
      using packed_valid [OF valid] by (simp add: n_def node)
    moreover have "\<not> (bitmapCount bitmap \<noteq> unat (N_EntryCount node) \<or> N_Level node = MaxLevel \<and> \<not> topBitmapEmpty bitmap)"
      using cnt topb by (simp add: node cu)
    moreover have "decode_values (N_Level node) (unat (N_EntryCount node)) 64 (node_payload b) =
        (map ((!) ?slots) (occupied ?slots), if ?l = 0 then map ((!) ?sizes) (occupied ?slots) else [])"
      using vals by (simp add: node cu)
    ultimately show ?thesis
      unfolding decode_body_def bitmap Let_def by (intro exI [of _ n]) (simp only: enc if_True if_False n_def prod.case simp_thms)
  next
    case False
    then have e: "node_payload b = [] @ concat (map (\<lambda>i. slot_bytes ?l (?slots ! i) (?sizes ! i)) [0..<512]) @
        replicate (unat (node_size ?l ?c) - 64 - length (encode_dense ?l ?slots ?sizes)) 0"
      by (simp add: node_payload_def Let_def encode_dense_eq [OF len(1)])
    have enc: "N_Encoding node = EncodingDense" "N_Encoding node \<noteq> EncodingSparse" using False by (simp_all add: node node_encoding_def)
    have m: "map ((!) ?slots) [0..<512] = ?slots" "map ((!) ?sizes) [0..<512] = ?sizes"
      using map_nth [of ?slots] map_nth [of ?sizes] len by simp_all
    have vals: "decode_values ?l 512 0 (node_payload b) = (?slots, if ?l = 0 then ?sizes else [])"
      using decode_values_eq [of "[]" 0 ?l "[0..<512]" ?slots ?sizes] unfolding e by (simp add: m)
    define n where "n = node\<lparr>N_Values := ?slots, N_Sizes := if ?l = 0 then ?sizes else []\<rparr>"
    have "holds_slots n ?slots"
      by (rule dense_holds(1)) (use enc len in \<open>simp_all add: n_def\<close>)
    moreover have "holds_refs n (build_refs b)" if "?l = 0"
      unfolding build_refs_def by (rule dense_holds(2)) (use enc len z that in \<open>simp_all add: n_def node\<close>)
    ultimately have "node_like n b" by (simp add: node_like_def n_def node cu)
    moreover have "validateValues (N_Level n) (N_Values n) (N_Sizes n) = None"
      using valid by (auto simp: n_def node validateValues_None value_ok_def split: if_splits)
    moreover have "\<not> (countValues ?slots \<noteq> unat (N_EntryCount node) \<or> N_Level node = MaxLevel \<and> \<not> topSlotsEmpty ?slots)"
      using top by (simp add: node cu)
    moreover have "decode_values (N_Level node) NodeSlots 0 (node_payload b) = (?slots, if ?l = 0 then ?sizes else [])"
      using vals by (simp add: node)
    ultimately show ?thesis
      unfolding decode_body_def if_not_P [OF enc(2)] if_P [OF enc(1)] Let_def by (intro exI [of _ n]) (simp only: if_True if_False n_def prod.case simp_thms)
  qed
qed

lemma DecodeNode_Encode:
  assumes enc: "EncodeNode b = Inr bs" and len: "length (NB_Slots b) = 512" "length (NB_Sizes b) = 512"
    and rem: "node_size (NB_Level b) (countValues (NB_Slots b)) \<le> rem"
  shows "\<exists>n. DecodeNode bs rem = Inr (n, node_size (NB_Level b) (countValues (NB_Slots b))) \<and> node_like n b"
    "length bs = unat (node_size (NB_Level b) (countValues (NB_Slots b)))"
    "\<exists>n. decodeNodeHeader (subslice 0 64 bs) rem = Inr (n, node_size (NB_Level b) (countValues (NB_Slots b)))"
proof -
  define c where "c = countValues (NB_Slots b)"
  define sz where "sz = node_size (NB_Level b) c"
  define h where "h = node_head (NB_Level b) (node_encoding c) sz (NB_NodeSeq b) (NB_Prefix b) (NB_CoveredCommitSeq b) (of_nat c) (node_payload b)"
  have v: "NB_NodeSeq b \<noteq> 0" "NB_CoveredCommitSeq b \<noteq> 0" "validPrefix (NB_Level b) (NB_Prefix b)" "c \<noteq> 0"
      "NB_Level b = MaxLevel \<longrightarrow> topSlotsEmpty (NB_Slots b)" "validateValues (NB_Level b) (NB_Slots b) (NB_Sizes b) = None"
    and bs: "bs = h @ le32 (headerChecksum (h @ replicate 4 0 @ replicate 12 0)) @ replicate 12 0 @ node_payload b"
    using enc unfolding EncodeNode_Inr Let_def by (auto simp: c_def sz_def h_def)
  have c512: "c \<le> 512" using countValues_occupied occupied_length [of "NB_Slots b"] len by (simp add: c_def)
  note sf = node_size_facts [OF c512, of "NB_Level b", folded sz_def]
  have c16: "(of_nat c :: u16) \<noteq> 0" "(of_nat c :: u16) \<le> 512" "ucast (of_nat c :: u16) = (of_nat c :: u32)"
    using c512 v(4) by (simp_all add: word_unat_eq_iff word_le_nat_alt unat_of_nat unat_ucast)
  let ?node = "\<lparr>N_Level = NB_Level b, N_Encoding = node_encoding c, N_NodeSeq = NB_NodeSeq b, N_Prefix = NB_Prefix b,
    N_CoveredCommitSeq = NB_CoveredCommitSeq b, N_EntryCount = of_nat c, N_Bitmap = replicate 8 0, N_Values = [], N_Sizes = []\<rparr>"
  have dh: "decodeNodeHeader (h @ le32 (headerChecksum (h @ replicate 4 0 @ replicate 12 0)) @ replicate 12 0 @ tail) rem = Inr (?node, sz)" for tail
    unfolding h_def
    by (rule decodeNodeHeader_head) (use v c16 sf rem in \<open>auto simp: node_encoding_def node_size_def sz_def c_def [symmetric]\<close>)
  have lh: "length h = 48" by (simp add: h_def)
  have lp: "length (node_payload b) = unat sz - 64" using length_node_payload [OF len(1)] by (simp add: c_def sz_def)
  have s64: "64 \<le> unat sz" using sf(2) by (simp add: word_le_nat_alt)
  then show lb: "length bs = unat (node_size (NB_Level b) (countValues (NB_Slots b)))"
    using lp lh by (simp add: bs sz_def c_def)
  have "subslice 0 64 bs = h @ le32 (headerChecksum (h @ replicate 4 0 @ replicate 12 0)) @ replicate 12 0 @ []"
    using lh by (simp add: bs codec_simps)
  then show "\<exists>n. decodeNodeHeader (subslice 0 64 bs) rem = Inr (n, node_size (NB_Level b) (countValues (NB_Slots b)))"
    using dh [of "[]"] by (auto simp: sz_def c_def)
  have pay: "subslice 64 (unat sz) bs = node_payload b" "get32 (subslice 44 48 bs) = crc32c (node_payload b)"
    using lh lp s64 by (simp_all add: bs codec_simps) (simp add: h_def node_head_def codec_simps subslice_Cons)
  obtain n where n: "decode_body ?node (node_payload b) = Inr n" "node_like n b" "validateValues (N_Level n) (N_Values n) (N_Sizes n) = None"
    using decode_payload [OF len v(6,5), of ?node] unfolding c_def by blast
  have "DecodeNode bs rem = Inr (n, sz)"
    unfolding DecodeNode_def dh [of "node_payload b", folded bs] using lb n pay by (simp add: sz_def c_def)
  then show "\<exists>n. DecodeNode bs rem = Inr (n, node_size (NB_Level b) (countValues (NB_Slots b))) \<and> node_like n b"
    using n(2) by (auto simp: sz_def c_def)
qed

section \<open>Properties\<close>

text \<open>
  C32: a reader of an encoded node sees what the node was built from. Whatever \<^verbatim>\<open>EncodeNode\<close> writes,
  sparse or dense, \<^verbatim>\<open>DecodeNode\<close> accepts as long as the segment has room for it, consuming
  exactly the bytes written; level, sequence number, prefix and covered commit sequence are those of
  the build, the number of entries is the number of non-zero slots, and point lookups and the
  expansion give every slot, in a leaf with its size.
\<close>

theorem node_roundtrip:
  assumes "EncodeNode b = Inr bs" "length (NB_Slots b) = NodeSlots" "length (NB_Sizes b) = NodeSlots" "length bs \<le> unat rem"
  shows "\<exists>n sz. DecodeNode bs rem = Inr (n, sz) \<and> unat sz = length bs \<and> Node_PhysicalSize n = sz \<and>
    N_Level n = NB_Level b \<and> N_NodeSeq n = NB_NodeSeq b \<and> N_Prefix n = NB_Prefix b \<and>
    N_CoveredCommitSeq n = NB_CoveredCommitSeq b \<and> unat (N_EntryCount n) = countValues (NB_Slots b) \<and>
    node_Slots n = NB_Slots b \<and> (\<forall>i < NodeSlots. node_Lookup n i = (NB_Slots b ! i, NB_Slots b ! i \<noteq> 0)) \<and>
    (NB_Level b = 0 \<longrightarrow> node_Refs n = build_refs b \<and>
      (\<forall>i < NodeSlots. node_LookupRef n i = (build_refs b ! i, build_refs b ! i \<noteq> zero_ref)))"
proof -
  let ?c = "countValues (NB_Slots b)"
  note dec = DecodeNode_Encode [OF assms(1-3)]
  have v: "validPrefix (NB_Level b) (NB_Prefix b)" "?c \<noteq> 0"
    using assms(1) by (auto simp: EncodeNode_Inr)
  have c512: "?c \<le> 512" using countValues_occupied occupied_length [of "NB_Slots b"] assms(2) by simp
  have lb: "length bs = unat (node_size (NB_Level b) ?c)"
    by (rule dec(2) [of 4294967295]) (simp add: word_le_nat_alt unat_u32_bound)
  then obtain n where n: "DecodeNode bs rem = Inr (n, node_size (NB_Level b) ?c)" "node_like n b"
    using dec(1) [of rem] assms(4) by (auto simp: word_le_nat_alt)
  have lv: "\<not> NB_Level b > MaxLevel" using v(1) by (simp add: validPrefix_def split: if_splits)
  have e: "N_EntryCount n = of_nat ?c" 
    using n(2) c512 by (simp add: node_like_def word_unat_eq_iff [of "N_EntryCount n"] unat_of_nat)
  have "Node_PhysicalSize n = node_size (NB_Level b) ?c"
  proof -
    have "(of_nat ?c :: u16) \<noteq> 0" "\<not> (of_nat ?c :: u16) > 512" "(of_nat ?c :: u16) \<ge> 504 \<longleftrightarrow> ?c \<ge> 504"
      "ucast (of_nat ?c :: u16) = (of_nat ?c :: u32)"
      using c512 v(2) by (simp_all add: word_unat_eq_iff word_less_nat_alt word_le_nat_alt unat_of_nat unat_ucast)
    then show ?thesis
      using lv n(2) by (simp add: Node_PhysicalSize_def EncodedNodeSize_def e node_size_def node_like_def)
  qed
  then show ?thesis
    using n lb by (auto simp: node_like_def holds_slots_def holds_refs_def)
qed

definition example_build :: NodeBuild where
  "example_build = \<lparr>NB_Level = 1, NB_NodeSeq = 1, NB_Prefix = 0, NB_CoveredCommitSeq = 1,
     NB_Slots = (replicate 512 0)[5 := 0x100000040], NB_Sizes = replicate 512 0\<rparr>"

lemma example_build_encodes: "\<exists>bs. EncodeNode example_build = Inr bs \<and> length bs = 136"
proof -
  let ?s = "(replicate 512 0)[5 := 0x100000040] :: u64 list"
  have u: "?s = replicate 5 0 @ 0x100000040 # replicate 506 0"
    by (simp add: upd_conv_take_nth_drop min_def)
  have c: "countValues ?s = 1" unfolding u countValues_def by simp
  have a: "MapAddr_Valid 0x100000040" by (simp add: MapAddr_Valid_def MapAddr_SegmentID_def MapAddr_Offset_def)
  have "value_ok 1 (replicate 512 0) i (?s ! i)" if "i < 512" for i
    using that a by (cases "i = 5") (simp_all add: value_ok_def ParseMapAddr_def)
  then have v: "validateValues 1 ?s (replicate 512 0) = None" by (simp add: validateValues_None)
  obtain bs where bs: "EncodeNode example_build = Inr bs"
    unfolding EncodeNode_Inr Let_def using c v by (simp add: example_build_def validPrefix_def)
  have "length bs = unat (node_size 1 1)"
    using DecodeNode_Encode(2) [OF bs, of 4294967295] c by (simp add: example_build_def word_le_nat_alt unat_u32_bound)
  also have "\<dots> = 136" by (simp add: node_size_def alignNodeSize_def)
  finally show ?thesis using bs by blast
qed

theorem node_roundtrip_witness:
  "\<exists>bs n. EncodeNode example_build = Inr bs \<and> DecodeNode bs 8192 = Inr (n, 136) \<and> node_Lookup n 5 = (0x100000040, True) \<and>
    node_Lookup n 6 = (0, False)"
proof -
  obtain bs where bs: "EncodeNode example_build = Inr bs" "length bs = 136" using example_build_encodes by blast
  then obtain n sz where n: "DecodeNode bs 8192 = Inr (n, sz)" "unat sz = 136"
      "\<forall>i < NodeSlots. node_Lookup n i = (NB_Slots example_build ! i, NB_Slots example_build ! i \<noteq> 0)"
    using node_roundtrip [of example_build bs 8192] by (auto simp: example_build_def)
  have "sz = 136" using n(2) by (simp add: word_unat_eq_iff)
  moreover have "node_Lookup n 5 = (0x100000040, True)" "node_Lookup n 6 = (0, False)"
    using n(3) by (simp_all add: example_build_def)
  ultimately show ?thesis using bs(1) n(1) by blast
qed

declare upt_rec_numeral [simp]

end
