(* ===== verification/Node_Cache.thy ===== *)
theory Node_Cache
  imports Map_Node
begin

text \<open>
  The cache of radix nodes, \<^verbatim>\<open>internal/radix/cache.go\<close>: a two-list LRU with pinned roots. The map
  \<open>items\<close> and the two lists are kept as in the source, the lists as the addresses of their elements,
  front first; the flag \<open>active\<close> of an item says on which list its element is and is read off the
  lists. A \<^verbatim>\<open>get\<close> takes the lock twice around the load. No other \<^verbatim>\<open>get\<close> of the same address runs in
  between, because it waits on the entry of \<open>loading\<close> and returns the same result, so that a \<^verbatim>\<open>get\<close>
  is one step here, with the result of the load as an argument. The lemmas show that the cache is
  transparent: a \<^verbatim>\<open>get\<close> answers what the store would, whatever has been cached, promoted, pinned
  and evicted before; and that eviction stops above the capacity only when everything is pinned.
\<close>

record cacheItem =
  CI_node :: Node
  CI_bytes :: u64
  CI_pinned :: bool

record nodeCache =
  NC_capacity :: u64
  NC_used :: u64
  NC_activeN :: u64
  NC_items :: "MapAddr \<rightharpoonup> cacheItem"
  NC_inactive :: "MapAddr list"
  NC_active :: "MapAddr list"

definition newNodeCache :: "u64 \<Rightarrow> nodeCache" where
  "newNodeCache capacity = \<lparr>NC_capacity = capacity, NC_used = 0, NC_activeN = 0, NC_items = Map.empty,
     NC_inactive = [], NC_active = []\<rparr>"

definition nodeWeight :: "Node \<Rightarrow> u64" where
  "nodeWeight n = 128 + of_nat (length (N_Values n)) * 8 + 64"

definition insertLocked :: "nodeCache \<Rightarrow> MapAddr \<Rightarrow> cacheItem \<Rightarrow> bool \<Rightarrow> nodeCache" where
  "insertLocked c addr item active =
     (if active then c\<lparr>NC_active := addr # NC_active c, NC_activeN := NC_activeN c + CI_bytes item\<rparr>
      else c\<lparr>NC_inactive := addr # NC_inactive c\<rparr>)"

definition moveLocked :: "nodeCache \<Rightarrow> MapAddr \<Rightarrow> cacheItem \<Rightarrow> bool \<Rightarrow> nodeCache" where
  "moveLocked c addr item active =
     (if (addr \<in> set (NC_active c)) = active then
        if active then c\<lparr>NC_active := addr # remove1 addr (NC_active c)\<rparr>
        else c\<lparr>NC_inactive := addr # remove1 addr (NC_inactive c)\<rparr>
      else if addr \<in> set (NC_active c)
      then insertLocked (c\<lparr>NC_active := remove1 addr (NC_active c), NC_activeN := NC_activeN c - CI_bytes item\<rparr>) addr item active
      else insertLocked (c\<lparr>NC_inactive := remove1 addr (NC_inactive c)\<rparr>) addr item active)"

definition removeLocked :: "nodeCache \<Rightarrow> MapAddr \<Rightarrow> cacheItem \<Rightarrow> nodeCache" where
  "removeLocked c addr item =
     (let c1 = (if addr \<in> set (NC_active c)
                then c\<lparr>NC_active := remove1 addr (NC_active c), NC_activeN := NC_activeN c - CI_bytes item\<rparr>
                else c\<lparr>NC_inactive := remove1 addr (NC_inactive c)\<rparr>)
      in c1\<lparr>NC_items := (NC_items c1)(addr := None), NC_used := NC_used c1 - CI_bytes item\<rparr>)"

fun find_unpinned :: "(MapAddr \<rightharpoonup> cacheItem) \<Rightarrow> MapAddr list \<Rightarrow> (MapAddr \<times> cacheItem) option" where
  "find_unpinned items [] = None"
| "find_unpinned items (a # as) =
     (case items a of None \<Rightarrow> find_unpinned items as
      | Some item \<Rightarrow> if CI_pinned item then find_unpinned items as else Some (a, item))"

definition unpinnedTail :: "nodeCache \<Rightarrow> MapAddr list \<Rightarrow> (MapAddr \<times> cacheItem) option" where
  \<comment> \<open>from the back of the chain\<close>
  "unpinnedTail c chain = find_unpinned (NC_items c) (rev chain)"

lemma find_unpinned_Some:
  "find_unpinned items as = Some (a, item) \<Longrightarrow> a \<in> set as \<and> items a = Some item \<and> \<not> CI_pinned item"
  by (induction as) (auto split: option.splits if_splits)

lemma find_unpinned_None:
  "find_unpinned items as = None \<longleftrightarrow> (\<forall>a \<in> set as. \<forall>item. items a = Some item \<longrightarrow> CI_pinned item)"
  by (induction as) (auto split: option.splits)

lemma unpinnedTail_Some:
  "unpinnedTail c chain = Some (a, item) \<Longrightarrow> a \<in> set chain \<and> NC_items c a = Some item \<and> \<not> CI_pinned item"
  using find_unpinned_Some [of "NC_items c" "rev chain"] by (simp add: unpinnedTail_def)

function balanceActiveLocked :: "nodeCache \<Rightarrow> nodeCache" where
  "balanceActiveLocked c =
     (if NC_activeN c > NC_capacity c - NC_capacity c div 3 then
        case unpinnedTail c (NC_active c) of None \<Rightarrow> c
        | Some (a, item) \<Rightarrow> balanceActiveLocked (moveLocked c a item False)
      else c)"
  by pat_completeness auto
termination
  by (relation "measure (\<lambda>c. length (NC_active c))")
    (auto simp: moveLocked_def insertLocked_def length_remove1 dest!: unpinnedTail_Some intro!: diff_less length_pos_if_in_set)

declare balanceActiveLocked.simps [simp del]

lemma balance_total:
  "length (NC_active (balanceActiveLocked c)) + length (NC_inactive (balanceActiveLocked c)) =
     length (NC_active c) + length (NC_inactive c)"
proof (induction c rule: balanceActiveLocked.induct)
  case (1 c)
  show ?case
  proof (cases "unpinnedTail c (NC_active c)")
    case None
    then show ?thesis by (subst (1 2) balanceActiveLocked.simps) simp
  next
    case (Some p)
    obtain a item where p: "p = (a, item)" by fastforce
    have "a \<in> set (NC_active c)" using unpinnedTail_Some Some p by blast
    then have "length (NC_active (moveLocked c a item False)) + length (NC_inactive (moveLocked c a item False)) =
        length (NC_active c) + length (NC_inactive c)"
      using length_pos_if_in_set [of a "NC_active c"] by (simp add: moveLocked_def insertLocked_def length_remove1)
    then show ?thesis
      using 1 Some p by (subst (1 2) balanceActiveLocked.simps) simp
  qed
qed

lemma removeLocked_shorter:
  "a \<in> set (NC_inactive c) \<Longrightarrow> length (NC_active (removeLocked c a item)) + length (NC_inactive (removeLocked c a item)) <
     length (NC_active c) + length (NC_inactive c)"
  using length_pos_if_in_set [of a "NC_inactive c"] length_pos_if_in_set [of a "NC_active c"]
  by (auto simp: removeLocked_def Let_def length_remove1)

function evict :: "nodeCache \<Rightarrow> nodeCache" where
  "evict c =
     (if NC_used c > NC_capacity c then
        case unpinnedTail c (NC_inactive c) of
          Some (a, item) \<Rightarrow> evict (removeLocked c a item)
        | None \<Rightarrow>
            let c1 = balanceActiveLocked c in
            case unpinnedTail c1 (NC_inactive c1) of None \<Rightarrow> c1
            | Some (a, item) \<Rightarrow> evict (removeLocked c1 a item)
      else c)"
  by pat_completeness auto
termination
  by (relation "measure (\<lambda>c. length (NC_active c) + length (NC_inactive c))")
    (auto dest!: unpinnedTail_Some intro: removeLocked_shorter less_le_trans [OF removeLocked_shorter] simp: balance_total)

declare evict.simps [simp del]

definition cache_get :: "nodeCache \<Rightarrow> MapAddr \<Rightarrow> bool \<Rightarrow> bool \<Rightarrow> Node res \<Rightarrow> Node res \<times> nodeCache" where
  "cache_get c addr pin promote loaded =
     (case NC_items c addr of
        Some item \<Rightarrow>
          (Inr (CI_node item),
           if pin then moveLocked (c\<lparr>NC_items := (NC_items c)(addr \<mapsto> item\<lparr>CI_pinned := True\<rparr>)\<rparr>) addr (item\<lparr>CI_pinned := True\<rparr>) True
           else if promote then moveLocked c addr item True
           else c)
      | None \<Rightarrow>
          case loaded of Inl e \<Rightarrow> (Inl e, c)
          | Inr node \<Rightarrow>
              let weight = nodeWeight node in
              if pin \<and> weight > NC_capacity c then (Inl (E_radix RX_Invalid), c)
              else if weight \<le> NC_capacity c then
                let item = \<lparr>CI_node = node, CI_bytes = weight, CI_pinned = pin\<rparr>;
                    c1 = c\<lparr>NC_items := (NC_items c)(addr \<mapsto> item), NC_used := NC_used c + weight\<rparr>
                in (Inr node, evict (balanceActiveLocked (insertLocked c1 addr item pin)))
              else (Inr node, c))"

definition cache_bytes :: "nodeCache \<Rightarrow> u64" where
  "cache_bytes c = NC_used c"

section \<open>The invariant\<close>

definition item_bytes :: "(MapAddr \<rightharpoonup> cacheItem) \<Rightarrow> MapAddr \<Rightarrow> u64" where
  "item_bytes items a = (case items a of None \<Rightarrow> 0 | Some item \<Rightarrow> CI_bytes item)"

definition items_ok :: "nodeCache \<Rightarrow> bool" where
  "items_ok c \<longleftrightarrow> (\<forall>a item. NC_items c a = Some item \<longrightarrow> CI_bytes item = nodeWeight (CI_node item) \<and> CI_bytes item \<le> NC_capacity c)"

definition pins_ok :: "nodeCache \<Rightarrow> bool" where
  "pins_ok c \<longleftrightarrow> (\<forall>a item. NC_items c a = Some item \<longrightarrow> CI_pinned item \<longrightarrow> a \<in> set (NC_active c))"

definition chains_ok :: "nodeCache \<Rightarrow> bool" where
  "chains_ok c \<longleftrightarrow> distinct (NC_active c @ NC_inactive c) \<and> set (NC_active c @ NC_inactive c) = dom (NC_items c) \<and>
     NC_used c = sum_list (map (item_bytes (NC_items c)) (NC_active c @ NC_inactive c)) \<and>
     NC_activeN c = sum_list (map (item_bytes (NC_items c)) (NC_active c))"

definition cache_ok :: "nodeCache \<Rightarrow> bool" where
  "cache_ok c \<longleftrightarrow> items_ok c \<and> pins_ok c \<and> chains_ok c"

definition coherent :: "nodeCache \<Rightarrow> (MapAddr \<Rightarrow> Node res) \<Rightarrow> bool" where
  "coherent c read \<longleftrightarrow> (\<forall>a item. NC_items c a = Some item \<longrightarrow> read a = Inr (CI_node item))"

definition bounded :: "nodeCache \<Rightarrow> bool" where
  "bounded c \<longleftrightarrow> NC_used c \<le> NC_capacity c \<or> (\<forall>item \<in> ran (NC_items c). CI_pinned item)"

lemma sum_list_remove1_word:
  "x \<in> set xs \<Longrightarrow> sum_list (map f (remove1 x xs)) = sum_list (map f xs) - (f x :: u64)"
  by (induction xs) auto

lemma moveLocked_ok:
  assumes ok: "cache_ok c" and a: "NC_items c a = Some item" and p: "CI_pinned item \<longrightarrow> active"
  shows "cache_ok (moveLocked c a item active)" "NC_items (moveLocked c a item active) = NC_items c"
    "NC_capacity (moveLocked c a item active) = NC_capacity c" "NC_used (moveLocked c a item active) = NC_used c"
proof -
  have in_lists: "a \<in> set (NC_active c) \<or> a \<in> set (NC_inactive c)" and d: "distinct (NC_active c @ NC_inactive c)"
    using ok a by (auto simp: cache_ok_def chains_ok_def)
  have b: "item_bytes (NC_items c) a = CI_bytes item" using a by (simp add: item_bytes_def)
  show eq: "NC_items (moveLocked c a item active) = NC_items c" "NC_capacity (moveLocked c a item active) = NC_capacity c"
    "NC_used (moveLocked c a item active) = NC_used c"
    by (simp_all add: moveLocked_def insertLocked_def)
  have "items_ok (moveLocked c a item active)" using ok unfolding cache_ok_def items_ok_def eq by blast
  moreover have "pins_ok (moveLocked c a item active)"
    using ok a p d unfolding cache_ok_def pins_ok_def eq by (auto simp: moveLocked_def insertLocked_def)
  moreover have "chains_ok (moveLocked c a item active)"
    using ok b in_lists d unfolding cache_ok_def chains_ok_def eq
    by (auto simp: moveLocked_def insertLocked_def sum_list_remove1_word algebra_simps)
  ultimately show "cache_ok (moveLocked c a item active)" by (simp add: cache_ok_def)
qed

lemma balance_ok:
  assumes "cache_ok c"
  shows "cache_ok (balanceActiveLocked c) \<and> NC_items (balanceActiveLocked c) = NC_items c \<and>
    NC_capacity (balanceActiveLocked c) = NC_capacity c \<and> NC_used (balanceActiveLocked c) = NC_used c \<and>
    (NC_activeN (balanceActiveLocked c) > NC_capacity c - NC_capacity c div 3 \<longrightarrow>
      unpinnedTail (balanceActiveLocked c) (NC_active (balanceActiveLocked c)) = None)"
  using assms
proof (induction c rule: balanceActiveLocked.induct)
  case (1 c)
  show ?case
  proof (cases "NC_activeN c > NC_capacity c - NC_capacity c div 3")
    case False
    then have "balanceActiveLocked c = c" by (subst balanceActiveLocked.simps) simp
    then show ?thesis using 1 False by simp
  next
    case True
    show ?thesis
    proof (cases "unpinnedTail c (NC_active c)")
      case None
      then have "balanceActiveLocked c = c" by (subst balanceActiveLocked.simps) simp
      then show ?thesis using 1 None by simp
    next
      case (Some p)
      obtain a item where p: "p = (a, item)" by fastforce
      have "balanceActiveLocked c = balanceActiveLocked (moveLocked c a item False)"
        using True Some p by (subst balanceActiveLocked.simps) simp
      moreover have "NC_items c a = Some item" "\<not> CI_pinned item" using unpinnedTail_Some Some p by blast+
      note moveLocked_ok [OF 1(2) this(1), of False] this(2)
      ultimately show ?thesis using 1(1) [OF True Some p [symmetric]] by simp
    qed
  qed
qed

lemma removeLocked_ok:
  assumes ok: "cache_ok c" and a: "NC_items c a = Some item" "\<not> CI_pinned item"
  shows "cache_ok (removeLocked c a item)" "NC_items (removeLocked c a item) = (NC_items c)(a := None)"
    "NC_capacity (removeLocked c a item) = NC_capacity c"
proof -
  let ?c = "removeLocked c a item"
  have in_lists: "a \<in> set (NC_active c) \<or> a \<in> set (NC_inactive c)" and d: "distinct (NC_active c @ NC_inactive c)"
    using ok a by (auto simp: cache_ok_def chains_ok_def)
  have b: "item_bytes (NC_items c) a = CI_bytes item" using a by (simp add: item_bytes_def)
  show eq: "NC_items ?c = (NC_items c)(a := None)" "NC_capacity ?c = NC_capacity c"
    by (simp_all add: removeLocked_def Let_def)
  have lists: "NC_active ?c = remove1 a (NC_active c)" "NC_inactive ?c = remove1 a (NC_inactive c)"
  proof -
    have "a \<notin> set (NC_inactive c)" if "a \<in> set (NC_active c)" using that d by auto
    then show "NC_active ?c = remove1 a (NC_active c)" "NC_inactive ?c = remove1 a (NC_inactive c)"
      by (simp_all add: removeLocked_def Let_def remove1_idem)
  qed
  have num: "NC_used ?c = NC_used c - CI_bytes item"
      "NC_activeN ?c = (if a \<in> set (NC_active c) then NC_activeN c - CI_bytes item else NC_activeN c)"
    by (simp_all add: removeLocked_def Let_def)
  have m: "map (item_bytes ((NC_items c)(a := None))) (remove1 a xs) = map (item_bytes (NC_items c)) (remove1 a xs)" if "distinct xs" for xs
    using that by (intro map_cong) (auto simp: item_bytes_def)
  have s: "sum_list (map (item_bytes ((NC_items c)(a := None))) (remove1 a xs)) =
      (if a \<in> set xs then sum_list (map (item_bytes (NC_items c)) xs) - CI_bytes item else sum_list (map (item_bytes (NC_items c)) xs))"
    if "distinct xs" for xs
    unfolding m [OF that] by (simp add: sum_list_remove1_word b remove1_idem)
  have "items_ok ?c" using ok unfolding cache_ok_def items_ok_def eq by (metis fun_upd_apply option.distinct(1))
  moreover have "pins_ok ?c"
    using ok a(2) d unfolding cache_ok_def pins_ok_def eq lists by (auto simp: set_remove1_eq)
  moreover have "chains_ok ?c"
    using ok in_lists d unfolding cache_ok_def chains_ok_def eq lists num
    by (auto simp: s set_remove1_eq)
  ultimately show "cache_ok ?c" by (simp add: cache_ok_def)
qed

lemma evict_ok:
  assumes "cache_ok c"
  shows "cache_ok (evict c) \<and> NC_items (evict c) \<subseteq>\<^sub>m NC_items c \<and> NC_capacity (evict c) = NC_capacity c \<and> bounded (evict c)"
  using assms
proof (induction c rule: evict.induct)
  case (1 c)
  show ?case
  proof (cases "NC_used c > NC_capacity c")
    case False
    then have "evict c = c" by (subst evict.simps) simp
    then show ?thesis using 1 False by (simp add: bounded_def not_less)
  next
    case True
    have rem: "NC_items (removeLocked d a item) \<subseteq>\<^sub>m NC_items c" if "cache_ok d" "NC_items d = NC_items c" "NC_items d a = Some item" "\<not> CI_pinned item" for d a item
      using removeLocked_ok(2) [OF that(1,3,4)] that(2) by (auto simp: map_le_def)
    show ?thesis
    proof (cases "unpinnedTail c (NC_inactive c)")
      case (Some p)
      obtain a item where p: "p = (a, item)" by fastforce
      have i: "NC_items c a = Some item" "\<not> CI_pinned item" using unpinnedTail_Some Some p by blast+
      have "evict c = evict (removeLocked c a item)" using True Some p by (subst evict.simps) simp
      then show ?thesis
        using 1(2) [OF True Some p [symmetric] removeLocked_ok(1) [OF 1(3) i]] removeLocked_ok(3) [OF 1(3) i]
          map_le_trans [OF _ rem [OF 1(3) refl i]] by simp
    next
      case None
      define d where "d = balanceActiveLocked c"
      note bal = balance_ok [OF 1(3), folded d_def]
      show ?thesis
      proof (cases "unpinnedTail d (NC_inactive d)")
        case (Some p)
        obtain a item where p: "p = (a, item)" by fastforce
        have i: "NC_items d a = Some item" "\<not> CI_pinned item" using unpinnedTail_Some Some p by blast+
        have "evict c = evict (removeLocked d a item)"
          using True None Some p by (subst evict.simps) (simp add: Let_def d_def)
        then show ?thesis
          using 1(1) [OF True None d_def Some p [symmetric] removeLocked_ok(1) [OF conjunct1 [OF bal] i]]
            removeLocked_ok(3) [OF conjunct1 [OF bal] i] map_le_trans [OF _ rem [OF conjunct1 [OF bal] _ i]] bal by simp
      next
        case none: None
        have e: "evict c = d" using True None none by (subst evict.simps) (simp add: Let_def d_def)
        have dok: "cache_ok d" "NC_used d > NC_capacity d" using bal True by simp_all
        have pin: "CI_pinned item" if "a \<in> set (NC_inactive d)" "NC_items d a = Some item" for a item
          using none that by (auto simp: unpinnedTail_def find_unpinned_None)
        have "NC_inactive d = []"
        proof (rule ccontr)
          assume "NC_inactive d \<noteq> []"
          then obtain a where a: "a \<in> set (NC_inactive d)" by fastforce
          then obtain item where "NC_items d a = Some item" using dok(1) by (auto simp: cache_ok_def chains_ok_def)
          moreover from this have "a \<in> set (NC_active d)" using pin [OF a] dok(1) by (auto simp: cache_ok_def pins_ok_def)
          ultimately show False using a dok(1) by (auto simp: cache_ok_def chains_ok_def)
        qed
        then have "NC_activeN d = NC_used d" using dok(1) by (simp add: cache_ok_def chains_ok_def)
        moreover have "NC_capacity d - NC_capacity d div 3 \<le> NC_capacity d"
          using div_le_dividend [of "unat (NC_capacity d)" 3] by (simp add: word_le_nat_alt unat_sub unat_div)
        ultimately have "unpinnedTail d (NC_active d) = None" using bal dok(2) True by auto
        then have act: "\<forall>a \<in> set (NC_active d). \<forall>item. NC_items d a = Some item \<longrightarrow> CI_pinned item"
          by (simp add: unpinnedTail_def find_unpinned_None)
        have "CI_pinned item" if "NC_items d a = Some item" for a item
        proof -
          have "a \<in> set (NC_active d @ NC_inactive d)"
            using that dok(1) domI [of "NC_items d" a item] unfolding cache_ok_def chains_ok_def by simp
          then show ?thesis using that pin act by auto
        qed
        then show ?thesis using bal e by (auto simp: bounded_def ran_def)
      qed
    qed
  qed
qed

section \<open>Transparency\<close>

definition direct_load :: "u64 \<Rightarrow> bool \<Rightarrow> Node res \<Rightarrow> Node res" where
  \<comment> \<open>what a \<^verbatim>\<open>get\<close> answers without a cache: the node, unless it must be pinned and does not fit\<close>
  "direct_load capacity pin loaded =
     (case loaded of Inl e \<Rightarrow> Inl e
      | Inr node \<Rightarrow> if pin \<and> nodeWeight node > capacity then Inl (E_radix RX_Invalid) else Inr node)"

lemma insert_ok:
  assumes ok: "cache_ok c" and a: "NC_items c a = None" and w: "CI_bytes item = nodeWeight (CI_node item)" "CI_bytes item \<le> NC_capacity c"
  shows "cache_ok (insertLocked (c\<lparr>NC_items := (NC_items c)(a \<mapsto> item), NC_used := NC_used c + CI_bytes item\<rparr>) a item (CI_pinned item))"
proof -
  let ?c = "insertLocked (c\<lparr>NC_items := (NC_items c)(a \<mapsto> item), NC_used := NC_used c + CI_bytes item\<rparr>) a item (CI_pinned item)"
  have na: "a \<notin> set (NC_active c)" "a \<notin> set (NC_inactive c)"
    using ok a unfolding cache_ok_def chains_ok_def by (metis Un_iff domIff set_append)+
  have m: "map (item_bytes ((NC_items c)(a \<mapsto> item))) xs = map (item_bytes (NC_items c)) xs" if "a \<notin> set xs" for xs
    using that by (intro map_cong) (auto simp: item_bytes_def)
  have b: "item_bytes ((NC_items c)(a \<mapsto> item)) a = CI_bytes item" by (simp add: item_bytes_def)
  have eq: "NC_items ?c = (NC_items c)(a \<mapsto> item)" "NC_capacity ?c = NC_capacity c" by (simp_all add: insertLocked_def)
  have "items_ok ?c" using ok w unfolding cache_ok_def items_ok_def eq by (metis fun_upd_apply option.inject)
  moreover have "pins_ok ?c"
    using ok unfolding cache_ok_def pins_ok_def eq by (auto simp: insertLocked_def)
  moreover have "chains_ok ?c"
    using ok na unfolding cache_ok_def chains_ok_def eq by (auto simp: insertLocked_def m b algebra_simps)
  ultimately show ?thesis by (simp add: cache_ok_def)
qed

lemma coherent_le: "coherent c read \<Longrightarrow> NC_items d \<subseteq>\<^sub>m NC_items c \<Longrightarrow> coherent d read"
  unfolding coherent_def map_le_def by (metis domI)

lemma pin_ok:
  assumes ok: "cache_ok c" and a: "NC_items c a = Some item"
  shows "cache_ok (moveLocked (c\<lparr>NC_items := (NC_items c)(a \<mapsto> item\<lparr>CI_pinned := True\<rparr>)\<rparr>) a (item\<lparr>CI_pinned := True\<rparr>) True)"
proof -
  let ?item = "item\<lparr>CI_pinned := True\<rparr>" and ?f = "\<lambda>d. d\<lparr>NC_items := (NC_items d)(a \<mapsto> item\<lparr>CI_pinned := True\<rparr>)\<rparr>"
  have comm: "moveLocked (?f c) a ?item True = ?f (moveLocked c a item True)"
    by (simp add: moveLocked_def insertLocked_def)
  have "CI_pinned item \<longrightarrow> True" by simp
  note mv = moveLocked_ok [OF ok a this]
  have bytes: "item_bytes ((NC_items c)(a \<mapsto> ?item)) = item_bytes (NC_items c)"
    using a by (auto simp: item_bytes_def fun_eq_iff)
  have act: "a \<in> set (NC_active (moveLocked c a item True))" by (auto simp: moveLocked_def insertLocked_def)
  have mok: "items_ok (moveLocked c a item True)" "pins_ok (moveLocked c a item True)" "chains_ok (moveLocked c a item True)"
    using mv(1) by (simp_all add: cache_ok_def)
  have "items_ok (?f (moveLocked c a item True))"
    unfolding items_ok_def
  proof (intro allI impI)
    fix b i assume b: "NC_items (?f (moveLocked c a item True)) b = Some i"
    show "CI_bytes i = nodeWeight (CI_node i) \<and> CI_bytes i \<le> NC_capacity (?f (moveLocked c a item True))"
    proof (cases "b = a")
      case True
      then have "i = ?item" using b by simp
      then show ?thesis using mok(1) [unfolded items_ok_def mv(2), rule_format, OF a] by auto
    next
      case False
      then show ?thesis using mok(1) [unfolded items_ok_def, rule_format, of b i] b by auto
    qed
  qed
  moreover have "pins_ok (?f (moveLocked c a item True))"
    using mok(2) act unfolding pins_ok_def mv(2) by (auto split: if_splits)
  moreover have "chains_ok (?f (moveLocked c a item True))"
    using mok(3) a bytes unfolding chains_ok_def by (auto simp: mv(2))
  ultimately show ?thesis by (simp only: comm cache_ok_def simp_thms)
qed

lemma cache_get_ok:
  assumes ok: "cache_ok c" "coherent c read" "bounded c" and g: "cache_get c addr pin promote (read addr) = (r, c')"
  shows "r = direct_load (NC_capacity c) pin (read addr)" "cache_ok c'" "coherent c' read" "bounded c'" "NC_capacity c' = NC_capacity c"
proof -
  have "r = direct_load (NC_capacity c) pin (read addr) \<and> cache_ok c' \<and> coherent c' read \<and> bounded c' \<and> NC_capacity c' = NC_capacity c"
  proof (cases "NC_items c addr")
    case (Some item)
    have rd: "read addr = Inr (CI_node item)" using ok(2) Some by (simp add: coherent_def)
    have "nodeWeight (CI_node item) \<le> NC_capacity c" using ok(1) Some unfolding cache_ok_def items_ok_def by metis
    then have "direct_load (NC_capacity c) pin (read addr) = Inr (CI_node item)"
      by (simp add: rd direct_load_def not_less)
    moreover have "r = Inr (CI_node item)" using g Some by (simp add: cache_get_def)
    ultimately have r: "r = direct_load (NC_capacity c) pin (read addr)" by simp
    show ?thesis
    proof (cases pin)
      case True
      let ?d = "c\<lparr>NC_items := (NC_items c)(addr \<mapsto> item\<lparr>CI_pinned := True\<rparr>)\<rparr>"
      have c': "c' = moveLocked ?d addr (item\<lparr>CI_pinned := True\<rparr>) True" using g Some True by (simp add: cache_get_def)
      have eq: "NC_items c' = (NC_items c)(addr \<mapsto> item\<lparr>CI_pinned := True\<rparr>)" "NC_used c' = NC_used c" "NC_capacity c' = NC_capacity c"
        by (simp_all add: c' moveLocked_def insertLocked_def)
      moreover have "bounded c'" using ok(3) unfolding bounded_def eq by (auto simp: ran_def)
      moreover have "coherent c' read" using ok(2) rd unfolding coherent_def eq by auto
      ultimately show ?thesis using r pin_ok [OF ok(1) Some] by (simp add: c')
    next
      case False
      then have c': "c' = (if promote then moveLocked c addr item True else c)" using g Some by (simp add: cache_get_def)
      have "CI_pinned item \<longrightarrow> True" by simp
      note mv = moveLocked_ok [OF ok(1) Some this]
      show ?thesis using r ok mv by (auto simp: c' coherent_def bounded_def)
    qed
  next
    case None
    show ?thesis
    proof (cases "read addr")
      case (Inl e)
      have "r = Inl e \<and> c' = c" using g None Inl by (simp add: cache_get_def)
      then show ?thesis using ok by (simp add: direct_load_def Inl)
    next
      case (Inr node)
      show ?thesis
      proof (cases "nodeWeight node \<le> NC_capacity c")
        case False
        then have "(r, c') = (if pin then Inl (E_radix RX_Invalid) else Inr node, c)"
          using g None Inr by (cases pin) (simp_all add: cache_get_def if_not_P [OF False] not_le)
        moreover have "direct_load (NC_capacity c) pin (read addr) = (if pin then Inl (E_radix RX_Invalid) else Inr node)"
          using False by (simp add: direct_load_def Inr not_le)
        ultimately show ?thesis using ok by simp
      next
        case True
        define item where "item = \<lparr>CI_node = node, CI_bytes = nodeWeight node, CI_pinned = pin\<rparr>"
        define d where "d = insertLocked (c\<lparr>NC_items := (NC_items c)(addr \<mapsto> item), NC_used := NC_used c + CI_bytes item\<rparr>) addr item (CI_pinned item)"
        have "\<not> nodeWeight node > NC_capacity c" using True by simp
        then have "(r, c') = (Inr node, evict (balanceActiveLocked d))"
          using g None Inr True by (simp add: cache_get_def Let_def item_def d_def)
        moreover have "direct_load (NC_capacity c) pin (read addr) = Inr node"
          using \<open>\<not> nodeWeight node > NC_capacity c\<close> by (simp add: direct_load_def Inr)
        ultimately have r: "r = direct_load (NC_capacity c) pin (read addr)" "c' = evict (balanceActiveLocked d)" by simp_all
        have dok: "cache_ok d" unfolding d_def by (rule insert_ok [OF ok(1) None]) (use True in \<open>simp_all add: item_def\<close>)
        have "coherent d read" using ok(2) Inr by (auto simp: d_def insertLocked_def coherent_def item_def)
        moreover have "NC_capacity d = NC_capacity c" by (simp add: d_def insertLocked_def)
        ultimately show ?thesis
          using balance_ok [OF dok] evict_ok [of "balanceActiveLocked d"] r coherent_le [of d read c'] by simp
      qed
    qed
  qed
  then show "r = direct_load (NC_capacity c) pin (read addr)" "cache_ok c'" "coherent c' read" "bounded c'" "NC_capacity c' = NC_capacity c"
    by simp_all
qed

lemma newNodeCache_ok: "cache_ok (newNodeCache cap)" "coherent (newNodeCache cap) read" "bounded (newNodeCache cap)"
  by (simp_all add: newNodeCache_def cache_ok_def items_ok_def pins_ok_def chains_ok_def coherent_def bounded_def)

fun cache_run :: "(MapAddr \<Rightarrow> Node res) \<Rightarrow> nodeCache \<Rightarrow> (MapAddr \<times> bool \<times> bool) list \<Rightarrow> Node res list \<times> nodeCache" where
  "cache_run read c [] = ([], c)"
| "cache_run read c ((addr, pin, promote) # qs) =
     (let (r, c1) = cache_get c addr pin promote (read addr); (rs, c2) = cache_run read c1 qs in (r # rs, c2))"

lemma cache_run_ok:
  assumes "cache_ok c" "coherent c read" "bounded c" "cache_run read c qs = (rs, c')"
  shows "rs = map (\<lambda>(addr, pin, promote). direct_load (NC_capacity c) pin (read addr)) qs \<and> bounded c' \<and> cache_ok c'"
  using assms
proof (induction qs arbitrary: c rs)
  case (Cons q qs)
  obtain addr pin promote where q: "q = (addr, pin, promote)" by (cases q) auto
  obtain r c1 where g: "cache_get c addr pin promote (read addr) = (r, c1)" by fastforce
  obtain rs1 c2 where run: "cache_run read c1 qs = (rs1, c2)" by fastforce
  note get = cache_get_ok [OF Cons.prems(1-3) g]
  have rs: "rs = r # rs1" "c2 = c'" using Cons.prems(4) by (simp_all add: q g run)
  show ?case using Cons.IH [OF get(2-4) run [unfolded rs(2)]] get(1,5) by (simp add: q rs(1))
qed simp

section \<open>Properties\<close>


end
