(* ===== verification/Radix_Tree.thy ===== *)
theory Radix_Tree
  imports Node_Cache
begin

text \<open>
  The persistent radix tree (\<^verbatim>\<open>internal/radix/tree.go\<close>, \<^verbatim>\<open>builder.go\<close>, \<^verbatim>\<open>rebuild.go\<close>): lookups and walks over
  an immutable root, the streaming copy-on-write builder that applies a checkpoint cut, and the
  builder that rebuilds a tree from a sorted stream. The node store is the record of operations the
  package calls, its state is threaded. A level, a \<^verbatim>\<open>uint8\<close> that only counts from 7 to 0, is a natural
  number. A builder whose step failed is of no further use and is dropped. Nodes are read as \<open>direct_load\<close> says, which is what the cache answers; the flag that
  promotes a cached node has no influence on the answer and is left out.
\<close>

abbreviation radix_ErrInvalid :: err where "radix_ErrInvalid \<equiv> E_radix RX_Invalid"
abbreviation radix_ErrCorrupt :: err where "radix_ErrCorrupt \<equiv> E_radix RX_Corrupt"

record 's NodeStore =
  ns_Read :: "'s \<Rightarrow> MapAddr \<Rightarrow> Node res"
  ns_Append :: "'s \<Rightarrow> u8 \<Rightarrow> u64 \<Rightarrow> CommitSeq \<Rightarrow> u64 list \<Rightarrow> MapAddr res \<times> 's"
  ns_AppendLeaf :: "'s \<Rightarrow> u64 \<Rightarrow> CommitSeq \<Rightarrow> RecordRef list \<Rightarrow> MapAddr res \<times> 's"

type_synonym node_reader = "MapAddr \<Rightarrow> Node res"

record Tree =
  T_writer :: bool  \<comment> \<open>the tree has a writer\<close>
  T_root :: MapAddr
  T_covered :: CommitSeq
  T_capacity :: u64  \<comment> \<open>the capacity of its cache\<close>

section \<open>Reading\<close>

definition nodeSlot :: "record_id \<Rightarrow> nat \<Rightarrow> nat" where
  "nodeSlot i level = (if level = 7 then unat (drop_bit 63 i) else unat (drop_bit (9 * level) i AND 0x1ff))"

definition nodePrefix :: "record_id \<Rightarrow> nat \<Rightarrow> u64" where
  "nodePrefix i level = (if level = 7 then 0 else drop_bit (9 * (level + 1)) i)"

definition tree_load :: "node_reader \<Rightarrow> Tree \<Rightarrow> MapAddr \<Rightarrow> nat \<Rightarrow> u64 \<Rightarrow> bool \<Rightarrow> Node res" where
  "tree_load read t addr level prefix pin =
     res_bind (direct_load (T_capacity t) pin (read addr)) (\<lambda>node.
       if unat (N_Level node) \<noteq> level \<or> N_Prefix node \<noteq> prefix \<or> N_CoveredCommitSeq node > T_covered t
       then Inl radix_ErrCorrupt else Inr node)"

definition tree_open :: "node_reader \<Rightarrow> bool \<Rightarrow> MapAddr \<Rightarrow> CommitSeq \<Rightarrow> u64 \<Rightarrow> Tree res" where
  \<comment> \<open>the second argument: whether there is a writer\<close>
  "tree_open read writer root covered cacheBytes =
     (if cacheBytes = 0 \<or> (root \<noteq> 0 \<and> \<not> MapAddr_Valid root) then Inl radix_ErrInvalid
      else let tree = \<lparr>T_writer = writer, T_root = root, T_covered = covered, T_capacity = cacheBytes\<rparr> in
        if root \<noteq> 0 then res_bind (tree_load read tree root 7 0 True) (\<lambda>_. Inr tree) else Inr tree)"

definition radix_Open :: "node_reader \<Rightarrow> MapAddr \<Rightarrow> CommitSeq \<Rightarrow> u64 \<Rightarrow> Tree res" where
  "radix_Open read root covered cacheBytes = tree_open read True root covered cacheBytes"

definition OpenReadOnly :: "node_reader \<Rightarrow> MapAddr \<Rightarrow> CommitSeq \<Rightarrow> u64 \<Rightarrow> Tree res" where
  "OpenReadOnly read root covered cacheBytes = tree_open read False root covered cacheBytes"

fun lookup_loop :: "node_reader \<Rightarrow> Tree \<Rightarrow> record_id \<Rightarrow> MapAddr \<Rightarrow> nat \<Rightarrow> (RecordRef \<times> bool) res" where
  "lookup_loop read t i addr 0 =
     res_bind (tree_load read t addr 0 (nodePrefix i 0) False) (\<lambda>node.
       let (ref, exists) = node_LookupRef node (nodeSlot i 0) in
       if \<not> exists then Inr (zero_ref, False)
       else if \<not> RecordRef_Valid ref then Inl radix_ErrCorrupt
       else Inr (ref, True))"
| "lookup_loop read t i addr (Suc level) =
     res_bind (tree_load read t addr (Suc level) (nodePrefix i (Suc level)) (Suc level = 7)) (\<lambda>node.
       let (value, exists) = node_Lookup node (nodeSlot i (Suc level)) in
       if \<not> exists then Inr (zero_ref, False)
       else case ParseMapAddr value of Inl e \<Rightarrow> Inl (Join radix_ErrCorrupt e)
         | Inr childAddr \<Rightarrow> lookup_loop read t i childAddr level)"

definition tree_LookupRef :: "node_reader \<Rightarrow> Tree \<Rightarrow> record_id \<Rightarrow> (RecordRef \<times> bool) res" where
  "tree_LookupRef read t i =
     (if i = 0 then Inl radix_ErrInvalid
      else if T_root t = 0 then Inr (zero_ref, False)
      else lookup_loop read t i (T_root t) 7)"

definition tree_Lookup :: "node_reader \<Rightarrow> Tree \<Rightarrow> record_id \<Rightarrow> (VAddr \<times> bool) res" where
  "tree_Lookup read t i = res_bind (tree_LookupRef read t i) (\<lambda>(ref, exists). Inr (Ref_Addr ref, exists))"

text \<open>The context is checked before every node; \<open>None\<close> is a context that is not cancelled.\<close>

definition walk_slot :: "('v \<Rightarrow> record_id \<Rightarrow> RecordRef \<Rightarrow> 'v res) \<Rightarrow> Node \<Rightarrow> u64 \<Rightarrow> 'v \<Rightarrow> nat \<Rightarrow> 'v res" where
  \<comment> \<open>a slot of a leaf\<close>
  "walk_slot visit node prefix v slot =
     (let (ref, exists) = node_LookupRef node slot in
      if \<not> exists then Inr v
      else let i = push_bit 9 prefix OR of_nat slot in
        if \<not> RecordRef_Valid ref \<or> i = 0 then Inl radix_ErrCorrupt else visit v i ref)"

fun walkNode :: "node_reader \<Rightarrow> Tree \<Rightarrow> err option \<Rightarrow> ('v \<Rightarrow> record_id \<Rightarrow> RecordRef \<Rightarrow> 'v res) \<Rightarrow> MapAddr \<Rightarrow> u64 \<Rightarrow> nat \<Rightarrow> 'v \<Rightarrow> 'v res" where
  "walkNode read t ctx visit addr prefix 0 v =
     (case ctx of Some e \<Rightarrow> Inl e | None \<Rightarrow>
      res_bind (tree_load read t addr 0 prefix False) (\<lambda>node.
        res_fold (walk_slot visit node prefix) v [0..<NodeSlots]))"
| "walkNode read t ctx visit addr prefix (Suc level) v =
     (case ctx of Some e \<Rightarrow> Inl e | None \<Rightarrow>
      res_bind (tree_load read t addr (Suc level) prefix (Suc level = 7)) (\<lambda>node.
        res_fold (\<lambda>v slot.
          let (value, exists) = node_Lookup node slot in
          if \<not> exists then Inr v
          else case ParseMapAddr value of Inl e \<Rightarrow> Inl (Join radix_ErrCorrupt e)
            | Inr child \<Rightarrow> walkNode read t ctx visit child (push_bit 9 prefix OR of_nat slot) level v)
          v [0..<NodeSlots]))"

definition tree_WalkRefs :: "node_reader \<Rightarrow> Tree \<Rightarrow> err option \<Rightarrow> ('v \<Rightarrow> record_id \<Rightarrow> RecordRef \<Rightarrow> 'v res) \<Rightarrow> 'v \<Rightarrow> 'v res" where
  "tree_WalkRefs read t ctx visit v =
     (case ctx of Some e \<Rightarrow> Inl e
      | None \<Rightarrow> if T_root t = 0 then Inr v else walkNode read t ctx visit (T_root t) 0 7 v)"

definition tree_Walk :: "node_reader \<Rightarrow> Tree \<Rightarrow> err option \<Rightarrow> ('v \<Rightarrow> record_id \<Rightarrow> VAddr \<Rightarrow> 'v res) \<Rightarrow> 'v \<Rightarrow> 'v res" where
  "tree_Walk read t ctx visit v = tree_WalkRefs read t ctx (\<lambda>v i ref. visit v i (Ref_Addr ref)) v"

fun reachableNodeBytes :: "node_reader \<Rightarrow> Tree \<Rightarrow> err option \<Rightarrow> MapAddr \<Rightarrow> u64 \<Rightarrow> nat \<Rightarrow> u64 res" where
  "reachableNodeBytes read t ctx addr prefix 0 =
     (case ctx of Some e \<Rightarrow> Inl e | None \<Rightarrow>
      res_bind (tree_load read t addr 0 prefix False) (\<lambda>node. Inr (ucast (Node_PhysicalSize node))))"
| "reachableNodeBytes read t ctx addr prefix (Suc level) =
     (case ctx of Some e \<Rightarrow> Inl e | None \<Rightarrow>
      res_bind (tree_load read t addr (Suc level) prefix (Suc level = 7)) (\<lambda>node.
        res_fold (\<lambda>total slot.
          let (value, exists) = node_Lookup node slot in
          if \<not> exists then Inr total
          else case ParseMapAddr value of Inl e \<Rightarrow> Inl (Join radix_ErrCorrupt e)
            | Inr child \<Rightarrow>
                res_bind (reachableNodeBytes read t ctx child (push_bit 9 prefix OR of_nat slot) level) (\<lambda>bytes.
                  if total > max_u64 - bytes then Inl radix_ErrInvalid else Inr (total + bytes)))
          (ucast (Node_PhysicalSize node)) [0..<NodeSlots]))"

definition tree_ReachableBytes :: "node_reader \<Rightarrow> Tree \<Rightarrow> err option \<Rightarrow> u64 res" where
  "tree_ReachableBytes read t ctx =
     (case ctx of Some e \<Rightarrow> Inl e
      | None \<Rightarrow> if T_root t = 0 then Inr 0 else reachableNodeBytes read t ctx (T_root t) 0 7)"

section \<open>The streaming builder\<close>

record radix_Mutation =
  RM_ID :: record_id
  RM_Ref :: RecordRef

record EntryDelta =
  ED_Added :: u64
  ED_Removed :: u64
  ED_ReachableBytesAdded :: u64
  ED_ReachableBytesRemoved :: u64

definition zero_entry_delta :: EntryDelta where
  "zero_entry_delta = \<lparr>ED_Added = 0, ED_Removed = 0, ED_ReachableBytesAdded = 0, ED_ReachableBytesRemoved = 0\<rparr>"

definition addReachable :: "EntryDelta \<Rightarrow> u64 \<Rightarrow> u64 \<Rightarrow> EntryDelta res" where
  "addReachable d added removed =
     (if ED_ReachableBytesAdded d > max_u64 - added \<or> ED_ReachableBytesRemoved d > max_u64 - removed
      then Inl radix_ErrInvalid
      else Inr (d\<lparr>ED_ReachableBytesAdded := ED_ReachableBytesAdded d + added,
                   ED_ReachableBytesRemoved := ED_ReachableBytesRemoved d + removed\<rparr>))"

record childChange =
  CC_prefix :: u64
  CC_addr :: MapAddr

record nodeAccumulator =
  NA_active :: bool
  NA_prefix :: u64
  NA_oldAddr :: MapAddr
  NA_oldBytes :: u64
  NA_before :: "u64 list"
  NA_slots :: "u64 list"

definition zero_accumulator :: nodeAccumulator where
  "zero_accumulator = \<lparr>NA_active = False, NA_prefix = 0, NA_oldAddr = 0, NA_oldBytes = 0,
     NA_before = replicate NodeSlots 0, NA_slots = replicate NodeSlots 0\<rparr>"

record streamingBuilder =
  SB_tree :: Tree
  SB_covered :: CommitSeq
  SB_root :: MapAddr
  SB_delta :: "EntryDelta option"
  SB_levels :: "nodeAccumulator list"

text \<open>A step that may fail after it has appended nodes: the store is returned with the result.\<close>

type_synonym ('a, 's) build = "'a res \<times> 's"

definition build_bind :: "('a, 's) build \<Rightarrow> ('a \<Rightarrow> 's \<Rightarrow> ('b, 's) build) \<Rightarrow> ('b, 's) build" where
  "build_bind m f = (case m of (Inl e, s) \<Rightarrow> (Inl e, s) | (Inr x, s) \<Rightarrow> f x s)"

lemma build_bind_simps [simp]:
  "build_bind (Inl e, s) f = (Inl e, s)" "build_bind (Inr x, s) f = f x s"
  by (simp_all add: build_bind_def)

lemma build_bind_cong [fundef_cong]:
  "m = m' \<Longrightarrow> (\<And>x s. m' = (Inr x, s) \<Longrightarrow> f x s = f' x s) \<Longrightarrow> build_bind m f = build_bind m' f'"
  by (auto simp: build_bind_def split: prod.splits sum.splits)

definition build_lift :: "'a res \<Rightarrow> 's \<Rightarrow> ('a, 's) build" where
  "build_lift r s = (r, s)"

fun address_loop :: "node_reader \<Rightarrow> Tree \<Rightarrow> record_id \<Rightarrow> nat \<Rightarrow> MapAddr \<Rightarrow> nat \<Rightarrow> MapAddr res" where
  "address_loop read t i level addr 0 = Inr addr"
| "address_loop read t i level addr (Suc current) =
     (if Suc current > level then
        res_bind (tree_load read t addr (Suc current) (nodePrefix i (Suc current)) (Suc current = 7)) (\<lambda>node.
          let (value, exists) = node_Lookup node (nodeSlot i (Suc current)) in
          if \<not> exists then Inr 0
          else case ParseMapAddr value of Inl e \<Rightarrow> Inl radix_ErrCorrupt
            | Inr child \<Rightarrow> address_loop read t i level child current)
      else Inr addr)"

definition nodeAddress :: "node_reader \<Rightarrow> Tree \<Rightarrow> nat \<Rightarrow> u64 \<Rightarrow> MapAddr res" where
  "nodeAddress read t level prefix =
     (if T_root t = 0 then Inr 0
      else if level = 7 then Inr (T_root t)
      else address_loop read t (push_bit (9 * (level + 1)) prefix) level (T_root t) 7)"

definition oldSlots :: "node_reader \<Rightarrow> Tree \<Rightarrow> MapAddr \<Rightarrow> nat \<Rightarrow> u64 \<Rightarrow> (u64 list \<times> u64) res" where
  "oldSlots read t addr level prefix =
     (if addr = 0 then Inr (replicate NodeSlots 0, 0)
      else res_bind (tree_load read t addr level prefix (level = 7)) (\<lambda>node.
        Inr (node_Slots node, ucast (Node_PhysicalSize node))))"

definition oldRefs :: "node_reader \<Rightarrow> Tree \<Rightarrow> MapAddr \<Rightarrow> u64 \<Rightarrow> (RecordRef list \<times> u64) res" where
  "oldRefs read t addr prefix =
     (if addr = 0 then Inr (replicate NodeSlots zero_ref, 0)
      else res_bind (tree_load read t addr 0 prefix False) (\<lambda>node.
        Inr (node_Refs node, ucast (Node_PhysicalSize node))))"

definition nodeBuildBytes :: "nat \<Rightarrow> 'a list \<Rightarrow> 'a \<Rightarrow> u64 res" where
  \<comment> \<open>the last argument is the zero value of the element type\<close>
  "nodeBuildBytes level values zero =
     (let count = length (filter (\<lambda>v. v \<noteq> zero) values) in
      if count = 0 then Inr 0
      else res_bind (EncodedNodeSize (of_nat level) (of_nat count)) (\<lambda>sz. Inr (ucast sz)))"

definition writeChangedNode ::
  "'s NodeStore \<Rightarrow> 's \<Rightarrow> Tree \<Rightarrow> nat \<Rightarrow> u64 \<Rightarrow> CommitSeq \<Rightarrow> u64 list \<Rightarrow> u64 list \<Rightarrow> MapAddr \<Rightarrow> (MapAddr, 's) build" where
  "writeChangedNode ns s t level prefix covered before after old =
     (if before = after then (Inr old, s)
      else if list_all (\<lambda>v. v = 0) after then (Inr 0, s)
      else if \<not> T_writer t then (Inl radix_ErrInvalid, s)
      else ns_Append ns s (of_nat level) prefix covered after)"

definition writeChangedLeaf ::
  "'s NodeStore \<Rightarrow> 's \<Rightarrow> Tree \<Rightarrow> u64 \<Rightarrow> CommitSeq \<Rightarrow> RecordRef list \<Rightarrow> RecordRef list \<Rightarrow> MapAddr \<Rightarrow> (MapAddr, 's) build" where
  "writeChangedLeaf ns s t prefix covered before after old =
     (if before = after then (Inr old, s)
      else if list_all RecordRef_IsZero after then (Inr 0, s)
      else if \<not> T_writer t then (Inl radix_ErrInvalid, s)
      else ns_AppendLeaf ns s prefix covered after)"

definition flush_node :: "'s NodeStore \<Rightarrow> 's \<Rightarrow> streamingBuilder \<Rightarrow> nat \<Rightarrow> (childChange option \<times> streamingBuilder, 's) build" where
  \<comment> \<open>\<^verbatim>\<open>flush\<close> up to the change it hands to the level above\<close>
  "flush_node ns s b level =
     (let current = SB_levels b ! level in
      if \<not> NA_active current then (Inr (None, b), s)
      else let prefix = NA_prefix current; oldAddr = NA_oldAddr current;
               b1 = b\<lparr>SB_levels := (SB_levels b)[level := zero_accumulator]\<rparr> in
        build_bind (writeChangedNode ns s (SB_tree b) level prefix (SB_covered b) (NA_before current) (NA_slots current) oldAddr) (\<lambda>newAddr s1.
          if newAddr = oldAddr then (Inr (None, b1), s1)
          else build_bind
            (case SB_delta b of None \<Rightarrow> (Inr b1, s1)
             | Some d \<Rightarrow>
                 build_bind (build_lift (nodeBuildBytes level (NA_slots current) 0) s1) (\<lambda>added s2.
                 build_bind (build_lift (addReachable d added (NA_oldBytes current)) s2) (\<lambda>d' s3.
                   (Inr (b1\<lparr>SB_delta := Some d'\<rparr>), s3))))
            (\<lambda>b2 s2.
              if level = 7 then
                if prefix \<noteq> 0 then (Inl radix_ErrCorrupt, s2) else (Inr (None, b2\<lparr>SB_root := newAddr\<rparr>), s2)
              else (Inr (Some \<lparr>CC_prefix = prefix, CC_addr = newAddr\<rparr>, b2), s2))))"

definition activate :: "'s NodeStore \<Rightarrow> 's \<Rightarrow> streamingBuilder \<Rightarrow> nat \<Rightarrow> u64 \<Rightarrow> (streamingBuilder, 's) build" where
  \<comment> \<open>load the old node of a level into its accumulator, if the accumulator is free\<close>
  "activate ns s b level prefix =
     (if NA_active (SB_levels b ! level) then (Inr b, s)
      else build_bind (build_lift (nodeAddress (ns_Read ns s) (SB_tree b) level prefix) s) (\<lambda>oldAddr s1.
        build_bind (build_lift (oldSlots (ns_Read ns s1) (SB_tree b) oldAddr level prefix) s1) (\<lambda>(slots, oldBytes) s2.
          (Inr (b\<lparr>SB_levels := (SB_levels b)[level :=
             \<lparr>NA_active = True, NA_prefix = prefix, NA_oldAddr = oldAddr, NA_oldBytes = oldBytes,
              NA_before = slots, NA_slots = slots\<rparr>]\<rparr>), s2))))"

function push :: "'s NodeStore \<Rightarrow> 's \<Rightarrow> streamingBuilder \<Rightarrow> nat \<Rightarrow> childChange \<Rightarrow> (streamingBuilder, 's) build" where
  "push ns s b childLevel change =
     (let level = childLevel + 1; prefix = drop_bit 9 (CC_prefix change) in
      if level > 7 then (Inl radix_ErrCorrupt, s)
      else build_bind
        (if NA_active (SB_levels b ! level) \<and> NA_prefix (SB_levels b ! level) \<noteq> prefix
         then build_bind (flush_node ns s b level) (\<lambda>(up, b1) s1.
           case up of None \<Rightarrow> (Inr b1, s1) | Some ch \<Rightarrow> push ns s1 b1 level ch)
         else (Inr b, s))
        (\<lambda>b1 s1. build_bind (activate ns s1 b1 level prefix) (\<lambda>b2 s2.
          let current = SB_levels b2 ! level in
          (Inr (b2\<lparr>SB_levels := (SB_levels b2)[level :=
             current\<lparr>NA_slots := (NA_slots current)[unat (CC_prefix change AND 0x1ff) := CC_addr change]\<rparr>]\<rparr>), s2))))"
  by pat_completeness auto
termination by (relation "measure (\<lambda>(_, _, _, childLevel, _). 8 - childLevel)") auto

declare push.simps [simp del]

definition flush :: "'s NodeStore \<Rightarrow> 's \<Rightarrow> streamingBuilder \<Rightarrow> nat \<Rightarrow> (streamingBuilder, 's) build" where
  "flush ns s b level =
     build_bind (flush_node ns s b level) (\<lambda>(up, b1) s1.
       case up of None \<Rightarrow> (Inr b1, s1) | Some ch \<Rightarrow> push ns s1 b1 level ch)"

fun flush_levels :: "'s NodeStore \<Rightarrow> 's \<Rightarrow> streamingBuilder \<Rightarrow> nat list \<Rightarrow> (streamingBuilder, 's) build" where
  "flush_levels ns s b [] = (Inr b, s)"
| "flush_levels ns s b (level # levels) = build_bind (flush ns s b level) (\<lambda>b1 s1. flush_levels ns s1 b1 levels)"

section \<open>Checkpoint builds\<close>

fun apply_mutation :: "RecordRef list \<times> EntryDelta \<Rightarrow> radix_Mutation \<Rightarrow> RecordRef list \<times> EntryDelta" where
  "apply_mutation (refs, delta) m =
     (let slot = nodeSlot (RM_ID m) 0; oldExists = (\<not> RecordRef_IsZero (refs ! slot)); newExists = (\<not> RecordRef_IsZero (RM_Ref m)) in
      (refs[slot := RM_Ref m],
       if \<not> oldExists \<and> newExists then delta\<lparr>ED_Added := ED_Added delta + 1\<rparr>
       else if oldExists \<and> \<not> newExists then delta\<lparr>ED_Removed := ED_Removed delta + 1\<rparr>
       else delta))"

definition leaf_delta :: "streamingBuilder \<Rightarrow> EntryDelta" where
  "leaf_delta b = (case SB_delta b of None \<Rightarrow> zero_entry_delta | Some d \<Rightarrow> d)"

definition build_leaf :: "'s NodeStore \<Rightarrow> 's \<Rightarrow> streamingBuilder \<Rightarrow> u64 \<Rightarrow> radix_Mutation list \<Rightarrow> (streamingBuilder, 's) build" where
  \<comment> \<open>the mutations of one leaf\<close>
  "build_leaf ns s b prefix muts =
     (let t = SB_tree b in
      build_bind (build_lift (nodeAddress (ns_Read ns s) t 0 prefix) s) (\<lambda>oldAddr s1.
      build_bind (build_lift (oldRefs (ns_Read ns s1) t oldAddr prefix) s1) (\<lambda>(before, oldBytes) s2.
        let (refs, delta) = foldl apply_mutation (before, leaf_delta b) muts;
            b1 = b\<lparr>SB_delta := Some delta\<rparr> in
        build_bind (writeChangedLeaf ns s2 t prefix (SB_covered b) before refs oldAddr) (\<lambda>newAddr s3.
          if newAddr = oldAddr then (Inr b1, s3)
          else build_bind (build_lift (nodeBuildBytes 0 refs zero_ref) s3) (\<lambda>added s4.
            build_bind (build_lift (addReachable delta added oldBytes) s4) (\<lambda>delta' s5.
              push ns s5 (b1\<lparr>SB_delta := Some delta'\<rparr>) 0 \<lparr>CC_prefix = prefix, CC_addr = newAddr\<rparr>))))))"

function build_leaves :: "'s NodeStore \<Rightarrow> 's \<Rightarrow> streamingBuilder \<Rightarrow> radix_Mutation list \<Rightarrow> (streamingBuilder, 's) build" where
  "build_leaves ns s b [] = (Inr b, s)"
| "build_leaves ns s b (m # ms) =
     (let prefix = nodePrefix (RM_ID m) 0; same = (\<lambda>x. nodePrefix (RM_ID x) 0 = prefix) in
      build_bind (build_leaf ns s b prefix (m # takeWhile same ms)) (\<lambda>b1 s1.
        build_leaves ns s1 b1 (dropWhile same ms)))"
  by pat_completeness auto
termination
  by (relation "measure (\<lambda>(_, _, _, ms). length ms)") (auto simp: less_Suc_eq_le length_dropWhile_le)

fun mutations_ok :: "record_id option \<Rightarrow> radix_Mutation list \<Rightarrow> bool" where
  \<comment> \<open>the first argument is the id of the previous mutation, \<open>None\<close> at index 0\<close>
  "mutations_ok previous [] = True"
| "mutations_ok previous (m # ms) =
     (if RM_ID m = 0 \<or> (\<not> RecordRef_IsZero (RM_Ref m) \<and> \<not> RecordRef_Valid (RM_Ref m)) \<or>
         (case previous of None \<Rightarrow> False | Some p \<Rightarrow> RM_ID m \<le> p) then False
      else mutations_ok (Some (RM_ID m)) ms)"

definition BuildSortedWithEntryDelta ::
  "'s NodeStore \<Rightarrow> 's \<Rightarrow> Tree \<Rightarrow> CommitSeq \<Rightarrow> radix_Mutation list \<Rightarrow> (Tree \<times> EntryDelta, 's) build" where
  "BuildSortedWithEntryDelta ns s t covered ordered =
     (if \<not> T_writer t \<or> covered < T_covered t \<or> (ordered \<noteq> [] \<and> covered \<le> T_covered t) then (Inl radix_ErrInvalid, s)
      else if \<not> mutations_ok None ordered then (Inl radix_ErrInvalid, s)
      else if ordered = [] then
        build_bind (build_lift (radix_Open (ns_Read ns s) (T_root t) covered (T_capacity t)) s) (\<lambda>tree s1.
          (Inr (tree, zero_entry_delta), s1))
      else let builder = \<lparr>SB_tree = t, SB_covered = covered, SB_root = T_root t, SB_delta = Some zero_entry_delta,
             SB_levels = replicate 8 zero_accumulator\<rparr> in
        build_bind (build_leaves ns s builder ordered) (\<lambda>b1 s1.
        build_bind (flush_levels ns s1 b1 [1..<8]) (\<lambda>b2 s2.
        build_bind (build_lift (radix_Open (ns_Read ns s2) (SB_root b2) covered (T_capacity t)) s2) (\<lambda>tree s3.
          (Inr (tree, leaf_delta b2), s3)))))"

definition BuildSorted :: "'s NodeStore \<Rightarrow> 's \<Rightarrow> Tree \<Rightarrow> CommitSeq \<Rightarrow> radix_Mutation list \<Rightarrow> (Tree, 's) build" where
  "BuildSorted ns s t covered ordered =
     build_bind (BuildSortedWithEntryDelta ns s t covered ordered) (\<lambda>(tree, delta) s1. (Inr tree, s1))"

definition tree_Build :: "'s NodeStore \<Rightarrow> 's \<Rightarrow> Tree \<Rightarrow> CommitSeq \<Rightarrow> radix_Mutation list \<Rightarrow> (Tree, 's) build" where
  "tree_Build ns s t covered mutations = BuildSorted ns s t covered (sort_key RM_ID mutations)"

section \<open>Rebuilding a tree\<close>

record rebuildLeaf =
  RL_active :: bool
  RL_prefix :: u64
  RL_refs :: "RecordRef list"

definition zero_leaf :: rebuildLeaf where
  "zero_leaf = \<lparr>RL_active = False, RL_prefix = 0, RL_refs = replicate NodeSlots zero_ref\<rparr>"

record RebuildBuilder =
  RB_tree :: Tree
  RB_hierarchy :: streamingBuilder
  RB_leaf :: rebuildLeaf
  RB_last :: record_id
  RB_entries :: u64
  RB_finished :: bool

definition NewRebuildBuilder :: "node_reader \<Rightarrow> CommitSeq \<Rightarrow> u64 \<Rightarrow> RebuildBuilder res" where
  "NewRebuildBuilder read covered cacheBytes =
     (if cacheBytes = 0 then Inl radix_ErrInvalid
      else res_bind (tree_open read True 0 covered cacheBytes) (\<lambda>tree.
        Inr \<lparr>RB_tree = tree,
             RB_hierarchy = \<lparr>SB_tree = tree, SB_covered = covered, SB_root = 0, SB_delta = None, SB_levels = replicate 8 zero_accumulator\<rparr>,
             RB_leaf = zero_leaf, RB_last = 0, RB_entries = 0, RB_finished = False\<rparr>))"

definition flushLeaf :: "'s NodeStore \<Rightarrow> 's \<Rightarrow> RebuildBuilder \<Rightarrow> (RebuildBuilder, 's) build" where
  "flushLeaf ns s b =
     (if \<not> RL_active (RB_leaf b) then (Inr b, s)
      else let prefix = RL_prefix (RB_leaf b); refs = RL_refs (RB_leaf b); b1 = b\<lparr>RB_leaf := zero_leaf\<rparr> in
        build_bind (writeChangedLeaf ns s (RB_tree b) prefix (SB_covered (RB_hierarchy b)) (replicate NodeSlots zero_ref) refs 0) (\<lambda>addr s1.
        build_bind (push ns s1 (RB_hierarchy b) 0 \<lparr>CC_prefix = prefix, CC_addr = addr\<rparr>) (\<lambda>h s2.
          (Inr (b1\<lparr>RB_hierarchy := h\<rparr>), s2))))"

definition rebuild_Add :: "'s NodeStore \<Rightarrow> 's \<Rightarrow> RebuildBuilder \<Rightarrow> record_id \<Rightarrow> RecordRef \<Rightarrow> (RebuildBuilder, 's) build" where
  "rebuild_Add ns s b i ref =
     (if RB_finished b \<or> SB_covered (RB_hierarchy b) = 0 \<or> i = 0 \<or> \<not> RecordRef_Valid ref \<or> i \<le> RB_last b
      then (Inl radix_ErrInvalid, s)
      else let prefix = nodePrefix i 0 in
        build_bind (if RL_active (RB_leaf b) \<and> RL_prefix (RB_leaf b) \<noteq> prefix then flushLeaf ns s b else (Inr b, s)) (\<lambda>b1 s1.
          let leaf = (if \<not> RL_active (RB_leaf b1) then zero_leaf\<lparr>RL_active := True, RL_prefix := prefix\<rparr> else RB_leaf b1) in
          (Inr (b1\<lparr>RB_leaf := leaf\<lparr>RL_refs := (RL_refs leaf)[nodeSlot i 0 := ref]\<rparr>, RB_last := i, RB_entries := RB_entries b1 + 1\<rparr>), s1)))"

definition rebuild_Finish :: "'s NodeStore \<Rightarrow> 's \<Rightarrow> RebuildBuilder \<Rightarrow> (Tree, 's) build \<times> RebuildBuilder" where
  "rebuild_Finish ns s b =
     (if RB_finished b then ((Inl radix_ErrInvalid, s), b)
      else (if RB_entries b = 0
        then build_lift (radix_Open (ns_Read ns s) 0 (SB_covered (RB_hierarchy b)) (T_capacity (RB_tree b))) s
        else build_bind (flushLeaf ns s b) (\<lambda>b1 s1.
          build_bind (flush_levels ns s1 (RB_hierarchy b1) [1..<8]) (\<lambda>h s2.
            build_lift (radix_Open (ns_Read ns s2) (SB_root h) (SB_covered h) (T_capacity (RB_tree b))) s2)),
        b\<lparr>RB_finished := True\<rparr>))"

end
