(* ===== verification/Radix_Lookup.thy ===== *)
theory Radix_Lookup
  imports Radix_Tree
begin

text \<open>
  The contents of a radix tree. A tree is well formed when every node it reaches has the level and the
  prefix of its position, and no later commit sequence than the tree; its contents are the references
  found along the digits of an id in base 512. The lemmas show that lookups and walks of a well-formed
  tree never fail and give its contents, and that appending nodes to the store changes neither.
\<close>

declare upt_rec_numeral [simp del]

section \<open>Ids in base 512\<close>

lemma id_bound: "unat (i :: u64) < 512 ^ 7 * 2"
  using unsigned_less [where ?'a = nat, of i] by simp

lemma unat_drop_bit: "unat (drop_bit n (w :: u64)) = unat w div 2 ^ n"
  unfolding unat_drop_bit_eq by (simp add: drop_bit_eq_div)

lemma unat_nodePrefix:
  assumes "L \<le> 7"
  shows "unat (nodePrefix i L) = unat i div 512 ^ (L + 1)"
proof (cases "L = 7")
  case True
  then show ?thesis using id_bound [of i] by (simp add: nodePrefix_def)
next
  case False
  have "(512 :: nat) ^ (L + 1) = 2 ^ (9 * (L + 1))" unfolding power_mult by simp
  then show ?thesis using False by (simp only: nodePrefix_def if_False unat_drop_bit)
qed

lemma and_511: "(w :: u64) AND 0x1ff = take_bit 9 w"
  by (simp add: take_bit_eq_mask mask_eq_exp_minus_1)

lemma unat_and_511: "unat ((w :: u64) AND 0x1ff) = unat w mod 512"
  by (simp add: and_511 take_bit_eq_mod unat_mod)

lemma nodeSlot_eq:
  assumes "L \<le> 7"
  shows "nodeSlot i L = unat i div 512 ^ L mod 512"
proof (cases "L = 7")
  case True
  have "unat i div 512 ^ 7 < 2" using id_bound [of i] by (simp add: div_less_iff_less_mult)
  then show ?thesis using True by (simp add: nodeSlot_def unat_drop_bit)
next
  case False
  have "(512 :: nat) ^ L = 2 ^ (9 * L)" unfolding power_mult by simp
  then show ?thesis using False by (simp only: nodeSlot_def if_False unat_and_511 unat_drop_bit)
qed

lemma nodeSlot_less [simp]: "L \<le> 7 \<Longrightarrow> nodeSlot i L < 512"
  by (simp add: nodeSlot_eq)

lemma nodeSlot_top: "nodeSlot i 7 < 2"
  using id_bound [of i] by (simp add: nodeSlot_eq div_less_iff_less_mult mod_less_eq_dividend order.strict_trans1)

lemma prefix_digit:
  assumes "L < 7"
  shows "unat (nodePrefix i L) = unat (nodePrefix i (Suc L)) * 512 + nodeSlot i (Suc L)"
proof -
  have "unat i div 512 ^ (Suc L + 1) = unat i div 512 ^ (L + 1) div 512"
    unfolding div_mult2_eq [symmetric] by (rule arg_cong [of _ _ "(div) (unat i)"]) simp
  moreover have "unat (nodePrefix i L) = unat i div 512 ^ (L + 1)" "unat (nodePrefix i (Suc L)) = unat i div 512 ^ (Suc L + 1)"
    "nodeSlot i (Suc L) = unat i div 512 ^ (L + 1) mod 512"
    using assms unat_nodePrefix [of L i] unat_nodePrefix [of "Suc L" i] nodeSlot_eq [of "Suc L" i] by simp_all
  ultimately show ?thesis by (simp only: div_mult_mod_eq)
qed

lemma id_digit: "unat i = unat (nodePrefix i 0) * 512 + nodeSlot i 0"
  by (simp add: unat_nodePrefix nodeSlot_eq)

lemma parent_prefix:
  assumes "L < 7"
  shows "drop_bit 9 (nodePrefix i L) = nodePrefix i (Suc L)" "unat (nodePrefix i L AND 0x1ff) = nodeSlot i (Suc L)"
proof -
  have u: "unat (nodePrefix i L) = unat (nodePrefix i (Suc L)) * 512 + nodeSlot i (Suc L)" by (rule prefix_digit [OF assms])
  have s: "nodeSlot i (Suc L) < 512" using assms by simp
  show "drop_bit 9 (nodePrefix i L) = nodePrefix i (Suc L)"
    using u s by (simp add: word_unat_eq_iff unat_drop_bit)
  show "unat (nodePrefix i L AND 0x1ff) = nodeSlot i (Suc L)"
    using u s by (simp only: unat_and_511) simp
qed

lemma prefix_eq_parent: "L < 7 \<Longrightarrow> nodePrefix i L = nodePrefix j L \<Longrightarrow> nodePrefix i (Suc L) = nodePrefix j (Suc L)"
  using parent_prefix(1) by metis

lemma prefix_eq_iff:
  assumes "L < 7"
  shows "nodePrefix i L = nodePrefix j L \<longleftrightarrow> nodePrefix i (Suc L) = nodePrefix j (Suc L) \<and> nodeSlot i (Suc L) = nodeSlot j (Suc L)"
proof
  assume "nodePrefix i L = nodePrefix j L"
  then show "nodePrefix i (Suc L) = nodePrefix j (Suc L) \<and> nodeSlot i (Suc L) = nodeSlot j (Suc L)"
    using parent_prefix [OF assms] by metis
next
  assume "nodePrefix i (Suc L) = nodePrefix j (Suc L) \<and> nodeSlot i (Suc L) = nodeSlot j (Suc L)"
  then show "nodePrefix i L = nodePrefix j L"
    unfolding word_unat_eq_iff [of "nodePrefix i L"] using prefix_digit [OF assms] by metis
qed

section \<open>Well-formed trees\<close>

definition node_at :: "Node \<Rightarrow> CommitSeq \<Rightarrow> nat \<Rightarrow> nat \<Rightarrow> bool" where
  "node_at n cov level p \<longleftrightarrow> unat (N_Level n) = level \<and> unat (N_Prefix n) = p \<and> N_CoveredCommitSeq n \<le> cov"

definition refs_ok :: "nat \<Rightarrow> RecordRef list \<Rightarrow> bool" where
  "refs_ok p refs \<longleftrightarrow> length refs = NodeSlots \<and> (\<forall>j < NodeSlots. refs ! j = zero_ref \<or> RecordRef_Valid (refs ! j)) \<and>
     (p = 0 \<longrightarrow> refs ! 0 = zero_ref)"

fun subtree_ok :: "node_reader \<Rightarrow> CommitSeq \<Rightarrow> nat \<Rightarrow> nat \<Rightarrow> MapAddr \<Rightarrow> bool" where
  "subtree_ok read cov 0 p a \<longleftrightarrow> a = 0 \<or> MapAddr_Valid a \<and>
     (\<exists>n. read a = Inr n \<and> node_at n cov 0 p \<and> holds_refs n (node_Refs n) \<and> refs_ok p (node_Refs n))"
| "subtree_ok read cov (Suc level) p a \<longleftrightarrow> a = 0 \<or> MapAddr_Valid a \<and>
     (\<exists>n. read a = Inr n \<and> node_at n cov (Suc level) p \<and> holds_slots n (node_Slots n) \<and>
       (\<forall>j < NodeSlots. subtree_ok read cov level (p * NodeSlots + j) (node_Slots n ! j)) \<and>
       (Suc level = 7 \<longrightarrow> (\<forall>j. 2 \<le> j \<longrightarrow> j < NodeSlots \<longrightarrow> node_Slots n ! j = 0)))"

text \<open>The reference of an id below a node; the zero reference where the tree has none.\<close>

fun subtree_ref :: "node_reader \<Rightarrow> nat \<Rightarrow> MapAddr \<Rightarrow> record_id \<Rightarrow> RecordRef" where
  "subtree_ref read 0 a i =
     (if a = 0 then zero_ref else case read a of Inl _ \<Rightarrow> zero_ref | Inr n \<Rightarrow> node_Refs n ! nodeSlot i 0)"
| "subtree_ref read (Suc level) a i =
     (if a = 0 then zero_ref
      else case read a of Inl _ \<Rightarrow> zero_ref | Inr n \<Rightarrow> subtree_ref read level (node_Slots n ! nodeSlot i (Suc level)) i)"

definition tree_ok :: "node_reader \<Rightarrow> Tree \<Rightarrow> bool" where
  "tree_ok read t \<longleftrightarrow> T_capacity t \<noteq> 0 \<and> subtree_ok read (T_covered t) 7 0 (T_root t) \<and>
     (\<forall>n. T_root t \<noteq> 0 \<longrightarrow> read (T_root t) = Inr n \<longrightarrow> nodeWeight n \<le> T_capacity t)"

definition tree_ref :: "node_reader \<Rightarrow> Tree \<Rightarrow> record_id \<Rightarrow> RecordRef" where
  "tree_ref read t i = subtree_ref read 7 (T_root t) i"

definition tree_entries :: "node_reader \<Rightarrow> Tree \<Rightarrow> record_id \<rightharpoonup> RecordRef" where
  "tree_entries read t i = (let ref = tree_ref read t i in if ref = zero_ref then None else Some ref)"

lemma subtree_zero [simp]: "subtree_ok read cov L p 0" "subtree_ref read L 0 i = zero_ref"
  by (cases L; simp)+

lemma RecordRef_Valid_zero [simp]: "\<not> RecordRef_Valid zero_ref"
  by (simp add: RecordRef_Valid_def zero_ref_def VAddr_Valid_def)

lemma subtree_ok_mono:
  assumes "subtree_ok read cov L p a" "L \<le> 7" "\<And>a n. read a = Inr n \<Longrightarrow> read' a = Inr n" "cov \<le> cov'"
  shows "subtree_ok read' cov' L p a \<and> subtree_ref read' L a i = subtree_ref read L a i"
  using assms(1,2)
proof (induction L arbitrary: p a)
  case 0
  then show ?case using assms(3,4) by (cases "a = 0") (auto simp: node_at_def intro: order.trans)
next
  case (Suc L)
  show ?case
  proof (cases "a = 0")
    case False
    then obtain n where n: "read a = Inr n" "node_at n cov (Suc L) p" "holds_slots n (node_Slots n)" "MapAddr_Valid a"
        "\<forall>j < NodeSlots. subtree_ok read cov L (p * NodeSlots + j) (node_Slots n ! j)"
        "Suc L = 7 \<longrightarrow> (\<forall>j. 2 \<le> j \<longrightarrow> j < NodeSlots \<longrightarrow> node_Slots n ! j = 0)"
      using Suc.prems(1) by auto
    have "subtree_ok read' cov' L (p * NodeSlots + j) (node_Slots n ! j) \<and>
        subtree_ref read' L (node_Slots n ! j) i = subtree_ref read L (node_Slots n ! j) i" if "j < NodeSlots" for j
      using Suc.IH [of "p * NodeSlots + j" "node_Slots n ! j"] n(5) Suc.prems(2) that by simp
    moreover have "nodeSlot i (Suc L) < NodeSlots" using Suc.prems(2) by (rule nodeSlot_less)
    moreover have "node_at n cov' (Suc L) p" using n(2) assms(4) by (auto simp: node_at_def)
    ultimately show ?thesis using False n assms(3) [OF n(1)] by simp
  qed simp
qed

section \<open>Lookups\<close>

definition root_fits :: "node_reader \<Rightarrow> Tree \<Rightarrow> nat \<Rightarrow> MapAddr \<Rightarrow> bool" where
  "root_fits read t level a \<longleftrightarrow> (level = 7 \<longrightarrow> (\<forall>n. read a = Inr n \<longrightarrow> nodeWeight n \<le> T_capacity t))"

lemma root_fits_below [simp]: "L < 7 \<Longrightarrow> root_fits read t L a"
  by (simp add: root_fits_def)

lemma tree_load_ok:
  assumes "read a = Inr n" "node_at n (T_covered t) L (unat prefix)" "root_fits read t L a"
  shows "tree_load read t a L prefix (L = 7) = Inr n"
proof -
  have "N_Prefix n = prefix" "unat (N_Level n) = L" "\<not> N_CoveredCommitSeq n > T_covered t"
    using assms(2) by (simp_all add: node_at_def word_unat_eq_iff not_less)
  moreover have "direct_load (T_capacity t) (L = 7) (read a) = Inr n"
    using assms(1,3) by (auto simp: direct_load_def root_fits_def not_less)
  ultimately show ?thesis by (simp add: tree_load_def)
qed

lemma child_parses:
  assumes "subtree_ok read cov L p a" "a \<noteq> 0"
  shows "ParseMapAddr a = Inr a"
proof -
  have "MapAddr_Valid a" using assms by (cases L) auto
  then show ?thesis by (simp add: ParseMapAddr_def)
qed

lemma subtree_inner:
  assumes "subtree_ok read cov (Suc L) p a" "a \<noteq> 0"
  obtains n where "read a = Inr n" "node_at n cov (Suc L) p" "length (node_Slots n) = 512"
    "\<And>j. j < 512 \<Longrightarrow> node_Lookup n j = (node_Slots n ! j, node_Slots n ! j \<noteq> 0)"
    "\<And>j. j < 512 \<Longrightarrow> subtree_ok read cov L (p * 512 + j) (node_Slots n ! j)"
    "\<And>j. Suc L = 7 \<Longrightarrow> 2 \<le> j \<Longrightarrow> j < 512 \<Longrightarrow> node_Slots n ! j = 0"
  using assms by (auto simp: holds_slots_def)

lemma subtree_leaf:
  assumes "subtree_ok read cov 0 p a" "a \<noteq> 0"
  obtains n where "read a = Inr n" "node_at n cov 0 p" "refs_ok p (node_Refs n)"
    "\<And>j. j < 512 \<Longrightarrow> node_LookupRef n j = (node_Refs n ! j, node_Refs n ! j \<noteq> zero_ref)"
  using assms by (auto simp: holds_refs_def)

lemma lookup_loop_ok:
  assumes "subtree_ok read (T_covered t) L (unat (nodePrefix i L)) a" "a \<noteq> 0" "L \<le> 7" "root_fits read t L a"
  shows "lookup_loop read t i a L = Inr (subtree_ref read L a i, subtree_ref read L a i \<noteq> zero_ref)"
  using assms
proof (induction L arbitrary: a)
  case 0
  obtain n where n: "read a = Inr n" "node_at n (T_covered t) 0 (unat (nodePrefix i 0))" "refs_ok (unat (nodePrefix i 0)) (node_Refs n)"
      "\<And>j. j < 512 \<Longrightarrow> node_LookupRef n j = (node_Refs n ! j, node_Refs n ! j \<noteq> zero_ref)"
    by (rule subtree_leaf [OF 0(1,2)]) blast
  have "tree_load read t a 0 (nodePrefix i 0) False = Inr n" using tree_load_ok [of read a, OF n(1,2)] by simp
  moreover have "node_Refs n ! nodeSlot i 0 = zero_ref \<or> RecordRef_Valid (node_Refs n ! nodeSlot i 0)"
    using n(3) by (simp add: refs_ok_def)
  ultimately show ?case using 0(2) n(1,4) by auto
next
  case (Suc L)
  obtain n where n: "read a = Inr n" "node_at n (T_covered t) (Suc L) (unat (nodePrefix i (Suc L)))"
      "\<And>j. j < 512 \<Longrightarrow> node_Lookup n j = (node_Slots n ! j, node_Slots n ! j \<noteq> 0)"
      "\<And>j. j < 512 \<Longrightarrow> subtree_ok read (T_covered t) L (unat (nodePrefix i (Suc L)) * 512 + j) (node_Slots n ! j)"
    by (rule subtree_inner [OF Suc.prems(1,2)]) blast
  let ?c = "node_Slots n ! nodeSlot i (Suc L)"
  have L: "L < 7" "nodeSlot i (Suc L) < 512" using Suc.prems(3) nodeSlot_less [of "Suc L" i] by simp_all
  have c: "subtree_ok read (T_covered t) L (unat (nodePrefix i L)) ?c"
    using n(4) [OF L(2)] unfolding prefix_digit [OF L(1)] .
  have ld: "tree_load read t a (Suc L) (nodePrefix i (Suc L)) (Suc L = 7) = Inr n"
    by (rule tree_load_ok [of read a, OF n(1,2) Suc.prems(4)])
  show ?case
  proof (cases "?c = 0")
    case True
    then show ?thesis unfolding lookup_loop.simps ld using n(1,3) L(2) Suc.prems(2) by simp
  next
    case False
    have "lookup_loop read t i ?c L = Inr (subtree_ref read L ?c i, subtree_ref read L ?c i \<noteq> zero_ref)"
      using Suc.IH [OF c False] L(1) by simp
    then show ?thesis unfolding lookup_loop.simps ld
      using n(1,3) L(2) Suc.prems(2) False child_parses [OF c False] by simp
  qed
qed

lemma nodePrefix_top [simp]: "nodePrefix i 7 = 0"
  by (simp add: nodePrefix_def)

lemma LookupRef_ok:
  assumes "tree_ok read t" "i \<noteq> 0"
  shows "tree_LookupRef read t i = Inr (tree_ref read t i, tree_ref read t i \<noteq> zero_ref)"
proof (cases "T_root t = 0")
  case False
  have "lookup_loop read t i (T_root t) 7 = Inr (tree_ref read t i, tree_ref read t i \<noteq> zero_ref)"
    unfolding tree_ref_def
    by (rule lookup_loop_ok) (use assms False in \<open>simp_all add: tree_ok_def root_fits_def\<close>)
  then show ?thesis using False assms(2) by (simp add: tree_LookupRef_def)
qed (use assms in \<open>simp add: tree_LookupRef_def tree_ref_def\<close>)

section \<open>Walks\<close>

definition ids :: "nat \<Rightarrow> nat \<Rightarrow> record_id list" where
  "ids lo hi = map of_nat [lo..<hi]"

lemma ids_append: "lo \<le> m \<Longrightarrow> m \<le> hi \<Longrightarrow> ids lo hi = ids lo m @ ids m hi"
  unfolding ids_def map_append [symmetric] by (metis le_iff_add upt_add_eq_append)

lemma child_prefix:
  assumes "slot < 512" "unat (prefix :: u64) * 512 + slot < 2 ^ 64"
  shows "unat (push_bit 9 prefix OR of_nat slot) = unat prefix * 512 + slot"
proof -
  have s: "(of_nat slot :: u64) = take_bit 9 (of_nat slot)"
    using assms(1) by (simp add: take_bit_of_nat take_bit_nat_eq_self)
  have "push_bit 9 prefix AND (of_nat slot :: u64) = 0"
    by (subst s, rule bit_eqI) (auto simp: bit_simps)
  then have "push_bit 9 prefix OR of_nat slot = push_bit 9 prefix + (of_nat slot :: u64)"
    using word_plus_and_or [of "push_bit 9 prefix" "of_nat slot :: u64"] by simp
  also have "\<dots> = of_nat (unat prefix * 512 + slot)" by (simp add: push_bit_eq_mult)
  finally show ?thesis using assms(2) by (simp only: unat_of_nat len_of_numeral_defs mod_less) simp
qed

lemma res_bind_Inr [simp]: "res_bind r Inr = r"
  by (cases r) simp_all

lemma res_fold_blocks:
  assumes "\<And>v j. j < m \<Longrightarrow> f v j = res_fold g v (filter P (ids (lo + j * c) (lo + Suc j * c)))"
  shows "res_fold f v [0..<m] = res_fold g v (filter P (ids lo (lo + m * c)))"
  using assms
proof (induction m arbitrary: v)
  case 0
  then show ?case by (simp add: ids_def)
next
  case (Suc m)
  have "ids lo (lo + Suc m * c) = ids lo (lo + m * c) @ ids (lo + m * c) (lo + Suc m * c)"
    by (rule ids_append) simp_all
  moreover have "res_fold f v [0..<m] = res_fold g v (filter P (ids lo (lo + m * c)))" for v
    using Suc by simp
  ultimately show ?case using Suc.prems [of m] by (simp add: res_fold_append cong: res_bind_cong)
qed

lemma res_fold_skip: "(\<And>v x. x \<in> set xs \<Longrightarrow> f v x = Inr v) \<Longrightarrow> res_fold f v xs = Inr v"
  by (induction xs) simp_all

lemma block_ids:
  assumes "i \<in> set (ids ((p * 512 + j) * 512 ^ L) ((p * 512 + Suc j) * 512 ^ L))" "(p * 512 + Suc j) * 512 ^ L \<le> 2 ^ 64" "j < 512" "L \<le> 7"
  shows "nodeSlot i L = j"
proof -
  obtain k where k: "i = of_nat k" "(p * 512 + j) * 512 ^ L \<le> k" "k < (p * 512 + Suc j) * 512 ^ L"
    using assms(1) by (auto simp: ids_def)
  have "unat i = k" using k(3) assms(2) unfolding k(1) by (simp add: unat_of_nat)
  moreover have "k div 512 ^ L = p * 512 + j"
    by (rule div_nat_eqI) (use k(2,3) in \<open>simp_all add: algebra_simps\<close>)
  ultimately show ?thesis using assms(3) by (simp add: nodeSlot_eq [OF assms(4)])
qed

lemma filter_ids_cong:
  assumes "\<And>i. i \<in> set (ids lo hi) \<Longrightarrow> f i = g i"
  shows "res_fold (\<lambda>v i. visit v i (f i)) v (filter (\<lambda>i. f i \<noteq> zero_ref) (ids lo hi)) =
    res_fold (\<lambda>v i. visit v i (g i)) v (filter (\<lambda>i. g i \<noteq> zero_ref) (ids lo hi))"
proof -
  have "res_fold (\<lambda>v i. visit v i (f i)) v (filter (\<lambda>i. f i \<noteq> zero_ref) xs) =
      res_fold (\<lambda>v i. visit v i (g i)) v (filter (\<lambda>i. g i \<noteq> zero_ref) xs)" if "\<And>i. i \<in> set xs \<Longrightarrow> f i = g i" for xs
    using that by (induction xs arbitrary: v) (simp_all cong: res_bind_cong)
  then show ?thesis using assms .
qed

text \<open>One slot of a leaf and one slot of an inner node.\<close>

lemma walk_leaf_slot:
  assumes n: "refs_ok (unat prefix) (node_Refs n)"
      "\<And>j. j < 512 \<Longrightarrow> node_LookupRef n j = (node_Refs n ! j, node_Refs n ! j \<noteq> zero_ref)"
    and a: "read a = Inr n" "a \<noteq> 0" and j: "j < 512" "unat prefix * 512 + j < 2 ^ 64"
  shows "walk_slot visit n prefix v j = res_fold (\<lambda>v i. visit v i (subtree_ref read 0 a i)) v
    (filter (\<lambda>i. subtree_ref read 0 a i \<noteq> zero_ref) (ids (unat prefix * 512 + j * 1) (unat prefix * 512 + Suc j * 1)))"
proof -
  let ?i = "push_bit 9 prefix OR of_nat j :: u64"
  have u: "unat ?i = unat prefix * 512 + j" by (rule child_prefix [OF j])
  have "(of_nat (unat prefix * 512 + j) :: u64) = ?i"
    unfolding word_unat_eq_iff u by (simp only: unat_of_nat) (use j(2) in simp)
  then have i: "ids (unat prefix * 512 + j * 1) (unat prefix * 512 + Suc j * 1) = [?i]"
    by (simp only: ids_def) simp
  have "nodeSlot ?i 0 = j" using u j(1) by (simp add: nodeSlot_eq)
  then have r: "subtree_ref read 0 a ?i = node_Refs n ! j" using a by simp
  have v: "node_Refs n ! j = zero_ref \<or> RecordRef_Valid (node_Refs n ! j)" using n(1) j(1) by (simp add: refs_ok_def)
  have "node_Refs n ! j = zero_ref" if "?i = 0"
  proof -
    have "unat prefix = 0" "j = 0" using u that by simp_all
    then show ?thesis using n(1) by (simp add: refs_ok_def)
  qed
  then show ?thesis unfolding i using v n(2) [OF j(1)] r by (auto simp: walk_slot_def Let_def)
qed

definition walks :: "node_reader \<Rightarrow> ('v \<Rightarrow> record_id \<Rightarrow> RecordRef \<Rightarrow> 'v res) \<Rightarrow> nat \<Rightarrow> MapAddr \<Rightarrow> nat \<Rightarrow> nat \<Rightarrow> 'v \<Rightarrow> 'v res" where
  \<comment> \<open>visit the entries of a subtree in a range of ids, in order\<close>
  "walks read visit L a lo hi v =
     res_fold (\<lambda>v i. visit v i (subtree_ref read L a i)) v (filter (\<lambda>i. subtree_ref read L a i \<noteq> zero_ref) (ids lo hi))"

lemma walk_inner_slot:
  assumes n: "read a = Inr n" "a \<noteq> 0" "node_Lookup n j = (node_Slots n ! j, node_Slots n ! j \<noteq> 0)"
      "subtree_ok read (T_covered t) L (unat prefix * 512 + j) (node_Slots n ! j)"
    and j: "j < 512" "(unat prefix * 512 + Suc j) * 512 ^ Suc L \<le> 2 ^ 64" and L: "L < 7"
    and IH: "\<And>a prefix v. subtree_ok read (T_covered t) L (unat prefix) a \<Longrightarrow> a \<noteq> 0 \<Longrightarrow> Suc (unat prefix) * 512 ^ Suc L \<le> 2 ^ 64 \<Longrightarrow>
      walkNode read t None visit a prefix L v = walks read visit L a (unat prefix * 512 ^ Suc L) (Suc (unat prefix) * 512 ^ Suc L) v"
  shows "(let (value, exists) = node_Lookup n j in
          if \<not> exists then Inr v
          else case ParseMapAddr value of Inl e \<Rightarrow> Inl (Join radix_ErrCorrupt e)
            | Inr child \<Rightarrow> walkNode read t None visit child (push_bit 9 prefix OR of_nat j) L v) =
    walks read visit (Suc L) a (unat prefix * 512 ^ Suc (Suc L) + j * 512 ^ Suc L) (unat prefix * 512 ^ Suc (Suc L) + Suc j * 512 ^ Suc L) v"
proof -
  let ?c = "node_Slots n ! j" let ?lo = "(unat prefix * 512 + j) * 512 ^ Suc L" let ?hi = "(unat prefix * 512 + Suc j) * 512 ^ Suc L"
  have lohi: "unat prefix * 512 ^ Suc (Suc L) + j * 512 ^ Suc L = ?lo" "unat prefix * 512 ^ Suc (Suc L) + Suc j * 512 ^ Suc L = ?hi"
    by (simp_all add: algebra_simps)
  have "subtree_ref read (Suc L) a i = subtree_ref read L ?c i" if "i \<in> set (ids ?lo ?hi)" for i
    using block_ids [OF that j(2,1)] L n(1,2) by simp
  then have w: "walks read visit (Suc L) a ?lo ?hi v = walks read visit L ?c ?lo ?hi v"
    unfolding walks_def by (rule filter_ids_cong)
  show ?thesis
  proof (cases "?c = 0")
    case True
    then show ?thesis unfolding lohi w using n(3) by (simp add: walks_def)
  next
    case False
    have "unat prefix * 512 + j < 2 ^ 64"
    proof -
      have "Suc (unat prefix * 512 + j) * 1 \<le> Suc (unat prefix * 512 + j) * 512 ^ Suc L" by (rule mult_le_mono2) simp
      then show ?thesis using j(2) by simp
    qed
    then have p: "unat (push_bit 9 prefix OR of_nat j) = unat prefix * 512 + j" by (rule child_prefix [OF j(1)])
    have "walkNode read t None visit ?c (push_bit 9 prefix OR of_nat j) L v = walks read visit L ?c ?lo ?hi v"
      using IH [of "push_bit 9 prefix OR of_nat j" ?c v] n(4) False j(2) unfolding p by simp
    then show ?thesis unfolding lohi w using n(3) False child_parses [OF n(4) False] by simp
  qed
qed

lemma walkNode_below:
  assumes "subtree_ok read (T_covered t) L (unat prefix) a" "a \<noteq> 0" "L < 7" "Suc (unat prefix) * 512 ^ Suc L \<le> 2 ^ 64"
  shows "walkNode read t None visit a prefix L v = walks read visit L a (unat prefix * 512 ^ Suc L) (Suc (unat prefix) * 512 ^ Suc L) v"
  using assms
proof (induction L arbitrary: a prefix v)
  case 0
  obtain n where n: "read a = Inr n" "node_at n (T_covered t) 0 (unat prefix)" "refs_ok (unat prefix) (node_Refs n)"
      "\<And>j. j < 512 \<Longrightarrow> node_LookupRef n j = (node_Refs n ! j, node_Refs n ! j \<noteq> zero_ref)"
    by (rule subtree_leaf [OF 0(1,2)]) blast
  have ld: "tree_load read t a 0 prefix False = Inr n" using tree_load_ok [of read a, OF n(1,2)] by simp
  have "res_fold (walk_slot visit n prefix) v [0..<512] = walks read visit 0 a (unat prefix * 512) (unat prefix * 512 + 512 * 1) v"
    unfolding walks_def by (rule res_fold_blocks, rule walk_leaf_slot) (use n 0 in simp_all)
  then show ?case by (simp add: ld algebra_simps)
next
  case (Suc L)
  obtain n where n: "read a = Inr n" "node_at n (T_covered t) (Suc L) (unat prefix)"
      "\<And>j. j < 512 \<Longrightarrow> node_Lookup n j = (node_Slots n ! j, node_Slots n ! j \<noteq> 0)"
      "\<And>j. j < 512 \<Longrightarrow> subtree_ok read (T_covered t) L (unat prefix * 512 + j) (node_Slots n ! j)"
    by (rule subtree_inner [OF Suc.prems(1,2)]) blast
  have ld: "tree_load read t a (Suc L) prefix (Suc L = 7) = Inr n"
    by (rule tree_load_ok [of read a, OF n(1,2)]) (use Suc.prems(3) in simp)
  have b: "(unat prefix * 512 + Suc j) * 512 ^ Suc L \<le> 2 ^ 64" if "j < 512" for j
  proof -
    have "(unat prefix * 512 + Suc j) * 512 ^ Suc L \<le> (Suc (unat prefix) * 512) * 512 ^ Suc L" using that by (intro mult_le_mono1) simp
    also have "\<dots> = Suc (unat prefix) * 512 ^ Suc (Suc L)" by (simp only: power_Suc mult.assoc)
    finally show ?thesis using Suc.prems(4) by (rule order.trans)
  qed
  have "walkNode read t None visit a prefix (Suc L) v =
      walks read visit (Suc L) a (unat prefix * 512 ^ Suc (Suc L)) (unat prefix * 512 ^ Suc (Suc L) + 512 * 512 ^ Suc L) v"
    unfolding walkNode.simps option.case ld res_bind_simps walks_def
    by (rule res_fold_blocks, rule walk_inner_slot [unfolded walks_def])
      (use n b Suc.IH Suc.prems in \<open>simp_all add: walks_def\<close>)
  then show ?case by (simp add: algebra_simps)
qed

lemma walkNode_top:
  assumes "subtree_ok read (T_covered t) 7 0 a" "a \<noteq> 0" "root_fits read t 7 a"
  shows "walkNode read t None visit a 0 7 v = walks read visit 7 a 0 (2 ^ 64) v"
proof -
  have s7: "(7 :: nat) = Suc 6" by simp
  obtain n where n: "read a = Inr n" "node_at n (T_covered t) (Suc 6) (unat (0 :: u64))"
      "\<And>j. j < 512 \<Longrightarrow> node_Lookup n j = (node_Slots n ! j, node_Slots n ! j \<noteq> 0)"
      "\<And>j. j < 512 \<Longrightarrow> subtree_ok read (T_covered t) 6 (unat (0 :: u64) * 512 + j) (node_Slots n ! j)"
      "\<And>j. 2 \<le> j \<Longrightarrow> j < 512 \<Longrightarrow> node_Slots n ! j = 0"
    by (rule subtree_inner [OF assms(1) [unfolded s7] assms(2)]) simp
  let ?f = "\<lambda>v slot. let (value, exists) = node_Lookup n slot in
          if \<not> exists then Inr v
          else case ParseMapAddr value of Inl e \<Rightarrow> Inl (Join radix_ErrCorrupt e)
            | Inr child \<Rightarrow> walkNode read t None visit child (push_bit 9 0 OR of_nat slot) 6 v"
  have ld: "tree_load read t a (Suc 6) 0 (Suc 6 = 7) = Inr n"
    by (rule tree_load_ok [of read a, OF n(1,2)]) (use assms(3) in simp)
  have "[0..<512] = [0..<2] @ [2..<512]" using upt_add_eq_append [of 0 2 510] by simp
  moreover have "res_fold ?f v [2..<512] = Inr v" for v by (rule res_fold_skip) (use n(3,5) in auto)
  ultimately have "res_fold ?f v [0..<512] = res_fold ?f v [0..<2]" by (simp only: res_fold_append res_bind_Inr)
  also have "\<dots> = walks read visit (Suc 6) a (unat (0 :: u64) * 512 ^ Suc (Suc 6)) (unat (0 :: u64) * 512 ^ Suc (Suc 6) + 2 * 512 ^ Suc 6) v"
    unfolding walks_def
  proof (rule res_fold_blocks, rule walk_inner_slot [unfolded walks_def, OF n(1) assms(2) n(3,4)])
    fix j :: nat assume j: "j < 2"
    then show "j < 512" by simp
    show "(unat (0 :: u64) * 512 + Suc j) * 512 ^ Suc 6 \<le> 2 ^ 64" using j by simp
  qed (use walkNode_below [unfolded walks_def, where L = 6] in simp_all)
  finally have "walkNode read t None visit a 0 (Suc 6) v =
      walks read visit (Suc 6) a (unat (0 :: u64) * 512 ^ Suc (Suc 6)) (unat (0 :: u64) * 512 ^ Suc (Suc 6) + 2 * 512 ^ Suc 6) v"
    unfolding walkNode.simps option.case ld res_bind_simps .
  then show ?thesis by (simp del: walkNode.simps)
qed

lemma WalkRefs_ok:
  assumes "tree_ok read t"
  shows "tree_WalkRefs read t None visit v = walks read visit 7 (T_root t) 0 (2 ^ 64) v"
proof (cases "T_root t = 0")
  case False
  have "root_fits read t 7 (T_root t)" using assms False by (simp add: tree_ok_def root_fits_def)
  then show ?thesis using assms False by (simp add: tree_WalkRefs_def tree_ok_def walkNode_top)
qed (simp add: tree_WalkRefs_def walks_def)

lemma subtree_ref_zero_id:
  assumes "subtree_ok read cov L 0 a" "L \<le> 7"
  shows "subtree_ref read L a 0 = zero_ref"
  using assms
proof (induction L arbitrary: a)
  case 0
  then show ?case by (cases "a = 0") (auto simp: refs_ok_def nodeSlot_def)
next
  case (Suc L)
  have "nodeSlot 0 (Suc L) = 0" by (simp add: nodeSlot_def)
  then show ?case using Suc by (cases "a = 0") (auto dest: spec [of _ 0])
qed

text \<open>C34: A walk over a well-formed tree is the same as looking up every id from 1 to the last in ascending order and
  visiting the references found: no entry is missed, visited twice or out of order, and the walk itself adds no error.\<close>

theorem walk_is_lookups:
  assumes "tree_ok read t"
  shows "tree_WalkRefs read t None visit v =
    res_fold (\<lambda>v i. case tree_LookupRef read t i of Inl e \<Rightarrow> Inl e
      | Inr (ref, exists) \<Rightarrow> if exists then visit v i ref else Inr v) v (map of_nat [1..<2 ^ 64])"
proof -
  have step: "res_fold (\<lambda>v i. visit v i (tree_ref read t i)) v (filter (\<lambda>i. tree_ref read t i \<noteq> zero_ref) xs) =
      res_fold (\<lambda>v i. case tree_LookupRef read t i of Inl e \<Rightarrow> Inl e
        | Inr (ref, exists) \<Rightarrow> if exists then visit v i ref else Inr v) v xs" if "0 \<notin> set xs" for v xs
    using that by (induction xs arbitrary: v) (simp_all add: LookupRef_ok [OF assms] cong: res_bind_cong)
  have "(0 :: u64) \<notin> set (ids 1 (2 ^ 64))"
  proof
    assume "(0 :: u64) \<in> set (ids 1 (2 ^ 64))"
    then obtain k where k: "(of_nat k :: u64) = 0" "1 \<le> k" "k < 2 ^ 64" by (auto simp: ids_def)
    have "unat (of_nat k :: u64) = k" using k(3) by (simp add: unat_of_nat)
    then show False using k(1,2) by simp
  qed
  moreover have "ids 0 (2 ^ 64) = 0 # ids 1 (2 ^ 64)" unfolding ids_def by (subst upt_rec) simp
  moreover have "tree_ref read t 0 = zero_ref" unfolding tree_ref_def by (rule subtree_ref_zero_id [where cov = "T_covered t"]) (use assms in \<open>simp_all add: tree_ok_def\<close>)
  ultimately show ?thesis
    unfolding WalkRefs_ok [OF assms] walks_def ids_def [symmetric] tree_ref_def [symmetric] using step by simp
qed

text \<open>A tree with one entry, a dense node per level.\<close>

definition example_addr :: "nat \<Rightarrow> MapAddr" where
  "example_addr level = 0x100000040 + of_nat level * 8"

definition leaf_ref :: RecordRef where
  "leaf_ref = \<lparr>Ref_Addr = 0x100000040, Ref_PhysicalSize = 64\<rparr>"

definition example_node :: "nat \<Rightarrow> Node" where
  "example_node level = \<lparr>N_Level = of_nat level, N_Encoding = EncodingDense, N_NodeSeq = 1, N_Prefix = 0, N_CoveredCommitSeq = 3,
     N_EntryCount = 1, N_Bitmap = [],
     N_Values = (if level = 0 then (replicate NodeSlots 0)[5 := Ref_Addr leaf_ref] else (replicate NodeSlots 0)[0 := example_addr (level - 1)]),
     N_Sizes = (replicate NodeSlots 0)[5 := Ref_PhysicalSize leaf_ref]\<rparr>"

definition example_read :: node_reader where
  "example_read a = (if 0x100000040 \<le> a \<and> a \<le> 0x100000078 then Inr (example_node (unat (a - 0x100000040) div 8)) else Inl mapstore_ErrInvalid)"

definition example_tree :: Tree where
  "example_tree = \<lparr>T_writer = False, T_root = example_addr 7, T_covered = 9, T_capacity = 1048576\<rparr>"

lemma level_cases: "L \<le> 7 \<Longrightarrow> P 0 \<Longrightarrow> P 1 \<Longrightarrow> P 2 \<Longrightarrow> P 3 \<Longrightarrow> P 4 \<Longrightarrow> P 5 \<Longrightarrow> P 6 \<Longrightarrow> P 7 \<Longrightarrow> P (L :: nat)"
proof -
  assume p: "P 0" "P 1" "P 2" "P 3" "P 4" "P 5" "P 6" "P 7" and "L \<le> 7"
  then have "L = 0 \<or> L = 1 \<or> L = 2 \<or> L = 3 \<or> L = 4 \<or> L = 5 \<or> L = 6 \<or> L = 7" by presburger
  then show ?thesis using p by blast
qed

lemma example_addr_facts:
  assumes "L \<le> 7"
  shows "example_read (example_addr L) = Inr (example_node L)" "MapAddr_Valid (example_addr L)" "example_addr L \<noteq> 0"
  by (rule level_cases [OF assms]; simp add: example_addr_def example_read_def MapAddr_Valid_def MapAddr_SegmentID_def MapAddr_Offset_def)+

lemma leaf_ref_valid: "RecordRef_Valid leaf_ref"
  by code_simp

lemma example_subtree:
  assumes "L \<le> 7"
  shows "subtree_ok example_read 9 L 0 (example_addr L)"
  using assms
proof (induction L)
  case 0
  have r: "node_Refs (example_node 0) = (replicate NodeSlots zero_ref)[5 := leaf_ref]"
    by (rule nth_equalityI) (auto simp: node_Refs_def packed_refs_def example_node_def leaf_ref_def zero_ref_def nth_list_update)
  have "holds_refs (example_node 0) (node_Refs (example_node 0))"
    unfolding r holds_refs_def by (auto simp: r node_LookupRef_def example_node_def leaf_ref_def zero_ref_def nth_list_update)
  moreover have "refs_ok 0 (node_Refs (example_node 0))"
    unfolding r refs_ok_def by (simp add: nth_list_update leaf_ref_valid)
  ultimately show ?case
    using example_addr_facts [of 0] by (simp add: node_at_def) (simp add: example_node_def)
next
  case (Suc L)
  have s: "node_Slots (example_node (Suc L)) = (replicate NodeSlots 0)[0 := example_addr L]"
    by (simp add: node_Slots_def example_node_def)
  have "holds_slots (example_node (Suc L)) (node_Slots (example_node (Suc L)))"
    unfolding s holds_slots_def by (simp add: s node_Lookup_def) (simp add: example_node_def)
  moreover have "unat (of_nat (Suc L) :: u8) = Suc L" using Suc.prems by (simp only: unat_of_nat) simp
  then have "node_at (example_node (Suc L)) 9 (Suc L) 0" by (simp add: node_at_def example_node_def del: of_nat_Suc)
  moreover have "\<forall>j < 512. subtree_ok example_read 9 L (0 * 512 + j) (node_Slots (example_node (Suc L)) ! j)"
    unfolding s using Suc by (simp add: nth_list_update)
  moreover have "\<forall>j. 2 \<le> j \<longrightarrow> j < 512 \<longrightarrow> node_Slots (example_node (Suc L)) ! j = 0" unfolding s by simp
  ultimately show ?case unfolding subtree_ok.simps using example_addr_facts [OF Suc.prems] by blast
qed

theorem walk_is_lookups_witness:
  "tree_ok example_read example_tree \<and> tree_LookupRef example_read example_tree 5 = Inr (leaf_ref, True) \<and>
    tree_WalkRefs example_read example_tree None (\<lambda>v i ref. Inr (v @ [(i, ref)])) [] =
    res_fold (\<lambda>v i. case tree_LookupRef example_read example_tree i of Inl e \<Rightarrow> Inl e
      | Inr (ref, exists) \<Rightarrow> if exists then Inr (v @ [(i, ref)]) else Inr v) [] (map of_nat [1..<2 ^ 64])"
proof -
  have ok: "tree_ok example_read example_tree"
    using example_subtree [of 7] example_addr_facts [of 7] by (simp add: tree_ok_def example_tree_def) (simp add: nodeWeight_def example_node_def)
  have "subtree_ref example_read L (example_addr L) 5 = leaf_ref" if "L \<le> 7" for L
    using that
  proof (induction L)
    case 0
    then show ?case using example_addr_facts [of 0]
      by (simp add: nodeSlot_def) (simp add: node_Refs_def packed_refs_def example_node_def leaf_ref_def)
  next
    case (Suc L)
    have "(1 :: nat) \<le> 512 ^ L" by simp
    then have "(5 :: nat) < 512 * 512 ^ L" by linarith
    then have "nodeSlot 5 (Suc L) = 0" using Suc.prems by (simp add: nodeSlot_eq)
    moreover have "node_Slots (example_node (Suc L)) ! 0 = example_addr L" by (simp add: node_Slots_def example_node_def)
    ultimately show ?case using Suc example_addr_facts [OF Suc.prems] by simp
  qed
  then have "tree_ref example_read example_tree 5 = leaf_ref" by (simp add: tree_ref_def example_tree_def)
  then have "tree_LookupRef example_read example_tree 5 = Inr (leaf_ref, True)"
    using LookupRef_ok [OF ok, of 5] by (simp add: leaf_ref_def zero_ref_def)
  then show ?thesis using ok by (intro conjI walk_is_lookups)
qed

declare upt_rec_numeral [simp]

end
