(* ===== verification/Spec2Isabelle.thy ===== *)
theory Spec2Isabelle
  imports
    Ridstore_Prelude
    Addresses
    Record_Format
    Record_Codec
    Segment_File
    Segment_Recovery
    Delta_Budget
    Log_Interface
    Id_Allocator
    Mapping_Index
    Index_Interface
    Mapping_Publish
    Log_Catalog
    Segment_Registry
    Log_Writer
    Log_View
    Log_Turn
    Record_Log
    Log_Properties
    Batch_Txn
    Batch_Properties
    Commit_Coordinator
    Wal_Replay
    Commit_History
    Commit_Safety
    Commit_Run
    Commit_Properties
    Map_Node
    Node_Cache
    Radix_Tree
    Radix_Lookup
begin

text \<open>
  Verification of ridstore, an embedded transactional store of variable-size records addressed by
  stable ids.

  \<^bold>\<open>The program.\<close> All data is appended to a segmented record log (\<^verbatim>\<open>internal/recordlog\<close>): put records
  with their values, commit groups, aborts, reservations of ids and checkpoint markers
  (\<^verbatim>\<open>internal/recordcodec\<close>). A batch (\<^verbatim>\<open>internal/transaction\<close>) appends its values while it is open and is
  then prepared; the commit coordinator (\<^verbatim>\<open>internal/coordinator\<close>) takes prepared batches and relocations
  from a channel, resolves a group of them against the mapping from ids to log addresses
  (\<^verbatim>\<open>internal/mapping\<close>), appends one durable commit record for the accepted ones, publishes the group to
  the mapping and answers every request. Ids come from allocators that reserve ranges in the log
  (\<^verbatim>\<open>internal/idalloc\<close>). After a restart \<^verbatim>\<open>internal/replay\<close> reads the log behind the last checkpoint and
  rebuilds mapping, batch states and reserved ranges. Checkpoints of the mapping are radix trees whose
  nodes are kept by a second segmented store (\<^verbatim>\<open>internal/mapstore\<close>, \<^verbatim>\<open>internal/radix\<close>).

  \<^bold>\<open>Conventions.\<close> \<open>Ridstore_Prelude\<close>: a \<^verbatim>\<open>uintN\<close> is a word of that width and wraps, a length is a natural
  number, a fallible function returns \<open>err + 'a\<close>, a structure is a record, a Go map is a partial function
  or, where its order shows, an association list. Pointers that two owners share are keys into an
  explicit store. System calls take their outcome from an environment, so that every theorem about
  files holds for every schedule of faults. A critical section is one step; a wait is the test that
  is made after each wake-up. Code that is not part of the model is a parameter: the store catalog
  is the record of operations \<open>CatalogPort\<close>.

  \<^bold>\<open>The record log.\<close>
  \<^item> \<open>Addresses\<close> (\<^verbatim>\<open>types.go\<close>, \<^verbatim>\<open>model/mapaddr.go\<close>): addresses with size tags, positions, references. The
    parts of an address are recovered, and the order of addresses is the order of positions.
  \<^item> \<open>Record_Format\<close> (\<^verbatim>\<open>format.go\<close>) and \<open>Record_Codec\<close> (\<^verbatim>\<open>recordcodec/codec.go\<close>): every decoder is the exact
    inverse of its encoder.
  \<^item> \<open>Segment_File\<close>, \<open>Segment_Recovery\<close> (\<^verbatim>\<open>segment.go\<close>, \<^verbatim>\<open>fileio.go\<close>): creation, append, sync, seal, scan
    and reads of one segment. The recovery scan of a segment cut at any byte returns exactly the
    complete records of what survived.
  \<^item> \<open>Log_Catalog\<close> (\<^verbatim>\<open>catalog.go\<close>, \<^verbatim>\<open>rotation_journal.go\<close>), \<open>Segment_Registry\<close> (\<^verbatim>\<open>registry.go\<close>): snapshots,
    the rotation journal, the pins that keep a segment readable.
  \<^item> \<open>Log_Writer\<close> (\<^verbatim>\<open>budget.go\<close>, \<^verbatim>\<open>open.go\<close>, \<^verbatim>\<open>writer.go\<close>, \<^verbatim>\<open>log.go\<close>): byte budget, rotation, the writer
    goroutine and the operations of a log. \<open>Log_View\<close>, \<open>Log_Turn\<close> follow the contents of a log through
    a turn of the writer with any faults, \<open>Record_Log\<close> shows that the log keeps the contract
    \<open>append_log\<close> of \<open>Log_Interface\<close>, and \<open>Log_Properties\<close> holds the properties: refinement of that contract,
    every request answered, the budget settled, progress without faults, ids unique over crashes.

  \<^bold>\<open>The commit path.\<close>
  \<^item> \<open>Id_Allocator\<close> (\<^verbatim>\<open>idalloc/allocator.go\<close>), \<open>Delta_Budget\<close> (\<^verbatim>\<open>mapping/budget.go\<close>): allocation of ids over any
    log that keeps \<open>append_log\<close>; admission of changes within the hard limit.
  \<^item> \<open>Mapping_Index\<close>, \<open>Mapping_Publish\<close> (\<^verbatim>\<open>mapping/mapping.go\<close>): resolution and publication of a group are
    the proposals run one after the other; errors are invisible; the statistics per segment count
    the records the entries point to. \<open>Index_Interface\<close> has the contracts \<open>mapping_index\<close> and
    \<open>unlimited_index\<close>, interpreted on this implementation.
  \<^item> \<open>Batch_Txn\<close>, \<open>Batch_Properties\<close> (\<^verbatim>\<open>transaction/batch.go\<close>): a batch follows its state diagram, and what it
    prepares is a valid proposal within its limits.
  \<^item> \<open>Commit_Coordinator\<close> (\<^verbatim>\<open>coordinator/coordinator.go\<close>), \<open>Wal_Replay\<close> (\<^verbatim>\<open>replay/replay.go\<close>).
  \<^item> \<open>Commit_History\<close> defines the history that a log records and shows that a successful replay computes
    it. \<open>Commit_Safety\<close>, \<open>Commit_Run\<close> prove the invariant of the coordinator over all interleavings of its
    operations (the step relation \<open>coord_step\<close>) for any log and index that keep their contracts;
    \<open>Commit_Properties\<close> instantiates them with the record log and the mapping in memory: the mapping is
    the history of the log, an acknowledged commit is durable, a refused one left no trace, every
    request gets one answer, the goroutine drains its queue.

  \<^bold>\<open>The persistent mapping.\<close>
  \<^item> \<open>Map_Node\<close> (\<^verbatim>\<open>mapstore/node.go\<close>): sparse and dense nodes; every access path of a decoded node gives what
    it was built from.
  \<^item> \<open>Node_Cache\<close> (\<^verbatim>\<open>radix/cache.go\<close>): the two-list cache is transparent and stays within its capacity.
  \<^item> \<open>Radix_Tree\<close> (\<^verbatim>\<open>radix/tree.go\<close>, \<^verbatim>\<open>builder.go\<close>, \<^verbatim>\<open>rebuild.go\<close>): lookups, walks and the two builders of
    immutable trees; the node store is the record of operations they call. \<open>Radix_Lookup\<close> says what a
    well-formed tree is: its lookups never fail, and a walk is the lookups of all ids in order.

  \<^bold>\<open>Termination.\<close> No definition uses fuel. The loops are recursions with a termination proof: the scan by
  the bytes left, the writer and the coordinator by the queue, the cache by the lengths of its lists.

  \<^bold>\<open>Not modelled.\<close> Names, directories and locks of the file system, and with them the opening of a store and
  the resumption of an interrupted rotation: a rotation is modelled with its journal, but not the
  files a restart finds. The checksum is defined and never assumed to be injective; crashes cut a
  file, they do not scramble it. The segments of the node store and the checkpointed implementation of
  the mapping; the builders of radix trees are defined, their correctness is not shown; the store catalog, which is a parameter.
  Background maintenance (relocation, compaction, retirement, scheduling), backup, migration, the
  verifier and the tools only orchestrate files and goroutines. Metrics and durations are left out.
  The replay theorem speaks of replays that succeed; that every crash prefix of a log replays without
  an error is not shown, and does not hold as the code stands, because a committed deletion of an id that was
  never reserved makes replay fail.
\<close>

end
